(* ===== verification/CPM_Prelude.thy ===== *)
theory CPM_Prelude
  imports Main "HOL-Library.Word" "HOL-Library.AList" "HOL-Library.Code_Target_Nat"
begin

unbundle bit_operations_syntax

text \<open>
  Shared vocabulary of the CPM22 development: the machine integers of the C++ sources, the
  outcome type that carries every exception and every undefined operation of the code as a
  value, byte and character conversions, and the generic lemmas on byte buffers.

  C++ \<^verbatim>\<open>unsigned\<close> arithmetic on \<open>nat\<close> is written with \<open>wrap32\<close>; struct fields
  keep their width as \<open>8 word\<close> and \<open>16 word\<close>.
\<close>

named_theorems outcome_simps \<open>running the outcome combinators\<close>
named_theorems buffer_simps \<open>lengths and slices of byte buffers\<close>

type_synonym u8 = "8 word"
type_synonym u16 = "16 word"
type_synonym u32 = "32 word"
type_synonym u64 = "64 word"
type_synonym bytes = "8 word list"

section \<open>Outcomes\<close>

text \<open>
  An operation ends normally with a value, or stops with an error. The state reached is kept in
  both cases, because the effects done before a C++ exception (or before an undefined operation)
  stay visible. A bare \<open>throw;\<close> with no exception in flight calls \<open>std::terminate\<close>.
\<close>

datatype undefined =
    OutOfBounds      \<comment> \<open>access outside an array or buffer\<close>
  | UseAfterFree     \<comment> \<open>access to or second release of freed memory\<close>
  | InvalidIterator  \<comment> \<open>use of an iterator whose element was erased\<close>
  | DivideByZero
  | ShiftRange       \<comment> \<open>shift count not below the width\<close>
  | NullPointer
  | Uninitialised    \<comment> \<open>use of an indeterminate value\<close>

datatype cpm_error =
    Terminate              \<comment> \<open>\<open>throw;\<close> outside a handler\<close>
  | OutOfRange             \<comment> \<open>\<open>std::out_of_range\<close> from \<open>at\<close>\<close>
  | SystemError nat        \<comment> \<open>\<open>std::system_error\<close> with its errno\<close>
  | FilesystemError        \<comment> \<open>\<open>std::filesystem::filesystem_error\<close>\<close>
  | Exited                 \<comment> \<open>\<open>pthread_exit\<close>: the thread ends\<close>
  | Spinning               \<comment> \<open>a retry loop not left with the call results given\<close>
  | Undefined undefined

datatype ('a, 's) outcome = Ok 'a 's | Fail cpm_error 's

fun state_of :: "('a, 's) outcome \<Rightarrow> 's" where
  "state_of (Ok x s) = s"
| "state_of (Fail e s) = s"

fun is_ok :: "('a, 's) outcome \<Rightarrow> bool" where
  "is_ok (Ok x s) = True"
| "is_ok (Fail e s) = False"

fun bindo :: "('a, 's) outcome \<Rightarrow> ('a \<Rightarrow> 's \<Rightarrow> ('b, 's) outcome) \<Rightarrow> ('b, 's) outcome" where
  "bindo (Ok x s) f = f x s"
| "bindo (Fail e s) f = Fail e s"

lemma bindo_eq_Ok [outcome_simps]:
  "bindo m f = Ok y t \<longleftrightarrow> (\<exists>x s. m = Ok x s \<and> f x s = Ok y t)"
  by (cases m) auto

lemma bindo_assoc: "bindo (bindo m f) g = bindo m (\<lambda>x s. bindo (f x s) g)"
  by (cases m) auto

lemma is_ok_iff: "is_ok m \<longleftrightarrow> (\<exists>x s. m = Ok x s)"
  by (cases m) auto

section \<open>Unsigned arithmetic\<close>

definition wrap32 :: "nat \<Rightarrow> nat" where
  "wrap32 n = n mod 2 ^ 32"

definition sub32 :: "nat \<Rightarrow> nat \<Rightarrow> nat" where
  "sub32 a b = wrap32 (a + 2 ^ 32 - b mod 2 ^ 32)"

lemma wrap32_small [simp]: "n < 2 ^ 32 \<Longrightarrow> wrap32 n = n"
  by (simp add: wrap32_def)

lemma wrap32_lt: "wrap32 n < 2 ^ 32"
  by (simp add: wrap32_def)

lemma sub32_small [simp]:
  assumes "b \<le> a" and "a < 2 ^ 32"
  shows "sub32 a b = a - b"
proof -
  have "b mod 2 ^ 32 = b" using assms by simp
  moreover have "a + 2 ^ 32 - b = (a - b) + 2 ^ 32" using assms by simp
  moreover have "((a - b) + 2 ^ 32) mod 2 ^ 32 = a - b" using assms by (simp only: mod_add_self2) simp
  ultimately show ?thesis by (simp only: sub32_def wrap32_def)
qed

lemma unat_u8_lt [simp]: "unat (x :: u8) < 256"
proof -
  have "unat x < 2 ^ LENGTH(8)" by (rule unsigned_less)
  then show ?thesis by simp
qed

lemma unat_u8_le [simp]: "unat (x :: u8) \<le> 255"
  using unat_u8_lt [of x] by linarith

lemma unat_u16_lt [simp]: "unat (x :: u16) < 65536"
proof -
  have "unat x < 2 ^ LENGTH(16)" by (rule unsigned_less)
  then show ?thesis by simp
qed

lemma unat_of_nat_u8: "unat (of_nat n :: u8) = n mod 256"
  by (simp add: unat_of_nat)

lemma unat_of_nat_u16: "unat (of_nat n :: u16) = n mod 65536"
  by (simp add: unat_of_nat)

lemma push8_or: "b < 256 \<Longrightarrow> push_bit 8 a OR b = a * 256 + (b::nat)"
proof -
  assume b: "b < 256"
  then have "take_bit 8 b = b" by (simp add: take_bit_nat_eq_self_iff)
  then have nb: "\<not> bit b n" if "8 \<le> n" for n using that by (metis bit_take_bit_iff not_less)
  have "push_bit 8 a OR b = push_bit 8 a + b"
    by (rule disjunctive_add [symmetric]) (use nb in \<open>auto simp: bit_simps\<close>)
  then show ?thesis by (simp add: push_bit_eq_mult)
qed

lemma and_mask_nat: "a AND mask n = a mod (2 ^ n :: nat)"
  by (simp only: take_bit_eq_mask [symmetric] take_bit_eq_mod)

lemma and_0x1FF: "a AND 0x1FF = a mod (512::nat)"
  using and_mask_nat [of a 9] by (simp add: mask_eq_exp_minus_1)

lemma and_0xFF_nat: "a AND 0xFF = a mod (256::nat)"
  using and_mask_nat [of a 8] by (simp add: mask_eq_exp_minus_1)

lemma and_0xF: "a AND 0xF = a mod (16::nat)"
  using and_mask_nat [of a 4] by (simp add: mask_eq_exp_minus_1)

lemma and_0x1F: "a AND 0x1F = a mod (32::nat)"
  using and_mask_nat [of a 5] by (simp add: mask_eq_exp_minus_1)

section \<open>Signed 16-bit values\<close>

lemma sint_u16: "sint (w :: u16) = (if unat w < 32768 then int (unat w) else int (unat w) - 65536)"
proof -
  have lt: "uint w < 65536" "0 \<le> uint w" using uint_lt2p [of w] by simp_all
  have "bit (uint w) 15 \<longleftrightarrow> odd (uint w div 32768)" by (simp add: bit_iff_odd)
  moreover have "uint w div 32768 = (if uint w < 32768 then 0 else 1)" using lt by auto
  ultimately have b: "bit (uint w) 15 \<longleftrightarrow> \<not> uint w < 32768" by simp
  have "sint w = take_bit 16 (uint w) - 65536 * of_bool (bit (uint w) 15)"
    by (simp add: sint_uint signed_take_bit_eq_take_bit_minus)
  also have "take_bit 16 (uint w) = uint w" using lt by (simp add: take_bit_int_eq_self)
  finally have "sint w = (if uint w < 32768 then uint w else uint w - 65536)" using b by simp
  moreover have "uint w = int (unat w)" by simp
  ultimately show ?thesis by (metis of_nat_less_iff of_nat_numeral)
qed

lemma sint_u16_cases:
  obtains (pos) "unat (w :: u16) < 32768" "sint w = int (unat w)"
  | (neg) "32768 \<le> unat w" "unat w < 65536" "sint w = int (unat w) - 65536"
proof (cases "unat w < 32768")
  case True
  then show ?thesis using sint_u16 [of w] by (intro pos) (simp_all only: if_True)
next
  case False
  then have "sint w = int (unat w) - 65536" using sint_u16 [of w] by (simp only: if_False)
  then show ?thesis using False unat_u16_lt [of w] by (intro neg) linarith+
qed

lemma sint_small: "unat (w :: u16) < 32768 \<Longrightarrow> sint w = int (unat w)"
  by (simp only: sint_u16 if_True)

lemma sint_bounds: "- 32768 \<le> sint (w :: u16)" "sint (w :: u16) \<le> 32767"
proof -
  have "- 32768 \<le> sint w \<and> sint w \<le> 32767" by (cases w rule: sint_u16_cases) linarith+
  then show "- 32768 \<le> sint w" "sint w \<le> 32767" by simp_all
qed

lemma nat_sint_u16: "\<not> sint (v :: u16) < 0 \<Longrightarrow> nat (sint v) = unat v"
  by (cases v rule: sint_u16_cases) linarith+

lemma unat_minus_u16:
  assumes "sint (v :: u16) < 0"
  shows "unat (- v) = nat (- sint v)"
proof (cases v rule: sint_u16_cases)
  case neg
  have "(of_nat (65536 - unat v) :: u16) = - v" by (simp add: of_nat_diff less_imp_le)
  then have "unat (- v) = (65536 - unat v) mod 65536" by (metis unat_of_nat_u16)
  then have "unat (- v) = 65536 - unat v" using neg by simp
  then show ?thesis using neg by linarith
qed (use assms in linarith)

section \<open>Bytes and characters\<close>

definition byte_char :: "u8 \<Rightarrow> char" where
  "byte_char b = char_of (unat b)"

definition char_byte :: "char \<Rightarrow> u8" where
  "char_byte c = of_nat (of_char c)"

lemma char_byte_byte_char [simp]: "char_byte (byte_char b) = b"
  by (simp add: byte_char_def char_byte_def)

lemma byte_char_char_byte [simp]: "byte_char (char_byte c) = c"
  by (simp add: byte_char_def char_byte_def unat_of_nat_u8)

lemma byte_char_inject [simp]: "byte_char a = byte_char b \<longleftrightarrow> a = b"
  by (metis char_byte_byte_char)

lemma inj_byte_char: "inj byte_char"
  by (rule injI) simp

lemma map_char_byte_byte_char [simp]: "map char_byte (map byte_char bs) = bs"
  by (induction bs) simp_all

lemma map_byte_char_eq [simp]: "map byte_char as = map byte_char bs \<longleftrightarrow> as = bs"
  by (rule inj_map_eq_map [OF inj_byte_char])

section \<open>Little-endian words\<close>

definition le16 :: "u8 \<Rightarrow> u8 \<Rightarrow> u16" where
  "le16 lo hi = ucast lo OR push_bit 8 (ucast hi)"

definition lo8 :: "u16 \<Rightarrow> u8" where "lo8 w = ucast w"
definition hi8 :: "u16 \<Rightarrow> u8" where "hi8 w = ucast (drop_bit 8 w)"

lemma le16_lo8_hi8 [simp]: "le16 (lo8 w) (hi8 w) = w"
  by (rule bit_eqI) (auto simp: le16_def lo8_def hi8_def bit_simps)

lemma le16_0 [simp]: "le16 0 0 = 0"
  by (simp add: le16_def)

lemma lo8_le16 [simp]: "lo8 (le16 a b) = a"
  by (rule bit_eqI) (auto simp: le16_def lo8_def bit_simps)

lemma hi8_le16 [simp]: "hi8 (le16 a b) = b"
  by (rule bit_eqI) (auto simp: le16_def hi8_def bit_simps dest: bit_imp_le_length)

lemma unat_lo8: "unat (lo8 w) = unat w mod 256"
  by (simp add: lo8_def unsigned_ucast_eq take_bit_eq_mod)

lemma unat_hi8: "unat (hi8 w) = unat w div 256"
proof -
  have "unat w div 256 < 256" using unat_u16_lt [of w] by (simp add: less_mult_imp_div_less)
  then show ?thesis by (simp add: hi8_def unsigned_ucast_eq take_bit_eq_mod drop_bit_eq_div unat_div_distrib)
qed

lemma unat_le16: "unat (le16 lo hi) = unat lo + 256 * unat hi"
  using unat_lo8 [of "le16 lo hi"] unat_hi8 [of "le16 lo hi"]
  by (metis lo8_le16 hi8_le16 mod_mult_div_eq)

section \<open>Byte buffers\<close>

text \<open>
  \<open>blit\<close> copies a run of bytes into a buffer; \<open>write_at\<close> writes into a file, extending it
  with zero bytes when the position lies behind the end; \<open>read_at\<close> reads what the file has.
\<close>

definition blit :: "nat \<Rightarrow> 'a list \<Rightarrow> 'a list \<Rightarrow> 'a list" where
  "blit off src dst = take off dst @ src @ drop (off + length src) dst"

definition write_at :: "nat \<Rightarrow> bytes \<Rightarrow> bytes \<Rightarrow> bytes" where
  "write_at pos dat f =
     take pos f @ replicate (pos - length f) 0 @ dat @ drop (pos + length dat) f"

definition read_at :: "nat \<Rightarrow> nat \<Rightarrow> bytes \<Rightarrow> bytes" where
  "read_at pos n f = take n (drop pos f)"

lemma length_blit [simp, buffer_simps]:
  "off + length src \<le> length dst \<Longrightarrow> length (blit off src dst) = length dst"
  by (simp add: blit_def)

lemma blit_all: "length src = length dst \<Longrightarrow> blit 0 src dst = src"
  by (simp add: blit_def)

lemma blit_self: "blit off [] dst = dst"
  by (simp add: blit_def)

lemma blit_take:
  "off + length src \<le> length dst \<Longrightarrow> take (length src) (drop off (blit off src dst)) = src"
  by (simp add: blit_def)

lemma length_write_at [simp, buffer_simps]:
  "length (write_at pos dat f) = max (length f) (pos + length dat)"
  by (simp add: write_at_def max_def min_def)

lemma length_read_at [buffer_simps]:
  "length (read_at pos n f) = min n (length f - pos)"
  by (simp add: read_at_def min.commute)

lemma read_at_full: "pos + n \<le> length f \<Longrightarrow> length (read_at pos n f) = n"
  by (simp add: read_at_def)

lemma read_at_write_at_same [simp, buffer_simps]:
  "read_at pos (length dat) (write_at pos dat f) = dat"
  by (simp add: write_at_def read_at_def min_def)

lemma nth_write_at:
  "i < max (length f) (pos + length dat) \<Longrightarrow>
   write_at pos dat f ! i =
     (if i < pos then (if i < length f then f ! i else 0)
      else if i < pos + length dat then dat ! (i - pos) else f ! i)"
  by (auto simp: write_at_def nth_append min_def max_def split: if_splits)

lemma nth_read_at:
  "i < n \<Longrightarrow> pos + i < length f \<Longrightarrow> read_at pos n f ! i = f ! (pos + i)"
  by (simp add: read_at_def)

lemma read_at_write_at_disjoint:
  assumes "p + n \<le> pos \<or> pos + length dat \<le> p" and "p + n \<le> length f"
  shows "read_at p n (write_at pos dat f) = read_at p n f"
proof (rule nth_equalityI)
  show "length (read_at p n (write_at pos dat f)) = length (read_at p n f)"
    using assms by (simp add: length_read_at)
next
  fix i assume "i < length (read_at p n (write_at pos dat f))"
  then have i: "i < n" by (simp add: length_read_at)
  with assms have lt: "p + i < length f" and lt': "p + i < max (length f) (pos + length dat)"
    by simp_all
  have "read_at p n (write_at pos dat f) ! i = write_at pos dat f ! (p + i)"
    using i lt' by (simp add: nth_read_at)
  also have "\<dots> = f ! (p + i)"
    using assms i lt lt' by (auto simp: nth_write_at)
  also have "\<dots> = read_at p n f ! i"
    using i lt by (simp add: nth_read_at)
  finally show "read_at p n (write_at pos dat f) ! i = read_at p n f ! i" .
qed

lemma upt_glue: "a \<le> b \<Longrightarrow> b \<le> c \<Longrightarrow> [a..<b] @ [b..<c] = [a..<c]"
  using upt_add_eq_append [of a b "c - b"] by simp

end
