(* ===== verification/Host_Files.thy ===== *)
theory Host_Files
  imports CPM_Prelude
begin

text \<open>
  The host file system as the disk code uses it: the POSIX and iostream calls of
  \<^verbatim>\<open>biosapi.cpp\<close> (\<open>stat\<close>, \<open>readdir\<close>, \<open>remove\<close>, \<open>rename\<close>, stream open, seek, read
  and write, \<open>create_directories\<close>) over an ordered table of paths, and the two 128-byte record
  transfers \<open>disk::WriteHost\<close> and \<open>disk::ReadHost\<close> built on them.

  The order of the table is the order in which \<open>readdir\<close> reports entries; \<open>denied\<close> is the set
  of paths every call on which fails with \<open>EACCES\<close>, so that the error branches are reachable.
\<close>

datatype node = Reg bytes | Directory | Special

record host =
  nodes :: "(string \<times> node) list"
  denied :: "string \<Rightarrow> bool"

abbreviation (input) ENOENT :: nat where "ENOENT \<equiv> 2"
abbreviation (input) EACCES :: nat where "EACCES \<equiv> 13"

definition host_lookup :: "host \<Rightarrow> string \<Rightarrow> node option" where
  "host_lookup h p = (if denied h p then None else map_of (nodes h) p)"

definition host_stat :: "host \<Rightarrow> string \<Rightarrow> nat + node" where
  "host_stat h p =
     (if denied h p then Inl EACCES
      else case map_of (nodes h) p of None \<Rightarrow> Inl ENOENT | Some n \<Rightarrow> Inr n)"

definition host_put :: "host \<Rightarrow> string \<Rightarrow> node \<Rightarrow> host" where
  "host_put h p n = h\<lparr>nodes := AList.update p n (nodes h)\<rparr>"

definition host_del :: "host \<Rightarrow> string \<Rightarrow> host" where
  "host_del h p = h\<lparr>nodes := AList.delete p (nodes h)\<rparr>"

subsection \<open>Paths\<close>

definition dir_part :: "string \<Rightarrow> string" where
  "dir_part p = rev (drop 1 (dropWhile (\<lambda>c. c \<noteq> CHR ''/'') (rev p)))"

definition base_part :: "string \<Rightarrow> string" where
  "base_part p = rev (takeWhile (\<lambda>c. c \<noteq> CHR ''/'') (rev p))"

definition parent_ok :: "host \<Rightarrow> string \<Rightarrow> bool" where
  "parent_ok h p \<longleftrightarrow> dir_part p = [] \<or> host_lookup h (dir_part p) = Some Directory"

text \<open>\<open>path / name\<close> of \<open>std::filesystem\<close>: an absolute right operand replaces the left one.\<close>

definition path_append :: "string \<Rightarrow> string \<Rightarrow> string" where
  "path_append d f =
     (if f \<noteq> [] \<and> hd f = CHR ''/'' then f
      else if d = [] \<or> last d = CHR ''/'' then d @ f
      else d @ ''/'' @ f)"

text \<open>The entries \<open>readdir\<close> yields for a directory, \<open>.\<close> and \<open>..\<close> included.\<close>

definition host_children :: "host \<Rightarrow> string \<Rightarrow> string list" where
  "host_children h d =
     map (base_part \<circ> fst) (filter (\<lambda>(p, n). dir_part p = d \<and> CHR ''/'' \<in> set p) (nodes h))"

definition readdir_names :: "host \<Rightarrow> string \<Rightarrow> string list" where
  "readdir_names h d = ''.'' # ''..'' # host_children h d"

subsection \<open>Changing calls\<close>

definition host_remove :: "host \<Rightarrow> string \<Rightarrow> bool \<times> host" where
  "host_remove h p =
     (case host_lookup h p of
        None \<Rightarrow> (False, h)
      | Some n \<Rightarrow> if n = Directory \<and> host_children h p \<noteq> [] then (False, h)
                  else (True, host_del h p))"

definition host_rename :: "host \<Rightarrow> string \<Rightarrow> string \<Rightarrow> bool \<times> host" where
  "host_rename h old new =
     (case host_lookup h old of
        None \<Rightarrow> (False, h)
      | Some n \<Rightarrow>
          if old = new then (True, h)
          else if denied h new \<or> host_lookup h new = Some Directory \<or> \<not> parent_ok h new
            then (False, h)
          else (True, host_put (host_del h old) new n))"

text \<open>\<open>ofstream ois(uname)\<close>: create or truncate.\<close>

definition host_create :: "host \<Rightarrow> string \<Rightarrow> bool \<times> host" where
  "host_create h p =
     (if denied h p then (False, h)
      else case map_of (nodes h) p of
        Some (Reg _) \<Rightarrow> (True, host_put h p (Reg []))
      | Some _ \<Rightarrow> (False, h)
      | None \<Rightarrow> if parent_ok h p then (True, host_put h p (Reg [])) else (False, h))"

text \<open>The prefixes of a path that name its directories, shortest first, the path itself last.\<close>

fun path_prefixes :: "string \<Rightarrow> string \<Rightarrow> string list" where
  "path_prefixes acc [] = (if acc = [] then [] else [acc])"
| "path_prefixes acc (c # cs) =
     (if c = CHR ''/'' \<and> acc \<noteq> [] then acc # path_prefixes (acc @ [c]) cs
      else path_prefixes (acc @ [c]) cs)"

fun make_dirs :: "host \<Rightarrow> string list \<Rightarrow> (unit, host) outcome" where
  "make_dirs h [] = Ok () h"
| "make_dirs h (d # ds) =
     (if denied h d then Fail FilesystemError h
      else case map_of (nodes h) d of
        Some Directory \<Rightarrow> make_dirs h ds
      | Some _ \<Rightarrow> Fail FilesystemError h
      | None \<Rightarrow> make_dirs (host_put h d Directory) ds)"

definition create_directories :: "host \<Rightarrow> string \<Rightarrow> (unit, host) outcome" where
  "create_directories h d = make_dirs h (path_prefixes [] d)"

subsection \<open>Record transfers of the disk class\<close>

text \<open>
  \<open>fstream ofs(hfile)\<close> opens for reading and writing and so needs the file to exist; a seek
  behind the end followed by a write leaves a hole of zero bytes.
\<close>

definition WriteHost :: "host \<Rightarrow> string \<Rightarrow> nat \<Rightarrow> bytes \<Rightarrow> nat \<times> host" where
  "WriteHost h hfile pos data128 =
     (case host_lookup h hfile of
        Some (Reg f) \<Rightarrow> (0, host_put h hfile (Reg (write_at pos data128 f)))
      | _ \<Rightarrow> (1, h))"

text \<open>
  \<open>ifstream::read\<close> of 128 bytes into a buffer. A short read at the end of the file sets
  \<open>eofbit\<close> and counts as success; only the bytes the file has are stored. The buffer is the
  memory from the destination pointer on: storing behind its end is undefined.
\<close>

definition ReadHost :: "host \<Rightarrow> string \<Rightarrow> nat \<Rightarrow> bytes \<Rightarrow> (nat, bytes) outcome" where
  "ReadHost h hfile pos buf =
     (case host_lookup h hfile of
        Some (Reg f) \<Rightarrow>
          let got = read_at pos 128 f
          in if length got \<le> length buf then Ok 0 (blit 0 got buf)
             else Fail (Undefined OutOfBounds) buf
      | _ \<Rightarrow> Ok 1 buf)"

section \<open>Lemmas\<close>

lemma denied_put [simp]: "denied (host_put h p n) = denied h"
  by (simp add: host_put_def)

lemma denied_del [simp]: "denied (host_del h p) = denied h"
  by (simp add: host_del_def)

lemma host_lookup_put [simp]:
  "host_lookup (host_put h p n) q =
     (if q = p then (if denied h p then None else Some n) else host_lookup h q)"
  by (simp add: host_lookup_def host_put_def AList.update_conv')

lemma host_lookup_del [simp]:
  "host_lookup (host_del h p) q = (if q = p then None else host_lookup h q)"
  by (simp add: host_lookup_def host_del_def AList.delete_conv')

lemma host_lookup_not_denied: "host_lookup h p = Some n \<Longrightarrow> \<not> denied h p"
  by (auto simp: host_lookup_def split: if_splits)

lemma host_stat_Inr: "host_stat h p = Inr n \<longleftrightarrow> host_lookup h p = Some n"
  by (auto simp: host_stat_def host_lookup_def split: option.splits)

lemma denied_WriteHost [simp]: "denied (snd (WriteHost h f p d)) = denied h"
  by (auto simp: WriteHost_def split: option.splits node.splits)

lemma WriteHost_lookup:
  "host_lookup (snd (WriteHost h f p d)) g =
     (case host_lookup h f of
        Some (Reg x) \<Rightarrow> if g = f then Some (Reg (write_at p d x)) else host_lookup h g
      | _ \<Rightarrow> host_lookup h g)"
  by (auto simp: WriteHost_def dest: host_lookup_not_denied split: option.splits node.splits)

lemma WriteHost_status: "fst (WriteHost h f p d) = 0 \<longleftrightarrow> (\<exists>x. host_lookup h f = Some (Reg x))"
  by (auto simp: WriteHost_def split: option.splits node.splits)

lemma host_rename_lookup:
  assumes "host_rename h old new = (True, h')" and "host_lookup h old = Some n" and "old \<noteq> new"
  shows "host_lookup h' new = Some n" and "host_lookup h' old = None"
    and "q \<noteq> old \<Longrightarrow> q \<noteq> new \<Longrightarrow> host_lookup h' q = host_lookup h q"
  using assms by (auto simp: host_rename_def split: if_splits)

lemma host_remove_lookup:
  assumes "host_remove h p = (True, h')"
  shows "host_lookup h' p = None" and "q \<noteq> p \<Longrightarrow> host_lookup h' q = host_lookup h q"
  using assms by (auto simp: host_remove_def split: option.splits if_splits)

lemma host_create_lookup:
  assumes "host_create h p = (True, h')"
  shows "host_lookup h' p = Some (Reg [])" and "q \<noteq> p \<Longrightarrow> host_lookup h' q = host_lookup h q"
  using assms
  by (auto simp: host_create_def split: option.splits if_splits node.splits)

section \<open>Files as stores of 128-byte records\<close>

text \<open>
  The contract the disk code relies on when it keeps sectors in host files: a record just
  written is read back, other files and other records of the file are untouched, and no write
  shortens a file or removes it.
\<close>

locale record_store =
  fixes present :: "'h \<Rightarrow> 'k \<Rightarrow> bool"
    and fsize :: "'h \<Rightarrow> 'k \<Rightarrow> nat"
    and put :: "'h \<Rightarrow> 'k \<Rightarrow> nat \<Rightarrow> bytes \<Rightarrow> 'h"
    and get :: "'h \<Rightarrow> 'k \<Rightarrow> nat \<Rightarrow> bytes"
  assumes present_put: "present (put h k p d) k' = present h k'"
    and size_put: "present h k \<Longrightarrow> fsize (put h k p d) k = max (fsize h k) (p + length d)"
    and get_put_same: "present h k \<Longrightarrow> length d = 128 \<Longrightarrow> get (put h k p d) k p = d"
    and get_put_other: "k' \<noteq> k \<Longrightarrow> get (put h k p d) k' q = get h k' q"
    and get_put_disjoint:
      "present h k \<Longrightarrow> length d = 128 \<Longrightarrow> q + 128 \<le> p \<or> p + 128 \<le> q \<Longrightarrow> q + 128 \<le> fsize h k \<Longrightarrow>
       get (put h k p d) k q = get h k q"
begin

definition puts :: "'h \<Rightarrow> 'k \<Rightarrow> (nat \<times> bytes) list \<Rightarrow> 'h" where
  "puts h k ws = fold (\<lambda>(p, d) h. put h k p d) ws h"

lemma puts_Nil [simp]: "puts h k [] = h"
  and puts_Cons [simp]: "puts h k ((p, d) # ws) = puts (put h k p d) k ws"
  by (simp_all add: puts_def)

lemma present_puts: "present (puts h k ws) k' = present h k'"
  by (induction ws arbitrary: h) (simp_all add: split_paired_all present_put)

lemma get_puts_other: "k' \<noteq> k \<Longrightarrow> get (puts h k ws) k' q = get h k' q"
  by (induction ws arbitrary: h) (auto simp: get_put_other)

lemma get_puts_untouched:
  assumes "present h k" and "\<forall>(p, d) \<in> set ws. length d = 128 \<and> (q + 128 \<le> p \<or> p + 128 \<le> q)"
    and "q + 128 \<le> fsize h k"
  shows "get (puts h k ws) k q = get h k q"
  using assms
proof (induction ws arbitrary: h)
  case (Cons w ws)
  obtain p d where w: "w = (p, d)" by (cases w)
  have "get (puts (put h k p d) k ws) k q = get (put h k p d) k q"
    using Cons.prems w by (intro Cons.IH) (auto simp: present_put size_put)
  also have "\<dots> = get h k q"
    using Cons.prems w by (intro get_put_disjoint) auto
  finally show ?case by (simp add: w)
qed simp

text \<open>Writing a batch of records at distinct aligned positions stores every one of them.\<close>

lemma get_puts:
  assumes "present h k" and "distinct (map fst ws)"
    and "\<forall>(p, d) \<in> set ws. length d = 128 \<and> 128 dvd p" and "(q, e) \<in> set ws"
  shows "get (puts h k ws) k q = e"
  using assms
proof (induction ws arbitrary: h)
  case (Cons w ws)
  obtain p d where w: "w = (p, d)" by (cases w)
  have prs: "present (put h k p d) k" using Cons.prems by (simp add: present_put)
  show ?case
  proof (cases "(q, e) \<in> set ws")
    case True
    then have "get (puts (put h k p d) k ws) k q = e"
      using Cons.prems prs by (intro Cons.IH) (auto simp: w)
    then show ?thesis by (simp add: w)
  next
    case False
    with Cons.prems(4) w have qp: "q = p" and e: "e = d" by auto
    have apart: "q + 128 \<le> p' \<or> p' + 128 \<le> q" if "(p', d') \<in> set ws" for p' d'
    proof -
      have "p' \<noteq> q" using Cons.prems(2) that qp by (force simp: w)
      moreover have "128 dvd p'" and "128 dvd q" using Cons.prems(3) that qp by (auto simp: w)
      ultimately show ?thesis by (auto simp: dvd_def)
    qed
    have "get (puts (put h k p d) k ws) k q = get (put h k p d) k q"
      using Cons.prems w qp apart prs
      by (intro get_puts_untouched) (auto simp: size_put)
    also have "\<dots> = d" using Cons.prems qp by (simp add: get_put_same w)
    finally show ?thesis by (simp add: w e)
  qed
qed simp

end

definition host_present :: "host \<Rightarrow> string \<Rightarrow> bool" where
  "host_present h f \<longleftrightarrow> (case host_lookup h f of Some (Reg x) \<Rightarrow> True | _ \<Rightarrow> False)"

lemma host_present_iff: "host_present h f \<longleftrightarrow> (\<exists>x. host_lookup h f = Some (Reg x))"
  by (auto simp: host_present_def split: option.splits node.splits)

definition host_size :: "host \<Rightarrow> string \<Rightarrow> nat" where
  "host_size h f = (case host_lookup h f of Some (Reg x) \<Rightarrow> length x | _ \<Rightarrow> 0)"

text \<open>What \<open>ReadHost\<close> leaves in a zeroed record buffer.\<close>

definition host_get :: "host \<Rightarrow> string \<Rightarrow> nat \<Rightarrow> bytes" where
  "host_get h f p = state_of (ReadHost h f p (replicate 128 0))"

lemma length_read_at_le: "length (read_at p n f) \<le> n"
  by (simp add: read_at_def)

lemma host_get_Reg:
  "host_lookup h f = Some (Reg x) \<Longrightarrow>
   host_get h f p = read_at p 128 x @ replicate (128 - length (read_at p 128 x)) 0"
  using length_read_at_le [of p 128 x]
  by (simp add: host_get_def ReadHost_def blit_def Let_def)

lemma host_get_same: "host_lookup h f = host_lookup h' f \<Longrightarrow> host_get h f p = host_get h' f p"
  by (simp add: host_get_def ReadHost_def)

interpretation hostrec: record_store host_present host_size
  "\<lambda>h f p d. snd (WriteHost h f p d)" host_get
proof unfold_locales
  fix h f p d f'
  show "host_present (snd (WriteHost h f p d)) f' = host_present h f'"
    by (auto simp: host_present_iff WriteHost_lookup split: option.splits node.splits)
next
  fix h f p d
  assume "host_present h f"
  then show "host_size (snd (WriteHost h f p d)) f = max (host_size h f) (p + length d)"
    by (auto simp: host_present_iff host_size_def WriteHost_lookup)
next
  fix h f p and d :: bytes
  assume "host_present h f" and d: "length d = 128"
  then obtain x where "host_lookup (snd (WriteHost h f p d)) f = Some (Reg (write_at p d x))"
    by (auto simp: host_present_iff WriteHost_lookup)
  moreover have "read_at p 128 (write_at p d x) = d"
    using read_at_write_at_same [of p d x] d by simp
  ultimately show "host_get (snd (WriteHost h f p d)) f p = d"
    using d by (simp add: host_get_Reg)
next
  fix f' f :: string and h p d q
  assume "f' \<noteq> f"
  then show "host_get (snd (WriteHost h f p d)) f' q = host_get h f' q"
    by (intro host_get_same) (auto simp: WriteHost_lookup split: option.splits node.splits)
next
  fix h f p q and d :: bytes
  assume "host_present h f" and d: "length d = 128"
    and apart: "q + 128 \<le> p \<or> p + 128 \<le> q" and sz: "q + 128 \<le> host_size h f"
  then obtain x where x: "host_lookup h f = Some (Reg x)" by (auto simp: host_present_iff)
  then have "host_lookup (snd (WriteHost h f p d)) f = Some (Reg (write_at p d x))"
    by (simp add: WriteHost_lookup)
  moreover have "read_at q 128 (write_at p d x) = read_at q 128 x"
    using apart sz d x by (intro read_at_write_at_disjoint) (auto simp: host_size_def)
  ultimately show "host_get (snd (WriteHost h f p d)) f q = host_get h f q"
    using x by (simp add: host_get_Reg)
qed

lemma ReadHost_full:
  assumes "host_lookup h f = Some (Reg x)" and "p + 128 \<le> length x" and "128 \<le> length buf"
  shows "ReadHost h f p buf = Ok 0 (read_at p 128 x @ drop 128 buf)"
  using assms by (simp add: ReadHost_def read_at_full Let_def blit_def)

lemma ReadHost_length:
  "ReadHost h f p buf = Ok r buf' \<Longrightarrow> length buf' = length buf"
  by (auto simp: ReadHost_def Let_def split: option.splits node.splits if_splits)

lemma ReadHost_Ok:
  "128 \<le> length buf \<Longrightarrow> \<exists>r buf'. ReadHost h f p buf = Ok r buf' \<and> length buf' = length buf"
  by (cases "host_lookup h f")
    (auto simp: ReadHost_def Let_def order_trans [OF length_read_at_le] split: node.splits)

end
