(* ===== verification/Disk_Geometry.thy ===== *)
theory Disk_Geometry
  imports CPM_Prelude
begin

text \<open>
  The disk parameter block (\<open>dpb_t\<close>, \<open>dpb_s\<close> and class \<open>dpb\<close> of \<^verbatim>\<open>biosapi.h\<close>), its packed
  image in the emulated memory, the IBM 8 inch defaults of \<^verbatim>\<open>zilogz80.cpp\<close>, and sector
  translation: the table \<open>stbl_\<close> of class \<open>simdrive\<close>, the inverse table \<open>smap_\<close> of class
  \<open>disk\<close> and the linear sector number \<open>GetAbsSector\<close>.
\<close>

section \<open>Disk parameter block\<close>

record dpb_t =
  spt :: u16
  bsh :: u8
  blm :: u8
  exm :: u8
  dsm :: u16
  drm :: u16
  al0 :: u8
  al1 :: u8
  cks :: u16
  off :: u16

definition BlockShift :: "dpb_t \<Rightarrow> nat" where "BlockShift d = unat (bsh d)"
definition BlockMsk :: "dpb_t \<Rightarrow> nat" where "BlockMsk d = unat (blm d)"
definition ExtendMsk :: "dpb_t \<Rightarrow> nat" where "ExtendMsk d = unat (exm d)"

definition BlockSize :: "dpb_t \<Rightarrow> nat" where
  "BlockSize d = wrap32 (128 * 2 ^ BlockShift d)"

definition DirectoryEntries :: "dpb_t \<Rightarrow> nat" where "DirectoryEntries d = unat (drm d) + 1"
definition ReservedTracks :: "dpb_t \<Rightarrow> nat" where "ReservedTracks d = unat (off d)"
definition SectorsTrack :: "dpb_t \<Rightarrow> nat" where "SectorsTrack d = unat (spt d)"
definition MaxBlock :: "dpb_t \<Rightarrow> nat" where "MaxBlock d = unat (dsm d) + 1"

definition A01 :: "dpb_t \<Rightarrow> nat" where
  "A01 d = push_bit 8 (unat (al0 d)) OR unat (al1 d)"

definition BlockPtrType :: "dpb_t \<Rightarrow> nat" where
  "BlockPtrType d = (if BlockSize d > 1024 \<and> MaxBlock d \<ge> 256 then 8 else 16)"

lemmas dpb_defs = BlockShift_def BlockMsk_def ExtendMsk_def BlockSize_def DirectoryEntries_def
  ReservedTracks_def SectorsTrack_def MaxBlock_def A01_def BlockPtrType_def

text \<open>The packed little-endian image of a \<open>dpb_t\<close> that the BIOS keeps in memory.\<close>

fun dpb_of_bytes :: "bytes \<Rightarrow> dpb_t option" where
  "dpb_of_bytes (b0 # b1 # b2 # b3 # b4 # b5 # b6 # b7 # b8 # b9 # b10 # b11 # b12 # b13 # b14 # _) =
     Some \<lparr>spt = le16 b0 b1, bsh = b2, blm = b3, exm = b4, dsm = le16 b5 b6, drm = le16 b7 b8,
           al0 = b9, al1 = b10, cks = le16 b11 b12, off = le16 b13 b14\<rparr>"
| "dpb_of_bytes _ = None"

definition dpb_image :: "dpb_t \<Rightarrow> bytes" where
  "dpb_image d =
     [lo8 (spt d), hi8 (spt d), bsh d, blm d, exm d, lo8 (dsm d), hi8 (dsm d),
      lo8 (drm d), hi8 (drm d), al0 d, al1 d, lo8 (cks d), hi8 (cks d), lo8 (off d), hi8 (off d)]"

text \<open>The disk parameter header, of which the emulator reads two words.\<close>

record dph_t =
  TRANS :: u16
  DPBLK :: u16

fun dph_of_bytes :: "bytes \<Rightarrow> dph_t option" where
  "dph_of_bytes (t0 # t1 # _ # _ # _ # _ # _ # _ # _ # _ # p0 # p1 # _) =
     Some \<lparr>TRANS = le16 t0 t1, DPBLK = le16 p0 p1\<rparr>"
| "dph_of_bytes _ = None"

definition DPB_IBM8 :: dpb_t where
  "DPB_IBM8 = \<lparr>spt = 26, bsh = 3, blm = 7, exm = 0, dsm = 242, drm = 63, al0 = 192, al1 = 0,
     cks = 16, off = 2\<rparr>"

definition TRANS_IBM8 :: bytes where
  "TRANS_IBM8 =
     [1, 7, 13, 19, 25, 5, 11, 17, 23, 3, 9, 15, 21, 2, 8, 14, 20, 26, 6, 12, 18, 24, 4, 10,
      16, 22]"

section \<open>Sector translation\<close>

text \<open>
  \<open>simdrive::simdrive\<close> copies the table it is given, or numbers the sectors when it is given
  none. The table is the memory from the pointer on, so copying may run past its end.
\<close>

definition make_stbl :: "nat \<Rightarrow> bytes option \<Rightarrow> undefined + nat list" where
  "make_stbl n stbl =
     (case stbl of
        None \<Rightarrow> Inr (map (\<lambda>i. i + 1) [0..<n])
      | Some t \<Rightarrow> if n \<le> length t then Inr (map unat (take n t)) else Inl OutOfBounds)"

definition translate :: "nat list \<Rightarrow> nat \<Rightarrow> nat option" where
  "translate stbl sector =
     (if sector = 0 \<or> stbl = [] then None else Some (stbl ! ((sector - 1) mod length stbl)))"

text \<open>
  The loop of \<open>disk::disk\<close> that fills \<open>smap_\<close>: entry \<open>translate(i) - 1\<close> receives \<open>i\<close>. The
  array starts uninitialised; an index outside it is undefined.
\<close>

fun smap_loop :: "nat \<Rightarrow> nat list \<Rightarrow> nat option list \<Rightarrow> undefined + nat option list" where
  "smap_loop i [] m = Inr m"
| "smap_loop i (t # ts) m =
     (if t = 0 \<or> length m < t then Inl OutOfBounds
      else smap_loop (Suc i) ts (m[t - 1 := Some i]))"

definition make_smap :: "nat list \<Rightarrow> undefined + nat option list" where
  "make_smap stbl = smap_loop 1 stbl (replicate (length stbl) None)"

text \<open>\<open>disk::GetAbsSector\<close>; \<open>unsigned\<close> arithmetic throughout.\<close>

definition GetAbsSector :: "dpb_t \<Rightarrow> nat option list \<Rightarrow> nat \<Rightarrow> nat \<Rightarrow> undefined + nat" where
  "GetAbsSector d smap track sector =
     (if track \<ge> ReservedTracks d
      then (if sub32 sector 1 < length smap
            then (case smap ! sub32 sector 1 of
                    None \<Rightarrow> Inl Uninitialised
                  | Some m \<Rightarrow> Inr (sub32 (wrap32 (track * SectorsTrack d) + m) 1))
            else Inl OutOfBounds)
      else Inr (sub32 (wrap32 (track * SectorsTrack d) + sector) 1))"

section \<open>Lemmas on the parameter block\<close>

lemma dpb_of_bytes_image: "dpb_of_bytes (dpb_image d @ rest) = Some d"
  by (simp add: dpb_image_def)

lemma SectorsTrack_lt: "SectorsTrack d < 65536"
  and ReservedTracks_lt: "ReservedTracks d < 65536"
  by (simp_all add: dpb_defs)

lemma BlockPtrType_cases: "BlockPtrType d = 8 \<or> BlockPtrType d = 16"
  by (simp add: BlockPtrType_def)

lemma BlockSize_pos: "bsh d < 25 \<Longrightarrow> 0 < BlockSize d"
proof -
  assume "bsh d < 25"
  then have "unat (bsh d) < 25" by (simp add: word_less_nat_alt)
  then have "(2::nat) ^ unat (bsh d) \<le> 2 ^ 24" by (intro power_increasing) simp_all
  then show ?thesis by (simp add: BlockSize_def BlockShift_def wrap32_def)
qed

section \<open>Sector skew\<close>

lemma make_stbl_length: "make_stbl n t = Inr st \<Longrightarrow> length st = n"
  by (auto simp: make_stbl_def split: option.splits if_splits)

lemma smap_loop_unchanged:
  assumes "smap_loop i ts m = Inr m'" and "k \<notin> (\<lambda>t. t - 1) ` set ts"
  shows "m' ! k = m ! k"
  using assms by (induction i ts m rule: smap_loop.induct) (auto split: if_splits)

lemma smap_loop_length: "smap_loop i ts m = Inr m' \<Longrightarrow> length m' = length m"
  by (induction i ts m rule: smap_loop.induct) (auto split: if_splits)

lemma smap_loop_ok:
  assumes "\<forall>t \<in> set ts. 1 \<le> t \<and> t \<le> length m"
  shows "\<exists>m'. smap_loop i ts m = Inr m'"
  using assms by (induction i ts m rule: smap_loop.induct) auto

lemma smap_loop_inverse:
  assumes "distinct ts" and "\<forall>t \<in> set ts. 1 \<le> t \<and> t \<le> length m"
    and "smap_loop i ts m = Inr m'" and "j < length ts"
  shows "m' ! (ts ! j - 1) = Some (i + j)"
  using assms
proof (induction i ts m arbitrary: j rule: smap_loop.induct)
  case (2 i t ts m)
  let ?m = "m[t - 1 := Some i]"
  have t: "1 \<le> t" "t \<le> length m" using "2.prems" by auto
  have rest: "smap_loop (Suc i) ts ?m = Inr m'" using "2.prems" t by simp
  show ?case
  proof (cases j)
    case 0
    have "t - 1 \<notin> (\<lambda>t. t - 1) ` set ts"
    proof
      assume "t - 1 \<in> (\<lambda>t. t - 1) ` set ts"
      then obtain u where "u \<in> set ts" "t - 1 = u - 1" by auto
      moreover then have "1 \<le> u" using "2.prems" by auto
      ultimately have "u = t" using t by linarith
      with \<open>u \<in> set ts\<close> "2.prems" show False by auto
    qed
    then have "m' ! (t - 1) = ?m ! (t - 1)" by (rule smap_loop_unchanged [OF rest])
    with t 0 show ?thesis by (simp add: nth_list_update_eq)
  next
    case (Suc k)
    have "m' ! (ts ! k - 1) = Some (Suc i + k)"
      using "2.prems" t rest Suc by (intro "2.IH") auto
    then show ?thesis by (simp add: Suc)
  qed
qed simp

text \<open>
  A translation table that names every sector of the track exactly once, as the CBIOS tables do.
\<close>

locale sector_skew =
  fixes tbl :: "nat list"
  assumes each_sector: "set tbl = {1..length tbl}"
begin

lemma tbl_distinct: "distinct tbl"
  by (rule card_distinct) (simp add: each_sector)

lemma tbl_range: "i < length tbl \<Longrightarrow> 1 \<le> tbl ! i \<and> tbl ! i \<le> length tbl"
  using nth_mem [of i tbl] by (simp only: each_sector atLeastAtMost_iff)

lemma smap_exists: "\<exists>m. make_smap tbl = Inr m \<and> length m = length tbl"
proof -
  have "\<forall>t \<in> set tbl. 1 \<le> t \<and> t \<le> length (replicate (length tbl) (None :: nat option))"
    by (simp add: each_sector)
  then obtain m where "make_smap tbl = Inr m"
    using smap_loop_ok unfolding make_smap_def by blast
  then show ?thesis
    using smap_loop_length unfolding make_smap_def by force
qed

lemma smap_inverts:
  assumes "make_smap tbl = Inr m" and "i < length tbl"
  shows "m ! (tbl ! i - 1) = Some (i + 1)"
  using smap_loop_inverse [OF tbl_distinct, of "replicate (length tbl) None" 1 m i] assms
  by (simp add: make_smap_def each_sector)

text \<open>The retranslation of \<open>GetAbsSector\<close> undoes the skew the BIOS applied.\<close>

lemma abs_sector_unskews:
  assumes "make_smap tbl = Inr m" and "SectorsTrack d = length tbl" and "i < length tbl"
    and "ReservedTracks d \<le> track" and "track < 65536"
  shows "GetAbsSector d m track (tbl ! i) = Inr (track * SectorsTrack d + i)"
proof -
  have len: "length m = length tbl"
    using smap_exists assms(1) by auto
  have r: "1 \<le> tbl ! i" "tbl ! i \<le> length tbl" using tbl_range [OF assms(3)] by auto
  have sp: "SectorsTrack d < 65536" by (rule SectorsTrack_lt)
  have "track * SectorsTrack d \<le> 65535 * 65535"
    using sp assms(5) by (intro mult_le_mono) simp_all
  then have small: "track * SectorsTrack d + (i + 1) < 2 ^ 32"
    using sp assms(2,3) by simp
  have "sub32 (tbl ! i) 1 = tbl ! i - 1"
    using r sp assms(2) by (intro sub32_small) simp_all
  moreover have "tbl ! i - 1 < length m" using r len by linarith
  moreover have "m ! (tbl ! i - 1) = Some (i + 1)" by (rule smap_inverts [OF assms(1,3)])
  moreover have "sub32 (wrap32 (track * SectorsTrack d) + (i + 1)) 1 = track * SectorsTrack d + i"
    using small by simp
  ultimately show ?thesis using assms(4) by (simp only: GetAbsSector_def if_True option.case)
qed

lemma abs_sector_surj:
  assumes "make_smap tbl = Inr m" and "SectorsTrack d = length tbl"
    and "ReservedTracks d \<le> track" and "track < 65536" and "1 \<le> s" and "s \<le> length tbl"
  shows "\<exists>i < length tbl. tbl ! i = s \<and> GetAbsSector d m track s = Inr (track * SectorsTrack d + i)"
proof -
  have "s \<in> set tbl" using assms by (simp add: each_sector)
  then obtain i where "i < length tbl" "tbl ! i = s" by (auto simp: in_set_conv_nth)
  with abs_sector_unskews [OF assms(1,2) this(1) assms(3,4)] show ?thesis by auto
qed

lemma abs_sector_inj:
  assumes m: "make_smap tbl = Inr m" and sp: "SectorsTrack d = length tbl"
    and t: "ReservedTracks d \<le> t1" "t1 < 65536" "ReservedTracks d \<le> t2" "t2 < 65536"
    and s: "1 \<le> s1" "s1 \<le> length tbl" "1 \<le> s2" "s2 \<le> length tbl"
    and eq: "GetAbsSector d m t1 s1 = GetAbsSector d m t2 s2"
  shows "t1 = t2 \<and> s1 = s2"
proof -
  obtain i where i: "i < length tbl" "tbl ! i = s1"
    "GetAbsSector d m t1 s1 = Inr (t1 * length tbl + i)"
    using abs_sector_surj [OF m sp t(1,2) s(1,2)] sp by auto
  obtain j where j: "j < length tbl" "tbl ! j = s2"
    "GetAbsSector d m t2 s2 = Inr (t2 * length tbl + j)"
    using abs_sector_surj [OF m sp t(3,4) s(3,4)] sp by auto
  have lin: "t1 * length tbl + i = t2 * length tbl + j" using i j eq by simp
  from i(1) have n: "0 < length tbl" by linarith
  have "(t1 * length tbl + i) div length tbl = t1" "(t2 * length tbl + j) div length tbl = t2"
    using i(1) j(1) n by (simp_all only: div_mult_self3 div_less)
  with lin have tt: "t1 = t2" by metis
  with lin have "i = j" by simp
  with i j tt show ?thesis by auto
qed

end

definition stbl_IBM8 :: "nat list" where
  "stbl_IBM8 = map unat TRANS_IBM8"

lemma make_stbl_IBM8: "make_stbl (SectorsTrack DPB_IBM8) (Some TRANS_IBM8) = Inr stbl_IBM8"
  by (simp add: make_stbl_def SectorsTrack_def DPB_IBM8_def stbl_IBM8_def TRANS_IBM8_def)

lemma stbl_IBM8_eval: "stbl_IBM8 =
  [1, 7, 13, 19, 25, 5, 11, 17, 23, 3, 9, 15, 21, 2, 8, 14, 20, 26, 6, 12, 18, 24, 4, 10, 16, 22]"
  by (simp add: stbl_IBM8_def TRANS_IBM8_def)

interpretation ibm8: sector_skew stbl_IBM8
proof unfold_locales
  have "set stbl_IBM8 = set [1..<27]" unfolding stbl_IBM8_eval by code_simp
  also have "\<dots> = {1..26}" by auto
  also have "26 = length stbl_IBM8" by (simp add: stbl_IBM8_eval)
  finally show "set stbl_IBM8 = {1..length stbl_IBM8}" .
qed

text \<open>A drive built without a table numbers its sectors in order.\<close>

lemma set_linear: "set (map (\<lambda>i. i + 1) [0..<n]) = {1..n}"
  by (auto simp: image_iff intro!: bexI [of _ "_ - 1"])

interpretation linear: sector_skew "map (\<lambda>i. i + 1) [0..<n]" for n
  by unfold_locales (simp only: set_linear length_map length_upt diff_zero)

end
