(* ===== verification/Directory_Entry.thy ===== *)
theory Directory_Entry
  imports Disk_Geometry
begin

text \<open>
  Class \<open>cpmdir\<close> of \<^verbatim>\<open>biosapi.h\<close> and \<^verbatim>\<open>biosapi.cpp\<close>: one 32-byte directory entry (extent),
  its construction from and its image in a directory sector, the printable name used as the key
  of the host-file table, the block pointers in their byte and word views, the block search and
  the comparison operator.
\<close>

section \<open>The entry\<close>

record cpmdir =
  St :: u8
  Fx :: bytes
  Ex :: bytes
  Xl :: u8
  Bc :: u8
  Xh :: u8
  Rc :: u8
  Al :: bytes
  pointersize :: nat

definition UNUSED :: u8 where "UNUSED = 0xE5"
definition CPMUSRNO :: u8 where "CPMUSRNO = 0"

text \<open>The arrays have the sizes of their declarations.\<close>

definition cpmdir_ok :: "cpmdir \<Rightarrow> bool" where
  "cpmdir_ok d \<longleftrightarrow> length (Fx d) = 8 \<and> length (Ex d) = 3 \<and> length (Al d) = 16"

definition cpmdir_new :: "nat \<Rightarrow> cpmdir" where
  "cpmdir_new ps =
     \<lparr>St = UNUSED, Fx = replicate 8 32, Ex = replicate 3 32, Xl = 0, Bc = 0, Xh = 0, Rc = 0,
      Al = replicate 16 0, pointersize = ps\<rparr>"

text \<open>Construction from 32 bytes of memory; \<open>None\<close> when the memory ends before them.\<close>

definition cpmdir_of_bytes :: "nat \<Rightarrow> bytes \<Rightarrow> cpmdir option" where
  "cpmdir_of_bytes ps dd =
     (if length dd < 32 then None
      else Some \<lparr>St = dd ! 0, Fx = take 8 (drop 1 dd), Ex = take 3 (drop 9 dd),
                 Xl = dd ! 12, Bc = dd ! 13, Xh = dd ! 14, Rc = dd ! 15,
                 Al = take 16 (drop 16 dd), pointersize = ps\<rparr>)"

text \<open>The 32 bytes that \<open>read\<close> copies out and \<open>dump\<close> writes to a stream.\<close>

definition cpmdir_image :: "cpmdir \<Rightarrow> bytes" where
  "cpmdir_image d = St d # Fx d @ Ex d @ [Xl d, Bc d, Xh d, Rc d] @ Al d"

section \<open>Accessors\<close>

definition GetALByte :: "cpmdir \<Rightarrow> nat \<Rightarrow> nat" where
  "GetALByte d idx = unat (Al d ! idx)"

definition GetALWord :: "cpmdir \<Rightarrow> nat \<Rightarrow> nat" where
  "GetALWord d idx = unat (le16 (Al d ! (2 * idx)) (Al d ! (2 * idx + 1)))"

definition SetALByte :: "nat \<Rightarrow> u8 \<Rightarrow> cpmdir \<Rightarrow> cpmdir" where
  "SetALByte idx s d = d\<lparr>Al := (Al d)[idx := s]\<rparr>"

definition SetALWord :: "nat \<Rightarrow> u16 \<Rightarrow> cpmdir \<Rightarrow> cpmdir" where
  "SetALWord idx s d = d\<lparr>Al := (Al d)[2 * idx := lo8 s, 2 * idx + 1 := hi8 s]\<rparr>"

definition GetExtNumber :: "cpmdir \<Rightarrow> nat" where
  "GetExtNumber d = (push_bit 8 (unat (Xh d)) OR unat (Xl d)) AND 0x1FF"

text \<open>\<open>SetName\<close> throws (with nothing to rethrow) unless it is given twelve characters.\<close>

definition SetName :: "string \<Rightarrow> cpmdir \<Rightarrow> (unit, cpmdir) outcome" where
  "SetName s d =
     (if length s \<noteq> 12 then Fail Terminate d
      else Ok () (d\<lparr>Fx := map char_byte (take 8 s), Ex := map char_byte (take 3 (drop 9 s))\<rparr>))"

definition hex_digit :: "nat \<Rightarrow> char" where
  "hex_digit n = ''0123456789abcdef'' ! n"

text \<open>\<open>strncmp(a, b, n) == 0\<close> on arrays of \<open>n\<close> bytes: a common zero byte ends the comparison.\<close>

fun strneq :: "bytes \<Rightarrow> bytes \<Rightarrow> bool" where
  "strneq (x # xs) (y # ys) = (x = y \<and> (x = 0 \<or> strneq xs ys))"
| "strneq _ _ = True"

definition GetName :: "cpmdir \<Rightarrow> string" where
  "GetName d =
     [hex_digit (unat (St d) div 16), hex_digit (unat (St d) mod 16), CHR ''_'']
     @ map byte_char (Fx d)
     @ (if strneq (Ex d) [32, 32, 32] then [] else ''.'')
     @ map byte_char (Ex d)"

text \<open>The search loop of \<open>FindBlockIndex\<close>; \<open>b\<close> is the loop counter.\<close>

fun find_index :: "nat \<Rightarrow> nat \<Rightarrow> nat list \<Rightarrow> nat option" where
  "find_index b block [] = None"
| "find_index b block (x # xs) = (if x = block then Some b else find_index (Suc b) block xs)"

definition al_entries :: "cpmdir \<Rightarrow> nat \<Rightarrow> nat list" where
  "al_entries d bps = map (if bps = 16 then GetALByte d else GetALWord d) [0..<bps]"

definition FindBlockIndex :: "cpmdir \<Rightarrow> nat \<Rightarrow> nat \<Rightarrow> nat" where
  "FindBlockIndex d block bps =
     (if St d = UNUSED then 0
      else case find_index 0 block (al_entries d bps) of
        None \<Rightarrow> 0
      | Some b \<Rightarrow> wrap32 (b + 1 + GetExtNumber d * bps))"

text \<open>\<open>operator==\<close>\<close>

definition cpmdir_eq :: "cpmdir \<Rightarrow> cpmdir \<Rightarrow> bool" where
  "cpmdir_eq a b \<longleftrightarrow>
     St a = St b \<and> strneq (Fx a) (Fx b) \<and> strneq (Ex a) (Ex b) \<and> Xl a = Xl b \<and> Bc a = Bc b \<and>
     Xh a = Xh b \<and> Rc a = Rc b \<and> Al a = Al b"

section \<open>Lemmas\<close>

lemma cpmdir_new_ok [simp]: "cpmdir_ok (cpmdir_new ps)"
  by (simp add: cpmdir_ok_def cpmdir_new_def)

lemma St_cpmdir_new [simp]: "St (cpmdir_new ps) = UNUSED"
  by (simp add: cpmdir_new_def)

lemma SetAL_ok [simp]:
  "cpmdir_ok (SetALByte i s d) = cpmdir_ok d" "cpmdir_ok (SetALWord i w d) = cpmdir_ok d"
  by (simp_all add: cpmdir_ok_def SetALByte_def SetALWord_def)

lemma GetALByte_Set:
  assumes "cpmdir_ok d" and "i < 16" and "j < 16"
  shows "GetALByte (SetALByte i s d) j = (if i = j then unat s else GetALByte d j)"
  using assms by (simp add: GetALByte_def SetALByte_def cpmdir_ok_def nth_list_update)

lemma GetALWord_Set:
  assumes "cpmdir_ok d" and "i < 8" and "j < 8"
  shows "GetALWord (SetALWord i w d) j = (if i = j then unat w else GetALWord d j)"
proof -
  have "2 * j \<noteq> 2 * i + 1" and "2 * j + 1 \<noteq> 2 * i" by presburger+
  with assms show ?thesis
    by (simp add: GetALWord_def SetALWord_def cpmdir_ok_def nth_list_update)
qed

lemma strneq_refl [simp]: "strneq xs xs"
  by (induction xs) auto

lemma strneq_eq:
  "length xs = length ys \<Longrightarrow> 0 \<notin> set xs \<Longrightarrow> strneq xs ys \<longleftrightarrow> xs = ys"
  by (induction xs ys rule: strneq.induct) auto

lemma cpmdir_eq_refl [simp]: "cpmdir_eq d d"
  by (simp add: cpmdir_eq_def)

lemma strneq_blank: "length xs = 3 \<Longrightarrow> strneq xs [32, 32, 32] \<longleftrightarrow> xs = [32, 32, 32]"
  by (cases xs; cases "tl xs"; cases "tl (tl xs)") auto

lemma find_index_Some_iff:
  "find_index b block xs = Some k \<longleftrightarrow>
     (\<exists>i < length xs. xs ! i = block \<and> (\<forall>j < i. xs ! j \<noteq> block) \<and> k = b + i)"
proof (induction b block xs arbitrary: k rule: find_index.induct)
  case (2 b block x xs)
  show ?case
  proof (cases "x = block")
    case True
    then show ?thesis by (auto simp: nth_Cons' split: if_splits intro: exI [of _ 0])
  next
    case False
    show ?thesis
    proof
      assume "find_index b block (x # xs) = Some k"
      with False obtain i where "i < length xs" "xs ! i = block" "\<forall>j<i. xs ! j \<noteq> block"
        "k = Suc b + i"
        using 2 by auto
      with False show "\<exists>i<length (x # xs). (x # xs) ! i = block \<and>
          (\<forall>j<i. (x # xs) ! j \<noteq> block) \<and> k = b + i"
        by (intro exI [of _ "Suc i"]) (auto simp: nth_Cons')
    next
      assume "\<exists>i<length (x # xs). (x # xs) ! i = block \<and>
          (\<forall>j<i. (x # xs) ! j \<noteq> block) \<and> k = b + i"
      then obtain i where i: "i < length (x # xs)" "(x # xs) ! i = block"
        "\<forall>j<i. (x # xs) ! j \<noteq> block" "k = b + i" by blast
      with False obtain n where n: "i = Suc n" by (cases i) auto
      have "\<forall>j<n. xs ! j \<noteq> block" using i(3) n by (metis Suc_less_eq nth_Cons_Suc)
      with i n have "find_index (Suc b) block xs = Some k"
        using 2 [OF False] by auto
      with False show "find_index b block (x # xs) = Some k" by simp
    qed
  qed
qed simp

lemma find_index_None_iff: "find_index b block xs = None \<longleftrightarrow> block \<notin> set xs"
  by (induction b block xs rule: find_index.induct) auto

lemma length_al_entries [simp]: "length (al_entries d bps) = bps"
  by (simp add: al_entries_def)

lemma GetExtNumber_eq: "GetExtNumber d = (unat (Xh d) * 256 + unat (Xl d)) mod 512"
  unfolding GetExtNumber_def by (simp only: push8_or [OF unat_u8_lt] and_0x1FF)

lemma GetExtNumber_lt: "GetExtNumber d < 512"
  by (simp add: GetExtNumber_eq)

lemma FindBlockIndex_Some:
  assumes "St d \<noteq> UNUSED" and "i < bps" and "bps \<le> 16"
    and "al_entries d bps ! i = block" and "\<forall>j < i. al_entries d bps ! j \<noteq> block"
  shows "FindBlockIndex d block bps = i + 1 + GetExtNumber d * bps"
proof -
  have "find_index 0 block (al_entries d bps) = Some i"
    using assms by (auto simp: find_index_Some_iff)
  moreover have "GetExtNumber d * bps \<le> 511 * 16"
    using assms GetExtNumber_lt [of d] by (intro mult_le_mono) simp_all
  ultimately show ?thesis using assms by (simp add: FindBlockIndex_def)
qed

lemma FindBlockIndex_0:
  assumes "bps = 8 \<or> bps = 16"
  shows "FindBlockIndex d block bps = 0 \<longleftrightarrow> St d = UNUSED \<or> block \<notin> set (al_entries d bps)"
proof (cases "find_index 0 block (al_entries d bps)")
  case None
  then show ?thesis
    by (simp add: FindBlockIndex_def find_index_None_iff [THEN iffD1, OF None])
next
  case (Some i)
  then have i: "i < bps" by (auto simp: find_index_Some_iff)
  have "GetExtNumber d * bps \<le> 511 * 16"
    using assms GetExtNumber_lt [of d] by (intro mult_le_mono) auto
  then have "i + 1 + GetExtNumber d * bps < 2 ^ 32" using i assms by auto
  then have "wrap32 (i + 1 + GetExtNumber d * bps) \<noteq> 0" by simp
  moreover have "block \<in> set (al_entries d bps)"
    using Some find_index_None_iff [of 0 block "al_entries d bps"] by auto
  ultimately show ?thesis using Some by (simp add: FindBlockIndex_def)
qed

subsection \<open>Names\<close>

lemma hex_digit_inj: "a < 16 \<Longrightarrow> b < 16 \<Longrightarrow> hex_digit a = hex_digit b \<longleftrightarrow> a = b"
  unfolding hex_digit_def by (subst nth_eq_iff_index_eq) (simp_all)

lemma length_GetName:
  "cpmdir_ok d \<Longrightarrow> length (GetName d) = (if Ex d = [32, 32, 32] then 14 else 15)"
  by (simp add: GetName_def cpmdir_ok_def strneq_blank)

lemma GetName_St:
  assumes "GetName a = GetName b"
  shows "St a = St b"
proof -
  have "hex_digit (unat (St a) div 16) = hex_digit (unat (St b) div 16)"
    and "hex_digit (unat (St a) mod 16) = hex_digit (unat (St b) mod 16)"
    using assms by (simp_all add: GetName_def)
  moreover have "unat (St a) div 16 < 16" "unat (St b) div 16 < 16"
    by (rule less_mult_imp_div_less, simp)+
  ultimately have "unat (St a) div 16 = unat (St b) div 16" "unat (St a) mod 16 = unat (St b) mod 16"
    by (simp_all add: hex_digit_inj)
  then have "unat (St a) = unat (St b)" by (metis div_mult_mod_eq)
  then show ?thesis by (simp only: word_unat_eq_iff)
qed

lemma GetName_inject:
  assumes "cpmdir_ok a" and "cpmdir_ok b"
  shows "GetName a = GetName b \<longleftrightarrow> St a = St b \<and> Fx a = Fx b \<and> Ex a = Ex b"
proof
  assume eq: "GetName a = GetName b"
  have tl: "drop 3 (GetName a) = drop 3 (GetName b)" by (simp add: eq)
  have ex: "Ex a = [32, 32, 32] \<longleftrightarrow> Ex b = [32, 32, 32]"
    using length_GetName [OF assms(1)] length_GetName [OF assms(2)] eq by (auto split: if_splits)
  have len: "length (Fx a) = 8" "length (Fx b) = 8" "length (Ex a) = 3" "length (Ex b) = 3"
    using assms by (simp_all add: cpmdir_ok_def)
  have "map byte_char (Fx a) = map byte_char (Fx b) \<and> map byte_char (Ex a) = map byte_char (Ex b)"
    using tl len ex by (cases "Ex a = [32, 32, 32]") (auto simp: GetName_def strneq_blank)
  then have "Fx a = Fx b \<and> Ex a = Ex b" by (simp only: map_byte_char_eq)
  with GetName_St [OF eq] show "St a = St b \<and> Fx a = Fx b \<and> Ex a = Ex b" by blast
next
  assume "St a = St b \<and> Fx a = Fx b \<and> Ex a = Ex b"
  then show "GetName a = GetName b" by (simp add: GetName_def)
qed

lemma GetName_cong [simp]:
  "GetName (d\<lparr>Xl := x\<rparr>) = GetName d" "GetName (d\<lparr>Xh := x\<rparr>) = GetName d"
  "GetName (d\<lparr>Rc := x\<rparr>) = GetName d" "GetName (d\<lparr>Bc := x\<rparr>) = GetName d"
  "GetName (d\<lparr>Al := y\<rparr>) = GetName d" "GetName (d\<lparr>pointersize := n\<rparr>) = GetName d"
  by (simp_all add: GetName_def)

section \<open>Fixed-width records in memory\<close>

text \<open>
  The contract of a packed structure: a fixed width, decoding what was encoded, and encoding what
  was decoded. A table of such structures is then indexed by multiples of the width.
\<close>

locale packed_record =
  fixes width :: nat and enc :: "'a \<Rightarrow> bytes" and dec :: "bytes \<Rightarrow> 'a option"
    and wf :: "'a \<Rightarrow> bool"
  assumes enc_width: "wf x \<Longrightarrow> length (enc x) = width"
    and dec_enc: "wf x \<Longrightarrow> dec (enc x @ rest) = Some x"
    and enc_dec: "dec bs = Some x \<Longrightarrow> wf x \<and> enc x = take width bs \<and> width \<le> length bs"
    and dec_total: "width \<le> length bs \<Longrightarrow> dec bs \<noteq> None"
begin

lemma enc_inj: "wf x \<Longrightarrow> wf y \<Longrightarrow> enc x = enc y \<Longrightarrow> x = y"
  using dec_enc [of x "[]"] dec_enc [of y "[]"] by simp

lemma length_table: "\<forall>x \<in> set xs. wf x \<Longrightarrow> length (concat (map enc xs)) = width * length xs"
  by (induction xs) (auto simp: enc_width)

lemma dec_table:
  assumes "\<forall>x \<in> set xs. wf x" and "i < length xs"
  shows "dec (drop (width * i) (concat (map enc xs) @ rest)) = Some (xs ! i)"
  using assms
proof (induction xs arbitrary: i)
  case (Cons x xs)
  then show ?case by (cases i) (simp_all add: dec_enc enc_width)
qed simp

lemma enc_table:
  assumes "\<forall>x \<in> set xs. wf x" and "i < length xs"
  shows "take width (drop (width * i) (concat (map enc xs))) = enc (xs ! i)"
  using assms
proof (induction xs arbitrary: i)
  case (Cons x xs)
  then show ?case by (cases i) (simp_all add: enc_width)
qed simp

lemma table_of_decoded:
  assumes "length bs = width * n" and "\<forall>i < n. dec (drop (width * i) bs) = Some (f i)"
  shows "concat (map (\<lambda>i. enc (f i)) [0..<n]) = bs"
  using assms
proof (induction n arbitrary: bs f)
  case (Suc n)
  have f0: "enc (f 0) = take width bs" using Suc.prems enc_dec [of bs "f 0"] by auto
  have "concat (map (\<lambda>i. enc (f (Suc i))) [0..<n]) = drop width bs"
  proof (rule Suc.IH)
    show "length (drop width bs) = width * n" using Suc.prems by simp
    have "dec (drop (width * i + width) bs) = Some (f (Suc i))" if "i < n" for i
      using Suc.prems(2) [rule_format, of "Suc i"] that by (simp add: add.commute)
    then show "\<forall>i<n. dec (drop (width * i) (drop width bs)) = Some (f (Suc i))"
      by simp
  qed
  then have "enc (f 0) @ concat (map (\<lambda>i. enc (f (Suc i))) [0..<n]) = bs"
    using f0 by simp
  then show ?case
    by (simp add: upt_conv_Cons map_Suc_upt [symmetric] comp_def del: upt_Suc)
qed simp

end

interpretation dpbrec: packed_record 15 dpb_image dpb_of_bytes "\<lambda>_. True"
proof unfold_locales
  fix d rest show "dpb_of_bytes (dpb_image d @ rest) = Some d" by (rule dpb_of_bytes_image)
next
  fix bs d assume "dpb_of_bytes bs = Some d"
  then show "True \<and> dpb_image d = take 15 bs \<and> 15 \<le> length bs"
    by (cases bs rule: dpb_of_bytes.cases) (auto simp: dpb_image_def)
next
  fix bs :: bytes assume "15 \<le> length bs"
  then show "dpb_of_bytes bs \<noteq> None" by (cases bs rule: dpb_of_bytes.cases) auto
qed (simp add: dpb_image_def)

definition entry_ok :: "nat \<Rightarrow> cpmdir \<Rightarrow> bool" where
  "entry_ok ps d \<longleftrightarrow> cpmdir_ok d \<and> pointersize d = ps"

interpretation dirrec: packed_record 32 cpmdir_image "cpmdir_of_bytes ps" "entry_ok ps" for ps
proof unfold_locales
  fix d assume "entry_ok ps d"
  then show "length (cpmdir_image d) = 32" by (simp add: entry_ok_def cpmdir_ok_def cpmdir_image_def)
next
  fix d rest assume "entry_ok ps d"
  then have "length (Fx d) = 8" "length (Ex d) = 3" "length (Al d) = 16" "pointersize d = ps"
    by (simp_all add: entry_ok_def cpmdir_ok_def)
  then show "cpmdir_of_bytes ps (cpmdir_image d @ rest) = Some d"
    by (simp add: cpmdir_of_bytes_def cpmdir_image_def nth_append nth_Cons')
next
  fix bs d assume dec: "cpmdir_of_bytes ps bs = Some d"
  then have "32 \<le> length bs" by (simp add: cpmdir_of_bytes_def split: if_splits)
  moreover have "cpmdir_image d = take 32 bs"
    using dec calculation
    by (auto simp: cpmdir_of_bytes_def cpmdir_image_def nth_append nth_Cons' split: if_splits
        intro!: nth_equalityI arg_cong [where f = "nth bs"])
  ultimately show "entry_ok ps d \<and> cpmdir_image d = take 32 bs \<and> 32 \<le> length bs"
    using dec by (auto simp: cpmdir_of_bytes_def entry_ok_def cpmdir_ok_def)
next
  fix bs :: bytes assume "32 \<le> length bs"
  then show "cpmdir_of_bytes ps bs \<noteq> None" by (simp add: cpmdir_of_bytes_def)
qed

end
