(* ===== verification/Disk_Import.thy ===== *)
theory Disk_Import
  imports Host_Files Directory_Entry
begin

text \<open>
  The host-directory drive, first half: the state of classes \<open>simdrive\<close> and \<open>disk\<close>, the
  allocation of directory entries (\<open>NewDir\<close>) and blocks (\<open>addfile\<close>), the scan of the host
  directory tree (\<open>readhost\<close>) with its name mapping, and the constructor \<open>disk::disk\<close>.
\<close>

section \<open>State\<close>

datatype ostype_t = P2DOS | ZSDOS | CPM22 | CPM30

text \<open>The members \<^verbatim>\<open>path_\<close>, \<^verbatim>\<open>os_\<close>, \<^verbatim>\<open>dpb_\<close> and so on, without the trailing underscore.\<close>

record simdrive =
  drvpath :: string
  ostype :: ostype_t
  dpb :: dpb_t
  stbl :: "nat list"
  selected :: int

record disk = simdrive +
  dir :: "cpmdir list"
  cpm2unix :: "string \<rightharpoonup> string"
  freeblock :: nat
  bootblock :: string
  datastart :: nat
  dirstart :: nat
  cache :: "(nat \<times> bytes) list"
  smap :: "nat option list"

abbreviation ptr_type :: "disk \<Rightarrow> nat" where
  "ptr_type d \<equiv> BlockPtrType (dpb d)"

definition DEFAULTPTRCNT :: nat where "DEFAULTPTRCNT = 16"
definition CPMSYS :: string where "CPMSYS = ''.cpm22.sys''"

section \<open>Allocation\<close>

fun first_unused :: "nat \<Rightarrow> cpmdir list \<Rightarrow> nat option" where
  "first_unused i [] = None"
| "first_unused i (e # es) = (if St e = UNUSED then Some i else first_unused (Suc i) es)"

text \<open>\<open>NewDir\<close> returns a pointer into \<open>dir\<close>, here the index, after setting its pointer type.\<close>

definition NewDir :: "disk \<Rightarrow> (nat \<times> disk) option" where
  "NewDir d =
     (case first_unused 0 (dir d) of
        None \<Rightarrow> None
      | Some i \<Rightarrow> Some (i, d\<lparr>dir := (dir d)[i := (dir d ! i)\<lparr>pointersize := ptr_type d\<rparr>]\<rparr>))"

text \<open>The inner loop of \<open>addfile\<close>: \<open>r\<close> pointers of entry \<open>i\<close> still to fill, from index \<open>p\<close>.\<close>

fun fill_blocks :: "nat \<Rightarrow> nat \<Rightarrow> nat \<Rightarrow> disk \<Rightarrow> (unit, disk) outcome" where
  "fill_blocks i 0 p d = Ok () d"
| "fill_blocks i (Suc r) p d =
     (let fb = freeblock d;
          e = (if ptr_type d = 8 then SetALWord p (of_nat fb) (dir d ! i)
               else SetALByte p (of_nat fb) (dir d ! i));
          d' = d\<lparr>dir := (dir d)[i := e], freeblock := wrap32 (fb + 1)\<rparr>
      in if MaxBlock (dpb d') \<le> freeblock d' then Fail Terminate d'
         else fill_blocks i r (Suc p) d')"

text \<open>The outer loop: \<open>r\<close> extents still to allocate, extent number \<open>k\<close>, \<open>blocks\<close> left.\<close>

fun fill_extents :: "u8 \<Rightarrow> string \<Rightarrow> nat \<Rightarrow> nat \<Rightarrow> nat \<Rightarrow> disk \<Rightarrow> (unit, disk) outcome" where
  "fill_extents userno cpmname 0 k blocks d = Ok () d"
| "fill_extents userno cpmname (Suc r) k blocks d =
     (case NewDir d of
        None \<Rightarrow> Fail Terminate d
      | Some (i, d1) \<Rightarrow>
          let e = (dir d1 ! i)\<lparr>Xl := of_nat (k AND 0x0F), Xh := of_nat (drop_bit 4 k AND 0x1F),
                               St := userno\<rparr>
          in case SetName cpmname e of
               Fail err e' \<Rightarrow> Fail err (d1\<lparr>dir := (dir d1)[i := e']\<rparr>)
             | Ok _ e' \<Rightarrow>
                 let n = (if blocks < ptr_type d1 then blocks else ptr_type d1);
                     e'' = e'\<lparr>Rc := of_nat (wrap32 (n * BlockSize (dpb d1)) div 128), Bc := 0\<rparr>
                 in bindo (fill_blocks i n 0 (d1\<lparr>dir := (dir d1)[i := e'']\<rparr>))
                      (\<lambda>_ d2. fill_extents userno cpmname r (Suc k) (blocks - n) d2))"

definition node_size :: "node \<Rightarrow> nat" where
  "node_size n = (case n of Reg f \<Rightarrow> length f | _ \<Rightarrow> 0)"

definition addfile :: "host \<Rightarrow> string \<Rightarrow> u8 \<Rightarrow> string \<Rightarrow> disk \<Rightarrow> (unit, disk) outcome" where
  "addfile h path userno cpmname d =
     (case SetName cpmname ((cpmdir_new (ptr_type d))\<lparr>St := userno\<rparr>) of
        Fail e _ \<Rightarrow> Fail e d
      | Ok _ tmp \<Rightarrow>
          let s = GetName tmp
          in if cpm2unix d s \<noteq> None then Ok () d
             else case host_stat h path of
               Inl _ \<Rightarrow> Fail Terminate d
             | Inr nd \<Rightarrow>
                 if BlockSize (dpb d) = 0 then Fail (Undefined DivideByZero) d
                 else let blocks = (node_size nd + BlockSize (dpb d) - 1) div BlockSize (dpb d);
                          dirs = wrap32 (1 + blocks div ptr_type d)
                      in bindo (fill_extents userno cpmname dirs 0 blocks d)
                           (\<lambda>_ d'. Ok () (d'\<lparr>cpm2unix := (cpm2unix d')(s \<mapsto> path)\<rparr>)))"

section \<open>Scanning the host directory\<close>

definition noname :: string where "noname = '' <>,;:=?*[].''"

definition to_upper :: "char \<Rightarrow> char" where
  "to_upper c = (if 97 \<le> (of_char c :: nat) \<and> (of_char c :: nat) \<le> 122
                 then char_of ((of_char c :: nat) - 32) else c)"

text \<open>Copy at most \<open>n\<close> characters in upper case up to the first one not allowed.\<close>

fun take_allowed :: "nat \<Rightarrow> string \<Rightarrow> string \<times> string" where
  "take_allowed 0 s = ([], s)"
| "take_allowed (Suc n) [] = ([], [])"
| "take_allowed (Suc n) (c # s) =
     (if c \<in> set noname then ([], c # s)
      else (to_upper c # fst (take_allowed n s), snd (take_allowed n s)))"

definition pad :: "nat \<Rightarrow> string \<Rightarrow> string" where
  "pad n s = s @ replicate (n - length s) CHR '' ''"

text \<open>The twelve-character name of a host file; \<open>None\<close> when the file is skipped.\<close>

definition cpm_filename :: "string \<Rightarrow> string option" where
  "cpm_filename dname =
     (let (base, rest) = take_allowed 8 dname
      in if base = [] then None
         else case dropWhile (\<lambda>c. c \<noteq> CHR ''.'') rest of
                [] \<Rightarrow> Some (pad 8 base @ ''    '')
              | _ # r \<Rightarrow> Some (pad 8 base @ ''.'' @ pad 3 (fst (take_allowed 3 r))))"

fun import_names :: "host \<Rightarrow> string \<Rightarrow> u8 \<Rightarrow> string list \<Rightarrow> disk \<Rightarrow> (unit, disk) outcome" where
  "import_names h userpath userno [] d = Ok () d"
| "import_names h userpath userno (nm # nms) d =
     (if nm = ''.'' \<or> nm = ''..'' then import_names h userpath userno nms d
      else case host_stat h (userpath @ ''/'' @ nm) of
        Inl e \<Rightarrow> Fail (SystemError e) d
      | Inr (Reg _) \<Rightarrow>
          (case cpm_filename nm of
             None \<Rightarrow> import_names h userpath userno nms d
           | Some cpmname \<Rightarrow>
               bindo (addfile h (userpath @ ''/'' @ nm) userno cpmname d)
                 (\<lambda>_ d'. import_names h userpath userno nms d'))
      | Inr _ \<Rightarrow> import_names h userpath userno nms d)"

abbreviation (input) ENOTDIR :: nat where "ENOTDIR \<equiv> 20"

definition readuser :: "host \<Rightarrow> string \<Rightarrow> u8 \<Rightarrow> disk \<Rightarrow> (unit, disk) outcome" where
  "readuser h userpath userno d =
     (case host_stat h userpath of
        Inl e \<Rightarrow> Fail (SystemError e) d
      | Inr Directory \<Rightarrow> import_names h userpath userno (readdir_names h userpath) d
      | Inr _ \<Rightarrow> Fail (SystemError ENOTDIR) d)"

fun nat_string :: "nat \<Rightarrow> string" where
  "nat_string n =
     (if n < 10 then [char_of (48 + n)] else nat_string (n div 10) @ [char_of (48 + n mod 10)])"

declare nat_string.simps [simp del]

fun import_users :: "host \<Rightarrow> string \<Rightarrow> nat list \<Rightarrow> disk \<Rightarrow> (unit, disk) outcome" where
  "import_users h dpath [] d = Ok () d"
| "import_users h dpath (user # us) d =
     (let userpath = dpath @ ''/'' @ nat_string user
      in case host_stat h userpath of
        Inl e \<Rightarrow> if e = ENOENT then import_users h dpath us d else Fail (SystemError e) d
      | Inr Directory \<Rightarrow>
          bindo (readuser h userpath (of_nat user) d) (\<lambda>_ d'. import_users h dpath us d')
      | Inr _ \<Rightarrow> import_users h dpath us d)"

definition readhost :: "host \<Rightarrow> string \<Rightarrow> disk \<Rightarrow> (unit, disk) outcome" where
  "readhost h dpath d =
     bindo (readuser h dpath CPMUSRNO d) (\<lambda>_ d'. import_users h dpath [1..<16] d')"

section \<open>Construction\<close>

text \<open>
  \<open>while(a01) { freeblock_++; a01 <<= 1; }\<close> on a 16-bit value: the number of leading bits up to
  and including the lowest one set.
\<close>

definition low_bit :: "u16 \<Rightarrow> nat" where
  "low_bit a = (LEAST n. bit a n)"

lemma low_bit_lt: "a \<noteq> 0 \<Longrightarrow> low_bit a < 16"
proof -
  assume "a \<noteq> 0"
  then obtain n where n: "bit a n" by (metis bit_eqI bit_0_eq bot_apply bot_bool_def)
  then have "bit a (low_bit a)" unfolding low_bit_def by (rule LeastI)
  then show ?thesis using bit_imp_le_length [of a] by simp
qed

lemma bit_low_bit: "a \<noteq> 0 \<Longrightarrow> bit a (low_bit a)"
  unfolding low_bit_def by (metis LeastI bit_eqI bit_0_eq bot_apply bot_bool_def)

lemma low_bit_shift:
  assumes "push_bit 1 a \<noteq> (0 :: u16)" and "a \<noteq> 0"
  shows "low_bit (push_bit 1 a) = Suc (low_bit a)"
proof -
  define s where "s = push_bit 1 a"
  have b: "bit s n \<longleftrightarrow> 1 \<le> n \<and> n < 16 \<and> bit a (n - 1)" for n
    unfolding s_def by (simp only: bit_push_bit_iff possible_bit_word) simp
  have s0: "s \<noteq> 0" unfolding s_def by (rule assms(1))
  have l: "low_bit s < 16" using low_bit_lt [OF s0] .
  have "bit s (low_bit s)" by (rule bit_low_bit [OF s0])
  then have "bit a (low_bit s - 1)" and pos: "1 \<le> low_bit s" by (simp_all add: b)
  then have le: "low_bit a \<le> low_bit s - 1"
    unfolding low_bit_def [of a] by (simp add: Least_le)
  then have "Suc (low_bit a) < 16" using l pos by linarith
  then have "bit s (Suc (low_bit a))" using bit_low_bit [OF assms(2)] by (simp add: b)
  then have "low_bit s \<le> Suc (low_bit a)"
    unfolding low_bit_def [of s] by (rule Least_le)
  with le pos show ?thesis unfolding s_def by linarith
qed

function count_dirblocks :: "u16 \<Rightarrow> nat" where
  "count_dirblocks a01 = (if a01 = 0 then 0 else Suc (count_dirblocks (push_bit 1 a01)))"
  by pat_completeness auto
termination
proof (relation "measure (\<lambda>a. if a = 0 then 0 else 16 - low_bit a)")
  fix a :: u16 assume a: "a \<noteq> 0"
  define s where "s = push_bit 1 a"
  have "s = 0 \<or> low_bit s = Suc (low_bit a)"
    using low_bit_shift [OF _ a] unfolding s_def by blast
  then have "(s, a) \<in> measure (\<lambda>a. if a = 0 then 0 else 16 - low_bit a)"
    using low_bit_lt [OF a] a by auto
  then show "(push_bit 1 a, a) \<in> measure (\<lambda>a. if a = 0 then 0 else 16 - low_bit a)"
    by (simp only: s_def)
qed simp

declare count_dirblocks.simps [simp del]

definition disk_new :: "host \<Rightarrow> string \<Rightarrow> ostype_t \<Rightarrow> dpb_t \<Rightarrow> bytes option \<Rightarrow> cpm_error + disk" where
  "disk_new h path os pb tbl =
     (case make_stbl (SectorsTrack pb) tbl of
        Inl u \<Rightarrow> Inl (Undefined u)
      | Inr st \<Rightarrow>
          if 32 \<le> BlockShift pb then Inl (Undefined ShiftRange)
          else case make_smap st of
            Inl u \<Rightarrow> Inl (Undefined u)
          | Inr sm \<Rightarrow>
              let ps = (if BlockPtrType pb \<noteq> DEFAULTPTRCNT then BlockPtrType pb else DEFAULTPTRCNT);
                  fb = count_dirblocks (of_nat (A01 pb));
                  d = \<lparr>drvpath = path, ostype = os, dpb = pb, stbl = st, selected = -1,
                       dir = replicate (DirectoryEntries pb) (cpmdir_new ps),
                       cpm2unix = Map.empty, freeblock = fb,
                       bootblock = path @ ''/'' @ CPMSYS,
                       datastart = wrap32 (fb * 2 ^ BlockShift pb),
                       dirstart = wrap32 (ReservedTracks pb * SectorsTrack pb),
                       cache = [], smap = sm\<rparr>
              in case readhost h path d of
                   Ok _ d' \<Rightarrow> Inr d'
                 | Fail e _ \<Rightarrow> Inl e)"

section \<open>Executable forms\<close>

text \<open>The recursions over a counter, for evaluation with binary numbers.\<close>

lemma take_allowed_code [code]:
  "take_allowed n s =
     (if n = 0 then ([], s)
      else case s of
        [] \<Rightarrow> ([], [])
      | c # t \<Rightarrow> if c \<in> set noname then ([], c # t)
                 else (to_upper c # fst (take_allowed (n - 1) t), snd (take_allowed (n - 1) t)))"
  by (cases n; cases s) simp_all

lemma fill_blocks_code [code]:
  "fill_blocks i r p d =
     (if r = 0 then Ok () d
      else let fb = freeblock d;
               e = (if ptr_type d = 8 then SetALWord p (of_nat fb) (dir d ! i)
                    else SetALByte p (of_nat fb) (dir d ! i));
               d' = d\<lparr>dir := (dir d)[i := e], freeblock := wrap32 (fb + 1)\<rparr>
           in if MaxBlock (dpb d') \<le> freeblock d' then Fail Terminate d'
              else fill_blocks i (r - 1) (Suc p) d')"
  by (cases r) (simp_all add: Let_def)

lemma fill_extents_code [code]:
  "fill_extents userno cpmname r k blocks d =
     (if r = 0 then Ok () d
      else case NewDir d of
        None \<Rightarrow> Fail Terminate d
      | Some (i, d1) \<Rightarrow>
          let e = (dir d1 ! i)\<lparr>Xl := of_nat (k AND 0x0F), Xh := of_nat (drop_bit 4 k AND 0x1F),
                               St := userno\<rparr>
          in case SetName cpmname e of
               Fail err e' \<Rightarrow> Fail err (d1\<lparr>dir := (dir d1)[i := e']\<rparr>)
             | Ok _ e' \<Rightarrow>
                 let n = (if blocks < ptr_type d1 then blocks else ptr_type d1);
                     e'' = e'\<lparr>Rc := of_nat (wrap32 (n * BlockSize (dpb d1)) div 128), Bc := 0\<rparr>
                 in bindo (fill_blocks i n 0 (d1\<lparr>dir := (dir d1)[i := e'']\<rparr>))
                      (\<lambda>_ d2. fill_extents userno cpmname (r - 1) (Suc k) (blocks - n) d2))"
proof (cases r)
  case (Suc r')
  then have "r - 1 = r'" "r \<noteq> 0" by simp_all
  then show ?thesis unfolding \<open>r - 1 = r'\<close> unfolding Suc by simp
qed simp

section \<open>What the constructor allocates\<close>

lemma count_dirblocks_eq: "a \<noteq> 0 \<Longrightarrow> count_dirblocks a = 16 - low_bit a"
proof (induction a rule: count_dirblocks.induct)
  case (1 a)
  define s where "s = push_bit 1 a"
  have step: "count_dirblocks a = Suc (count_dirblocks s)"
    using "1.prems" by (subst count_dirblocks.simps) (simp only: s_def if_False)
  show ?case
  proof (cases "s = 0")
    case True
    then have "count_dirblocks s = 0" by (simp add: count_dirblocks.simps)
    moreover have "low_bit a = 15"
    proof -
      have "bit s n \<longleftrightarrow> 1 \<le> n \<and> n < 16 \<and> bit a (n - 1)" for n
        unfolding s_def by (simp only: bit_push_bit_iff possible_bit_word) simp
      with True have "\<not> (Suc (low_bit a) < 16 \<and> bit a (low_bit a))"
        by (metis bit_0_eq bot_apply bot_bool_def diff_Suc_1 le_add1 plus_1_eq_Suc)
      with bit_low_bit [OF "1.prems"] low_bit_lt [OF "1.prems"] show ?thesis by linarith
    qed
    ultimately show ?thesis using step by simp
  next
    case False
    then have "count_dirblocks s = 16 - low_bit s"
      using "1.IH" "1.prems" unfolding s_def by blast
    moreover have "low_bit s = Suc (low_bit a)"
      using low_bit_shift [OF _ "1.prems"] False unfolding s_def by blast
    moreover have "low_bit s < 16" by (rule low_bit_lt [OF False])
    ultimately show ?thesis using step by simp
  qed
qed

lemma MaxBlock_le: "MaxBlock pb \<le> 65536"
  unfolding MaxBlock_def using unat_u16_lt [of "dsm pb"] by linarith

text \<open>The pointer area of an entry that holds the \<open>n\<close> consecutive blocks from \<open>fb\<close> on.\<close>

definition al_bytes :: "nat \<Rightarrow> nat \<Rightarrow> nat \<Rightarrow> bytes" where
  "al_bytes P n fb =
     map (\<lambda>i. if P = 8
              then (if i div 2 < n
                    then (if even i then lo8 (of_nat (fb + i div 2)) else hi8 (of_nat (fb + i div 2)))
                    else 0)
              else (if i < n then of_nat (fb + i) else 0)) [0..<16]"

lemma length_al_bytes [simp]: "length (al_bytes P n fb) = 16"
  by (simp add: al_bytes_def)

lemma nth_al_bytes: "i < 16 \<Longrightarrow> al_bytes P n fb ! i =
   (if P = 8
    then (if i div 2 < n
          then (if even i then lo8 (of_nat (fb + i div 2)) else hi8 (of_nat (fb + i div 2)))
          else 0)
    else (if i < n then of_nat (fb + i) else 0))"
  by (simp add: al_bytes_def del: upt_rec_numeral)

lemma al_bytes_0: "al_bytes P 0 fb = replicate 16 0"
  by (rule nth_equalityI) (simp_all add: nth_al_bytes)

lemma al_bytes_step8:
  assumes "p < 8"
  shows "(al_bytes 8 p fb)[2 * p := lo8 (of_nat (fb + p)), 2 * p + 1 := hi8 (of_nat (fb + p))]
     = al_bytes 8 (Suc p) fb" (is "?l = ?r")
proof (rule nth_equalityI)
  fix i assume "i < length ?l"
  then have i: "i < 16" by simp
  have "i div 2 < Suc p \<longleftrightarrow> i div 2 < p \<or> i = 2 * p \<or> i = 2 * p + 1" by presburger
  moreover have "\<not> 2 * p div 2 < p" "\<not> (2 * p + 1) div 2 < p" by presburger+
  ultimately show "?l ! i = ?r ! i"
    using i assms by (auto simp: nth_list_update nth_al_bytes)
qed simp

lemma al_bytes_step16:
  assumes "p < 16"
  shows "(al_bytes 16 p fb)[p := of_nat (fb + p)] = al_bytes 16 (Suc p) fb" (is "?l = ?r")
proof (rule nth_equalityI)
  fix i assume "i < length ?l"
  then have i: "i < 16" by simp
  then show "?l ! i = ?r ! i"
    using assms by (auto simp: nth_list_update nth_al_bytes less_Suc_eq)
qed simp

lemma fill_blocks_ok:
  assumes "i < length (dir d)" and "Al (dir d ! i) = al_bytes (ptr_type d) p fb"
    and "freeblock d = fb + p" and "p + r \<le> ptr_type d" and "r = 0 \<or> fb + p + r < MaxBlock (dpb d)"
  shows "fill_blocks i r p d =
     Ok () (d\<lparr>dir := (dir d)[i := (dir d ! i)\<lparr>Al := al_bytes (ptr_type d) (p + r) fb\<rparr>],
              freeblock := fb + p + r\<rparr>)"
  using assms
proof (induction r arbitrary: p d)
  case 0
  have "(dir d)[i := (dir d ! i)\<lparr>Al := al_bytes (ptr_type d) p fb\<rparr>] = dir d"
    unfolding 0(2) [symmetric] by simp
  with 0(3) show ?case by (cases d) simp
next
  case (Suc r)
  let ?P = "ptr_type d"
  define e where "e = (if ?P = 8 then SetALWord p (of_nat (fb + p)) (dir d ! i)
                       else SetALByte p (of_nat (fb + p)) (dir d ! i))"
  define d' where "d' = d\<lparr>dir := (dir d)[i := e], freeblock := fb + Suc p\<rparr>"
  have P: "?P = 8 \<or> ?P = 16" by (rule BlockPtrType_cases)
  have e: "e = (dir d ! i)\<lparr>Al := al_bytes ?P (Suc p) fb\<rparr>"
    using P Suc.prems al_bytes_step8 [of p fb] al_bytes_step16 [of p fb]
    by (auto simp: e_def SetALWord_def SetALByte_def)
  have small: "wrap32 (fb + Suc p) = fb + Suc p" "fb + Suc p < MaxBlock (dpb d)"
    using Suc.prems MaxBlock_le [of "dpb d"] by simp_all
  then have step: "fill_blocks i (Suc r) p d = fill_blocks i r (Suc p) d'"
    using Suc.prems(3) by (simp add: Let_def d'_def e_def)
  have "fill_blocks i r (Suc p) d' =
     Ok () (d'\<lparr>dir := (dir d')[i := (dir d' ! i)\<lparr>Al := al_bytes (ptr_type d') (Suc p + r) fb\<rparr>],
              freeblock := fb + Suc p + r\<rparr>)"
    using Suc.prems e by (intro Suc.IH) (simp_all add: d'_def)
  then show ?case using step e Suc.prems(1) by (simp add: d'_def)
qed

lemma fill_blocks_full:
  assumes "freeblock d < MaxBlock (dpb d)" and "0 < r" and "MaxBlock (dpb d) \<le> freeblock d + r"
  shows "\<exists>d'. fill_blocks i r p d = Fail Terminate d'"
  using assms
proof (induction r arbitrary: p d)
  case (Suc r)
  have w: "wrap32 (Suc (freeblock d)) = Suc (freeblock d)"
    using Suc.prems MaxBlock_le [of "dpb d"] by simp
  show ?case
  proof (cases "MaxBlock (dpb d) \<le> freeblock d + 1")
    case True
    then show ?thesis by (simp add: Let_def w)
  next
    case False
    with Suc.prems have "0 < r" by simp
    with False Suc.prems w show ?thesis by (simp add: Let_def) (intro conjI impI Suc.IH, simp_all)
  qed
qed simp

text \<open>The entry that \<open>addfile\<close> writes for extent \<open>k\<close> with \<open>n\<close> blocks from \<open>fb\<close> on.\<close>

definition extent_entry :: "dpb_t \<Rightarrow> u8 \<Rightarrow> string \<Rightarrow> nat \<Rightarrow> nat \<Rightarrow> nat \<Rightarrow> cpmdir" where
  "extent_entry pb u nm k n fb =
     \<lparr>St = u, Fx = map char_byte (take 8 nm), Ex = map char_byte (take 3 (drop 9 nm)),
      Xl = of_nat (k AND 0x0F), Bc = 0, Xh = of_nat (drop_bit 4 k AND 0x1F),
      Rc = of_nat (wrap32 (n * BlockSize pb) div 128), Al = al_bytes (BlockPtrType pb) n fb,
      pointersize = BlockPtrType pb\<rparr>"

definition file_extents :: "dpb_t \<Rightarrow> u8 \<Rightarrow> string \<Rightarrow> nat \<Rightarrow> nat \<Rightarrow> nat \<Rightarrow> nat \<Rightarrow> cpmdir list" where
  "file_extents pb u nm r k blocks fb =
     map (\<lambda>j. extent_entry pb u nm (k + j) (min (blocks - j * BlockPtrType pb) (BlockPtrType pb))
                (fb + j * BlockPtrType pb)) [0..<r]"

lemma first_unused_app:
  assumes "\<forall>e \<in> set us. St e \<noteq> UNUSED" and "St x = UNUSED"
  shows "first_unused i (us @ x # xs) = Some (i + length us)"
  using assms by (induction us arbitrary: i) auto

lemma first_unused_None: "first_unused i es = None \<longleftrightarrow> (\<forall>e \<in> set es. St e \<noteq> UNUSED)"
  by (induction i es rule: first_unused.induct) auto

lemma file_extents_Suc:
  "file_extents pb u nm (Suc r) k blocks fb =
     extent_entry pb u nm k (min blocks (BlockPtrType pb)) fb
     # file_extents pb u nm r (Suc k) (blocks - BlockPtrType pb) (fb + BlockPtrType pb)"
  by (simp add: file_extents_def upt_conv_Cons map_Suc_upt [symmetric] comp_def add.assoc
      del: upt_Suc)

lemma extent_entry_0: "extent_entry pb u nm k 0 fb = extent_entry pb u nm k 0 fb'"
  by (simp add: extent_entry_def al_bytes_0)

lemma file_extents_0: "file_extents pb u nm r k 0 fb = file_extents pb u nm r k 0 fb'"
  unfolding file_extents_def by (simp add: extent_entry_0 [of _ _ _ _ "fb + _" "fb' + _"])

lemma NewDir_fresh:
  assumes "\<forall>e \<in> set us. St e \<noteq> UNUSED" and "dir d = us @ replicate (Suc m) (cpmdir_new (ptr_type d))"
  shows "NewDir d = Some (length us, d)"
  using assms by (cases d) (simp add: NewDir_def first_unused_app nth_append cpmdir_new_def)

lemma fill_extents_unfold:
  fixes d :: disk
  defines "P \<equiv> ptr_type d" and "fb \<equiv> freeblock d"
  assumes "length nm = 12" and "\<forall>e \<in> set us. St e \<noteq> UNUSED"
    and "dir d = us @ replicate (Suc m) (cpmdir_new P)" and n: "n = min blocks P"
  shows "fill_extents u nm (Suc r) k blocks d =
     bindo (fill_blocks (length us) n 0
              (d\<lparr>dir := us @ (extent_entry (dpb d) u nm k n fb)\<lparr>Al := al_bytes P 0 fb\<rparr>
                          # replicate m (cpmdir_new P)\<rparr>))
       (\<lambda>_ d2. fill_extents u nm r (Suc k) (blocks - n) d2)"
proof -
  have nd: "NewDir d = Some (length us, d)"
    using NewDir_fresh assms(4,5) unfolding P_def by blast
  have "(extent_entry (dpb d) u nm k n fb)\<lparr>Al := al_bytes P 0 fb\<rparr> =
      (cpmdir_new P)\<lparr>Xl := of_nat (k AND 0x0F), Xh := of_nat (drop_bit 4 k AND 0x1F),
        St := u, Fx := map char_byte (take 8 nm), Ex := map char_byte (take 3 (drop 9 nm)),
        Rc := of_nat (wrap32 (n * BlockSize (dpb d)) div 128), Bc := 0\<rparr>"
    by (simp add: extent_entry_def cpmdir_new_def al_bytes_0 P_def)
  with assms(3,5) n show ?thesis
    by (cases "blocks < P") (simp_all add: nd SetName_def Let_def P_def [symmetric])
qed

text \<open>
  \<open>addfile\<close> appends the extents of a file behind the used entries and takes the next free blocks
  in order, as long as it does not reach the end of the disk.
\<close>

lemma fill_one_extent:
  fixes d :: disk
  defines "P \<equiv> ptr_type d" and "fb \<equiv> freeblock d"
  assumes n: "n = min blocks P" and "n = 0 \<or> fb + n < MaxBlock (dpb d)"
  shows "fill_blocks (length us) n 0
            (d\<lparr>dir := us @ (extent_entry (dpb d) u nm k n fb)\<lparr>Al := al_bytes P 0 fb\<rparr> # rest\<rparr>) =
     Ok () (d\<lparr>dir := us @ extent_entry (dpb d) u nm k n fb # rest, freeblock := fb + n\<rparr>)"
proof -
  define d1 where "d1 = d\<lparr>dir := us @ (extent_entry (dpb d) u nm k n fb)\<lparr>Al := al_bytes P 0 fb\<rparr> # rest\<rparr>"
  have "fill_blocks (length us) n 0 d1 =
     Ok () (d1\<lparr>dir := (dir d1)[length us := (dir d1 ! length us)\<lparr>Al := al_bytes P (0 + n) fb\<rparr>],
              freeblock := fb + 0 + n\<rparr>)"
    using assms fill_blocks_ok [of "length us" d1 0 fb n] by (simp add: d1_def)
  then show ?thesis by (simp add: d1_def extent_entry_def P_def)
qed

lemma fill_extents_ok:
  assumes "length nm = 12" and "u \<noteq> UNUSED" and "\<forall>e \<in> set us. St e \<noteq> UNUSED"
    and "dir d = us @ replicate m (cpmdir_new (ptr_type d))" and "r \<le> m"
    and "blocks = 0 \<or> freeblock d + min blocks (r * ptr_type d) < MaxBlock (dpb d)"
  shows "fill_extents u nm r k blocks d =
     Ok () (d\<lparr>dir := us @ file_extents (dpb d) u nm r k blocks (freeblock d)
                        @ replicate (m - r) (cpmdir_new (ptr_type d)),
              freeblock := freeblock d + min blocks (r * ptr_type d)\<rparr>)"
  using assms
proof (induction r arbitrary: k blocks d us m)
  case 0
  then show ?case by (cases d) (simp add: file_extents_def)
next
  case (Suc r)
  let ?P = "ptr_type d" and ?fb = "freeblock d"
  define n where "n = min blocks ?P"
  obtain m' where m: "m = Suc m'" using Suc.prems(5) by (cases m) auto
  define us' where "us' = us @ [extent_entry (dpb d) u nm k n ?fb]"
  define d2 where "d2 = d\<lparr>dir := us' @ replicate m' (cpmdir_new ?P), freeblock := ?fb + n\<rparr>"
  have "n = 0 \<or> ?fb + n < MaxBlock (dpb d)"
    using Suc.prems(6) by (auto simp: n_def min_def split: if_splits)
  then have step: "fill_extents u nm (Suc r) k blocks d = fill_extents u nm r (Suc k) (blocks - n) d2"
    using Suc.prems(1,3,4) m
      fill_extents_unfold [OF Suc.prems(1,3), of d m' n blocks u r k]
      fill_one_extent [of n blocks d us u nm k "replicate m' (cpmdir_new ?P)"]
    by (simp add: n_def d2_def us'_def)
  have "fill_extents u nm r (Suc k) (blocks - n) d2 =
     Ok () (d2\<lparr>dir := us' @ file_extents (dpb d2) u nm r (Suc k) (blocks - n) (freeblock d2)
                        @ replicate (m' - r) (cpmdir_new (ptr_type d2)),
              freeblock := freeblock d2 + min (blocks - n) (r * ptr_type d2)\<rparr>)"
  proof (rule Suc.IH)
    show "blocks - n = 0 \<or> freeblock d2 + min (blocks - n) (r * ptr_type d2) < MaxBlock (dpb d2)"
      using Suc.prems(6) by (auto simp: d2_def n_def min_def split: if_splits)
  qed (use Suc.prems m in \<open>auto simp: d2_def us'_def extent_entry_def\<close>)
  moreover have "file_extents (dpb d) u nm r (Suc k) (blocks - n) (?fb + n) =
      file_extents (dpb d) u nm r (Suc k) (blocks - ?P) (?fb + ?P)"
    using file_extents_0 [of "dpb d" u nm r "Suc k" "?fb + n" "?fb + ?P"]
    by (cases "blocks \<le> ?P") (simp_all add: n_def)
  moreover have "n + min (blocks - n) (r * ?P) = min blocks (Suc r * ?P)"
    by (auto simp: n_def min_def)
  ultimately show ?case
    using step m by (simp add: d2_def us'_def file_extents_Suc n_def add.assoc)
qed

text \<open>Conversely, it only succeeds with enough entries and with a block to spare.\<close>

lemma fill_extents_only:
  assumes "length nm = 12" and "u \<noteq> UNUSED" and "\<forall>e \<in> set us. St e \<noteq> UNUSED"
    and "dir d = us @ replicate m (cpmdir_new (ptr_type d))" and "freeblock d < MaxBlock (dpb d)"
    and "is_ok (fill_extents u nm r k blocks d)"
  shows "r \<le> m \<and> (blocks = 0 \<or> freeblock d + min blocks (r * ptr_type d) < MaxBlock (dpb d))"
  using assms
proof (induction r arbitrary: k blocks d us m)
  case (Suc r)
  let ?P = "ptr_type d" and ?fb = "freeblock d"
  define n where "n = min blocks ?P"
  show ?case
  proof (cases m)
    case 0
    then have "first_unused 0 (dir d) = None" using Suc.prems(3,4) by (simp add: first_unused_None)
    then show ?thesis using Suc.prems(6) by (simp add: NewDir_def)
  next
    case (Suc m')
    note unf = fill_extents_unfold [OF Suc.prems(1,3), of d m' n blocks u r k]
    have n0: "n = 0 \<or> ?fb + n < MaxBlock (dpb d)"
    proof (rule ccontr)
      assume "\<not> ?thesis"
      then have "\<exists>d'. fill_blocks (length us) n 0
            (d\<lparr>dir := us @ (extent_entry (dpb d) u nm k n ?fb)\<lparr>Al := al_bytes ?P 0 ?fb\<rparr>
                # replicate m' (cpmdir_new ?P)\<rparr>) = Fail Terminate d'"
        using Suc.prems(5) by (intro fill_blocks_full) simp_all
      then show False using unf Suc.prems(4,6) Suc by (auto simp: n_def)
    qed
    define us' where "us' = us @ [extent_entry (dpb d) u nm k n ?fb]"
    define d2 where "d2 = d\<lparr>dir := us' @ replicate m' (cpmdir_new ?P), freeblock := ?fb + n\<rparr>"
    have "fill_extents u nm (Suc r) k blocks d = fill_extents u nm r (Suc k) (blocks - n) d2"
      using unf Suc.prems(4) Suc n0
        fill_one_extent [of n blocks d us u nm k "replicate m' (cpmdir_new ?P)"]
      by (simp add: n_def d2_def us'_def)
    with Suc.prems(6) have ok: "is_ok (fill_extents u nm r (Suc k) (blocks - n) d2)" by simp
    have "r \<le> m' \<and> (blocks - n = 0 \<or>
        freeblock d2 + min (blocks - n) (r * ptr_type d2) < MaxBlock (dpb d2))"
      by (rule Suc.IH [of us', OF Suc.prems(1,2) _ _ _ ok])
        (use Suc.prems n0 in \<open>auto simp: d2_def us'_def extent_entry_def\<close>)
    with Suc n0 show ?thesis by (auto simp: d2_def n_def min_def split: if_splits)
  qed
qed simp

end
