(* ===== verification/Disk_Alloc.thy ===== *)
theory Disk_Alloc
  imports Disk_Import
begin

text \<open>
  The allocation a constructed drive ends up with: every imported file occupies consecutive
  blocks recorded in its own extents, no block belongs to two entries, none lies in the directory
  area and none at or behind the last block of the disk. Proved for one file (\<open>addfile\<close>), for a
  host directory (\<open>readuser\<close>), for the user areas (\<open>readhost\<close>) and for the constructor.
\<close>

text \<open>
  The parameter blocks for which block pointers are not truncated when they are stored: byte
  pointers need at most 256 blocks.
\<close>

definition geometry_ok :: "dpb_t \<Rightarrow> bool" where
  "geometry_ok pb \<longleftrightarrow> BlockShift pb < 25 \<and> (BlockPtrType pb = 16 \<longrightarrow> MaxBlock pb \<le> 256)"

definition ptr_limit :: "nat \<Rightarrow> nat" where
  "ptr_limit P = (if P = 16 then 256 else 65536)"

lemma geometry_limit: "geometry_ok pb \<Longrightarrow> MaxBlock pb \<le> ptr_limit (BlockPtrType pb)"
  using MaxBlock_le [of pb] by (auto simp: geometry_ok_def ptr_limit_def)

lemma geometry_BlockSize:
  assumes "geometry_ok pb"
  shows "BlockSize pb = 128 * 2 ^ BlockShift pb"
proof -
  have "(2::nat) ^ BlockShift pb \<le> 2 ^ 24"
    using assms by (intro power_increasing) (simp_all add: geometry_ok_def)
  then show ?thesis by (simp add: BlockSize_def)
qed

section \<open>Pointers of an extent\<close>

lemma al_entries_extent:
  assumes "n \<le> BlockPtrType pb" and "fb + n \<le> ptr_limit (BlockPtrType pb)"
  shows "al_entries (extent_entry pb u nm k n fb) (BlockPtrType pb) =
     [fb..<fb + n] @ replicate (BlockPtrType pb - n) 0"
proof (rule nth_equalityI)
  fix i
  assume "i < length (al_entries (extent_entry pb u nm k n fb) (BlockPtrType pb))"
  then have i: "i < BlockPtrType pb" by simp
  show "al_entries (extent_entry pb u nm k n fb) (BlockPtrType pb) ! i =
      ([fb..<fb + n] @ replicate (BlockPtrType pb - n) 0) ! i"
    using BlockPtrType_cases [of pb]
  proof
    assume P: "BlockPtrType pb = 8"
    have "le16 (al_bytes 8 n fb ! (2 * i)) (al_bytes 8 n fb ! (2 * i + 1)) =
        (if i < n then of_nat (fb + i) else 0)"
      using i P by (simp add: nth_al_bytes)
    with i P assms show ?thesis
      by (simp add: al_entries_def GetALWord_def extent_entry_def nth_append ptr_limit_def
          unat_of_nat_u16 del: of_nat_add)
  next
    assume P: "BlockPtrType pb = 16"
    with i assms show ?thesis
      by (simp add: al_entries_def GetALByte_def extent_entry_def nth_append ptr_limit_def
          nth_al_bytes unat_of_nat_u8 del: of_nat_add)
  qed
qed (use assms in simp)

definition blocks_of :: "nat \<Rightarrow> cpmdir list \<Rightarrow> nat list" where
  "blocks_of P es = concat (map (\<lambda>e. filter (\<lambda>b. b \<noteq> 0) (al_entries e P)) es)"

lemma blocks_of_append [simp]: "blocks_of P (xs @ ys) = blocks_of P xs @ blocks_of P ys"
  and blocks_of_Nil [simp]: "blocks_of P [] = []"
  and blocks_of_Cons [simp]:
    "blocks_of P (x # xs) = filter (\<lambda>b. b \<noteq> 0) (al_entries x P) @ blocks_of P xs"
  by (simp_all add: blocks_of_def)

lemma filter_upt_pos: "0 < fb \<Longrightarrow> filter (\<lambda>b. b \<noteq> 0) [fb..<m] = [fb..<m]"
  by (simp add: filter_id_conv)

lemma blocks_of_file_extents:
  assumes "0 < fb" and "fb + min blocks (r * BlockPtrType pb) \<le> ptr_limit (BlockPtrType pb)"
  shows "blocks_of (BlockPtrType pb) (file_extents pb u nm r k blocks fb) =
     [fb..<fb + min blocks (r * BlockPtrType pb)]"
  using assms
proof (induction r arbitrary: k blocks fb)
  case 0
  then show ?case by (simp add: file_extents_def)
next
  case (Suc r)
  let ?P = "BlockPtrType pb"
  have P: "0 < ?P" using BlockPtrType_cases [of pb] by auto
  have one: "al_entries (extent_entry pb u nm k (min blocks ?P) fb) ?P =
      [fb..<fb + min blocks ?P] @ replicate (?P - min blocks ?P) 0"
    using Suc.prems by (intro al_entries_extent) (auto simp: min_def split: if_splits)
  show ?case
  proof (cases "blocks \<le> ?P")
    case True
    then have "blocks_of ?P (file_extents pb u nm r (Suc k) (blocks - ?P) (fb + ?P)) =
        blocks_of ?P (file_extents pb u nm r (Suc k) 0 fb)"
      by (simp add: file_extents_0 [of pb u nm r "Suc k" "fb + ?P" fb])
    also have "\<dots> = []" using Suc.IH [of fb 0 "Suc k"] Suc.prems by simp
    finally show ?thesis
      using True Suc.prems one by (simp add: file_extents_Suc filter_upt_pos min_def)
  next
    case False
    then have "blocks_of ?P (file_extents pb u nm r (Suc k) (blocks - ?P) (fb + ?P)) =
        [fb + ?P..<fb + ?P + min (blocks - ?P) (r * ?P)]"
      using Suc.prems by (intro Suc.IH) (auto simp: min_def split: if_splits)
    moreover have "min blocks (Suc r * ?P) = ?P + min (blocks - ?P) (r * ?P)" using False by simp
    ultimately show ?thesis
      using False Suc.prems(1) one
      by (simp add: file_extents_Suc filter_upt_pos add.assoc upt_glue)
  qed
qed

section \<open>The invariant of the import\<close>

definition live_ok :: "disk \<Rightarrow> cpmdir \<Rightarrow> bool" where
  "live_ok d e \<longleftrightarrow> St e \<noteq> UNUSED \<and> entry_ok (ptr_type d) e \<and> cpm2unix d (GetName e) \<noteq> None"

definition import_inv :: "nat \<Rightarrow> disk \<Rightarrow> bool" where
  "import_inv fb0 d \<longleftrightarrow>
     (\<exists>us m. dir d = us @ replicate m (cpmdir_new (ptr_type d)) \<and> (\<forall>e \<in> set us. live_ok d e) \<and>
        blocks_of (ptr_type d) us = [fb0..<freeblock d]) \<and>
     0 < fb0 \<and> fb0 \<le> freeblock d \<and> freeblock d < MaxBlock (dpb d)"

lemma length_take_allowed: "length (fst (take_allowed n s)) \<le> n"
  by (induction n s rule: take_allowed.induct) auto

lemma length_pad: "length s \<le> n \<Longrightarrow> length (pad n s) = n"
  by (simp add: pad_def)

lemma length_cpm_filename:
  assumes "cpm_filename nm = Some s"
  shows "length s = 12"
proof -
  obtain base rest where b: "take_allowed 8 nm = (base, rest)" by (cases "take_allowed 8 nm")
  then have len: "length (pad 8 base) = 8"
    using length_take_allowed [of 8 nm] by (simp add: length_pad)
  define t where "t = dropWhile (\<lambda>c. c \<noteq> CHR ''.'') rest"
  have "s = pad 8 base @ ''    '' \<or> (\<exists>r. s = pad 8 base @ ''.'' @ pad 3 (fst (take_allowed 3 r)))"
    using assms unfolding cpm_filename_def b Let_def t_def [symmetric]
    by (simp split: if_splits list.splits) blast
  with len show ?thesis by (auto simp: length_pad length_take_allowed)
qed

definition nblocks :: "dpb_t \<Rightarrow> nat \<Rightarrow> nat" where
  "nblocks pb sz = (sz + BlockSize pb - 1) div BlockSize pb"

text \<open>Host files below 4 GB, the range of the \<open>unsigned\<close> file offsets.\<close>

definition files_small :: "host \<Rightarrow> bool" where
  "files_small h \<longleftrightarrow> (\<forall>p f. host_lookup h p = Some (Reg f) \<longrightarrow> length f < 2 ^ 32)"

lemma nblocks_le: "0 < BlockSize pb \<Longrightarrow> nblocks pb sz \<le> sz"
proof -
  assume bs: "0 < BlockSize pb"
  have "sz + BlockSize pb - 1 < (sz + 1) * BlockSize pb"
    using bs by (cases "BlockSize pb") (auto simp: algebra_simps)
  then have "nblocks pb sz < sz + 1" unfolding nblocks_def by (rule less_mult_imp_div_less)
  then show ?thesis by simp
qed

lemma dirs_no_wrap:
  assumes "geometry_ok pb" and "files_small h" and "host_lookup h path = Some nd"
  shows "wrap32 (1 + nblocks pb (node_size nd) div BlockPtrType pb) =
     Suc (nblocks pb (node_size nd) div BlockPtrType pb)"
proof -
  have "node_size nd < 2 ^ 32"
    using assms by (auto simp: files_small_def node_size_def split: node.splits)
  then have "nblocks pb (node_size nd) < 2 ^ 32"
    using nblocks_le [of pb "node_size nd"] assms(1) by (simp add: geometry_BlockSize)
  then have "nblocks pb (node_size nd) div BlockPtrType pb < 2 ^ 29"
    using BlockPtrType_cases [of pb] by (auto intro: less_mult_imp_div_less)
  then show ?thesis by simp
qed

definition tmp_name :: "dpb_t \<Rightarrow> u8 \<Rightarrow> string \<Rightarrow> string" where
  "tmp_name pb u nm = GetName (extent_entry pb u nm 0 0 0)"

lemma GetName_extent_entry: "GetName (extent_entry pb u nm k n fb) = tmp_name pb u nm"
  by (simp add: tmp_name_def extent_entry_def GetName_def)

lemma entry_ok_extent: "length nm = 12 \<Longrightarrow> entry_ok (BlockPtrType pb) (extent_entry pb u nm k n fb)"
  by (simp add: entry_ok_def cpmdir_ok_def extent_entry_def)

text \<open>The effect of \<open>addfile\<close> when it returns.\<close>

lemma addfile_cases:
  assumes "length nm = 12" and "addfile h path u nm d = Ok () d'" and "geometry_ok (dpb d)"
  obtains (skip) "cpm2unix d (tmp_name (dpb d) u nm) \<noteq> None" and "d' = d"
  | (add) nd dx blocks dirs where "cpm2unix d (tmp_name (dpb d) u nm) = None"
      and "host_lookup h path = Some nd" and "blocks = nblocks (dpb d) (node_size nd)"
      and "dirs = wrap32 (1 + blocks div ptr_type d)"
      and "fill_extents u nm dirs 0 blocks d = Ok () dx"
      and "d' = dx\<lparr>cpm2unix := (cpm2unix dx)(tmp_name (dpb d) u nm \<mapsto> path)\<rparr>"
proof -
  have nm: "GetName ((cpmdir_new (ptr_type d))\<lparr>St := u, Fx := map char_byte (take 8 nm),
       Ex := map char_byte (take 3 (drop 9 nm))\<rparr>) = tmp_name (dpb d) u nm"
    by (simp add: tmp_name_def extent_entry_def GetName_def)
  have bs: "BlockSize (dpb d) \<noteq> 0" using assms(3) by (simp add: geometry_BlockSize)
  have sn: "SetName nm ((cpmdir_new (ptr_type d))\<lparr>St := u\<rparr>) =
      Ok () ((cpmdir_new (ptr_type d))\<lparr>St := u, Fx := map char_byte (take 8 nm),
        Ex := map char_byte (take 3 (drop 9 nm))\<rparr>)"
    using assms(1) by (simp add: SetName_def)
  show thesis
  proof (cases "cpm2unix d (tmp_name (dpb d) u nm) = None")
    case False
    then have "d' = d" using assms(2) unfolding addfile_def sn by (simp add: nm Let_def)
    with False skip show thesis by blast
  next
    case True
    with assms(2) bs obtain nd where "host_stat h path = Inr nd"
      and "bindo (fill_extents u nm (wrap32 (1 + nblocks (dpb d) (node_size nd) div ptr_type d)) 0
             (nblocks (dpb d) (node_size nd)) d)
             (\<lambda>_ d'. Ok () (d'\<lparr>cpm2unix := (cpm2unix d')(tmp_name (dpb d) u nm \<mapsto> path)\<rparr>)) = Ok () d'"
      unfolding addfile_def sn by (auto simp: nm Let_def nblocks_def split: sum.splits)
    with True add show thesis by (auto simp: bindo_eq_Ok host_stat_Inr)
  qed
qed

text \<open>The drive after a new file was added behind the used entries \<open>us\<close>.\<close>

definition with_file :: "disk \<Rightarrow> cpmdir list \<Rightarrow> nat \<Rightarrow> u8 \<Rightarrow> string \<Rightarrow> nat \<Rightarrow> string \<Rightarrow> disk" where
  "with_file d us m u nm blocks path =
     (let dirs = Suc (blocks div ptr_type d)
      in d\<lparr>dir := us @ file_extents (dpb d) u nm dirs 0 blocks (freeblock d)
                      @ replicate (m - dirs) (cpmdir_new (ptr_type d)),
           freeblock := freeblock d + blocks,
           cpm2unix := (cpm2unix d)(tmp_name (dpb d) u nm \<mapsto> path)\<rparr>)"

lemma blocks_fit: "0 < P \<Longrightarrow> min blocks (Suc (blocks div P) * P) = (blocks :: nat)"
proof -
  assume "0 < P"
  then have "blocks < Suc (blocks div P) * P"
    by (metis dividend_less_div_times add.commute mult_Suc)
  then show ?thesis by simp
qed

text \<open>
  The result in full: unless the name was taken, the file's extents were appended and its name
  entered.
\<close>

lemma addfile_result:
  assumes "length nm = 12" and "u \<noteq> UNUSED" and "geometry_ok (dpb d)" and "import_inv fb0 d"
    and "files_small h" and "addfile h path u nm d = Ok () d'"
    and "cpm2unix d (tmp_name (dpb d) u nm) = None"
  obtains us m nd blocks where "dir d = us @ replicate m (cpmdir_new (ptr_type d))"
    and "\<forall>e \<in> set us. live_ok d e" and "blocks_of (ptr_type d) us = [fb0..<freeblock d]"
    and "host_lookup h path = Some nd" and "blocks = nblocks (dpb d) (node_size nd)"
    and "Suc (blocks div ptr_type d) \<le> m" and "freeblock d + blocks < MaxBlock (dpb d)"
    and "d' = with_file d us m u nm blocks path"
  using assms(1,6,3)
proof (cases rule: addfile_cases)
  case skip
  with assms(7) show thesis by simp
next
  case (add nd dx blocks dirs)
  let ?P = "ptr_type d"
  have P: "0 < ?P" using BlockPtrType_cases [of "dpb d"] by auto
  obtain us m where us: "dir d = us @ replicate m (cpmdir_new ?P)" "\<forall>e \<in> set us. live_ok d e"
    "blocks_of ?P us = [fb0..<freeblock d]" and fb: "freeblock d < MaxBlock (dpb d)"
    using assms(4) by (auto simp: import_inv_def)
  have used: "\<forall>e \<in> set us. St e \<noteq> UNUSED" using us(2) by (simp add: live_ok_def)
  have only: "dirs \<le> m \<and> (blocks = 0 \<or> freeblock d + min blocks (dirs * ?P) < MaxBlock (dpb d))"
    using fill_extents_only [OF assms(1,2) used us(1) fb, of dirs 0 blocks] add(5) by simp
  have dirs: "dirs = Suc (blocks div ?P)"
    using add(3,4) dirs_no_wrap [OF assms(3,5) add(2)] by simp
  then have mn: "min blocks (dirs * ?P) = blocks" using blocks_fit [OF P] by blast
  then have space: "freeblock d + blocks < MaxBlock (dpb d)" using only fb by auto
  have "dx = d\<lparr>dir := us @ file_extents (dpb d) u nm dirs 0 blocks (freeblock d)
                        @ replicate (m - dirs) (cpmdir_new ?P),
              freeblock := freeblock d + blocks\<rparr>"
    using fill_extents_ok [OF assms(1,2) used us(1), of dirs blocks 0] only mn add(5) by simp
  then have "d' = with_file d us m u nm blocks path"
    unfolding add(6) by (simp add: with_file_def dirs)
  with that us add(2,3) dirs only space show thesis by blast
qed

lemma addfile_is_ok:
  assumes "length nm = 12" and "u \<noteq> UNUSED" and "geometry_ok (dpb d)" and "import_inv fb0 d"
    and "files_small h" and "host_lookup h path = Some (Reg f)"
    and "cpm2unix d (tmp_name (dpb d) u nm) = None"
  shows "is_ok (addfile h path u nm d) \<longleftrightarrow>
     nblocks (dpb d) (length f) div ptr_type d < length (filter (\<lambda>e. St e = UNUSED) (dir d)) \<and>
     freeblock d + nblocks (dpb d) (length f) < MaxBlock (dpb d)"
proof -
  let ?P = "ptr_type d" and ?b = "nblocks (dpb d) (length f)"
  obtain us m where us: "dir d = us @ replicate m (cpmdir_new ?P)" "\<forall>e \<in> set us. live_ok d e"
    and fb: "freeblock d < MaxBlock (dpb d)"
    using assms(4) by (auto simp: import_inv_def)
  have used: "\<forall>e \<in> set us. St e \<noteq> UNUSED" using us(2) by (simp add: live_ok_def)
  then have unused: "length (filter (\<lambda>e. St e = UNUSED) (dir d)) = m" using us(1) by simp
  have "wrap32 (1 + ?b div ?P) = Suc (?b div ?P)"
    using dirs_no_wrap [OF assms(3,5,6)] by (simp add: node_size_def)
  moreover have "BlockSize (dpb d) \<noteq> 0" using assms(3) by (simp add: geometry_BlockSize)
  moreover have "GetName ((cpmdir_new ?P)\<lparr>St := u, Fx := map char_byte (take 8 nm),
       Ex := map char_byte (take 3 (drop 9 nm))\<rparr>) = tmp_name (dpb d) u nm"
    by (simp add: tmp_name_def extent_entry_def GetName_def)
  moreover have "host_stat h path = Inr (Reg f)" using assms(6) by (simp add: host_stat_Inr)
  moreover have "(length f + BlockSize (dpb d) - Suc 0) div BlockSize (dpb d) = ?b"
    by (simp add: nblocks_def)
  ultimately have "is_ok (addfile h path u nm d) \<longleftrightarrow> is_ok (fill_extents u nm (Suc (?b div ?P)) 0 ?b d)"
    using assms(1,7)
    by (cases "fill_extents u nm (Suc (?b div ?P)) 0 ?b d")
      (simp_all add: addfile_def SetName_def Let_def node_size_def del: fill_extents.simps)
  also have "\<dots> \<longleftrightarrow> ?b div ?P < m \<and> freeblock d + ?b < MaxBlock (dpb d)"
  proof
    have P: "0 < ?P" using BlockPtrType_cases [of "dpb d"] by auto
    have fit: "min ?b (Suc (?b div ?P) * ?P) = ?b" by (rule blocks_fit [OF P])
    show "?b div ?P < m \<and> freeblock d + ?b < MaxBlock (dpb d)"
      if "is_ok (fill_extents u nm (Suc (?b div ?P)) 0 ?b d)"
      using fill_extents_only [OF assms(1,2) used us(1) fb that] fit fb by auto
    show "is_ok (fill_extents u nm (Suc (?b div ?P)) 0 ?b d)"
      if "?b div ?P < m \<and> freeblock d + ?b < MaxBlock (dpb d)"
      using fill_extents_ok [OF assms(1,2) used us(1), of "Suc (?b div ?P)" ?b 0] that fit by simp
  qed
  finally show ?thesis by (simp add: unused)
qed

section \<open>Extents know where their blocks are\<close>

lemma St_extent_entry [simp]: "St (extent_entry pb u nm k n fb) = u"
  by (simp add: extent_entry_def)

lemma GetExtNumber_extent_entry:
  "GetExtNumber (extent_entry pb u nm k n fb) = (k div 16 mod 32 * 256 + k mod 16) mod 512"
proof -
  have "k mod 16 < 256" "k div 16 mod 32 < 256" by (auto intro: less_trans [OF mod_less_divisor])
  then show ?thesis
    by (simp add: GetExtNumber_eq extent_entry_def and_0xF and_0x1F drop_bit_eq_div unat_of_nat_u8)
qed

lemma FindBlockIndex_extent_entry:
  assumes "u \<noteq> UNUSED" and "j < n" and "n \<le> BlockPtrType pb" and "k < 16"
    and "fb + n \<le> ptr_limit (BlockPtrType pb)"
  shows "FindBlockIndex (extent_entry pb u nm k n fb) (fb + j) (BlockPtrType pb) =
     k * BlockPtrType pb + j + 1"
proof -
  let ?e = "extent_entry pb u nm k n fb" and ?P = "BlockPtrType pb"
  note al = al_entries_extent [OF assms(3,5), of u nm k]
  have "FindBlockIndex ?e (fb + j) ?P = j + 1 + GetExtNumber ?e * ?P"
  proof (rule FindBlockIndex_Some)
    show "\<forall>i < j. al_entries ?e ?P ! i \<noteq> fb + j" using assms by (simp add: al nth_append)
  qed (use assms BlockPtrType_cases [of pb] in \<open>auto simp: al nth_append\<close>)
  moreover have "GetExtNumber ?e = k" using assms(4) by (simp add: GetExtNumber_extent_entry)
  ultimately show ?thesis by simp
qed

text \<open>
  A host file is reachable through the directory: block \<open>k\<close> of the file is some block of the disk
  that an entry of that name reports at position \<open>k\<close> (one-based, as \<open>FindBlockIndex\<close> counts). This
  holds for the first sixteen extents, for which the extent number survives in the entry.
\<close>

definition imported :: "host \<Rightarrow> disk \<Rightarrow> string \<Rightarrow> string \<Rightarrow> bool" where
  "imported h d s path \<longleftrightarrow>
     (\<exists>f fb. host_lookup h path = Some (Reg f) \<and> 0 < fb \<and>
        (\<forall>k < nblocks (dpb d) (length f). k < 16 * ptr_type d \<longrightarrow>
           (\<exists>e \<in> set (dir d). GetName e = s \<and> FindBlockIndex e (fb + k) (ptr_type d) = k + 1)))"

definition all_imported :: "host \<Rightarrow> disk \<Rightarrow> bool" where
  "all_imported h d \<longleftrightarrow> (\<forall>s path. cpm2unix d s = Some path \<longrightarrow> imported h d s path)"

lemma imported_mono:
  assumes "imported h d s path" and "dpb d' = dpb d"
    and "\<forall>e \<in> set (dir d). St e \<noteq> UNUSED \<longrightarrow> e \<in> set (dir d')"
  shows "imported h d' s path"
proof -
  have "St e \<noteq> UNUSED" if "FindBlockIndex e b P = k + 1" for e b P k
    using that by (auto simp: FindBlockIndex_def)
  then show ?thesis
    using assms unfolding imported_def by (metis (no_types, lifting))
qed

lemma file_extents_found:
  assumes "u \<noteq> UNUSED" and "k < blocks" and "k < 16 * BlockPtrType pb"
    and "r = Suc (blocks div BlockPtrType pb)" and "fb + blocks \<le> ptr_limit (BlockPtrType pb)"
  shows "\<exists>e \<in> set (file_extents pb u nm r 0 blocks fb). GetName e = tmp_name pb u nm \<and>
     FindBlockIndex e (fb + k) (BlockPtrType pb) = k + 1"
proof -
  let ?P = "BlockPtrType pb"
  have P: "0 < ?P" using BlockPtrType_cases [of pb] by auto
  define q j where "q = k div ?P" and "j = k mod ?P"
  have k: "k = q * ?P + j" and j: "j < ?P" by (simp_all add: q_def j_def P)
  define e where "e = extent_entry pb u nm q (min (blocks - q * ?P) ?P) (fb + q * ?P)"
  have "q < r" using assms(2,4) by (simp add: q_def div_le_mono less_Suc_eq_le)
  then have "e \<in> set (file_extents pb u nm r 0 blocks fb)"
    by (auto simp: file_extents_def e_def)
  moreover have "FindBlockIndex e (fb + q * ?P + j) ?P = q * ?P + j + 1"
    unfolding e_def
  proof (rule FindBlockIndex_extent_entry [OF assms(1)])
    show "j < min (blocks - q * ?P) ?P" using j assms(2) k by linarith
    show "q < 16" using assms(3) P by (simp add: q_def less_mult_imp_div_less)
    show "fb + q * ?P + min (blocks - q * ?P) ?P \<le> ptr_limit ?P" using assms(5) k assms(2) by linarith
  qed simp
  ultimately show ?thesis
    using k by (intro bexI [of _ e]) (simp_all add: e_def GetName_extent_entry add.assoc)
qed

section \<open>Preservation\<close>

definition import_ok :: "host \<Rightarrow> nat \<Rightarrow> disk \<Rightarrow> bool" where
  "import_ok h fb0 d \<longleftrightarrow> import_inv fb0 d \<and> all_imported h d \<and> geometry_ok (dpb d)"

lemma live_ok_mono: "live_ok d e \<Longrightarrow> dpb d' = dpb d \<Longrightarrow> dom (cpm2unix d) \<subseteq> dom (cpm2unix d') \<Longrightarrow> live_ok d' e"
  by (auto simp: live_ok_def dom_def)

lemma with_file_inv:
  assumes "length nm = 12" and "u \<noteq> UNUSED" and "import_inv fb0 d" and "geometry_ok (dpb d)"
    and us: "dir d = us @ replicate m (cpmdir_new (ptr_type d))"
      "\<forall>e \<in> set us. live_ok d e" "blocks_of (ptr_type d) us = [fb0..<freeblock d]"
    and space: "freeblock d + blocks < MaxBlock (dpb d)"
  shows "import_inv fb0 (with_file d us m u nm blocks path)" (is "import_inv fb0 ?d'")
proof -
  let ?P = "ptr_type d" and ?dirs = "Suc (blocks div ptr_type d)"
  let ?new = "file_extents (dpb d) u nm ?dirs 0 blocks (freeblock d)"
  have P: "0 < ?P" using BlockPtrType_cases [of "dpb d"] by auto
  have lim: "freeblock d + blocks \<le> ptr_limit ?P" using space geometry_limit [OF assms(4)] by simp
  have fb0: "0 < fb0" "fb0 \<le> freeblock d" using assms(3) by (auto simp: import_inv_def)
  have bo: "blocks_of ?P ?new = [freeblock d..<freeblock d + blocks]"
    using blocks_of_file_extents [of "freeblock d" blocks ?dirs "dpb d" u nm 0] fb0 lim
      blocks_fit [OF P, of blocks] by (simp only:)
  have live: "\<forall>e \<in> set ?new. live_ok ?d' e"
    using assms(1,2)
    by (auto simp: with_file_def live_ok_def file_extents_def entry_ok_extent GetName_extent_entry)
  show ?thesis
    unfolding import_inv_def
  proof (intro conjI exI)
    show "dir ?d' = (us @ ?new) @ replicate (m - ?dirs) (cpmdir_new (ptr_type ?d'))"
      by (simp add: with_file_def)
    show "\<forall>e \<in> set (us @ ?new). live_ok ?d' e"
      using us(2) live by (auto intro: live_ok_mono simp: with_file_def)
    show "blocks_of (ptr_type ?d') (us @ ?new) = [fb0..<freeblock ?d']"
      using us(3) bo fb0 by (simp add: with_file_def upt_glue)
  qed (use fb0 space in \<open>simp_all add: with_file_def\<close>)
qed

lemma with_file_imported:
  assumes "u \<noteq> UNUSED" and "import_inv fb0 d" and "geometry_ok (dpb d)" and "all_imported h d"
    and us: "dir d = us @ replicate m (cpmdir_new (ptr_type d))"
    and space: "freeblock d + blocks < MaxBlock (dpb d)"
    and f: "host_lookup h path = Some (Reg f)" "blocks = nblocks (dpb d) (length f)"
  shows "all_imported h (with_file d us m u nm blocks path)" (is "all_imported h ?d'")
  unfolding all_imported_def
proof (intro allI impI)
  fix s p assume s: "cpm2unix ?d' s = Some p"
  have lim: "freeblock d + blocks \<le> ptr_limit (ptr_type d)"
    using space geometry_limit [OF assms(3)] by simp
  have fb: "0 < freeblock d" using assms(2) by (auto simp: import_inv_def)
  show "imported h ?d' s p"
  proof (cases "s = tmp_name (dpb d) u nm")
    case False
    with s assms(4) have "imported h d s p" by (simp add: all_imported_def with_file_def)
    then show ?thesis by (rule imported_mono) (auto simp: with_file_def us)
  next
    case True
    then have "p = path" using s by (simp add: with_file_def)
    then show ?thesis
      using file_extents_found [OF assms(1) _ _ refl lim, of _ nm] True f fb
      by (auto simp: imported_def with_file_def intro!: exI [of _ "freeblock d"])
  qed
qed

lemma addfile_preserves:
  assumes "length nm = 12" and "u \<noteq> UNUSED" and "import_ok h fb0 d" and "files_small h"
    and "addfile h path u nm d = Ok () d'" and "host_lookup h path = Some (Reg f)"
  shows "import_ok h fb0 d'"
proof (cases "cpm2unix d (tmp_name (dpb d) u nm) = None")
  case False
  have "geometry_ok (dpb d)" using assms(3) by (simp add: import_ok_def)
  from assms(1,5) this show ?thesis
    by (cases rule: addfile_cases) (use False assms(3) in simp_all)
next
  case True
  have inv: "import_inv fb0 d" "geometry_ok (dpb d)" "all_imported h d"
    using assms(3) by (simp_all add: import_ok_def)
  obtain us m nd blocks where us: "dir d = us @ replicate m (cpmdir_new (ptr_type d))"
    "\<forall>e \<in> set us. live_ok d e" "blocks_of (ptr_type d) us = [fb0..<freeblock d]"
    and nd: "host_lookup h path = Some nd" "blocks = nblocks (dpb d) (node_size nd)"
    and "Suc (blocks div ptr_type d) \<le> m" and space: "freeblock d + blocks < MaxBlock (dpb d)"
    and d': "d' = with_file d us m u nm blocks path"
    by (rule addfile_result [OF assms(1,2) inv(2,1) assms(4,5) True])
  have bl: "blocks = nblocks (dpb d) (length f)" using nd assms(6) by (auto simp: node_size_def)
  have "import_inv fb0 d'"
    unfolding d' by (rule with_file_inv [OF assms(1,2) inv(1,2) us space])
  moreover have "all_imported h d'"
    unfolding d' by (rule with_file_imported [OF assms(2) inv(1,2,3) us(1) space assms(6) bl])
  ultimately show ?thesis using inv(2) by (simp add: import_ok_def d' with_file_def)
qed

lemma import_names_preserves:
  assumes "u \<noteq> UNUSED" and "import_ok h fb0 d" and "files_small h"
    and "import_names h userpath u nms d = Ok () d'"
  shows "import_ok h fb0 d'"
  using assms(2,4)
proof (induction nms arbitrary: d)
  case (Cons nm nms)
  show ?case
  proof (cases "\<exists>f s d1. host_stat h (userpath @ ''/'' @ nm) = Inr (Reg f) \<and> cpm_filename nm = Some s \<and>
      addfile h (userpath @ ''/'' @ nm) u s d = Ok () d1 \<and> import_names h userpath u nms d1 = Ok () d'")
    case True
    then obtain f s d1 where *: "host_lookup h (userpath @ ''/'' @ nm) = Some (Reg f)"
      "cpm_filename nm = Some s" "addfile h (userpath @ ''/'' @ nm) u s d = Ok () d1"
      "import_names h userpath u nms d1 = Ok () d'"
      by (auto simp: host_stat_Inr)
    have "import_ok h fb0 d1"
      by (rule addfile_preserves [OF length_cpm_filename [OF *(2)] assms(1) Cons.prems(1) assms(3) *(3,1)])
    then show ?thesis using *(4) by (rule Cons.IH)
  next
    case False
    then have "import_names h userpath u nms d = Ok () d'"
      using Cons.prems(2)
      by (auto simp: bindo_eq_Ok split: if_splits sum.splits node.splits option.splits)
    then show ?thesis using Cons.prems(1) by (intro Cons.IH)
  qed
qed simp

lemma readuser_preserves:
  assumes "u \<noteq> UNUSED" and "import_ok h fb0 d" and "files_small h" and "readuser h userpath u d = Ok () d'"
  shows "import_ok h fb0 d'"
  using assms(4) import_names_preserves [OF assms(1-3)]
  by (auto simp: readuser_def split: sum.splits node.splits)

lemma import_users_preserves:
  assumes "import_ok h fb0 d" and "files_small h" and "import_users h dpath us d = Ok () d'"
    and "\<forall>n \<in> set us. n < 16"
  shows "import_ok h fb0 d'"
  using assms(1,3,4)
proof (induction us arbitrary: d)
  case (Cons user us)
  have u: "(of_nat user :: u8) \<noteq> UNUSED"
  proof -
    have "unat (of_nat user :: u8) < 16" using Cons.prems(3) by (simp add: unat_of_nat_u8)
    then show ?thesis by (auto simp: UNUSED_def)
  qed
  show ?case
  proof (cases "import_users h dpath us d = Ok () d'")
    case True
    then show ?thesis using Cons by simp
  next
    case False
    with Cons.prems(2) obtain d1 where 1: "readuser h (dpath @ ''/'' @ nat_string user) (of_nat user) d = Ok () d1"
      and 2: "import_users h dpath us d1 = Ok () d'"
      by (auto simp: Let_def bindo_eq_Ok split: if_splits sum.splits node.splits)
    from readuser_preserves [OF u Cons.prems(1) assms(2) 1] 2 show ?thesis
      using Cons.prems(3) by (intro Cons.IH) simp_all
  qed
qed simp

lemma readhost_preserves:
  assumes "import_ok h fb0 d" and "files_small h" and "readhost h dpath d = Ok () d'"
  shows "import_ok h fb0 d'"
proof -
  from assms(3) obtain d1 where 1: "readuser h dpath CPMUSRNO d = Ok () d1"
    and 2: "import_users h dpath [1..<16] d1 = Ok () d'"
    by (auto simp: readhost_def bindo_eq_Ok simp del: upt_rec_numeral import_users.simps)
  have "CPMUSRNO \<noteq> UNUSED" by (simp add: CPMUSRNO_def UNUSED_def)
  from readuser_preserves [OF this assms(1,2) 1] have "import_ok h fb0 d1" .
  then show ?thesis by (rule import_users_preserves [OF _ assms(2) 2]) simp
qed

section \<open>The constructor\<close>

text \<open>The import changes the directory, the block counter and the name table, nothing else.\<close>

definition frame :: "disk \<Rightarrow> disk" where
  "frame d = d\<lparr>dir := [], freeblock := 0, cpm2unix := Map.empty\<rparr>"

lemma frame_upd [simp]:
  "frame (d\<lparr>dir := x\<rparr>) = frame d" "frame (d\<lparr>freeblock := n\<rparr>) = frame d"
  "frame (d\<lparr>cpm2unix := m\<rparr>) = frame d"
  by (simp_all add: frame_def)

lemma frame_fields:
  assumes "frame d' = frame d"
  shows "drvpath d' = drvpath d" "dpb d' = dpb d" "stbl d' = stbl d" "bootblock d' = bootblock d"
    "datastart d' = datastart d" "dirstart d' = dirstart d" "cache d' = cache d" "smap d' = smap d"
  using assms by (cases d; cases d'; simp add: frame_def)+

lemma frame_bindo:
  assumes "frame (state_of m) = frame d" and "\<And>x s. m = Ok x s \<Longrightarrow> frame (state_of (f x s)) = frame s"
  shows "frame (state_of (bindo m f)) = frame d"
  using assms by (cases m) auto

lemma frame_NewDir: "NewDir d = Some (i, d') \<Longrightarrow> frame d' = frame d"
  by (auto simp: NewDir_def split: option.splits)

lemma frame_fill_blocks [simp]: "frame (state_of (fill_blocks i r p d)) = frame d"
  by (induction i r p d rule: fill_blocks.induct) (simp_all add: Let_def)

lemma frame_fill_extents [simp]: "frame (state_of (fill_extents u nm r k blocks d)) = frame d"
proof (induction r arbitrary: k blocks d)
  case (Suc r)
  show ?case
  proof (cases "NewDir d")
    case (Some p)
    then obtain i d1 where p: "NewDir d = Some (i, d1)" by (cases p) auto
    show ?thesis
      using Suc.IH frame_NewDir [OF p]
      by (auto simp: p SetName_def Let_def intro!: frame_bindo)
  qed simp
qed simp

lemma frame_addfile [simp]: "frame (state_of (addfile h path u nm d)) = frame d"
  by (auto simp: addfile_def SetName_def Let_def split: sum.splits intro!: frame_bindo)

lemma frame_import_names [simp]: "frame (state_of (import_names h up u nms d)) = frame d"
  by (induction nms arbitrary: d)
    (auto split: sum.splits node.splits option.splits intro!: frame_bindo)

lemma frame_readuser [simp]: "frame (state_of (readuser h up u d)) = frame d"
  by (auto simp: readuser_def split: sum.splits node.splits)

lemma frame_import_users [simp]: "frame (state_of (import_users h dp us d)) = frame d"
  by (induction us arbitrary: d)
    (auto simp: Let_def split: sum.splits node.splits intro!: frame_bindo)

lemma frame_readhost: "readhost h dp d = Ok x d' \<Longrightarrow> frame d' = frame d"
proof -
  have "frame (state_of (readhost h dp d)) = frame d"
    unfolding readhost_def by (rule frame_bindo) simp_all
  then show "readhost h dp d = Ok x d' \<Longrightarrow> frame d' = frame d" by simp
qed

lemma disk_new_result:
  assumes "disk_new h path os pb tbl = Inr d"
  obtains d0 st sm where "make_stbl (SectorsTrack pb) tbl = Inr st" and "make_smap st = Inr sm"
    and "readhost h path d0 = Ok () d" and "drvpath d0 = path" and "dpb d0 = pb" and "stbl d0 = st"
    and "smap d0 = sm" and "dir d0 = replicate (DirectoryEntries pb) (cpmdir_new (BlockPtrType pb))"
    and "cpm2unix d0 = Map.empty" and "freeblock d0 = count_dirblocks (of_nat (A01 pb))"
    and "bootblock d0 = path @ ''/'' @ CPMSYS" and "cache d0 = []"
    and "datastart d0 = wrap32 (count_dirblocks (of_nat (A01 pb)) * 2 ^ BlockShift pb)"
    and "dirstart d0 = wrap32 (ReservedTracks pb * SectorsTrack pb)"
proof -
  obtain st where st: "make_stbl (SectorsTrack pb) tbl = Inr st"
    using assms by (auto simp: disk_new_def split: sum.splits)
  then obtain sm where sm: "make_smap st = Inr sm"
    using assms by (auto simp: disk_new_def split: sum.splits if_splits)
  have ps: "(if BlockPtrType pb \<noteq> DEFAULTPTRCNT then BlockPtrType pb else DEFAULTPTRCNT) = BlockPtrType pb"
    by simp
  from assms show thesis
    unfolding disk_new_def st sm sum.case ps Let_def
    by (auto split: if_splits outcome.splits intro!: that [OF st sm])
qed

definition dirblocks :: "dpb_t \<Rightarrow> nat" where
  "dirblocks pb = count_dirblocks (of_nat (A01 pb))"

text \<open>A drive straight from the constructor satisfies the invariant.\<close>

lemma disk_new_import_ok:
  assumes "disk_new h path os pb tbl = Inr d" and "geometry_ok pb" and "files_small h"
    and "0 < dirblocks pb" and "dirblocks pb < MaxBlock pb"
  shows "import_ok h (dirblocks pb) d"
  using assms(1)
proof (cases rule: disk_new_result)
  case (1 d0 st sm)
  have "blocks_of (BlockPtrType pb) [] = [dirblocks pb..<freeblock d0]"
    using 1 by (simp add: dirblocks_def)
  then have "import_inv (dirblocks pb) d0"
    using 1 assms(4,5) unfolding import_inv_def
    by (intro conjI exI [of _ "[]"] exI [of _ "DirectoryEntries pb"]) (simp_all add: dirblocks_def)
  moreover have "all_imported h d0" using 1 by (simp add: all_imported_def)
  ultimately have "import_ok h (dirblocks pb) d0" using 1 assms(2) by (simp add: import_ok_def)
  then show ?thesis using assms(3) 1(3) by (rule readhost_preserves)
qed

lemma disk_new_fields:
  assumes "disk_new h path os pb tbl = Inr d"
  shows "dpb d = pb" and "drvpath d = path" and "cache d = []"
    and "bootblock d = path @ ''/'' @ CPMSYS"
    and "datastart d = wrap32 (dirblocks pb * 2 ^ BlockShift pb)"
    and "dirstart d = wrap32 (ReservedTracks pb * SectorsTrack pb)"
    and "make_stbl (SectorsTrack pb) tbl = Inr (stbl d)" and "make_smap (stbl d) = Inr (smap d)"
proof -
  obtain d0 where "frame d = frame d0" and "drvpath d0 = path" "dpb d0 = pb"
    "make_stbl (SectorsTrack pb) tbl = Inr (stbl d0)" "make_smap (stbl d0) = Inr (smap d0)"
    "bootblock d0 = path @ ''/'' @ CPMSYS" "cache d0 = []"
    "datastart d0 = wrap32 (dirblocks pb * 2 ^ BlockShift pb)"
    "dirstart d0 = wrap32 (ReservedTracks pb * SectorsTrack pb)"
    using assms by (cases rule: disk_new_result) (auto simp: dirblocks_def dest: frame_readhost)
  with frame_fields [of d d0] show "dpb d = pb" "drvpath d = path" "cache d = []"
    "bootblock d = path @ ''/'' @ CPMSYS" "datastart d = wrap32 (dirblocks pb * 2 ^ BlockShift pb)"
    "dirstart d = wrap32 (ReservedTracks pb * SectorsTrack pb)"
    "make_stbl (SectorsTrack pb) tbl = Inr (stbl d)" "make_smap (stbl d) = Inr (smap d)"
    by simp_all
qed

end
