(* ===== verification/Disk_IO.thy ===== *)
theory Disk_IO
  imports Disk_Alloc
begin

text \<open>
  The host-directory drive, second half: sector reads and writes of class \<open>disk\<close>
  (\<^verbatim>\<open>biosapi.cpp\<close>), the effects of directory writes on host files (create, remove, rename), the
  write cache and \<open>Flush\<close>.

  The state of an operation is the drive and the host file system. \<open>dma\<close> is the emulated memory
  from the transfer address on, so that a transfer over its end shows up as undefined.
\<close>

type_synonym dworld = "disk \<times> host"

section \<open>Host names\<close>

definition hexval :: "char \<Rightarrow> nat" where
  "hexval ch =
     (let n = (of_char ch :: nat)
      in if 48 \<le> n \<and> n \<le> 57 then n - 48
         else if 97 \<le> n \<and> n \<le> 102 then n - 97 + 10
         else if 65 \<le> n \<and> n \<le> 70 then n - 65 + 10
         else 0)"

definition is_space :: "char \<Rightarrow> bool" where
  "is_space ch = (let n = (of_char ch :: nat) in n = 32 \<or> 9 \<le> n \<and> n \<le> 13)"

definition mkhostname :: "string \<Rightarrow> string \<Rightarrow> host \<Rightarrow> (string, host) outcome" where
  "mkhostname path cpmname h =
     (let (userno, nm) =
            (if 3 \<le> length cpmname \<and> cpmname ! 2 = CHR ''_''
             then (push_bit 4 (hexval (cpmname ! 0)) OR hexval (cpmname ! 1), drop 3 cpmname)
             else (0, cpmname));
          dr = (if userno \<noteq> 0 then path_append path (nat_string userno) else path)
      in bindo (create_directories h dr)
           (\<lambda>_ h'. Ok (path_append dr (filter (\<lambda>c. \<not> is_space c) nm)) h'))"

section \<open>The write cache and Flush\<close>

text \<open>\<open>std::map\<close> keeps its keys in ascending order.\<close>

fun cache_put :: "nat \<Rightarrow> bytes \<Rightarrow> (nat \<times> bytes) list \<Rightarrow> (nat \<times> bytes) list" where
  "cache_put k v [] = [(k, v)]"
| "cache_put k v ((k', v') # c) =
     (if k = k' then (k, v) # c
      else if k < k' then (k, v) # (k', v') # c
      else (k', v') # cache_put k v c)"

definition cache_del :: "nat \<Rightarrow> (nat \<times> bytes) list \<Rightarrow> (nat \<times> bytes) list" where
  "cache_del k c = filter (\<lambda>(k', v). k' \<noteq> k) c"

definition sector_block :: "dpb_t \<Rightarrow> nat \<Rightarrow> nat" where
  "sector_block pb sid = drop_bit (BlockShift pb) sid"

definition sector_offset :: "dpb_t \<Rightarrow> nat \<Rightarrow> nat" where
  "sector_offset pb sid = wrap32 ((sid AND BlockMsk pb) * 128)"

definition file_offset :: "dpb_t \<Rightarrow> nat \<Rightarrow> nat \<Rightarrow> nat" where
  "file_offset pb blkoffset sid = wrap32 ((blkoffset - 1) * BlockSize pb + sector_offset pb sid)"

text \<open>
  The inner loop of \<open>Flush\<close> for one cached sector. \<open>freed\<close> records that \<open>delete [] data\<close> and
  \<open>cache_.erase(sid)\<close> were executed for it; a second matching entry would use the freed buffer.
\<close>

fun flush_extents :: "nat \<Rightarrow> bytes \<Rightarrow> bool \<Rightarrow> cpmdir list \<Rightarrow> dworld \<Rightarrow> (bool, dworld) outcome" where
  "flush_extents sid dat freed [] w = Ok freed w"
| "flush_extents sid dat freed (e # es) (d, h) =
     (if St e = UNUSED then flush_extents sid dat freed es (d, h)
      else let bo = FindBlockIndex e (wrap32 (sector_block (dpb d) sid)) (ptr_type d)
      in if bo = 0 then flush_extents sid dat freed es (d, h)
      else case cpm2unix d (GetName e) of
             None \<Rightarrow> Fail OutOfRange (d, h)
           | Some uname \<Rightarrow>
               if freed then Fail (Undefined UseAfterFree) (d, h)
               else flush_extents sid dat True es
                      (d\<lparr>cache := cache_del sid (cache d)\<rparr>,
                       snd (WriteHost h uname (file_offset (dpb d) bo sid) dat)))"

text \<open>
  The outer loop runs an iterator over the cache. Erasing its element invalidates it, and the
  increment that follows is undefined.
\<close>

fun flush_loop :: "(nat \<times> bytes) list \<Rightarrow> dworld \<Rightarrow> (nat, dworld) outcome" where
  "flush_loop [] w = Ok 0 w"
| "flush_loop ((sid, dat) # rest) w =
     bindo (flush_extents sid dat False (dir (fst w)) w)
       (\<lambda>freed w'. if freed then Fail (Undefined InvalidIterator) w' else flush_loop rest w')"

definition disk_Flush :: "dworld \<Rightarrow> (nat, dworld) outcome" where
  "disk_Flush w = flush_loop (cache (fst w)) w"

section \<open>Write\<close>

text \<open>What the change of a directory entry from \<open>old\<close> to \<open>new\<close> does to the host files.\<close>

definition change_host :: "cpmdir \<Rightarrow> cpmdir \<Rightarrow> dworld \<Rightarrow> (unit, dworld) outcome" where
  "change_host extold extnew w =
     (case w of (d, h) \<Rightarrow>
      if St extnew = UNUSED \<and> St extold \<noteq> UNUSED
      then (if GetExtNumber extold = 0
            then (case cpm2unix d (GetName extold) of
                    None \<Rightarrow> Fail OutOfRange (d, h)
                  | Some uname \<Rightarrow>
                      (case host_remove h uname of
                         (False, h') \<Rightarrow> Fail Terminate (d, h')
                       | (True, h') \<Rightarrow>
                           Ok () (d\<lparr>cpm2unix := (cpm2unix d)(GetName extold := None)\<rparr>, h')))
            else Ok () (d, h))
      else if St extnew \<noteq> UNUSED \<and> St extold = UNUSED
      then (if GetExtNumber extnew = 0
            then (case mkhostname (drvpath d) (GetName extnew) h of
                    Fail e h' \<Rightarrow> Fail e (d, h')
                  | Ok uname h' \<Rightarrow>
                      (case host_create h' uname of
                         (False, h'') \<Rightarrow> Fail Terminate (d, h'')
                       | (True, h'') \<Rightarrow>
                           Ok () (d\<lparr>cpm2unix := (cpm2unix d)(GetName extnew \<mapsto> uname)\<rparr>, h'')))
            else Ok () (d, h))
      else if St extnew \<noteq> UNUSED \<and> St extold \<noteq> UNUSED \<and> GetName extnew \<noteq> GetName extold
      then (if GetExtNumber extold = 0 \<and> GetExtNumber extnew = 0
            then (case cpm2unix d (GetName extold) of
                    None \<Rightarrow> Fail OutOfRange (d, h)
                  | Some unameold \<Rightarrow>
                      (case mkhostname (drvpath d) (GetName extnew) h of
                         Fail e h' \<Rightarrow> Fail e (d, h')
                       | Ok unamenew h' \<Rightarrow>
                           (case host_rename h' unameold unamenew of
                              (False, h'') \<Rightarrow> Fail Terminate (d, h'')
                            | (True, h'') \<Rightarrow>
                                Ok () (d\<lparr>cpm2unix := (cpm2unix d)(GetName extold := None,
                                          GetName extnew \<mapsto> unamenew)\<rparr>, h''))))
            else Ok () (d, h))
      else Ok () (d, h))"

text \<open>One of the four entries of a directory sector; \<open>dd\<close> is the memory from its bytes on.\<close>

definition write_extent :: "nat \<Rightarrow> bytes \<Rightarrow> dworld \<Rightarrow> (unit, dworld) outcome" where
  "write_extent i dd w =
     (if length (dir (fst w)) \<le> i then Fail OutOfRange w
      else case cpmdir_of_bytes (ptr_type (fst w)) dd of
        None \<Rightarrow> Fail (Undefined OutOfBounds) w
      | Some extnew \<Rightarrow>
          let extold = dir (fst w) ! i
          in if cpmdir_eq extold extnew then Ok () w
             else bindo (change_host extold extnew w)
                    (\<lambda>_ (d, h). Ok () (d\<lparr>dir := (dir d)[i := extnew]\<rparr>, h)))"

fun write_extents :: "nat \<Rightarrow> nat list \<Rightarrow> bytes \<Rightarrow> dworld \<Rightarrow> (unit, dworld) outcome" where
  "write_extents extno [] dma w = Ok () w"
| "write_extents extno (idx # is) dma w =
     bindo (write_extent (extno + idx) (drop (idx * 32) dma) w)
       (\<lambda>_ w'. write_extents extno is dma w')"

definition disk_Write :: "nat \<Rightarrow> nat \<Rightarrow> bytes \<Rightarrow> dworld \<Rightarrow> (nat, dworld) outcome" where
  "disk_Write track sector dma w =
     (case w of (d, h) \<Rightarrow>
      case GetAbsSector (dpb d) (smap d) track sector of
        Inl u \<Rightarrow> Fail (Undefined u) (d, h)
      | Inr absector \<Rightarrow>
          if absector < dirstart d
          then (case WriteHost h (bootblock d) (absector * 128) (take 128 dma) of (r, h') \<Rightarrow>
                if r \<noteq> 0 then Fail Terminate (d, h')
                else if length dma < 128 then Fail (Undefined OutOfBounds) (d, h)
                else Ok 0 (d, h'))
          else let sec = absector - dirstart d
               in if sec < datastart d
                  then bindo (write_extents (wrap32 (sec * 4)) [0, 1, 2, 3] dma (d, h))
                         (\<lambda>_ w'. disk_Flush w')
                  else if length dma < 128 then Fail (Undefined OutOfBounds) (d, h)
                  else Ok 0 (d\<lparr>cache := cache_put sec (take 128 dma) (cache d)\<rparr>, h))"

section \<open>Read\<close>

text \<open>\<open>memcpy\<close> into the transfer memory.\<close>

definition copy_in :: "nat \<Rightarrow> bytes \<Rightarrow> bytes \<Rightarrow> (unit, bytes) outcome" where
  "copy_in pos src buf =
     (if pos + length src \<le> length buf then Ok () (blit pos src buf)
      else Fail (Undefined OutOfBounds) buf)"

fun read_dir :: "cpmdir list \<Rightarrow> nat \<Rightarrow> nat list \<Rightarrow> bytes \<Rightarrow> (unit, bytes) outcome" where
  "read_dir es extno [] buf = Ok () buf"
| "read_dir es extno (idx # is) buf =
     (if length es \<le> extno + idx then Fail OutOfRange buf
      else bindo (copy_in (idx * 32) (cpmdir_image (es ! (extno + idx))) buf)
             (\<lambda>_ buf'. read_dir es extno is buf'))"

text \<open>
  The search for the owner of a data block goes through the whole directory. A name missing from
  the table leaves the host name empty, and opening it fails; the result is ignored.
\<close>

fun read_extents :: "disk \<Rightarrow> host \<Rightarrow> nat \<Rightarrow> cpmdir list \<Rightarrow> bytes \<Rightarrow> (unit, bytes) outcome" where
  "read_extents d h sid [] buf = Ok () buf"
| "read_extents d h sid (e # es) buf =
     (if St e = UNUSED then read_extents d h sid es buf
      else let bo = FindBlockIndex e (wrap32 (sector_block (dpb d) sid)) (ptr_type d)
      in if bo = 0 then read_extents d h sid es buf
      else let uname = (case cpm2unix d (GetName e) of None \<Rightarrow> [] | Some u \<Rightarrow> u)
      in bindo (ReadHost h uname (file_offset (dpb d) bo sid) buf)
           (\<lambda>_ buf'. read_extents d h sid es buf'))"

definition disk_Read :: "nat \<Rightarrow> nat \<Rightarrow> bytes \<Rightarrow> dworld \<Rightarrow> (nat, bytes) outcome" where
  "disk_Read track sector dma w =
     (case w of (d, h) \<Rightarrow>
      case GetAbsSector (dpb d) (smap d) track sector of
        Inl u \<Rightarrow> Fail (Undefined u) dma
      | Inr absector \<Rightarrow>
          if absector < dirstart d
          then bindo (ReadHost h (bootblock d) (absector * 128) dma)
                 (\<lambda>r dma'. if r \<noteq> 0 then Fail Terminate dma'
                           else if length dma' < 128 then Fail (Undefined OutOfBounds) dma'
                           else Ok 0 dma')
          else let sec = absector - dirstart d
               in if sec < datastart d
                  then bindo (read_dir (dir d) (wrap32 (sec * 4)) [0, 1, 2, 3] dma) (\<lambda>_ b. Ok 0 b)
                  else case map_of (cache d) sec of
                         Some dat \<Rightarrow> bindo (copy_in 0 dat dma) (\<lambda>_ b. Ok 0 b)
                       | None \<Rightarrow> bindo (read_extents d h sec (dir d) dma) (\<lambda>_ b. Ok 0 b))"

end
