(* ===== verification/Disk_Transfer.thy ===== *)
theory Disk_Transfer
  imports Disk_IO
begin

text \<open>
  What the sector transfers of the host-directory drive do: the three areas of the disk (system
  tracks, directory, data), the write cache as a finite map, the owner of a data block, the
  contents of an imported file seen through the emulated disk, the effect of directory writes on
  the host, and what \<open>Flush\<close> achieves.
\<close>

section \<open>The cache as a finite map\<close>

lemma map_of_cache_put [simp]: "map_of (cache_put k v c) = (map_of c)(k \<mapsto> v)"
  by (induction k v c rule: cache_put.induct) (auto simp: fun_upd_twist)

lemma keys_cache_put: "fst ` set (cache_put k v c) = insert k (fst ` set c)"
  by (induction k v c rule: cache_put.induct) auto

text \<open>The keys stay in ascending order, the iteration order of \<open>std::map\<close>.\<close>

definition cache_sorted :: "(nat \<times> bytes) list \<Rightarrow> bool" where
  "cache_sorted c \<longleftrightarrow> sorted_wrt (<) (map fst c)"

lemma cache_put_sorted: "cache_sorted c \<Longrightarrow> cache_sorted (cache_put k v c)"
proof (induction k v c rule: cache_put.induct)
  case (2 k v k' v' c)
  have keys: "set (map fst (cache_put k v c)) = insert k (fst ` set c)"
    by (simp add: keys_cache_put)
  from 2 keys show ?case by (auto simp: cache_sorted_def)
qed (simp add: cache_sorted_def)

lemma cache_del_sorted: "cache_sorted c \<Longrightarrow> cache_sorted (cache_del k c)"
  unfolding cache_sorted_def cache_del_def by (simp add: sorted_wrt_map sorted_wrt_filter)

lemma map_of_cache_del [simp]: "map_of (cache_del k c) = (map_of c)(k := None)"
  by (induction c) (auto simp: cache_del_def fun_eq_iff)

section \<open>The owner of a block\<close>

lemma blocks_of_nth:
  assumes "i < length es" and "b \<in> set (al_entries (es ! i) P)" and "0 < b"
  shows "b \<in> set (blocks_of P es)"
  using assms by (auto simp: blocks_of_def intro!: bexI [of _ "es ! i"])

lemma unique_owner:
  assumes "distinct (blocks_of P es)" and "0 < b" and "i < length es" and "j < length es" and "i \<noteq> j"
    and "b \<in> set (al_entries (es ! i) P)"
  shows "b \<notin> set (al_entries (es ! j) P)"
  using assms
proof (induction es arbitrary: i j)
  case (Cons e es)
  have apart: "b \<notin> set (al_entries e P) \<or> b \<notin> set (blocks_of P es)"
    using Cons.prems(1,2) by auto
  show ?case
  proof (cases i)
    case 0
    with Cons.prems obtain j' where j: "j = Suc j'" "j' < length es" by (cases j) auto
    with apart 0 Cons.prems blocks_of_nth [of j' es b P] show ?thesis by auto
  next
    case (Suc i')
    show ?thesis
    proof (cases j)
      case 0
      with apart Suc Cons.prems blocks_of_nth [of i' es b P] show ?thesis by auto
    next
      case (Suc j')
      then show ?thesis
        using Cons.IH [of i' j'] Cons.prems \<open>i = Suc i'\<close> by simp
    qed
  qed
qed simp

text \<open>
  The inner loops of \<open>Read\<close> and \<open>Flush\<close> act on the entries that report the block; \<open>owns\<close> is
  the test they make.
\<close>

definition owns :: "disk \<Rightarrow> nat \<Rightarrow> cpmdir \<Rightarrow> bool" where
  "owns d sid e \<longleftrightarrow>
     St e \<noteq> UNUSED \<and> FindBlockIndex e (wrap32 (sector_block (dpb d) sid)) (ptr_type d) \<noteq> 0"

lemma owns_iff:
  "owns d sid e \<longleftrightarrow>
     St e \<noteq> UNUSED \<and> wrap32 (sector_block (dpb d) sid) \<in> set (al_entries e (ptr_type d))"
  using FindBlockIndex_0 [OF BlockPtrType_cases [of "dpb d"]] by (auto simp: owns_def)

lemma read_extents_none:
  "\<forall>e \<in> set es. \<not> owns d sid e \<Longrightarrow> read_extents d h sid es buf = Ok () buf"
  by (induction es) (auto simp: owns_def)

lemma read_extents_skip:
  "\<forall>e \<in> set xs. \<not> owns d sid e \<Longrightarrow> read_extents d h sid (xs @ ys) buf = read_extents d h sid ys buf"
  by (induction xs) (auto simp: owns_def)

lemma read_extents_one:
  assumes "\<forall>e \<in> set (xs @ ys). \<not> owns d sid e" and "owns d sid e"
    and "cpm2unix d (GetName e) = Some path"
    and "FindBlockIndex e (wrap32 (sector_block (dpb d) sid)) (ptr_type d) = bo"
  shows "read_extents d h sid (xs @ e # ys) buf =
     bindo (ReadHost h path (file_offset (dpb d) bo sid) buf) (\<lambda>_ b. Ok () b)"
proof -
  have "read_extents d h sid (xs @ e # ys) buf = read_extents d h sid (e # ys) buf"
    using assms(1) by (intro read_extents_skip) simp
  also have "\<dots> = bindo (ReadHost h path (file_offset (dpb d) bo sid) buf)
      (\<lambda>_ b. read_extents d h sid ys b)"
    using assms(2-4) by (simp add: owns_def Let_def)
  also have "\<dots> = bindo (ReadHost h path (file_offset (dpb d) bo sid) buf) (\<lambda>_ b. Ok () b)"
    using assms(1) by (simp add: read_extents_none)
  finally show ?thesis .
qed

text \<open>On an imported drive every used block has exactly one owner.\<close>

lemma import_owner:
  assumes "import_inv fb0 d" and "e \<in> set (dir d)" and "owns d sid e"
    and "0 < wrap32 (sector_block (dpb d) sid)"
  obtains xs ys where "dir d = xs @ e # ys" and "\<forall>e' \<in> set (xs @ ys). \<not> owns d sid e'"
    and "cpm2unix d (GetName e) \<noteq> None" and "fb0 \<le> wrap32 (sector_block (dpb d) sid)"
proof -
  let ?b = "wrap32 (sector_block (dpb d) sid)" and ?P = "ptr_type d"
  obtain us m where us: "dir d = us @ replicate m (cpmdir_new ?P)" "\<forall>e \<in> set us. live_ok d e"
    "blocks_of ?P us = [fb0..<freeblock d]" using assms(1) by (auto simp: import_inv_def)
  have "e \<in> set us" using assms(2,3) us(1) by (auto simp: owns_def)
  then obtain i where i: "i < length us" "us ! i = e" by (auto simp: in_set_conv_nth)
  have dist: "distinct (blocks_of ?P us)" by (simp add: us(3))
  have mem: "?b \<in> set (al_entries (us ! i) ?P)" using assms(3) i by (simp add: owns_iff)
  have other: "\<not> owns d sid (us ! j)" if "j < length us" "j \<noteq> i" for j
    using unique_owner [OF dist assms(4) i(1) that(1) _ mem] that(2) by (auto simp: owns_iff)
  have "\<forall>e' \<in> set (take i us @ drop (Suc i) us). \<not> owns d sid e'"
    using other i(1) by (fastforce simp: in_set_conv_nth)
  moreover have "dir d = take i us @ e # (drop (Suc i) us @ replicate m (cpmdir_new ?P))"
    using us(1) i id_take_nth_drop [OF i(1)] by simp
  moreover have "\<forall>e' \<in> set (replicate m (cpmdir_new ?P)). \<not> owns d sid e'"
    by (auto simp: owns_def)
  moreover have "cpm2unix d (GetName e) \<noteq> None" using us(2) \<open>e \<in> set us\<close> by (simp add: live_ok_def)
  moreover have "fb0 \<le> ?b" using blocks_of_nth [OF i(1) mem assms(4)] us(3) by simp
  ultimately show thesis
    by (intro that [of "take i us" "drop (Suc i) us @ replicate m (cpmdir_new ?P)"]) auto
qed

lemma al_entries_new: "set (al_entries (cpmdir_new P) P') \<subseteq> {0}" if "P' = 8 \<or> P' = 16"
  using that by (auto simp: al_entries_def GetALByte_def GetALWord_def cpmdir_new_def)

lemma import_blocks:
  assumes "import_inv fb0 d" and "i < length (dir d)" and "j < length (dir d)"
    and "b \<in> set (al_entries (dir d ! i) (ptr_type d))" and "b \<noteq> 0"
  shows "fb0 \<le> b" and "b < freeblock d"
    and "i \<noteq> j \<Longrightarrow> b \<notin> set (al_entries (dir d ! j) (ptr_type d))"
proof -
  let ?P = "ptr_type d"
  obtain us m where us: "dir d = us @ replicate m (cpmdir_new ?P)"
    "blocks_of ?P us = [fb0..<freeblock d]" using assms(1) by (auto simp: import_inv_def)
  have new: "b \<notin> set (al_entries (dir d ! k) ?P)" if "length us \<le> k" "k < length (dir d)" for k
    using that us(1) al_entries_new [OF BlockPtrType_cases [of "dpb d"], of ?P] assms(5)
    by (auto simp: nth_append)
  have i: "i < length us" using new [of i] assms(2,4) by (meson not_le)
  have mem: "b \<in> set (al_entries (us ! i) ?P)" using assms(4) us(1) i by (simp add: nth_append)
  have "b \<in> set [fb0..<freeblock d]"
    using blocks_of_nth [OF i mem] assms(5) us(2) by simp
  then show "fb0 \<le> b" "b < freeblock d" by simp_all
  show "b \<notin> set (al_entries (dir d ! j) ?P)" if "i \<noteq> j"
  proof (cases "j < length us")
    case True
    have "distinct (blocks_of ?P us)" by (simp add: us(2))
    then have "b \<notin> set (al_entries (us ! j) ?P)"
      using assms(5) i True that mem by (intro unique_owner) simp_all
    with True us(1) show ?thesis by (simp add: nth_append)
  next
    case False
    with new [of j] assms(3) show ?thesis by simp
  qed
qed

section \<open>Sector arithmetic\<close>

text \<open>Parameter blocks whose block mask belongs to their block shift, as every CP/M table has it.\<close>

definition mask_ok :: "dpb_t \<Rightarrow> bool" where
  "mask_ok pb \<longleftrightarrow> BlockMsk pb = 2 ^ BlockShift pb - 1"

lemma sector_block_at: "sector_block pb (fb * 2 ^ BlockShift pb + n) = fb + n div 2 ^ BlockShift pb"
  by (simp add: sector_block_def drop_bit_eq_div)

lemma sector_offset_at:
  assumes "mask_ok pb" and "geometry_ok pb"
  shows "sector_offset pb (fb * 2 ^ BlockShift pb + n) = n mod 2 ^ BlockShift pb * 128"
proof -
  let ?s = "BlockShift pb"
  have "(fb * 2 ^ ?s + n) AND BlockMsk pb = n mod 2 ^ ?s"
    using assms(1) and_mask_nat [of "fb * 2 ^ ?s + n" ?s]
    by (simp add: mask_ok_def mask_eq_exp_minus_1)
  moreover have "n mod 2 ^ ?s < 2 ^ 24"
  proof (rule less_le_trans)
    show "n mod 2 ^ ?s < 2 ^ ?s" by simp
    show "(2::nat) ^ ?s \<le> 2 ^ 24"
      using assms(2) by (intro power_increasing) (simp_all add: geometry_ok_def)
  qed
  ultimately show ?thesis by (simp add: sector_offset_def)
qed

lemma file_offset_at:
  assumes "mask_ok pb" and "geometry_ok pb" and "n * 128 < 2 ^ 32"
  shows "file_offset pb (n div 2 ^ BlockShift pb + 1) (fb * 2 ^ BlockShift pb + n) = n * 128"
proof -
  let ?s = "BlockShift pb"
  have "a * (128 * q) + b * 128 = (a * q + b) * (128 :: nat)" for a b q by (simp add: algebra_simps)
  then have "n div 2 ^ ?s * BlockSize pb + n mod 2 ^ ?s * 128 = (n div 2 ^ ?s * 2 ^ ?s + n mod 2 ^ ?s) * 128"
    by (simp only: geometry_BlockSize [OF assms(2)])
  then have "n div 2 ^ ?s * BlockSize pb + n mod 2 ^ ?s * 128 = n * 128"
    by (simp only: div_mult_mod_eq)
  then show ?thesis
    using assms(3) by (simp add: file_offset_def sector_offset_at [OF assms(1,2)])
qed

lemma dirblocks_le: "dirblocks pb \<le> 16"
  using count_dirblocks_eq [of "of_nat (A01 pb)"]
  by (cases "of_nat (A01 pb) = (0 :: u16)") (simp_all add: dirblocks_def count_dirblocks.simps)

lemma datastart_small:
  assumes "geometry_ok pb"
  shows "dirblocks pb * 2 ^ BlockShift pb < 2 ^ 30"
proof -
  have "(2::nat) ^ BlockShift pb \<le> 2 ^ 24"
    using assms by (intro power_increasing) (simp_all add: geometry_ok_def)
  then have "dirblocks pb * 2 ^ BlockShift pb \<le> 16 * 2 ^ 24"
    using dirblocks_le [of pb] by (intro mult_le_mono)
  then show ?thesis by simp
qed

section \<open>Imported files through the emulated disk\<close>

lemma sector_in_file:
  assumes "geometry_ok pb" and "n * 128 < sz"
  shows "n div 2 ^ BlockShift pb < nblocks pb sz"
proof -
  let ?s = "BlockShift pb" and ?B = "BlockSize pb"
  have B: "?B = 128 * 2 ^ ?s" by (rule geometry_BlockSize [OF assms(1)])
  then have pos: "0 < ?B" by simp
  have "n div 2 ^ ?s * ?B = n div 2 ^ ?s * 2 ^ ?s * 128" by (simp add: B)
  also have "\<dots> \<le> n * 128" by (intro mult_le_mono) simp_all
  also have "\<dots> < sz" by (rule assms(2))
  finally have "(n div 2 ^ ?s + 1) * ?B \<le> sz + ?B - 1" using pos by (simp add: algebra_simps)
  then have "n div 2 ^ ?s + 1 \<le> nblocks pb sz"
    unfolding nblocks_def using pos by (simp add: less_eq_div_iff_mult_less_eq)
  then show ?thesis by simp
qed

text \<open>The blocks a directory entry of the file reports, as the BDOS would find them.\<close>

definition file_block :: "disk \<Rightarrow> string \<Rightarrow> nat \<Rightarrow> nat \<Rightarrow> bool" where
  "file_block d s k b \<longleftrightarrow>
     (\<exists>e \<in> set (dir d). GetName e = s \<and> FindBlockIndex e b (ptr_type d) = k + 1)"

lemma imported_sector:
  assumes ok: "import_ok h fb0 d" and msk: "mask_ok (dpb d)" and "cache d = []"
    and blk: "file_block d s (n div 2 ^ BlockShift (dpb d)) b" and "0 < b" and "b < 65536"
    and p: "cpm2unix d s = Some p" "host_lookup h p = Some (Reg f)" and n: "n * 128 < length f"
    and small: "length f < 2 ^ 32"
    and sid: "sid = b * 2 ^ BlockShift (dpb d) + n mod 2 ^ BlockShift (dpb d)"
  shows "read_extents d h sid (dir d) buf =
      bindo (ReadHost h p (n * 128) buf) (\<lambda>_ b. Ok () b)" and "fb0 \<le> b"
proof -
  let ?s = "BlockShift (dpb d)"
  have geo: "geometry_ok (dpb d)" and inv: "import_inv fb0 d" using ok by (simp_all add: import_ok_def)
  obtain e where e: "e \<in> set (dir d)" "GetName e = s"
    "FindBlockIndex e b (ptr_type d) = n div 2 ^ ?s + 1"
    using blk by (auto simp: file_block_def)
  have sb: "wrap32 (sector_block (dpb d) sid) = b"
    using \<open>b < 65536\<close> by (simp add: sid sector_block_at)
  have own: "owns d sid e" using e(3) unfolding owns_def sb by (auto simp: FindBlockIndex_def)
  obtain xs ys where xy: "dir d = xs @ e # ys" "\<forall>e' \<in> set (xs @ ys). \<not> owns d sid e'"
    and b0: "fb0 \<le> wrap32 (sector_block (dpb d) sid)"
    by (rule import_owner [OF inv e(1) own]) (use \<open>0 < b\<close> sb in simp)
  have "n mod 2 ^ ?s div 2 ^ ?s = 0" by simp
  then have off: "file_offset (dpb d) (n div 2 ^ ?s + 1) sid = n * 128"
  proof -
    have "file_offset (dpb d) (n div 2 ^ ?s + 1) sid =
        file_offset (dpb d) (n div 2 ^ ?s + 1) (0 * 2 ^ ?s + n)"
      unfolding file_offset_def sid
      using sector_offset_at [OF msk geo, of b "n mod 2 ^ ?s"] sector_offset_at [OF msk geo, of 0 n]
      by simp
    also have "\<dots> = n * 128" by (rule file_offset_at [OF msk geo]) (use n small in simp)
    finally show ?thesis .
  qed
  show "read_extents d h sid (dir d) buf = bindo (ReadHost h p (n * 128) buf) (\<lambda>_ b. Ok () b)"
    using read_extents_one [OF xy(2) own, of p "n div 2 ^ ?s + 1" h buf] p(1) e(2,3) xy(1) off sb by simp
  show "fb0 \<le> b" using b0 sb by simp
qed

lemma al_entries_lt: "b \<in> set (al_entries e P) \<Longrightarrow> b < 65536"
  by (auto simp: al_entries_def GetALByte_def GetALWord_def less_trans [OF unat_u8_lt] split: if_splits)

lemma file_block_lt:
  assumes "file_block d s k b" shows "b < 65536"
proof -
  obtain e where "FindBlockIndex e b (ptr_type d) = k + 1" using assms by (auto simp: file_block_def)
  then have "b \<in> set (al_entries e (ptr_type d))"
    using FindBlockIndex_0 [OF BlockPtrType_cases [of "dpb d"], of e b] by fastforce
  then show ?thesis by (rule al_entries_lt)
qed

section \<open>The three areas of the disk\<close>

definition system_sector :: "disk \<Rightarrow> nat \<Rightarrow> nat \<Rightarrow> nat \<Rightarrow> bool" where
  "system_sector d track sector n \<longleftrightarrow>
     GetAbsSector (dpb d) (smap d) track sector = Inr n \<and> n < dirstart d"

definition dir_sector :: "disk \<Rightarrow> nat \<Rightarrow> nat \<Rightarrow> nat \<Rightarrow> bool" where
  "dir_sector d track sector n \<longleftrightarrow>
     GetAbsSector (dpb d) (smap d) track sector = Inr (dirstart d + n) \<and> n < datastart d"

definition data_sector :: "disk \<Rightarrow> nat \<Rightarrow> nat \<Rightarrow> nat \<Rightarrow> bool" where
  "data_sector d track sector n \<longleftrightarrow>
     GetAbsSector (dpb d) (smap d) track sector = Inr (dirstart d + n) \<and> datastart d \<le> n"

lemma sector_areas:
  "GetAbsSector (dpb d) (smap d) track sector = Inr a \<Longrightarrow>
   (\<exists>n. system_sector d track sector n) \<or> (\<exists>n. dir_sector d track sector n) \<or> (\<exists>n. data_sector d track sector n)"
  by (auto simp: system_sector_def dir_sector_def data_sector_def le_iff_add not_le not_less)
    (metis le_iff_add not_less)

lemma disk_Write_data:
  assumes "data_sector d track sector n" and "128 \<le> length dma"
  shows "disk_Write track sector dma (d, h) =
     Ok 0 (d\<lparr>cache := cache_put n (take 128 dma) (cache d)\<rparr>, h)"
  using assms by (simp add: disk_Write_def data_sector_def)

lemma disk_Read_cached:
  assumes "data_sector d track sector n" and "map_of (cache d) n = Some dat"
    and "length dat \<le> length buf"
  shows "disk_Read track sector buf (d, h) = Ok 0 (blit 0 dat buf)"
  using assms by (simp add: disk_Read_def data_sector_def copy_in_def)

lemma disk_Read_uncached:
  assumes "data_sector d track sector n" and "map_of (cache d) n = None"
  shows "disk_Read track sector buf (d, h) = bindo (read_extents d h n (dir d) buf) (\<lambda>_ b. Ok 0 b)"
  using assms by (simp add: disk_Read_def data_sector_def)

lemma bindo_Ok_again: "bindo (bindo m (\<lambda>_ b. Ok () b)) (\<lambda>_ b. Ok x b) = bindo m (\<lambda>_ b. Ok x b)"
  by (cases m) auto

lemma disk_Read_imported:
  assumes "import_ok h (dirblocks (dpb d)) d" and "mask_ok (dpb d)" and "cache d = []"
    and "datastart d = wrap32 (dirblocks (dpb d) * 2 ^ BlockShift (dpb d))"
    and "file_block d s (n div 2 ^ BlockShift (dpb d)) b" and "0 < b"
    and "cpm2unix d s = Some p" "host_lookup h p = Some (Reg f)" and "n * 128 < length f"
    and "length f < 2 ^ 32" and "128 \<le> length buf"
    and "GetAbsSector (dpb d) (smap d) track sector =
       Inr (dirstart d + (b * 2 ^ BlockShift (dpb d) + n mod 2 ^ BlockShift (dpb d)))"
  shows "disk_Read track sector buf (d, h) = Ok 0 (blit 0 (read_at (n * 128) 128 f) buf)"
proof -
  let ?s = "BlockShift (dpb d)"
  define sid where "sid = b * 2 ^ ?s + n mod 2 ^ ?s"
  note im = imported_sector [OF assms(1-3,5,6) file_block_lt [OF assms(5)] assms(7-10) sid_def]
  have "datastart d = dirblocks (dpb d) * 2 ^ ?s"
    using assms(1,4) datastart_small [of "dpb d"] by (simp add: import_ok_def)
  also have "\<dots> \<le> b * 2 ^ ?s" using im(2) by simp
  finally have "data_sector d track sector sid"
    using assms(12) by (simp add: data_sector_def sid_def)
  then have "disk_Read track sector buf (d, h) = bindo (ReadHost h p (n * 128) buf) (\<lambda>_ b. Ok 0 b)"
    using im(1) [of buf] assms(3) by (simp add: disk_Read_uncached bindo_Ok_again)
  also have "\<dots> = Ok 0 (blit 0 (read_at (n * 128) 128 f) buf)"
    using assms(8,11) order_trans [OF length_read_at_le assms(11)] by (simp add: ReadHost_def Let_def)
  finally show ?thesis .
qed

section \<open>Flush\<close>

lemma flush_extents_none:
  "\<forall>e \<in> set es. \<not> owns d sid e \<Longrightarrow> flush_extents sid dat freed es (d, h) = Ok freed (d, h)"
  by (induction es) (auto simp: owns_def)

lemma flush_extents_skip:
  "\<forall>e \<in> set xs. \<not> owns d sid e \<Longrightarrow>
   flush_extents sid dat freed (xs @ ys) (d, h) = flush_extents sid dat freed ys (d, h)"
  by (induction xs) (auto simp: owns_def)

lemma flush_extents_unmapped:
  assumes "\<forall>e \<in> set es. owns d sid e \<longrightarrow> cpm2unix d (GetName e) \<noteq> None"
  shows "flush_extents sid dat True es (d, h) =
     (if \<exists>e \<in> set es. owns d sid e then Fail (Undefined UseAfterFree) (d, h) else Ok True (d, h))"
  using assms
proof (induction es)
  case (Cons e es)
  show ?case
  proof (cases "owns d sid e")
    case True
    then obtain u where "cpm2unix d (GetName e) = Some u" using Cons.prems by auto
    with True show ?thesis by (simp add: owns_def Let_def)
  next
    case False
    with Cons show ?thesis by (auto simp: owns_def)
  qed
qed simp

lemma owns_cache [simp]: "owns (d\<lparr>cache := c\<rparr>) = owns d"
  by (simp add: owns_def fun_eq_iff)

text \<open>The one owner of a sector receives it, at the place of the block in the file.\<close>

lemma flush_extents_one:
  assumes "\<forall>e \<in> set (xs @ ys). \<not> owns d sid e" and "owns d sid e"
    and "cpm2unix d (GetName e) = Some path"
    and "FindBlockIndex e (wrap32 (sector_block (dpb d) sid)) (ptr_type d) = bo"
  shows "flush_extents sid dat False (xs @ e # ys) (d, h) =
     Ok True (d\<lparr>cache := cache_del sid (cache d)\<rparr>,
              snd (WriteHost h path (file_offset (dpb d) bo sid) dat))"
proof -
  have "flush_extents sid dat False (xs @ e # ys) (d, h) = flush_extents sid dat False (e # ys) (d, h)"
    using assms(1) by (intro flush_extents_skip) simp
  also have "\<dots> = flush_extents sid dat True ys (d\<lparr>cache := cache_del sid (cache d)\<rparr>,
      snd (WriteHost h path (file_offset (dpb d) bo sid) dat))"
    using assms(2-4) by (simp add: owns_def Let_def)
  finally show ?thesis using assms(1) by (simp add: flush_extents_none)
qed

text \<open>An owned sector is never passed over.\<close>

lemma flush_extents_owned:
  assumes "\<exists>e \<in> set es. owns d sid e"
  shows "flush_extents sid dat False es (d, h) \<noteq> Ok False w"
  using assms
proof (induction es)
  case (Cons e es)
  have stay: "flush_extents sid dat True xs w0 \<noteq> Ok False w" for xs w0
    by (induction xs arbitrary: w0) (auto simp: Let_def split: option.splits if_splits)
  show ?case
  proof (cases "owns d sid e")
    case True
    then show ?thesis by (auto simp: owns_def Let_def stay split: option.splits)
  next
    case False
    with Cons.prems have "\<exists>e \<in> set es. owns d sid e" by auto
    then have "flush_extents sid dat False es (d, h) \<noteq> Ok False w" by (rule Cons.IH)
    with False show ?thesis by (auto simp: owns_def)
  qed
qed simp

lemma flush_loop_Ok:
  "flush_loop c (d, h) = Ok r w \<longleftrightarrow>
     r = 0 \<and> w = (d, h) \<and> (\<forall>(sid, dat) \<in> set c. \<forall>e \<in> set (dir d). \<not> owns d sid e)"
proof (induction c)
  case (Cons x c)
  obtain sid dat where x: "x = (sid, dat)" by (cases x)
  show ?case
  proof (cases "\<exists>e \<in> set (dir d). owns d sid e")
    case True
    then have "flush_loop (x # c) (d, h) \<noteq> Ok r w"
      using flush_extents_owned [OF True, of dat h]
      by (auto simp: x bindo_eq_Ok split: if_splits)
    with True show ?thesis by (auto simp: x)
  next
    case False
    then have "flush_extents sid dat False (dir d) (d, h) = Ok False (d, h)"
      by (intro flush_extents_none) simp
    with False Cons show ?thesis by (auto simp: x)
  qed
qed auto

lemma flush_loop_skip:
  assumes "\<forall>(sid, dat) \<in> set c. \<forall>e \<in> set (dir d). \<not> owns d sid e"
  shows "flush_loop (c @ c') (d, h) = flush_loop c' (d, h)"
  using assms by (induction c) (auto simp: flush_extents_none)

section \<open>Directory writes\<close>

lemma change_host_delete:
  assumes "change_host old new (d, h) = Ok () (d', h')"
    and "St new = UNUSED" and "St old \<noteq> UNUSED" and "GetExtNumber old = 0"
  obtains uname where "cpm2unix d (GetName old) = Some uname" and "host_remove h uname = (True, h')"
    and "d' = d\<lparr>cpm2unix := (cpm2unix d)(GetName old := None)\<rparr>"
proof -
  from assms obtain uname where u: "cpm2unix d (GetName old) = Some uname"
    by (auto simp: change_host_def split: option.splits)
  obtain r h1 where r: "host_remove h uname = (r, h1)" by (cases "host_remove h uname")
  from assms u r that show thesis by (cases r) (auto simp: change_host_def)
qed

lemma change_host_create:
  assumes "change_host old new (d, h) = Ok () (d', h')"
    and "St new \<noteq> UNUSED" and "St old = UNUSED" and "GetExtNumber new = 0"
  obtains uname h1 where "mkhostname (drvpath d) (GetName new) h = Ok uname h1"
    and "host_create h1 uname = (True, h')"
    and "d' = d\<lparr>cpm2unix := (cpm2unix d)(GetName new \<mapsto> uname)\<rparr>"
proof -
  from assms obtain uname h1 where u: "mkhostname (drvpath d) (GetName new) h = Ok uname h1"
    by (cases "mkhostname (drvpath d) (GetName new) h") (auto simp: change_host_def)
  obtain r h2 where r: "host_create h1 uname = (r, h2)" by (cases "host_create h1 uname")
  from assms u r that show thesis by (cases r) (auto simp: change_host_def)
qed

lemma change_host_rename:
  assumes "change_host old new (d, h) = Ok () (d', h')"
    and "St new \<noteq> UNUSED" and "St old \<noteq> UNUSED" and "GetName new \<noteq> GetName old"
    and "GetExtNumber old = 0" and "GetExtNumber new = 0"
  obtains unameold unamenew h1 where "cpm2unix d (GetName old) = Some unameold"
    and "mkhostname (drvpath d) (GetName new) h = Ok unamenew h1"
    and "host_rename h1 unameold unamenew = (True, h')"
    and "d' = d\<lparr>cpm2unix := (cpm2unix d)(GetName old := None, GetName new \<mapsto> unamenew)\<rparr>"
proof -
  from assms obtain uo where uo: "cpm2unix d (GetName old) = Some uo"
    by (auto simp: change_host_def split: option.splits)
  with assms obtain un h1 where un: "mkhostname (drvpath d) (GetName new) h = Ok un h1"
    by (cases "mkhostname (drvpath d) (GetName new) h") (auto simp: change_host_def)
  obtain r h2 where r: "host_rename h1 uo un = (r, h2)" by (cases "host_rename h1 uo un")
  from assms uo un r that show thesis by (cases r) (auto simp: change_host_def)
qed

text \<open>Every other change of an entry leaves the host and the name table alone.\<close>

lemma change_host_other:
  assumes "\<not> (St new = UNUSED \<and> St old \<noteq> UNUSED \<and> GetExtNumber old = 0)"
    and "\<not> (St new \<noteq> UNUSED \<and> St old = UNUSED \<and> GetExtNumber new = 0)"
    and "\<not> (St new \<noteq> UNUSED \<and> St old \<noteq> UNUSED \<and> GetName new \<noteq> GetName old \<and>
           GetExtNumber old = 0 \<and> GetExtNumber new = 0)"
  shows "change_host old new (d, h) = Ok () (d, h)"
  using assms by (auto simp: change_host_def)

lemma change_host_names:
  assumes "change_host old new (d, h) = Ok () (d', h')"
  shows "\<exists>m. d' = d\<lparr>cpm2unix := m\<rparr>"
proof -
  consider "St new = UNUSED \<and> St old \<noteq> UNUSED \<and> GetExtNumber old = 0"
    | "St new \<noteq> UNUSED \<and> St old = UNUSED \<and> GetExtNumber new = 0"
    | "St new \<noteq> UNUSED \<and> St old \<noteq> UNUSED \<and> GetName new \<noteq> GetName old \<and>
       GetExtNumber old = 0 \<and> GetExtNumber new = 0"
    | "change_host old new (d, h) = Ok () (d, h)"
    using change_host_other [of new old d h] by argo
  then show ?thesis
  proof cases
    case 1 with assms show ?thesis by (auto elim!: change_host_delete)
  next
    case 2 with assms show ?thesis by (auto elim!: change_host_create)
  next
    case 3 with assms show ?thesis by (auto elim!: change_host_rename)
  next
    case 4 with assms have "d' = d\<lparr>cpm2unix := cpm2unix d\<rparr>" by simp
    then show ?thesis by blast
  qed
qed

lemma change_host_frame:
  assumes "change_host old new (d, h) = Ok () (d', h')"
  shows "frame d' = frame d" and "dir d' = dir d" and "freeblock d' = freeblock d"
  using change_host_names [OF assms] by auto

lemma write_extent_Ok:
  assumes "write_extent i dd (d, h) = Ok () (d', h')"
  obtains e where "i < length (dir d)" and "cpmdir_of_bytes (ptr_type d) dd = Some e"
    and "frame d' = frame d"
    and "dir d' = (if cpmdir_eq (dir d ! i) e then dir d else (dir d)[i := e])"
proof -
  from assms obtain e where e: "i < length (dir d)" "cpmdir_of_bytes (ptr_type d) dd = Some e"
    by (auto simp: write_extent_def split: if_splits option.splits)
  show thesis
  proof (cases "cpmdir_eq (dir d ! i) e")
    case True
    with assms e have "d' = d" by (simp add: write_extent_def)
    with True e show thesis by (intro that [of e]) simp_all
  next
    case False
    with assms e obtain d1 where 1: "change_host (dir d ! i) e (d, h) = Ok () (d1, h')"
      and "d' = d1\<lparr>dir := (dir d1)[i := e]\<rparr>"
      by (cases "change_host (dir d ! i) e (d, h)") (auto simp: write_extent_def Let_def)
    with change_host_frame [OF 1] False e show thesis by (intro that [of e]) simp_all
  qed
qed

definition dir_ok :: "disk \<Rightarrow> bool" where
  "dir_ok d \<longleftrightarrow> (\<forall>e \<in> set (dir d). entry_ok (ptr_type d) e)"

text \<open>The names in a directory sector contain no zero byte.\<close>

definition plain_names :: "bytes \<Rightarrow> bool" where
  "plain_names dma \<longleftrightarrow> (\<forall>idx \<in> set [0, 1, 2, 3]. 0 \<notin> set (take 11 (drop (idx * 32 + 1) dma)))"

lemma cpmdir_eq_plain:
  assumes "entry_ok P a" and "entry_ok P b" and "0 \<notin> set (Fx b)" and "0 \<notin> set (Ex b)"
  shows "cpmdir_eq a b \<longleftrightarrow> a = b"
proof -
  have sym: "strneq xs ys = strneq ys xs" for xs ys
    by (induction xs ys rule: strneq.induct) (auto split: list.splits)
  have "strneq (Fx a) (Fx b) \<longleftrightarrow> Fx a = Fx b" "strneq (Ex a) (Ex b) \<longleftrightarrow> Ex a = Ex b"
    using assms strneq_eq [of "Fx b" "Fx a"] strneq_eq [of "Ex b" "Ex a"]
    by (auto simp: entry_ok_def cpmdir_ok_def sym)
  with assms(1,2) show ?thesis
    by (cases a; cases b) (auto simp: cpmdir_eq_def entry_ok_def)
qed

lemma cpmdir_of_bytes_name:
  assumes "cpmdir_of_bytes P dd = Some e"
  shows "Fx e @ Ex e = take 11 (drop 1 dd)"
proof -
  have len: "32 \<le> length dd" and e: "Fx e = take 8 (drop 1 dd)" "Ex e = take 3 (drop 9 dd)"
    using assms by (auto simp: cpmdir_of_bytes_def split: if_splits)
  have "take 11 (drop 1 dd) = take 8 (drop 1 dd) @ take 3 (drop 8 (drop 1 dd))"
    using take_add [of 8 3 "drop 1 dd"] by simp
  then show ?thesis by (simp add: e)
qed

lemma write_extent_stored:
  assumes "write_extent i dd (d, h) = Ok () (d', h')" and "dir_ok d"
    and "0 \<notin> set (take 11 (drop 1 dd))"
  shows "i < length (dir d)" and "frame d' = frame d" and "dir_ok d'"
    and "\<exists>e. cpmdir_of_bytes (ptr_type d) dd = Some e \<and> dir d' = (dir d)[i := e]"
proof -
  obtain e where i: "i < length (dir d)" and e: "cpmdir_of_bytes (ptr_type d) dd = Some e"
    and fr: "frame d' = frame d"
    and dir: "dir d' = (if cpmdir_eq (dir d ! i) e then dir d else (dir d)[i := e])"
    using assms(1) by (rule write_extent_Ok)
  have ok: "entry_ok (ptr_type d) e" using dirrec.enc_dec [OF e] by simp
  have "0 \<notin> set (Fx e @ Ex e)" using assms(3) cpmdir_of_bytes_name [OF e] by (simp only: simp_thms)
  then have "cpmdir_eq (dir d ! i) e \<longleftrightarrow> dir d ! i = e"
    using assms(2) i ok by (intro cpmdir_eq_plain [where P = "ptr_type d"]) (auto simp: dir_ok_def)
  then have dir': "dir d' = (dir d)[i := e]" using dir list_update_id [of "dir d" i] by auto
  show "i < length (dir d)" "frame d' = frame d" by (fact i, fact fr)
  show "\<exists>e. cpmdir_of_bytes (ptr_type d) dd = Some e \<and> dir d' = (dir d)[i := e]" using e dir' by blast
  show "dir_ok d'"
    using assms(2) ok dir' frame_fields [OF fr] by (auto simp: dir_ok_def dest: set_update_subset_insert [THEN subsetD])
qed

lemma write_extents_stored:
  assumes "write_extents extno is dma (d, h) = Ok () (d', h')" and "dir_ok d" and "distinct is"
    and "\<forall>idx \<in> set is. 0 \<notin> set (take 11 (drop (idx * 32 + 1) dma))"
  shows "frame d' = frame d \<and> dir_ok d' \<and> length (dir d') = length (dir d) \<and>
     (\<forall>j. j \<notin> (\<lambda>idx. extno + idx) ` set is \<longrightarrow> dir d' ! j = dir d ! j) \<and>
     (\<forall>idx \<in> set is. extno + idx < length (dir d) \<and>
        cpmdir_of_bytes (ptr_type d) (drop (idx * 32) dma) = Some (dir d' ! (extno + idx)))"
  using assms
proof (induction "is" arbitrary: d h)
  case (Cons idx "is")
  from Cons.prems(1) obtain d1 h1 where
    1: "write_extent (extno + idx) (drop (idx * 32) dma) (d, h) = Ok () (d1, h1)" and
    2: "write_extents extno is dma (d1, h1) = Ok () (d', h')"
    by (cases "write_extent (extno + idx) (drop (idx * 32) dma) (d, h)") auto
  have nul: "0 \<notin> set (take 11 (drop 1 (drop (idx * 32) dma)))" using Cons.prems(4) by simp
  note st = write_extent_stored [OF 1 Cons.prems(2) nul]
  obtain e where e: "cpmdir_of_bytes (ptr_type d) (drop (idx * 32) dma) = Some e"
    "dir d1 = (dir d)[extno + idx := e]" using st(4) by blast
  have pb: "dpb d1 = dpb d" by (rule frame_fields(2) [OF st(2)])
  have ih: "frame d' = frame d1 \<and> dir_ok d' \<and> length (dir d') = length (dir d1) \<and>
     (\<forall>j. j \<notin> (\<lambda>idx. extno + idx) ` set is \<longrightarrow> dir d' ! j = dir d1 ! j) \<and>
     (\<forall>idx \<in> set is. extno + idx < length (dir d1) \<and>
        cpmdir_of_bytes (ptr_type d1) (drop (idx * 32) dma) = Some (dir d' ! (extno + idx)))"
    using Cons.prems(3,4) by (intro Cons.IH [OF 2 st(3)]) simp_all
  have "extno + idx \<notin> (\<lambda>idx. extno + idx) ` set is" using Cons.prems(3) by auto
  with ih have "dir d' ! (extno + idx) = e" using e(2) st(1) by simp
  with ih st e pb show ?case by auto
qed simp

lemma read_dir_four:
  assumes "\<forall>idx < 4. extno + idx < length es \<and> cpmdir_image (es ! (extno + idx)) = take 32 (drop (idx * 32) bs)"
    and "length bs = 128" and "128 \<le> length buf"
  shows "read_dir es extno [0, 1, 2, 3] buf = Ok () (bs @ drop 128 buf)"
proof -
  have at: "extno + idx < length es" "cpmdir_image (es ! (extno + idx)) = take 32 (drop (idx * 32) bs)"
    if "idx < 4" for idx using assms(1) that by auto
  have bs: "take 32 bs @ take 32 (drop 32 bs) @ take 32 (drop 64 bs) @ take 32 (drop 96 bs) = bs"
    using assms(2) by (simp add: take_add [of 32 32 "drop 64 bs", symmetric] append_assoc [symmetric]
        take_add [of 32 32 bs, symmetric] take_add [of 64 32 bs, symmetric]
        take_add [of 96 32 bs, symmetric] del: append_assoc)
  have "read_dir es extno [0, 1, 2, 3] buf =
      Ok () (take 32 bs @ take 32 (drop 32 bs) @ take 32 (drop 64 bs) @ take 32 (drop 96 bs) @ drop 128 buf)"
    using at [of 0] at [of 1] at [of 2] at [of 3] assms(2,3)
    by (simp add: copy_in_def blit_def min_def)
  also have "\<dots> = Ok () (bs @ drop 128 buf)" using bs by (metis append_assoc)
  finally show ?thesis .
qed

lemma disk_Flush_Ok:
  "disk_Flush (d, h) = Ok r w \<longleftrightarrow>
     r = 0 \<and> w = (d, h) \<and> (\<forall>(sid, dat) \<in> set (cache d). \<forall>e \<in> set (dir d). \<not> owns d sid e)"
  unfolding disk_Flush_def fst_conv by (rule flush_loop_Ok)

lemma disk_Write_dir:
  assumes "disk_Write track sector dma (d, h) = Ok r (d', h')" and "dir_sector d track sector n"
    and "datastart d \<le> 2 ^ 30"
  shows "write_extents (n * 4) [0, 1, 2, 3] dma (d, h) = Ok () (d', h')" and "r = 0"
    and "\<forall>(sid, dat) \<in> set (cache d'). \<forall>e \<in> set (dir d'). \<not> owns d' sid e"
proof -
  have w: "wrap32 (n * 4) = n * 4" using assms(2,3) by (simp add: dir_sector_def)
  have "bindo (write_extents (n * 4) [0, 1, 2, 3] dma (d, h)) (\<lambda>_ w'. disk_Flush w') = Ok r (d', h')"
    using assms(1,2) w by (simp add: disk_Write_def dir_sector_def Let_def del: write_extents.simps)
  then obtain d1 h1 where 1: "write_extents (n * 4) [0, 1, 2, 3] dma (d, h) = Ok () (d1, h1)"
    and 2: "disk_Flush (d1, h1) = Ok r (d', h')"
    by (auto simp: bindo_eq_Ok simp del: write_extents.simps)
  then show "write_extents (n * 4) [0, 1, 2, 3] dma (d, h) = Ok () (d', h')" "r = 0"
    "\<forall>(sid, dat) \<in> set (cache d'). \<forall>e \<in> set (dir d'). \<not> owns d' sid e"
    by (auto simp: disk_Flush_Ok simp del: write_extents.simps)
qed

text \<open>A directory sector written without error reads back as it was written.\<close>

lemma dir_write_read:
  assumes "disk_Write track sector dma (d, h) = Ok r (d', h')" and "dir_sector d track sector n"
    and "dir_ok d" and "plain_names dma" and "datastart d \<le> 2 ^ 30" and "128 \<le> length buf"
  shows "disk_Read track sector buf (d', h') = Ok 0 (take 128 dma @ drop 128 buf)" and "dir_ok d'"
proof -
  note w = disk_Write_dir [OF assms(1,2,5)]
  have nul: "\<forall>idx \<in> set [0, 1, 2, 3]. 0 \<notin> set (take 11 (drop (idx * 32 + 1) dma))"
    using assms(4) unfolding plain_names_def .
  have st: "frame d' = frame d \<and> dir_ok d' \<and> length (dir d') = length (dir d) \<and>
     (\<forall>j. j \<notin> (\<lambda>idx. n * 4 + idx) ` set [0, 1, 2, 3] \<longrightarrow> dir d' ! j = dir d ! j) \<and>
     (\<forall>idx \<in> set [0, 1, 2, 3]. n * 4 + idx < length (dir d) \<and>
        cpmdir_of_bytes (ptr_type d) (drop (idx * 32) dma) = Some (dir d' ! (n * 4 + idx)))"
    by (rule write_extents_stored [OF w(1) assms(3) _ nul]) simp
  have st4: "n * 4 + idx < length (dir d') \<and>
      cpmdir_of_bytes (ptr_type d) (drop (idx * 32) dma) = Some (dir d' ! (n * 4 + idx))"
    if "idx < 4" for idx
  proof -
    have "idx \<in> set [0, 1, 2, 3]" using that by auto
    with st show ?thesis by metis
  qed
  have img: "cpmdir_image (dir d' ! (n * 4 + idx)) = take 32 (drop (idx * 32) (take 128 dma)) \<and>
      idx * 32 + 32 \<le> length dma" if "idx < 4" for idx
  proof -
    have "cpmdir_image (dir d' ! (n * 4 + idx)) = take 32 (drop (idx * 32) dma)"
      "32 \<le> length (drop (idx * 32) dma)"
      using dirrec.enc_dec st4 [OF that] by blast+
    moreover have "take 32 (drop (idx * 32) (take 128 dma)) = take 32 (drop (idx * 32) dma)"
      using that by (simp add: drop_take min_def)
    ultimately show ?thesis by simp
  qed
  have len: "length (take 128 dma) = 128" using img [of 3] by simp
  have "read_dir (dir d') (n * 4) [0, 1, 2, 3] buf = Ok () (take 128 dma @ drop 128 buf)"
    using st4 img by (intro read_dir_four [OF _ len assms(6)]) blast
  moreover have "dir_sector d' track sector n" using assms(2) st frame_fields [of d' d]
    by (simp add: dir_sector_def)
  moreover have "wrap32 (n * 4) = n * 4" using assms(2,5) by (simp add: dir_sector_def)
  ultimately show "disk_Read track sector buf (d', h') = Ok 0 (take 128 dma @ drop 128 buf)"
    by (simp add: disk_Read_def dir_sector_def del: read_dir.simps)
  show "dir_ok d'" using st by blast
qed

end
