(* ===== verification/Name_Mapping.thy ===== *)
theory Name_Mapping
  imports Disk_Transfer
begin

text \<open>
  Names on both sides of the disk: \<open>mkhostname\<close> turns the name of a directory entry into a host
  path (\<^verbatim>\<open>biosapi.h\<close>), the import turns host names into directory entries (\<open>readuser\<close>). The two
  agree on plain names, so a file created under CP/M has the same name after a restart.
\<close>

section \<open>User numbers\<close>

lemma all_nibbles: "(n::nat) < 16 \<Longrightarrow> n \<in> set [0..<16]" by simp

lemma hexval_hex_digit: "n < 16 \<Longrightarrow> hexval (hex_digit n) = n"
proof -
  have "\<forall>n \<in> set [0..<16]. hexval (hex_digit n) = n" by code_simp
  then show "n < 16 \<Longrightarrow> hexval (hex_digit n) = n" using all_nibbles by blast
qed

lemma hex_pair:
  "push_bit 4 (hexval (hex_digit (unat (x :: u8) div 16))) OR hexval (hex_digit (unat x mod 16)) = unat x"
proof -
  have d: "unat x div 16 < 16" by (rule less_mult_imp_div_less) simp
  define a b where "a = unat x div 16" and "b = unat x mod 16"
  have "b < 16" by (simp add: b_def)
  then have "take_bit 4 b = b" by (simp add: take_bit_nat_eq_self_iff)
  then have nb: "\<not> bit b n" if "4 \<le> n" for n using that by (metis bit_take_bit_iff not_less)
  have "push_bit 4 a OR b = push_bit 4 a + b"
    by (rule disjunctive_add [symmetric]) (use nb in \<open>auto simp: bit_simps\<close>)
  also have "\<dots> = unat x" by (simp add: push_bit_eq_mult a_def b_def)
  finally show ?thesis using d by (simp add: hexval_hex_digit a_def b_def)
qed

section \<open>Host paths of directory entries\<close>

definition name_part :: "cpmdir \<Rightarrow> string" where
  "name_part e = map byte_char (Fx e) @ (if strneq (Ex e) [32, 32, 32] then [] else ''.'')
     @ map byte_char (Ex e)"

definition user_dir :: "string \<Rightarrow> u8 \<Rightarrow> string" where
  "user_dir path u = (if u = 0 then path else path_append path (nat_string (unat u)))"

definition squeeze :: "string \<Rightarrow> string" where
  "squeeze s = filter (\<lambda>c. \<not> is_space c) s"

lemma mkhostname_GetName:
  "mkhostname path (GetName e) h =
     bindo (create_directories h (user_dir path (St e)))
       (\<lambda>_ h'. Ok (path_append (user_dir path (St e)) (squeeze (name_part e))) h')"
  by (simp add: mkhostname_def GetName_def hex_pair user_dir_def squeeze_def name_part_def unat_eq_zero
      Let_def)

text \<open>Creating directories neither changes nor hides a file.\<close>

lemma make_dirs_files:
  assumes "make_dirs h ds = Ok () h'" and "host_lookup h p = Some n"
  shows "host_lookup h' p = Some n"
  using assms
proof (induction h ds rule: make_dirs.induct)
  case (2 h d ds)
  show ?case
  proof (cases "map_of (nodes h) d")
    case None
    with "2.prems"(2) have "p \<noteq> d" by (auto simp: host_lookup_def split: if_splits)
    with 2 None show ?thesis by (auto split: if_splits)
  next
    case (Some nd)
    with 2 show ?thesis by (cases nd) (auto split: if_splits)
  qed
qed simp

lemma make_dirs_denied: "make_dirs h ds = Ok () h' \<Longrightarrow> denied h' = denied h"
  by (induction h ds rule: make_dirs.induct) (auto split: if_splits option.splits node.splits)

lemma create_directories_files:
  "create_directories h d = Ok () h' \<Longrightarrow> host_lookup h p = Some n \<Longrightarrow> host_lookup h' p = Some n"
  unfolding create_directories_def by (rule make_dirs_files)

lemma mkhostname_Ok:
  assumes "mkhostname path (GetName e) h = Ok uname h'"
  shows "uname = path_append (user_dir path (St e)) (squeeze (name_part e))"
    and "host_lookup h p = Some n \<Longrightarrow> host_lookup h' p = Some n"
proof -
  obtain h1 where h1: "create_directories h (user_dir path (St e)) = Ok () h1"
    and eq: "Ok (path_append (user_dir path (St e)) (squeeze (name_part e))) h1 = Ok uname h'"
    using assms unfolding mkhostname_GetName bindo_eq_Ok by auto
  then show "uname = path_append (user_dir path (St e)) (squeeze (name_part e))"
    and "host_lookup h p = Some n \<Longrightarrow> host_lookup h' p = Some n"
    using create_directories_files by auto
qed

section \<open>Plain names survive the round trip\<close>

definition name_chars :: "string \<Rightarrow> bool" where
  "name_chars s \<longleftrightarrow> (\<forall>c \<in> set s. c \<notin> set noname \<and> \<not> is_space c \<and> to_upper c = c)"

definition plain_entry :: "cpmdir \<Rightarrow> string \<Rightarrow> string \<Rightarrow> bool" where
  "plain_entry e base ext \<longleftrightarrow>
     name_chars base \<and> name_chars ext \<and> base \<noteq> [] \<and> length base \<le> 8 \<and> length ext \<le> 3 \<and>
     Fx e = map char_byte (pad 8 base) \<and> Ex e = map char_byte (pad 3 ext)"

lemma squeeze_pad: "name_chars s \<Longrightarrow> squeeze (pad n s) = s"
  by (simp add: squeeze_def pad_def name_chars_def is_space_def filter_id_conv)

lemma blank_ext:
  assumes "name_chars ext" and "length ext \<le> 3"
  shows "strneq (map char_byte (pad 3 ext)) [32, 32, 32] \<longleftrightarrow> ext = []"
proof
  assume "strneq (map char_byte (pad 3 ext)) [32, 32, 32]"
  then have "map char_byte (pad 3 ext) = [32, 32, 32]"
    using assms(2) by (simp add: strneq_blank length_pad)
  then have "map byte_char (map char_byte (pad 3 ext)) = map byte_char [32, 32, 32]"
    by (simp only:)
  then have "pad 3 ext = map byte_char [32, 32, 32]"
    by (simp only: list.map_comp comp_def byte_char_char_byte map_ident)
  also have "\<dots> = ''   ''" by code_simp
  finally have "set ext \<subseteq> {CHR '' ''}" by (metis Un_upper1 pad_def set_append set_replicate_conv_if
        empty_set insert_absorb2 list.simps(15))
  with assms(1) show "ext = []" by (cases ext) (auto simp: name_chars_def is_space_def)
next
  assume "ext = []"
  then show "strneq (map char_byte (pad 3 ext)) [32, 32, 32]"
    by (simp add: pad_def char_byte_def numeral_3_eq_3)
qed

lemma squeeze_append [simp]: "squeeze (s @ t) = squeeze s @ squeeze t"
  by (simp add: squeeze_def)

lemma squeeze_name_part:
  assumes "plain_entry e base ext"
  shows "squeeze (name_part e) = base @ (if ext = [] then [] else CHR ''.'' # ext)"
proof -
  have dot: "squeeze ''.'' = ''.''" by (simp add: squeeze_def is_space_def)
  have chars: "name_chars base" "name_chars ext" "length ext \<le> 3"
    and fx: "map byte_char (Fx e) = pad 8 base" and ex: "Ex e = map char_byte (pad 3 ext)"
    using assms by (simp_all add: plain_entry_def comp_def)
  then have "map byte_char (Ex e) = pad 3 ext" by (simp add: comp_def)
  with fx blank_ext [OF chars(2,3)] show ?thesis
    by (simp add: name_part_def ex squeeze_pad chars dot squeeze_def [of "[]"] comp_def)
qed

lemma take_allowed_name:
  assumes "name_chars s" and "length s \<le> n" and "rest = [] \<or> hd rest \<in> set noname"
  shows "take_allowed n (s @ rest) = (s, rest)"
  using assms
proof (induction s arbitrary: n)
  case Nil
  then show ?case by (cases n; cases rest) auto
next
  case (Cons c s)
  then obtain m where "n = Suc m" "length s \<le> m" by (cases n) auto
  with Cons show ?case by (auto simp: name_chars_def)
qed

lemma cpm_filename_plain:
  assumes "name_chars base" and "name_chars ext" and "base \<noteq> []" and "length base \<le> 8"
    and "length ext \<le> 3"
  shows "cpm_filename (base @ (if ext = [] then [] else CHR ''.'' # ext)) =
     Some (pad 8 base @ (if ext = [] then ''    '' else CHR ''.'' # pad 3 ext))"
proof (cases "ext = []")
  case True
  then show ?thesis
    using take_allowed_name [OF assms(1,4), of "[]"] assms(3) by (simp add: cpm_filename_def)
next
  case False
  have "take_allowed 8 (base @ CHR ''.'' # ext) = (base, CHR ''.'' # ext)"
    using assms(1,4) by (intro take_allowed_name) (simp_all add: noname_def)
  moreover have "take_allowed 3 ext = (ext, [])"
    using take_allowed_name [OF assms(2,5), of "[]"] by simp
  ultimately show ?thesis using assms(3) False by (simp add: cpm_filename_def)
qed

text \<open>The import gives the host file that \<open>mkhostname\<close> names the entry it was created from.\<close>

lemma plain_name_back:
  assumes "plain_entry e base ext"
  shows "\<exists>s. cpm_filename (squeeze (name_part e)) = Some s \<and> tmp_name pb (St e) s = GetName e"
proof -
  define s where "s = pad 8 base @ (if ext = [] then ''    '' else CHR ''.'' # pad 3 ext)"
  have p: "name_chars base" "name_chars ext" "base \<noteq> []" "length base \<le> 8" "length ext \<le> 3"
    "Fx e = map char_byte (pad 8 base)" "Ex e = map char_byte (pad 3 ext)"
    using assms by (simp_all add: plain_entry_def)
  have len: "length (pad 8 base) = 8" "length (pad 3 ext) = 3" using p by (simp_all add: length_pad)
  then have "take 3 (drop 9 s) = pad 3 ext" and "take 8 s = pad 8 base"
    by (simp_all add: s_def pad_def numeral_3_eq_3)
  then have "map char_byte (take 8 s) = Fx e" and "map char_byte (take 3 (drop 9 s)) = Ex e"
    by (simp_all only: p)
  then have "tmp_name pb (St e) s = GetName e"
    by (simp add: tmp_name_def GetName_def extent_entry_def)
  then show ?thesis
    using cpm_filename_plain [OF p(1-5)] squeeze_name_part [OF assms] unfolding s_def by auto
qed

section \<open>User areas\<close>

lemma nat_string_chars: "nat_string n \<noteq> [] \<and> CHR ''/'' \<notin> set (nat_string n)"
proof (induction n rule: nat_string.induct)
  case (1 n)
  have digit: "char_of (48 + x) \<noteq> CHR ''/''" if "x < 10" for x :: nat
    using that by (auto dest: arg_cong [where f = "of_char :: char \<Rightarrow> nat"])
  show ?case
  proof (cases "n < 10")
    case True
    then show ?thesis using digit [of n] by (auto simp: nat_string.simps [of n])
  next
    case False
    then show ?thesis
      using 1 digit [of "n mod 10"] by (auto simp: nat_string.simps [of n])
  qed
qed

text \<open>The directory \<open>mkhostname\<close> uses for a user is the one \<open>readhost\<close> scans for that user.\<close>

lemma user_dir_scanned:
  assumes "path \<noteq> []" and "last path \<noteq> CHR ''/''"
  shows "user_dir path u = (if u = 0 then path else path @ ''/'' @ nat_string (unat u))"
    and "user_dir path u \<noteq> []" and "last (user_dir path u) \<noteq> CHR ''/''"
proof -
  have n: "nat_string (unat u) \<noteq> []" "CHR ''/'' \<notin> set (nat_string (unat u))"
    using nat_string_chars by blast+
  then have hd: "hd (nat_string (unat u)) \<noteq> CHR ''/''" and last: "last (nat_string (unat u)) \<noteq> CHR ''/''"
    by (metis hd_in_set, metis last_in_set)
  show eq: "user_dir path u = (if u = 0 then path else path @ ''/'' @ nat_string (unat u))"
    using assms hd by (simp add: user_dir_def path_append_def)
  show "user_dir path u \<noteq> []" "last (user_dir path u) \<noteq> CHR ''/''"
    unfolding eq using assms n(1) last by auto
qed

lemma path_append_plain:
  "d \<noteq> [] \<Longrightarrow> last d \<noteq> CHR ''/'' \<Longrightarrow> f \<noteq> [] \<Longrightarrow> hd f \<noteq> CHR ''/'' \<Longrightarrow> path_append d f = d @ ''/'' @ f"
  by (simp add: path_append_def)

section \<open>What a changed directory entry does\<close>

lemma write_extent_change:
  assumes "write_extent i dd (d, h) = Ok () (d', h')" and "cpmdir_of_bytes (ptr_type d) dd = Some new"
    and "\<not> cpmdir_eq (dir d ! i) new"
  obtains d1 where "change_host (dir d ! i) new (d, h) = Ok () (d1, h')" and "i < length (dir d)"
    and "d' = d1\<lparr>dir := (dir d1)[i := new]\<rparr>" and "dir d1 = dir d"
proof -
  have i: "i < length (dir d)" using assms(1) by (auto simp: write_extent_def split: if_splits)
  obtain d1 where 1: "change_host (dir d ! i) new (d, h) = Ok () (d1, h')"
    and 2: "d' = d1\<lparr>dir := (dir d1)[i := new]\<rparr>"
    using assms i by (cases "change_host (dir d ! i) new (d, h)") (auto simp: write_extent_def Let_def)
  show thesis by (rule that [OF 1 i 2 change_host_frame(2) [OF 1]])
qed

end
