(* ===== verification/Drives.thy ===== *)
theory Drives
  imports Disk_Transfer
begin

text \<open>
  The two kinds of drive behind the interface \<open>simdrive\<close> (\<^verbatim>\<open>biosapi.h\<close>): a host directory (class
  \<open>disk\<close>) and an image file (class \<open>dskimage\<close>), with selection and locking, and the contract both
  keep towards the floppy controller: a drive is an array of 128-byte sectors.
\<close>

section \<open>Image files\<close>

text \<open>
  \<open>image\<close> is the file behind the stream \<^verbatim>\<open>image_\<close> and \<open>imgfail\<close> its failbit, which nothing in the
  class ever clears: after one short read every later seek fails. The buffering of the stream is
  not observable through the stream itself.
\<close>

record dskimage = simdrive +
  image :: string
  imgfail :: bool

definition dskimage_new :: "host \<Rightarrow> string \<Rightarrow> ostype_t \<Rightarrow> dpb_t \<Rightarrow> bytes option \<Rightarrow> cpm_error + dskimage" where
  "dskimage_new h path os pb tbl =
     (case make_stbl (SectorsTrack pb) tbl of
        Inl u \<Rightarrow> Inl (Undefined u)
      | Inr st \<Rightarrow>
          (case host_lookup h path of
             Some (Reg _) \<Rightarrow>
               Inr \<lparr>drvpath = path, ostype = os, dpb = pb, stbl = st, selected = -1,
                    image = path, imgfail = False\<rparr>
           | _ \<Rightarrow> Inl Terminate))"

definition image_offset :: "dpb_t \<Rightarrow> nat \<Rightarrow> nat \<Rightarrow> nat" where
  "image_offset pb track sector =
     wrap32 (128 * sub32 (wrap32 (track * SectorsTrack pb) + sector) 1)"

definition dskimage_Read ::
  "nat \<Rightarrow> nat \<Rightarrow> bytes \<Rightarrow> dskimage \<times> host \<Rightarrow> (nat, bytes \<times> dskimage) outcome" where
  "dskimage_Read track sector dma w =
     (case w of (d, h) \<Rightarrow>
      if imgfail d then Ok 1 (dma, d)
      else case host_lookup h (image d) of
        Some (Reg f) \<Rightarrow>
          let got = read_at (image_offset (dpb d) track sector) 128 f
          in if length dma < length got then Fail (Undefined OutOfBounds) (dma, d)
             else if length got < 128 then Ok 1 (blit 0 got dma, d\<lparr>imgfail := True\<rparr>)
             else Ok 0 (blit 0 got dma, d)
      | _ \<Rightarrow> Ok 1 (dma, d\<lparr>imgfail := True\<rparr>))"

definition dskimage_Write ::
  "nat \<Rightarrow> nat \<Rightarrow> bytes \<Rightarrow> dskimage \<times> host \<Rightarrow> (nat, dskimage \<times> host) outcome" where
  "dskimage_Write track sector dma w =
     (case w of (d, h) \<Rightarrow>
      if imgfail d then Ok 1 (d, h)
      else if length dma < 128 then Fail (Undefined OutOfBounds) (d, h)
      else case WriteHost h (image d) (image_offset (dpb d) track sector) (take 128 dma) of
        (r, h') \<Rightarrow> if r = 0 then Ok 0 (d, h') else Ok 1 (d\<lparr>imgfail := True\<rparr>, h'))"

section \<open>Selection\<close>

text \<open>
  \<open>simdrive::Select\<close> opens the path for reading and writing and locks it. \<open>fd\<close> is the descriptor
  \<open>open\<close> would return and \<open>lock\<close> the errno of \<open>flock\<close>, 0 for success.
\<close>

definition simdrive_Select ::
  "int \<Rightarrow> nat \<Rightarrow> host \<Rightarrow> 'a simdrive_scheme \<Rightarrow> (nat, 'a simdrive_scheme) outcome" where
  "simdrive_Select fd lock h d =
     (if selected d \<noteq> -1 then Ok 0 d
      else case host_lookup h (drvpath d) of
        None \<Rightarrow> Fail Terminate d
      | Some Directory \<Rightarrow> Fail Terminate d
      | Some _ \<Rightarrow> if lock \<noteq> 0 then Fail (SystemError lock) d else Ok 0 (d\<lparr>selected := fd\<rparr>))"

text \<open>\<open>Flush\<close> of an image drive is the empty one of the base class.\<close>

definition simdrive_unSelect :: "nat \<Rightarrow> 'a simdrive_scheme \<Rightarrow> (nat, 'a simdrive_scheme) outcome" where
  "simdrive_unSelect lock d =
     (if selected d = -1 then Ok 0 d
      else if lock \<noteq> 0 then Fail Terminate d
      else Ok 0 (d\<lparr>selected := -1\<rparr>))"

lemma Select_unSelect:
  assumes "simdrive_Select fd 0 h d = Ok r d1" and "selected d = -1"
  shows "simdrive_unSelect 0 d1 = Ok 0 d"
  using assms
  by (cases d) (auto simp: simdrive_Select_def simdrive_unSelect_def split: option.splits node.splits if_splits)

section \<open>Drives\<close>

datatype drive = HostDir disk | ImageFile dskimage

fun drive_path :: "drive \<Rightarrow> string" where
  "drive_path (HostDir d) = drvpath d"
| "drive_path (ImageFile d) = drvpath d"

fun drive_Read :: "nat \<Rightarrow> nat \<Rightarrow> bytes \<Rightarrow> drive \<times> host \<Rightarrow> (nat, bytes \<times> drive) outcome" where
  "drive_Read track sector dma (HostDir d, h) =
     (case disk_Read track sector dma (d, h) of
        Ok r dma' \<Rightarrow> Ok r (dma', HostDir d)
      | Fail e dma' \<Rightarrow> Fail e (dma', HostDir d))"
| "drive_Read track sector dma (ImageFile d, h) =
     (case dskimage_Read track sector dma (d, h) of
        Ok r (dma', d') \<Rightarrow> Ok r (dma', ImageFile d')
      | Fail e (dma', d') \<Rightarrow> Fail e (dma', ImageFile d'))"

fun drive_Write :: "nat \<Rightarrow> nat \<Rightarrow> bytes \<Rightarrow> drive \<times> host \<Rightarrow> (nat, drive \<times> host) outcome" where
  "drive_Write track sector dma (HostDir d, h) =
     (case disk_Write track sector dma (d, h) of
        Ok r (d', h') \<Rightarrow> Ok r (HostDir d', h')
      | Fail e (d', h') \<Rightarrow> Fail e (HostDir d', h'))"
| "drive_Write track sector dma (ImageFile d, h) =
     (case dskimage_Write track sector dma (d, h) of
        Ok r (d', h') \<Rightarrow> Ok r (ImageFile d', h')
      | Fail e (d', h') \<Rightarrow> Fail e (ImageFile d', h'))"

text \<open>\<open>disk\<close> overrides both calls with ones that do nothing.\<close>

fun drive_Select :: "int \<Rightarrow> nat \<Rightarrow> host \<Rightarrow> drive \<Rightarrow> (nat, drive) outcome" where
  "drive_Select fd lock h (HostDir d) = Ok 1 (HostDir d)"
| "drive_Select fd lock h (ImageFile d) =
     (case simdrive_Select fd lock h d of
        Ok r d' \<Rightarrow> Ok r (ImageFile d') | Fail e d' \<Rightarrow> Fail e (ImageFile d'))"

fun drive_unSelect :: "nat \<Rightarrow> drive \<Rightarrow> (nat, drive) outcome" where
  "drive_unSelect lock (HostDir d) = Ok 0 (HostDir d)"
| "drive_unSelect lock (ImageFile d) =
     (case simdrive_unSelect lock d of
        Ok r d' \<Rightarrow> Ok r (ImageFile d') | Fail e d' \<Rightarrow> Fail e (ImageFile d'))"

section \<open>The contract of a sector drive\<close>

text \<open>
  \<open>addr\<close> gives the place of a track and sector on the medium where the drive stores sectors;
  \<open>content\<close> is the array of sectors it stands for.
\<close>

locale sector_drive =
  fixes wf :: "'s \<Rightarrow> bool"
    and addr :: "'s \<Rightarrow> nat \<Rightarrow> nat \<Rightarrow> nat option"
    and content :: "'s \<Rightarrow> nat \<rightharpoonup> bytes"
    and wr :: "nat \<Rightarrow> nat \<Rightarrow> bytes \<Rightarrow> 's \<Rightarrow> (nat, 's) outcome"
    and rd :: "nat \<Rightarrow> nat \<Rightarrow> bytes \<Rightarrow> 's \<Rightarrow> (nat, bytes \<times> 's) outcome"
  assumes write_sector:
      "wf w \<Longrightarrow> addr w t s = Some a \<Longrightarrow> 128 \<le> length dma \<Longrightarrow>
       \<exists>w'. wr t s dma w = Ok 0 w' \<and> wf w' \<and> addr w' = addr w \<and>
         content w' = (content w)(a \<mapsto> take 128 dma)"
    and read_sector:
      "wf w \<Longrightarrow> addr w t s = Some a \<Longrightarrow> content w a = Some b \<Longrightarrow> 128 \<le> length buf \<Longrightarrow>
       rd t s buf w = Ok 0 (b @ drop 128 buf, w)"
begin

fun writes :: "(nat \<times> nat \<times> bytes) list \<Rightarrow> 's \<Rightarrow> (nat, 's) outcome" where
  "writes [] w = Ok 0 w"
| "writes ((t, s, dma) # ops) w = bindo (wr t s dma w) (\<lambda>_ w'. writes ops w')"

definition valid_ops :: "'s \<Rightarrow> (nat \<times> nat \<times> bytes) list \<Rightarrow> bool" where
  "valid_ops w ops \<longleftrightarrow> (\<forall>(t, s, dma) \<in> set ops. addr w t s \<noteq> None \<and> 128 \<le> length dma)"

text \<open>The effect of a sequence of writes on the array: the last write to a place wins.\<close>

definition apply_ops :: "'s \<Rightarrow> (nat \<times> nat \<times> bytes) list \<Rightarrow> (nat \<rightharpoonup> bytes) \<Rightarrow> nat \<rightharpoonup> bytes" where
  "apply_ops w ops c =
     fold (\<lambda>(t, s, dma) c. case addr w t s of None \<Rightarrow> c | Some a \<Rightarrow> c(a \<mapsto> take 128 dma)) ops c"

lemma writes_content:
  assumes "wf w" and "valid_ops w ops"
  shows "\<exists>w'. writes ops w = Ok 0 w' \<and> wf w' \<and> addr w' = addr w \<and>
     content w' = apply_ops w ops (content w)"
  using assms
proof (induction ops arbitrary: w)
  case Nil
  then show ?case by (simp add: apply_ops_def)
next
  case (Cons op ops)
  obtain t s dma where op: "op = (t, s, dma)" by (cases op)
  then obtain a where a: "addr w t s = Some a" and len: "128 \<le> length dma"
    using Cons.prems(2) by (auto simp: valid_ops_def)
  obtain w1 where w1: "wr t s dma w = Ok 0 w1" "wf w1" "addr w1 = addr w"
    "content w1 = (content w)(a \<mapsto> take 128 dma)"
    using write_sector [OF Cons.prems(1) a len] by blast
  have "valid_ops w1 ops" using Cons.prems(2) w1(3) by (simp add: valid_ops_def)
  then obtain w' where "writes ops w1 = Ok 0 w'" "wf w'" "addr w' = addr w1"
    "content w' = apply_ops w1 ops (content w1)"
    using Cons.IH [OF w1(2)] by blast
  then show ?case using w1 a by (auto simp: op apply_ops_def)
qed

lemma apply_ops_last:
  assumes "addr w t s = Some a" and "\<forall>(t', s', dma') \<in> set post. addr w t' s' \<noteq> Some a"
  shows "apply_ops w (pre @ (t, s, dma) # post) c a = Some (take 128 dma)"
proof -
  have keep: "apply_ops w post c' a = c' a" for c'
    using assms(2)
  proof (induction post arbitrary: c')
    case (Cons op post)
    obtain t' s' dma' where "op = (t', s', dma')" by (cases op)
    with Cons show ?case by (auto simp: apply_ops_def split: option.splits)
  qed (simp add: apply_ops_def)
  have "apply_ops w (pre @ (t, s, dma) # post) c =
      apply_ops w post ((apply_ops w pre c)(a \<mapsto> take 128 dma))"
    using assms(1) by (simp add: apply_ops_def)
  then show ?thesis by (simp add: keep)
qed

text \<open>Whatever else was written, a sector reads as it was written last.\<close>

lemma reads_last_write:
  assumes "wf w" and "valid_ops w (pre @ (t, s, dma) # post)" and "addr w t s = Some a"
    and "\<forall>(t', s', dma') \<in> set post. addr w t' s' \<noteq> Some a" and "128 \<le> length buf"
  shows "\<exists>w'. writes (pre @ (t, s, dma) # post) w = Ok 0 w' \<and>
     rd t s buf w' = Ok 0 (take 128 dma @ drop 128 buf, w')"
proof -
  obtain w' where w': "writes (pre @ (t, s, dma) # post) w = Ok 0 w'" "wf w'" "addr w' = addr w"
    "content w' = apply_ops w (pre @ (t, s, dma) # post) (content w)"
    using writes_content [OF assms(1,2)] by blast
  then show ?thesis
    using read_sector [OF w'(2), of t s a "take 128 dma" buf] apply_ops_last [OF assms(3,4)] assms(3,5)
    by auto
qed

end

section \<open>Both kinds of drive keep it\<close>

text \<open>
  A host-directory drive stores the sectors behind its directory, in the cache. An image drive
  stores the sectors its file has room for.
\<close>

definition image_len :: "dskimage \<Rightarrow> host \<Rightarrow> nat" where
  "image_len d h = host_size h (image d)"

fun drive_wf :: "drive \<times> host \<Rightarrow> bool" where
  "drive_wf (HostDir d, h) \<longleftrightarrow> (\<forall>(n, v) \<in> set (cache d). length v = 128)"
| "drive_wf (ImageFile d, h) \<longleftrightarrow> \<not> imgfail d \<and> host_present h (image d)"

fun drive_addr :: "drive \<times> host \<Rightarrow> nat \<Rightarrow> nat \<Rightarrow> nat option" where
  "drive_addr (HostDir d, h) track sector =
     (case GetAbsSector (dpb d) (smap d) track sector of
        Inl _ \<Rightarrow> None
      | Inr a \<Rightarrow> if dirstart d + datastart d \<le> a then Some (a - dirstart d) else None)"
| "drive_addr (ImageFile d, h) track sector =
     (if image_offset (dpb d) track sector + 128 \<le> image_len d h
      then Some (image_offset (dpb d) track sector div 128) else None)"

fun drive_content :: "drive \<times> host \<Rightarrow> nat \<rightharpoonup> bytes" where
  "drive_content (HostDir d, h) n = map_of (cache d) n"
| "drive_content (ImageFile d, h) n =
     (if n * 128 + 128 \<le> image_len d h then Some (host_get h (image d) (n * 128)) else None)"

definition drive_rd :: "nat \<Rightarrow> nat \<Rightarrow> bytes \<Rightarrow> drive \<times> host \<Rightarrow> (nat, bytes \<times> drive \<times> host) outcome" where
  "drive_rd track sector buf w =
     (case drive_Read track sector buf w of
        Ok r (b, v) \<Rightarrow> Ok r (b, v, snd w) | Fail e (b, v) \<Rightarrow> Fail e (b, v, snd w))"

lemma image_offset_dvd: "128 dvd image_offset pb track sector"
proof -
  have "image_offset pb track sector = 128 * (sub32 (wrap32 (track * SectorsTrack pb) + sector) 1 mod 2 ^ 25)"
    unfolding image_offset_def wrap32_def [of "128 * _"]
    using mult_mod_right [of 128 "sub32 (wrap32 (track * SectorsTrack pb) + sector) 1" "2 ^ 25"] by simp
  then show ?thesis by simp
qed

lemma host_get_full:
  assumes "host_lookup h f = Some (Reg x)" and "p + 128 \<le> length x"
  shows "host_get h f p = read_at p 128 x"
  using assms by (simp add: host_get_Reg read_at_full)

lemma cache_put_lengths:
  "\<forall>(n, v) \<in> set c. length v = 128 \<Longrightarrow> length b = 128 \<Longrightarrow>
   \<forall>(n, v) \<in> set (cache_put k b c). length v = 128"
  by (induction k b c rule: cache_put.induct) auto

lemma disk_write_sector:
  assumes "drive_wf (HostDir d, h)" and "drive_addr (HostDir d, h) t s = Some a" and "128 \<le> length dma"
  defines "d' \<equiv> d\<lparr>cache := cache_put a (take 128 dma) (cache d)\<rparr>"
  shows "drive_Write t s dma (HostDir d, h) = Ok 0 (HostDir d', h)" and "drive_wf (HostDir d', h)"
    and "drive_addr (HostDir d', h) = drive_addr (HostDir d, h)"
    and "drive_content (HostDir d', h) = (drive_content (HostDir d, h))(a \<mapsto> take 128 dma)"
proof -
  have "data_sector d t s a"
    using assms(2) by (auto simp: data_sector_def split: sum.splits if_splits)
  then show "drive_Write t s dma (HostDir d, h) = Ok 0 (HostDir d', h)"
    using assms(3) by (simp add: disk_Write_data d'_def)
  show "drive_wf (HostDir d', h)"
    using assms(1,3) cache_put_lengths [of "cache d" "take 128 dma" a] by (simp add: d'_def)
  show "drive_addr (HostDir d', h) = drive_addr (HostDir d, h)"
    by (simp add: fun_eq_iff d'_def split: sum.splits)
  show "drive_content (HostDir d', h) = (drive_content (HostDir d, h))(a \<mapsto> take 128 dma)"
    by (simp add: fun_eq_iff d'_def)
qed

lemma image_write_sector:
  assumes "drive_wf (ImageFile d, h)" and "drive_addr (ImageFile d, h) t s = Some a" and "128 \<le> length dma"
  defines "h' \<equiv> snd (WriteHost h (image d) (a * 128) (take 128 dma))"
  shows "drive_Write t s dma (ImageFile d, h) = Ok 0 (ImageFile d, h')" and "drive_wf (ImageFile d, h')"
    and "drive_addr (ImageFile d, h') = drive_addr (ImageFile d, h)"
    and "drive_content (ImageFile d, h') = (drive_content (ImageFile d, h))(a \<mapsto> take 128 dma)"
proof -
  let ?off = "image_offset (dpb d) t s"
  have a: "a * 128 = ?off" "?off + 128 \<le> image_len d h"
    using assms(2) image_offset_dvd [of "dpb d" t s] by (auto split: if_splits)
  have prs: "host_present h (image d)" and len: "length (take 128 dma) = 128"
    using assms(1,3) by simp_all
  then have "fst (WriteHost h (image d) ?off (take 128 dma)) = 0"
    by (simp add: WriteHost_status host_present_iff)
  then have "WriteHost h (image d) ?off (take 128 dma) = (0, h')"
    by (simp add: h'_def a(1) prod_eq_iff)
  then show "drive_Write t s dma (ImageFile d, h) = Ok 0 (ImageFile d, h')"
    using assms(1,3) by (simp add: dskimage_Write_def)
  show "drive_wf (ImageFile d, h')" using assms(1) by (simp add: h'_def hostrec.present_put)
  have sz: "image_len d h' = image_len d h"
    using hostrec.size_put [OF prs, of "a * 128" "take 128 dma"] a len by (simp add: image_len_def h'_def)
  then show "drive_addr (ImageFile d, h') = drive_addr (ImageFile d, h)"
    by (simp add: fun_eq_iff)
  show "drive_content (ImageFile d, h') = (drive_content (ImageFile d, h))(a \<mapsto> take 128 dma)"
  proof
    fix n
    show "drive_content (ImageFile d, h') n = ((drive_content (ImageFile d, h))(a \<mapsto> take 128 dma)) n"
    proof (cases "n = a")
      case True
      then show ?thesis
        using a sz hostrec.get_put_same [OF prs len, of "a * 128"] by (simp add: h'_def)
    next
      case False
      then have "n * 128 + 128 \<le> a * 128 \<or> a * 128 + 128 \<le> n * 128" by auto
      then show ?thesis
        using False sz hostrec.get_put_disjoint [OF prs len, of "n * 128" "a * 128"]
        by (simp add: h'_def image_len_def)
    qed
  qed
qed

lemma disk_read_sector:
  assumes "drive_wf (HostDir d, h)" and "drive_addr (HostDir d, h) t s = Some a"
    and "drive_content (HostDir d, h) a = Some b" and "128 \<le> length buf"
  shows "drive_rd t s buf (HostDir d, h) = Ok 0 (b @ drop 128 buf, HostDir d, h)"
proof -
  have "data_sector d t s a"
    using assms(2) by (auto simp: data_sector_def split: sum.splits if_splits)
  moreover have "length b = 128"
    using assms(1,3) by (auto dest: map_of_SomeD)
  ultimately show ?thesis
    using assms(3,4) by (simp add: drive_rd_def disk_Read_cached blit_def)
qed

lemma image_read_sector:
  assumes "drive_wf (ImageFile d, h)" and "drive_addr (ImageFile d, h) t s = Some a"
    and "drive_content (ImageFile d, h) a = Some b" and "128 \<le> length buf"
  shows "drive_rd t s buf (ImageFile d, h) = Ok 0 (b @ drop 128 buf, ImageFile d, h)"
proof -
  let ?off = "image_offset (dpb d) t s"
  obtain f where f: "host_lookup h (image d) = Some (Reg f)"
    using assms(1) by (auto simp: host_present_iff)
  have a: "a * 128 = ?off" "?off + 128 \<le> length f"
    using assms(2) image_offset_dvd [of "dpb d" t s] f
    by (auto simp: image_len_def host_size_def split: if_splits)
  then have "b = read_at ?off 128 f"
    using assms(3) f by (auto simp: host_get_full split: if_splits)
  moreover have "length (read_at ?off 128 f) = 128" using a by (intro read_at_full)
  ultimately show ?thesis
    using assms(1,4) f by (simp add: drive_rd_def dskimage_Read_def Let_def blit_def)
qed

interpretation fdc: sector_drive drive_wf drive_addr drive_content drive_Write drive_rd
proof unfold_locales
  fix w t s a dma
  assume wf: "drive_wf w" and ad: "drive_addr w t s = Some a" and len: "128 \<le> length (dma :: bytes)"
  obtain v h where w: "w = (v, h)" by (cases w)
  show "\<exists>w'. drive_Write t s dma w = Ok 0 w' \<and> drive_wf w' \<and> drive_addr w' = drive_addr w \<and>
      drive_content w' = (drive_content w)(a \<mapsto> take 128 dma)"
  proof (cases v)
    case (HostDir d)
    with disk_write_sector [of d h t s a dma] wf ad len w show ?thesis by blast
  next
    case (ImageFile d)
    with image_write_sector [of d h t s a dma] wf ad len w show ?thesis by blast
  qed
next
  fix w t s a b buf
  assume "drive_wf w" and "drive_addr w t s = Some a" and "drive_content w a = Some b"
    and "128 \<le> length (buf :: bytes)"
  moreover obtain v h where w: "w = (v, h)" by (cases w)
  ultimately show "drive_rd t s buf w = Ok 0 (b @ drop 128 buf, w)"
    using disk_read_sector image_read_sector by (cases v) blast+
qed

text \<open>A sequence of sector writes to a drive.\<close>

fun drive_writes :: "(nat \<times> nat \<times> bytes) list \<Rightarrow> drive \<times> host \<Rightarrow> (nat, drive \<times> host) outcome" where
  "drive_writes [] w = Ok 0 w"
| "drive_writes ((t, s, dma) # ops) w = bindo (drive_Write t s dma w) (\<lambda>_ w'. drive_writes ops w')"

lemma drive_writes_eq: "drive_writes ops w = fdc.writes ops w"
proof (induction ops arbitrary: w)
  case (Cons op ops)
  then show ?case by (cases op; cases "drive_Write (fst op) (fst (snd op)) (snd (snd op)) w") simp_all
qed simp

definition storable :: "drive \<times> host \<Rightarrow> (nat \<times> nat \<times> bytes) list \<Rightarrow> bool" where
  "storable w ops \<longleftrightarrow> (\<forall>(t, s, dma) \<in> set ops. drive_addr w t s \<noteq> None \<and> 128 \<le> length dma)"

lemma storable_eq: "storable w ops = fdc.valid_ops w ops"
  by (simp add: storable_def fdc.valid_ops_def)

end
