(* ===== verification/Disk_Properties.thy ===== *)
theory Disk_Properties
  imports Name_Mapping Drives
begin

text \<open>
  The properties of the drives: what a freshly constructed host-directory drive presents, sector
  reads and writes in its three areas, the effect of directory changes on the host, \<open>Flush\<close>, names,
  geometry and image files. Each is stated over the definitions of the component theories and is
  followed by an instance on a small disk.
\<close>

section \<open>A small configuration\<close>

text \<open>
  A disk of ten 1K blocks with four directory entries and one reserved track, and a host directory
  with one file, for the instances below.
\<close>

definition pb0 :: dpb_t where
  "pb0 = \<lparr>spt = 4, bsh = 3, blm = 7, exm = 0, dsm = 9, drm = 3, al0 = 128, al1 = 0, cks = 0, off = 1\<rparr>"

definition h0 :: host where
  "h0 = \<lparr>nodes = [(''d'', Directory), (''d/F.T'', Reg [65, 66]), (''d/.cpm22.sys'', Reg [])],
         denied = (\<lambda>_. False)\<rparr>"

definition s0 :: string where "s0 = ''00_F       .T  ''"

definition d0 :: disk where
  "d0 = (case disk_new h0 ''d'' CPM22 pb0 None of Inr d \<Rightarrow> d)"

lemma d0_eq: "disk_new h0 ''d'' CPM22 pb0 None = Inr d0"
proof -
  have "\<not> (case disk_new h0 ''d'' CPM22 pb0 None of Inl _ \<Rightarrow> True | Inr _ \<Rightarrow> False)" by code_simp
  then show ?thesis unfolding d0_def by (cases "disk_new h0 ''d'' CPM22 pb0 None") auto
qed

lemma pb0_facts: "geometry_ok pb0" "mask_ok pb0" "0 < dirblocks pb0" "dirblocks pb0 < MaxBlock pb0"
  by code_simp+

lemma h0_small: "files_small h0"
  by (auto simp: files_small_def host_lookup_def h0_def split: if_splits)

section \<open>Host files on the emulated disk\<close>

text \<open>
  C1. The disk presents the host files. On a freshly constructed drive, reading record \<open>r\<close> of a
  block that a directory entry lists as block \<open>k\<close> of a file delivers the bytes of the host file at
  that position, whatever track, sector and skew the BIOS used to address it.
\<close>

theorem imported_file_readable:
  assumes "disk_new h path os pb tbl = Inr d" and "geometry_ok pb" and "mask_ok pb"
    and "files_small h" and "0 < dirblocks pb" and "dirblocks pb < MaxBlock pb"
    and "cpm2unix d s = Some p" and "host_lookup h p = Some (Reg f)"
    and "file_block d s k b" and "0 < b" and "r < 2 ^ BlockShift pb"
    and "(k * 2 ^ BlockShift pb + r) * 128 < length f"
    and "GetAbsSector pb (smap d) track sector = Inr (dirstart d + (b * 2 ^ BlockShift pb + r))"
    and "128 \<le> length buf"
  shows "disk_Read track sector buf (d, h) =
     Ok 0 (blit 0 (read_at ((k * 2 ^ BlockShift pb + r) * 128) 128 f) buf)"
proof -
  note fields = disk_new_fields [OF assms(1)]
  have ok: "import_ok h (dirblocks (dpb d)) d"
    using disk_new_import_ok [OF assms(1,2,4-6)] by (simp add: fields)
  have small: "length f < 2 ^ 32" using assms(4,8) by (simp add: files_small_def)
  have n: "(k * 2 ^ BlockShift pb + r) div 2 ^ BlockShift pb = k"
    "(k * 2 ^ BlockShift pb + r) mod 2 ^ BlockShift pb = r" using assms(11) by simp_all
  show ?thesis
    by (rule disk_Read_imported [OF ok _ fields(3) _ _ assms(10,7,8,12) small assms(14)])
      (use assms(3,9,13) n in \<open>simp_all add: fields\<close>)
qed

theorem imported_file_readable_witness:
  "disk_Read 3 1 (replicate 128 0) (d0, h0) = Ok 0 (blit 0 [65, 66] (replicate 128 0))"
proof -
  have "cpm2unix d0 s0 = Some ''d/F.T''" "file_block d0 s0 0 1"
    "GetAbsSector pb0 (smap d0) 3 1 = Inr (dirstart d0 + (1 * 2 ^ BlockShift pb0 + 0))"
    by code_simp+
  moreover have "host_lookup h0 ''d/F.T'' = Some (Reg [65, 66])" by code_simp
  ultimately show ?thesis
    using imported_file_readable [OF d0_eq pb0_facts(1,2) h0_small pb0_facts(3,4),
        of s0 "''d/F.T''" "[65, 66]" 0 1 0 3 1 "replicate 128 0"]
    by (simp add: read_at_def)
qed

text \<open>
  C2. The import is complete: every block of an imported host file, up to the sixteenth extent, is
  listed by a directory entry that carries the file's name, at its position in the file.
\<close>

theorem imported_file_complete:
  assumes "disk_new h path os pb tbl = Inr d" and "geometry_ok pb" and "files_small h"
    and "0 < dirblocks pb" and "dirblocks pb < MaxBlock pb"
    and "cpm2unix d s = Some p" and "host_lookup h p = Some (Reg f)"
    and "k < nblocks pb (length f)" and "k < 16 * BlockPtrType pb"
  shows "\<exists>b. 0 < b \<and> file_block d s k b"
proof -
  have pb: "dpb d = pb" by (rule disk_new_fields [OF assms(1)])
  have "imported h d s p"
    using disk_new_import_ok [OF assms(1-5)] assms(6) by (simp add: import_ok_def all_imported_def)
  then obtain fb where "0 < fb" "\<exists>e \<in> set (dir d). GetName e = s \<and> FindBlockIndex e (fb + k) (ptr_type d) = k + 1"
    using assms(7-9) by (auto simp: imported_def pb)
  then have "0 < fb + k \<and> file_block d s k (fb + k)" by (simp add: file_block_def)
  then show ?thesis by blast
qed

theorem imported_file_complete_witness: "\<exists>b. 0 < b \<and> file_block d0 s0 0 b"
proof (rule imported_file_complete [OF d0_eq pb0_facts(1) h0_small pb0_facts(3,4)])
  show "cpm2unix d0 s0 = Some ''d/F.T''" by code_simp
  show "host_lookup h0 ''d/F.T'' = Some (Reg [65, 66])" by code_simp
  show "0 < nblocks pb0 (length ([65, 66] :: bytes))" by code_simp
  show "0 < 16 * BlockPtrType pb0" by code_simp
qed

text \<open>
  C3. The import allocates blocks exclusively: a block listed by a directory entry lies behind the
  directory and before the last block of the disk, and no second entry lists it.
\<close>

theorem import_blocks_exclusive:
  assumes "disk_new h path os pb tbl = Inr d" and "geometry_ok pb" and "files_small h"
    and "0 < dirblocks pb" and "dirblocks pb < MaxBlock pb"
    and "i < length (dir d)" and "j < length (dir d)" and "i \<noteq> j"
    and "b \<in> set (al_entries (dir d ! i) (BlockPtrType pb))" and "b \<noteq> 0"
  shows "dirblocks pb \<le> b \<and> b + 1 < MaxBlock pb \<and> b \<notin> set (al_entries (dir d ! j) (BlockPtrType pb))"
proof -
  have pb: "dpb d = pb" by (rule disk_new_fields [OF assms(1)])
  have inv: "import_inv (dirblocks pb) d"
    using disk_new_import_ok [OF assms(1-5)] by (simp add: import_ok_def)
  then have "freeblock d < MaxBlock pb" by (simp add: import_inv_def pb)
  then show ?thesis using import_blocks [OF inv assms(6,7), of b] assms(8-10) by (simp add: pb)
qed

theorem import_blocks_exclusive_witness:
  "dirblocks pb0 \<le> 1 \<and> 1 + 1 < MaxBlock pb0 \<and> 1 \<notin> set (al_entries (dir d0 ! 1) (BlockPtrType pb0))"
proof (rule import_blocks_exclusive [OF d0_eq pb0_facts(1) h0_small pb0_facts(3,4)])
  show "0 < length (dir d0)" "1 < length (dir d0)" by code_simp+
  show "1 \<in> set (al_entries (dir d0 ! 0) (BlockPtrType pb0))" by code_simp
qed simp_all

section \<open>Sectors\<close>

text \<open>
  C4. A drive is an array of sectors. After any sequence of writes to sectors a drive stores
  (behind the directory of a host-directory drive, inside the file of an image drive), a sector
  reads as it was written last, independent of the writes before and of later writes elsewhere.
\<close>

theorem last_write_wins:
  assumes "drive_wf w" and "storable w (pre @ (t, s, dma) # post)" and "drive_addr w t s = Some a"
    and "\<forall>(t', s', dma') \<in> set post. drive_addr w t' s' \<noteq> Some a" and "128 \<le> length buf"
  shows "\<exists>w'. drive_writes (pre @ (t, s, dma) # post) w = Ok 0 w' \<and>
     drive_rd t s buf w' = Ok 0 (take 128 dma @ drop 128 buf, w')"
  using fdc.reads_last_write [OF assms(1) _ assms(3-5), of pre dma] assms(2)
  by (simp add: drive_writes_eq storable_eq)

theorem last_write_wins_witness:
  "\<exists>w'. drive_writes ([(3, 1, replicate 128 7)] @ (3, 1, replicate 128 9) # [(3, 2, replicate 128 8)])
     (HostDir d0, h0) = Ok 0 w' \<and>
     drive_rd 3 1 (replicate 128 0) w' = Ok 0 (take 128 (replicate 128 9) @ drop 128 (replicate 128 0), w')"
proof (rule last_write_wins)
  show "drive_wf (HostDir d0, h0)" by code_simp
  show "storable (HostDir d0, h0)
      ([(3, 1, replicate 128 7)] @ (3, 1, replicate 128 9) # [(3, 2, replicate 128 8)])" by code_simp
  show "drive_addr (HostDir d0, h0) 3 1 = Some 8" by code_simp
  show "\<forall>(t', s', dma') \<in> set [(3, 2, replicate 128 8)]. drive_addr (HostDir d0, h0) t' s' \<noteq> Some 8"
    by code_simp
qed simp

text \<open>
  C6. A directory sector that was written without an error reads back byte for byte, provided the
  names written contain no zero byte (the comparison of entries stops at one).
\<close>

theorem dir_sector_roundtrip:
  assumes "disk_Write track sector dma (d, h) = Ok r (d', h')" and "dir_sector d track sector n"
    and "dir_ok d" and "plain_names dma" and "datastart d \<le> 2 ^ 30" and "128 \<le> length buf"
  shows "disk_Read track sector buf (d', h') = Ok 0 (take 128 dma @ drop 128 buf) \<and> dir_ok d'"
  using dir_write_read [OF assms] by blast

text \<open>A directory sector with the file of the small disk and a second, new file.\<close>

definition e0 :: cpmdir where
  "e0 = \<lparr>St = 0, Fx = [70, 32, 32, 32, 32, 32, 32, 32], Ex = [84, 32, 32], Xl = 0, Bc = 0, Xh = 0,
         Rc = 8, Al = 1 # replicate 15 0, pointersize = 16\<rparr>"

definition e1 :: cpmdir where
  "e1 = \<lparr>St = 0, Fx = [71, 32, 32, 32, 32, 32, 32, 32], Ex = [84, 32, 32], Xl = 0, Bc = 0, Xh = 0,
         Rc = 0, Al = replicate 16 0, pointersize = 16\<rparr>"

lemma d0_dir: "dir d0 = [e0, cpmdir_new 16, cpmdir_new 16, cpmdir_new 16]"
  by code_simp

lemma d0_places: "smap d0 = [Some 1, Some 2, Some 3, Some 4]" "dirstart d0 = 4" "datastart d0 = 8"
  by code_simp+

definition dma1 :: bytes where
  "dma1 = concat (map cpmdir_image [e0, e1, cpmdir_new 16, cpmdir_new 16])"

lemma dma1_ok: "plain_names dma1"
  by code_simp

lemma d0_dir_sector: "dir_sector d0 1 1 0"
  unfolding dir_sector_def d0_places disk_new_fields(1) [OF d0_eq] by code_simp

lemma d0_dir_ok: "dir_ok d0"
  unfolding dir_ok_def d0_dir disk_new_fields(1) [OF d0_eq] by code_simp

lemma dma1_written: "is_ok (disk_Write 1 1 dma1 (d0, h0))"
  by code_simp

theorem dir_sector_roundtrip_witness:
  "\<exists>r d' h'. disk_Write 1 1 dma1 (d0, h0) = Ok r (d', h') \<and>
     disk_Read 1 1 (replicate 128 0) (d', h') = Ok 0 (take 128 dma1 @ drop 128 (replicate 128 0)) \<and> dir_ok d'"
proof -
  obtain r d' h' where w: "disk_Write 1 1 dma1 (d0, h0) = Ok r (d', h')"
    using dma1_written unfolding is_ok_iff by auto
  have "datastart d0 \<le> 2 ^ 30" by (simp add: d0_places)
  from dir_sector_roundtrip [OF w d0_dir_sector d0_dir_ok dma1_ok this, of "replicate 128 0"] w
  show ?thesis by (simp only: length_replicate) blast
qed

text \<open>
  The reserved tracks live in the system file of the drive: a record written there is read
  back, and no other host file changes.
\<close>

theorem system_track_roundtrip:
  assumes "system_sector d track sector n" and "host_present h (bootblock d)"
    and "128 \<le> length dma" and "128 \<le> length buf"
  shows "\<exists>h'. disk_Write track sector dma (d, h) = Ok 0 (d, h') \<and>
     disk_Read track sector buf (d, h') = Ok 0 (take 128 dma @ drop 128 buf) \<and>
     (\<forall>f. f \<noteq> bootblock d \<longrightarrow> host_lookup h' f = host_lookup h f)"
proof -
  obtain x where x: "host_lookup h (bootblock d) = Some (Reg x)"
    using assms(2) by (auto simp: host_present_iff)
  define h' where "h' = snd (WriteHost h (bootblock d) (n * 128) (take 128 dma))"
  have w: "WriteHost h (bootblock d) (n * 128) (take 128 dma) = (0, h')"
    using x by (simp add: h'_def WriteHost_def)
  have look: "host_lookup h' f = (if f = bootblock d then Some (Reg (write_at (n * 128) (take 128 dma) x))
      else host_lookup h f)" for f
    using x by (simp add: h'_def WriteHost_lookup)
  have "disk_Write track sector dma (d, h) = Ok 0 (d, h')"
    using assms(1,3) w by (simp add: disk_Write_def system_sector_def)
  moreover have "disk_Read track sector buf (d, h') = Ok 0 (take 128 dma @ drop 128 buf)"
  proof -
    have "read_at (n * 128) 128 (write_at (n * 128) (take 128 dma) x) = take 128 dma"
      using read_at_write_at_same [of "n * 128" "take 128 dma" x] assms(3) by simp
    then have "ReadHost h' (bootblock d) (n * 128) buf = Ok 0 (take 128 dma @ drop 128 buf)"
      using look [of "bootblock d"] assms(3,4) by (subst ReadHost_full) auto
    then show ?thesis using assms(1,3,4) by (simp add: disk_Read_def system_sector_def)
  qed
  ultimately show ?thesis using look by auto
qed

theorem system_track_roundtrip_witness:
  "\<exists>h'. disk_Write 0 1 (replicate 128 5) (d0, h0) = Ok 0 (d0, h') \<and>
     disk_Read 0 1 (replicate 128 0) (d0, h') = Ok 0 (take 128 (replicate 128 5) @ drop 128 (replicate 128 0))"
proof -
  have bb: "bootblock d0 = ''d/.cpm22.sys''"
    using disk_new_fields(4) [OF d0_eq] by (simp add: CPMSYS_def)
  have sys: "system_sector d0 0 1 0"
    unfolding system_sector_def d0_places disk_new_fields(1) [OF d0_eq] by code_simp
  have "host_present h0 (bootblock d0)" unfolding bb by code_simp
  from system_track_roundtrip [OF sys this, of "replicate 128 5" "replicate 128 0"] show ?thesis
    by (simp only: length_replicate) blast
qed

section \<open>Directory changes and host files\<close>

text \<open>
  C27. A directory entry that appears (extent 0 of a name, in a place that was unused) creates an
  empty host file under the path formed from drive, user and name, enters it in the name table and
  leaves every other existing file as it was.
\<close>

theorem create_entry:
  assumes "write_extent i dd (d, h) = Ok () (d', h')" and "cpmdir_of_bytes (ptr_type d) dd = Some new"
    and "St (dir d ! i) = UNUSED" and "St new \<noteq> UNUSED" and "GetExtNumber new = 0"
  defines "uname \<equiv> path_append (user_dir (drvpath d) (St new)) (squeeze (name_part new))"
  shows "dir d' ! i = new \<and> cpm2unix d' (GetName new) = Some uname \<and>
     host_lookup h' uname = Some (Reg []) \<and>
     (\<forall>p n. p \<noteq> uname \<longrightarrow> host_lookup h p = Some n \<longrightarrow> host_lookup h' p = Some n)"
proof -
  have neq: "\<not> cpmdir_eq (dir d ! i) new" using assms(3,4) by (auto simp: cpmdir_eq_def)
  obtain d1 where 1: "change_host (dir d ! i) new (d, h) = Ok () (d1, h')" and i: "i < length (dir d)"
    and d': "d' = d1\<lparr>dir := (dir d1)[i := new]\<rparr>" "dir d1 = dir d"
    by (rule write_extent_change [OF assms(1,2) neq])
  obtain un h1 where un: "mkhostname (drvpath d) (GetName new) h = Ok un h1"
    and cr: "host_create h1 un = (True, h')"
    and d1: "d1 = d\<lparr>cpm2unix := (cpm2unix d)(GetName new \<mapsto> un)\<rparr>"
    by (rule change_host_create [OF 1 assms(4,3,5)])
  have eq: "un = uname" unfolding uname_def by (rule mkhostname_Ok(1) [OF un])
  have "host_lookup h' p = Some n" if "p \<noteq> uname" "host_lookup h p = Some n" for p n
    using host_create_lookup(2) [OF cr, of p] mkhostname_Ok(2) [OF un that(2)] that(1) eq by simp
  then show ?thesis
    using host_create_lookup(1) [OF cr] i d' d1 eq by simp
qed

lemma e1_bytes: "cpmdir_of_bytes (ptr_type d0) (cpmdir_image e1) = Some e1"
  unfolding disk_new_fields(1) [OF d0_eq] by code_simp

theorem create_entry_witness:
  "\<exists>d' h'. write_extent 1 (cpmdir_image e1) (d0, h0) = Ok () (d', h') \<and>
     cpm2unix d' (GetName e1) = Some ''d/G.T'' \<and> host_lookup h' ''d/G.T'' = Some (Reg [])"
proof -
  have "is_ok (write_extent 1 (cpmdir_image e1) (d0, h0))" by code_simp
  then obtain d' h' where w: "write_extent 1 (cpmdir_image e1) (d0, h0) = Ok () (d', h')"
    unfolding is_ok_iff by auto
  have "St (dir d0 ! 1) = UNUSED" "St e1 \<noteq> UNUSED" "GetExtNumber e1 = 0"
    unfolding d0_dir by code_simp+
  moreover have "path_append (user_dir (drvpath d0) (St e1)) (squeeze (name_part e1)) = ''d/G.T''"
    unfolding disk_new_fields(2) [OF d0_eq] by code_simp
  ultimately show ?thesis using create_entry [OF w e1_bytes] w by auto
qed

text \<open>
  A directory entry that disappears (extent 0 of a name becomes unused) removes the host file
  it stood for and its name from the table; no other file changes.
\<close>

theorem delete_entry:
  assumes "write_extent i dd (d, h) = Ok () (d', h')" and "cpmdir_of_bytes (ptr_type d) dd = Some new"
    and "St (dir d ! i) \<noteq> UNUSED" and "St new = UNUSED" and "GetExtNumber (dir d ! i) = 0"
  shows "\<exists>uname. cpm2unix d (GetName (dir d ! i)) = Some uname \<and> dir d' ! i = new \<and>
     cpm2unix d' (GetName (dir d ! i)) = None \<and> host_lookup h' uname = None \<and>
     (\<forall>p. p \<noteq> uname \<longrightarrow> host_lookup h' p = host_lookup h p)"
proof -
  have neq: "\<not> cpmdir_eq (dir d ! i) new" using assms(3,4) by (auto simp: cpmdir_eq_def)
  obtain d1 where 1: "change_host (dir d ! i) new (d, h) = Ok () (d1, h')" and i: "i < length (dir d)"
    and d': "d' = d1\<lparr>dir := (dir d1)[i := new]\<rparr>" "dir d1 = dir d"
    by (rule write_extent_change [OF assms(1,2) neq])
  obtain uname where "cpm2unix d (GetName (dir d ! i)) = Some uname"
    and rm: "host_remove h uname = (True, h')"
    and "d1 = d\<lparr>cpm2unix := (cpm2unix d)(GetName (dir d ! i) := None)\<rparr>"
    by (rule change_host_delete [OF 1 assms(4,3,5)])
  then show ?thesis using host_remove_lookup [OF rm] i d' by auto
qed

theorem delete_entry_witness:
  "\<exists>d' h'. write_extent 0 (cpmdir_image (cpmdir_new 16)) (d0, h0) = Ok () (d', h') \<and>
     (\<exists>uname. cpm2unix d0 (GetName e0) = Some uname \<and> host_lookup h' uname = None)"
proof -
  have "is_ok (write_extent 0 (cpmdir_image (cpmdir_new 16)) (d0, h0))" by code_simp
  then obtain d' h' where w: "write_extent 0 (cpmdir_image (cpmdir_new 16)) (d0, h0) = Ok () (d', h')"
    unfolding is_ok_iff by auto
  have b: "cpmdir_of_bytes (ptr_type d0) (cpmdir_image (cpmdir_new 16)) = Some (cpmdir_new 16)"
    unfolding disk_new_fields(1) [OF d0_eq] by code_simp
  have e: "dir d0 ! 0 = e0" by (simp add: d0_dir)
  have "St e0 \<noteq> UNUSED" "GetExtNumber e0 = 0" by code_simp+
  then show ?thesis using delete_entry [OF w b] w unfolding e by auto
qed

text \<open>
  C28. A directory entry whose name changes in place (extent 0 before and after) renames the host
  file: the new path has the content of the old one, the old path is gone, the table follows, and
  every other existing file is as before.
\<close>

theorem rename_entry:
  assumes "write_extent i dd (d, h) = Ok () (d', h')" and "cpmdir_of_bytes (ptr_type d) dd = Some new"
    and "St (dir d ! i) \<noteq> UNUSED" and "St new \<noteq> UNUSED" and "GetName new \<noteq> GetName (dir d ! i)"
    and "\<not> cpmdir_eq (dir d ! i) new" and "GetExtNumber (dir d ! i) = 0" and "GetExtNumber new = 0"
    and "cpm2unix d (GetName (dir d ! i)) = Some uold"
    and "uold \<noteq> path_append (user_dir (drvpath d) (St new)) (squeeze (name_part new))"
    and "host_lookup h uold = Some nd"
  defines "unew \<equiv> path_append (user_dir (drvpath d) (St new)) (squeeze (name_part new))"
  shows "dir d' ! i = new \<and> cpm2unix d' (GetName new) = Some unew \<and>
     cpm2unix d' (GetName (dir d ! i)) = None \<and>
     host_lookup h' unew = Some nd \<and> host_lookup h' uold = None \<and>
     (\<forall>p n. p \<noteq> uold \<longrightarrow> p \<noteq> unew \<longrightarrow> host_lookup h p = Some n \<longrightarrow> host_lookup h' p = Some n)"
proof -
  obtain d1 where 1: "change_host (dir d ! i) new (d, h) = Ok () (d1, h')" and i: "i < length (dir d)"
    and d': "d' = d1\<lparr>dir := (dir d1)[i := new]\<rparr>" "dir d1 = dir d"
    by (rule write_extent_change [OF assms(1,2,6)])
  obtain uo un h1 where uo: "cpm2unix d (GetName (dir d ! i)) = Some uo"
    and un: "mkhostname (drvpath d) (GetName new) h = Ok un h1"
    and rn: "host_rename h1 uo un = (True, h')"
    and d1: "d1 = d\<lparr>cpm2unix := (cpm2unix d)(GetName (dir d ! i) := None, GetName new \<mapsto> un)\<rparr>"
    by (rule change_host_rename [OF 1 assms(4,3,5,7,8)])
  have eq: "un = unew" "uo = uold" "uold \<noteq> unew"
    using mkhostname_Ok(1) [OF un] uo assms(9,10) unfolding unew_def by auto
  have nd: "host_lookup h1 uold = Some nd" by (rule mkhostname_Ok(2) [OF un assms(11)])
  have rn': "host_rename h1 uold unew = (True, h')" using rn eq by simp
  have "host_lookup h' p = Some n"
    if "p \<noteq> uold" "p \<noteq> unew" "host_lookup h p = Some n" for p n
    using host_rename_lookup(3) [OF rn' nd eq(3) that(1,2)] mkhostname_Ok(2) [OF un that(3)] by simp
  then show ?thesis
    using host_rename_lookup(1,2) [OF rn' nd eq(3)] i d' d1 eq assms(5) by auto
qed

definition e2 :: cpmdir where "e2 = e0\<lparr>Fx := [71, 32, 32, 32, 32, 32, 32, 32]\<rparr>"

theorem rename_entry_witness:
  "\<exists>d' h'. write_extent 0 (cpmdir_image e2) (d0, h0) = Ok () (d', h') \<and>
     host_lookup h' ''d/G.T'' = Some (Reg [65, 66]) \<and> host_lookup h' ''d/F.T'' = None"
proof -
  have "is_ok (write_extent 0 (cpmdir_image e2) (d0, h0))" by code_simp
  then obtain d' h' where w: "write_extent 0 (cpmdir_image e2) (d0, h0) = Ok () (d', h')"
    unfolding is_ok_iff by auto
  have b: "cpmdir_of_bytes (ptr_type d0) (cpmdir_image e2) = Some e2"
    unfolding disk_new_fields(1) [OF d0_eq] by code_simp
  have e: "dir d0 ! 0 = e0" by (simp add: d0_dir)
  have f: "St e0 \<noteq> UNUSED" "St e2 \<noteq> UNUSED" "GetName e2 \<noteq> GetName e0" "\<not> cpmdir_eq e0 e2"
    "GetExtNumber e0 = 0" "GetExtNumber e2 = 0" "host_lookup h0 ''d/F.T'' = Some (Reg [65, 66])"
    by code_simp+
  have u: "cpm2unix d0 (GetName e0) = Some ''d/F.T''" by code_simp
  have p: "path_append (user_dir (drvpath d0) (St e2)) (squeeze (name_part e2)) = ''d/G.T''"
    unfolding disk_new_fields(2) [OF d0_eq] by code_simp
  show ?thesis
    using rename_entry [OF w b, of "''d/F.T''" "Reg [65, 66]"] w f u unfolding e p by auto
qed

section \<open>Flush\<close>


lemma owns_d0: "owns (d0\<lparr>cache := c\<rparr>) sid = owns d0 sid" by simp


text \<open>
  What \<open>Flush\<close> does achieve: the first cached sector with an owner is written to the owner's
  host file at the place of its block, leaves the cache, and touches no other file; then the loop
  advances the iterator it has invalidated.
\<close>

theorem flush_first_sector:
  assumes "cache d = pre @ (sid, dat) # post"
    and "\<forall>(n, v) \<in> set pre. \<forall>e' \<in> set (dir d). \<not> owns d n e'"
    and "dir d = xs @ e # ys" and "\<forall>e' \<in> set (xs @ ys). \<not> owns d sid e'" and "owns d sid e"
    and "cpm2unix d (GetName e) = Some path" and "host_present h path" and "length dat = 128"
    and "FindBlockIndex e (wrap32 (sector_block (dpb d) sid)) (ptr_type d) = bo"
  shows "\<exists>d' h'. disk_Flush (d, h) = Fail (Undefined InvalidIterator) (d', h') \<and>
     host_get h' path (file_offset (dpb d) bo sid) = dat \<and> map_of (cache d') sid = None \<and>
     (\<forall>p. p \<noteq> path \<longrightarrow> host_lookup h' p = host_lookup h p)"
proof -
  let ?off = "file_offset (dpb d) bo sid"
  define h' where "h' = snd (WriteHost h path ?off dat)"
  define d' where "d' = d\<lparr>cache := cache_del sid (cache d)\<rparr>"
  have "disk_Flush (d, h) = flush_loop ((sid, dat) # post) (d, h)"
    using flush_loop_skip [OF assms(2)] by (simp only: disk_Flush_def assms(1) fst_conv)
  also have "\<dots> = Fail (Undefined InvalidIterator) (d', h')"
    using flush_extents_one [OF assms(4-6,9), of dat h] assms(3) by (simp add: h'_def d'_def)
  finally have "disk_Flush (d, h) = Fail (Undefined InvalidIterator) (d', h')" .
  moreover have "host_get h' path ?off = dat"
    unfolding h'_def by (rule hostrec.get_put_same [OF assms(7,8)])
  moreover have "host_lookup h' p = host_lookup h p" if "p \<noteq> path" for p
    using that assms(7) by (auto simp: h'_def WriteHost_lookup host_present_iff)
  ultimately show ?thesis by (auto simp: d'_def)
qed

theorem flush_first_sector_witness:
  "\<exists>d' h'. disk_Flush (d0\<lparr>cache := [(9, replicate 128 1)]\<rparr>, h0) = Fail (Undefined InvalidIterator) (d', h') \<and>
     host_get h' ''d/F.T'' 128 = replicate 128 1"
proof -
  let ?d = "d0\<lparr>cache := [(9, replicate 128 1)]\<rparr>"
  have pb: "dpb d0 = pb0" by (rule disk_new_fields(1) [OF d0_eq])
  have o: "owns d0 9 e0" "\<not> owns d0 9 (cpmdir_new 16)" unfolding owns_def pb by code_simp+
  have u: "cpm2unix d0 (GetName e0) = Some ''d/F.T''" by code_simp
  have pr: "host_present h0 ''d/F.T''" by code_simp
  have f: "FindBlockIndex e0 (wrap32 (sector_block (dpb ?d) 9)) (ptr_type ?d) = 1"
    "file_offset (dpb ?d) 1 9 = 128"
    by (simp_all add: pb) code_simp+
  from flush_first_sector [of ?d "[]" 9 "replicate 128 1" "[]" "[]" e0 "replicate 3 (cpmdir_new 16)"
      "''d/F.T''" h0 1] show ?thesis
    using o u pr f by (simp add: d0_dir numeral_3_eq_3) blast
qed

section \<open>Names\<close>



text \<open>
  The printable name is a key: two directory entries have the same name exactly when user
  number, name and type bytes agree.
\<close>

theorem GetName_key:
  assumes "cpmdir_ok a" and "cpmdir_ok b"
  shows "GetName a = GetName b \<longleftrightarrow> St a = St b \<and> Fx a = Fx b \<and> Ex a = Ex b"
  by (rule GetName_inject [OF assms])

theorem GetName_key_witness: "GetName e0 \<noteq> GetName e1"
proof -
  have "cpmdir_ok e0" "cpmdir_ok e1" by code_simp+
  from GetName_key [OF this] show ?thesis by (simp add: e0_def e1_def)
qed

section \<open>Geometry and layout\<close>

text \<open>
  C29. Skew is undone: on a drive whose translation table names every sector of a track once, the
  \<open>i\<close>-th sector in the order of the table has linear number \<open>track * spt + i\<close>, for every track
  behind the reserved ones.
\<close>

theorem abs_sector_linear:
  assumes "disk_new h path os pb tbl = Inr d" and "set (stbl d) = {1..length (stbl d)}"
    and "i < SectorsTrack pb" and "ReservedTracks pb \<le> track" and "track < 65536"
  shows "GetAbsSector pb (smap d) track (stbl d ! i) = Inr (track * SectorsTrack pb + i)"
proof -
  have skew: "sector_skew (stbl d)" by unfold_locales (rule assms(2))
  have len: "length (stbl d) = SectorsTrack pb"
    by (rule make_stbl_length [OF disk_new_fields(7) [OF assms(1)]])
  show ?thesis
    using sector_skew.abs_sector_unskews [OF skew disk_new_fields(8) [OF assms(1)], of pb i track]
      assms(3-5) len by simp
qed

theorem abs_sector_linear_witness: "GetAbsSector pb0 (smap d0) 3 (stbl d0 ! 1) = Inr (3 * SectorsTrack pb0 + 1)"
proof (rule abs_sector_linear [OF d0_eq])
  have "stbl d0 = [1, 2, 3, 4]" by code_simp
  then show "set (stbl d0) = {1..length (stbl d0)}" by auto
  show "1 < SectorsTrack pb0" "ReservedTracks pb0 \<le> 3" by code_simp+
qed simp

text \<open>
  C30. The capacity of a drive under import: a new file is accepted exactly when there are enough
  unused directory entries for its extents and its blocks end before the last block of the disk.
\<close>

theorem addfile_capacity:
  assumes "length nm = 12" and "u \<noteq> UNUSED" and "geometry_ok (dpb d)" and "import_inv fb0 d"
    and "files_small h" and "host_lookup h path = Some (Reg f)"
    and "cpm2unix d (tmp_name (dpb d) u nm) = None"
  shows "is_ok (addfile h path u nm d) \<longleftrightarrow>
     nblocks (dpb d) (length f) div ptr_type d < length (filter (\<lambda>e. St e = UNUSED) (dir d)) \<and>
     freeblock d + nblocks (dpb d) (length f) < MaxBlock (dpb d)"
  by (rule addfile_is_ok [OF assms])

theorem addfile_capacity_witness:
  "is_ok (addfile h0 ''d/F.T'' 1 ''F       .T  '' d0) \<longleftrightarrow>
     nblocks (dpb d0) (length ([65, 66] :: bytes)) div ptr_type d0
       < length (filter (\<lambda>e. St e = UNUSED) (dir d0)) \<and>
     freeblock d0 + nblocks (dpb d0) (length ([65, 66] :: bytes)) < MaxBlock (dpb d0)"
proof (rule addfile_capacity [OF _ _ _ _ h0_small])
  have pb: "dpb d0 = pb0" by (rule disk_new_fields(1) [OF d0_eq])
  show "geometry_ok (dpb d0)" unfolding pb by (rule pb0_facts)
  show "import_inv (dirblocks pb0) d0"
    using disk_new_import_ok [OF d0_eq pb0_facts(1) h0_small pb0_facts(3,4)] by (simp add: import_ok_def)
  show "host_lookup h0 ''d/F.T'' = Some (Reg [65, 66])" by code_simp
  show "cpm2unix d0 (tmp_name (dpb d0) 1 ''F       .T  '') = None" unfolding pb by code_simp
qed (simp_all add: UNUSED_def)

text \<open>
  A directory entry and its 32 bytes determine each other: reading back the image of an entry
  gives the entry, and the image of an entry read from memory is the memory it was read from.
\<close>

theorem entry_image_roundtrip:
  assumes "entry_ok ps e" and "cpmdir_of_bytes ps bs = Some e'"
  shows "cpmdir_of_bytes ps (cpmdir_image e @ rest) = Some e \<and> cpmdir_image e' = take 32 bs"
  using dirrec.dec_enc [OF assms(1)] dirrec.enc_dec [OF assms(2)] by blast

theorem entry_image_roundtrip_witness:
  "cpmdir_of_bytes 16 (cpmdir_image e0 @ [1]) = Some e0 \<and> cpmdir_image e1 = take 32 (cpmdir_image e1)"
proof (rule entry_image_roundtrip)
  show "entry_ok 16 e0" by code_simp
  show "cpmdir_of_bytes 16 (cpmdir_image e1) = Some e1" by code_simp
qed

text \<open>
  The packed disk parameter block in memory and the structure determine each other.
\<close>

theorem dpb_image_roundtrip:
  "dpb_of_bytes (dpb_image d @ rest) = Some d \<and>
   (case dpb_of_bytes bs of None \<Rightarrow> length bs < 15 | Some d' \<Rightarrow> dpb_image d' = take 15 bs)"
proof -
  have "length bs < 15" if "dpb_of_bytes bs = None"
    using dpbrec.dec_total [of bs] that by (meson not_le)
  then show ?thesis
    using dpbrec.dec_enc [of d rest] dpbrec.enc_dec [of bs] by (auto split: option.splits)
qed

text \<open>
  \<open>FindBlockIndex\<close> reports zero exactly for a block the entry does not list, and otherwise the
  one-based position of the block in the file: the pointers of the extents before this one, plus
  the index of the first pointer that names the block.
\<close>

theorem FindBlockIndex_position:
  assumes "St e \<noteq> UNUSED" and "bps = 8 \<or> bps = 16"
  shows "(FindBlockIndex e b bps = 0 \<longleftrightarrow> b \<notin> set (al_entries e bps)) \<and>
     (i < bps \<and> al_entries e bps ! i = b \<and> (\<forall>j < i. al_entries e bps ! j \<noteq> b) \<longrightarrow>
        FindBlockIndex e b bps = i + 1 + GetExtNumber e * bps)"
  using FindBlockIndex_0 [OF assms(2), of e b] FindBlockIndex_Some [OF assms(1), of i bps b] assms by auto

theorem FindBlockIndex_position_witness: "FindBlockIndex e0 1 16 = 0 + 1 + GetExtNumber e0 * 16"
proof -
  have "St e0 \<noteq> UNUSED" "al_entries e0 16 ! 0 = 1" by code_simp+
  with FindBlockIndex_position [of e0 16 1 0] show ?thesis by simp
qed

text \<open>
  The extent number does not survive the sixteenth extent: the entry that the import writes
  for extent 16 of a file reads back as extent 256, so \<open>FindBlockIndex\<close> places its blocks at 256
  extents from the start of the file instead of 16.
\<close>

theorem extent_16_misplaced:
  assumes "u \<noteq> UNUSED" and "0 < n" and "n \<le> BlockPtrType pb" and "fb + n \<le> ptr_limit (BlockPtrType pb)"
  shows "FindBlockIndex (extent_entry pb u nm 16 n fb) fb (BlockPtrType pb) = 256 * BlockPtrType pb + 1"
proof -
  let ?e = "extent_entry pb u nm 16 n fb"
  have "al_entries ?e (BlockPtrType pb) ! 0 = fb"
    using al_entries_extent [OF assms(3,4), of u nm 16] assms(2) by (simp add: nth_append)
  moreover have "GetExtNumber ?e = 256" by (simp add: GetExtNumber_extent_entry)
  ultimately show ?thesis
    using FindBlockIndex_Some [of ?e 0 "BlockPtrType pb" fb] assms(1) BlockPtrType_cases [of pb] by auto
qed

theorem extent_16_misplaced_witness:
  "FindBlockIndex (extent_entry pb0 0 ''F       .T  '' 16 1 5) 5 (BlockPtrType pb0) = 256 * BlockPtrType pb0 + 1"
proof (rule extent_16_misplaced)
  show "1 \<le> BlockPtrType pb0" "5 + 1 \<le> ptr_limit (BlockPtrType pb0)" by code_simp+
qed (simp_all add: UNUSED_def)

section \<open>Image files\<close>

text \<open>
  One failed read disables an image drive for good: after a read that reports an error, every
  later read and write reports one and moves no data, whatever the host file holds by then.
\<close>

theorem image_failure_sticky:
  assumes "dskimage_Read t s buf (d, h) = Ok 1 (buf', d')"
  shows "dskimage_Read t2 s2 buf2 (d', h2) = Ok 1 (buf2, d') \<and>
     dskimage_Write t2 s2 dma2 (d', h2) = Ok 1 (d', h2)"
proof -
  have "imgfail d'"
    using assms by (auto simp: dskimage_Read_def Let_def split: if_splits option.splits node.splits)
  then show ?thesis by (simp add: dskimage_Read_def dskimage_Write_def)
qed

definition img0 :: dskimage where
  "img0 = \<lparr>drvpath = ''d/F.T'', ostype = CPM22, dpb = pb0, stbl = [1, 2, 3, 4], selected = -1,
           image = ''d/F.T'', imgfail = False\<rparr>"

theorem image_failure_sticky_witness:
  "dskimage_Read 0 1 [] (img0\<lparr>imgfail := True\<rparr>, h0) = Ok 1 ([], img0\<lparr>imgfail := True\<rparr>) \<and>
   dskimage_Write 0 1 [] (img0\<lparr>imgfail := True\<rparr>, h0) = Ok 1 (img0\<lparr>imgfail := True\<rparr>, h0)"
proof (rule image_failure_sticky)
  have "read_at (image_offset pb0 0 1) 128 [65, 66] = [65, 66]" by code_simp
  then show "dskimage_Read 0 1 (replicate 128 0) (img0, h0) =
      Ok 1 (blit 0 [65, 66] (replicate 128 0), img0\<lparr>imgfail := True\<rparr>)"
    by (simp add: dskimage_Read_def img0_def h0_def host_lookup_def)
qed

end
