(* ===== verification/Memory.thy ===== *)
theory Memory
  imports CPM_Prelude
begin

text \<open>
  The 64K memory of the emulated computer and the block transfers of class \<open>IntelCPU\<close>
  (\<^verbatim>\<open>zilogz80.cpp\<close>: \<open>readmem\<close> and \<open>writemem\<close> on buffers and on streams). The C++ loops copy up to
  the end of the array and continue at address 0.
\<close>

type_synonym ram = "u16 \<Rightarrow> u8"

section \<open>Loops\<close>

text \<open>The piece copied by one iteration.\<close>

definition piece :: "u16 \<Rightarrow> u16 \<Rightarrow> nat" where
  "piece addr sz = min (0x10000 - unat addr) (unat sz)"

definition ram_slice :: "ram \<Rightarrow> nat \<Rightarrow> nat \<Rightarrow> bytes" where
  "ram_slice m a n = map (\<lambda>i. m (of_nat i)) [a..<a + n]"

text \<open>\<open>memcpy\<close> to \<open>m_ram + a\<close>; the callers keep within the array.\<close>

definition ram_store :: "nat \<Rightarrow> bytes \<Rightarrow> ram \<Rightarrow> ram" where
  "ram_store a bs m = (\<lambda>x. if a \<le> unat x \<and> unat x < a + length bs then bs ! (unat x - a) else m x)"

lemma piece_pos: "sz \<noteq> 0 \<Longrightarrow> 0 < piece addr sz"
proof -
  assume "sz \<noteq> 0"
  then have "0 < unat sz" using unat_eq_zero [of sz] by (cases "unat sz") auto
  moreover have "unat addr < 0x10000" using unat_u16_lt [of addr] by simp
  ultimately show ?thesis by (simp add: piece_def)
qed

lemma piece_le: "piece addr sz \<le> unat sz"
  by (simp add: piece_def)

lemma unat_minus_piece: "n \<le> unat (sz :: u16) \<Longrightarrow> unat (sz - of_nat n) = unat sz - n"
proof -
  assume n: "n \<le> unat sz"
  then have "n < 65536" using unat_u16_lt [of sz] by (rule le_less_trans)
  then have u: "unat (of_nat n :: u16) = n" by (simp add: unat_of_nat_u16)
  then have "of_nat n \<le> sz" using n by (simp add: word_le_nat_alt)
  then show ?thesis using u by (simp add: unat_sub)
qed

function readmem :: "ram \<Rightarrow> u16 \<Rightarrow> u16 \<Rightarrow> bytes" where
  "readmem m addr sz =
     (if sz = 0 then []
      else ram_slice m (unat addr) (piece addr sz)
           @ readmem m (addr + of_nat (piece addr sz)) (sz - of_nat (piece addr sz)))"
  by pat_completeness auto
termination
proof (relation "measure (\<lambda>(m, addr, sz). unat sz)")
  fix m :: ram and addr sz :: u16
  assume "sz \<noteq> 0"
  then show "((m, addr + of_nat (piece addr sz), sz - of_nat (piece addr sz)), (m, addr, sz))
      \<in> measure (\<lambda>(m, addr, sz). unat sz)"
    using piece_pos [of sz addr] piece_le [of addr sz] unat_minus_piece [OF piece_le [of addr sz]] by simp
qed simp

declare readmem.simps [simp del]

text \<open>The buffer is the memory from the source pointer on; running past its end is undefined.\<close>

function writemem :: "bytes \<Rightarrow> u16 \<Rightarrow> u16 \<Rightarrow> ram \<Rightarrow> (unit, ram) outcome" where
  "writemem buf addr sz m =
     (if sz = 0 then Ok () m
      else let n = piece addr sz
           in if length buf < n then Fail (Undefined OutOfBounds) m
              else writemem (drop n buf) (addr + of_nat n) (sz - of_nat n)
                     (ram_store (unat addr) (take n buf) m))"
  by pat_completeness auto
termination
proof (relation "measure (\<lambda>(buf, addr, sz, m). unat sz)")
  fix buf :: bytes and m :: ram and addr sz :: u16 and n
  assume "sz \<noteq> 0" and "n = piece addr sz"
  then show "((drop n buf, addr + of_nat n, sz - of_nat n, ram_store (unat addr) (take n buf) m), (buf, addr, sz, m))
      \<in> measure (\<lambda>(buf, addr, sz, m). unat sz)"
    using piece_pos [of sz addr] piece_le [of addr sz] unat_minus_piece [OF piece_le [of addr sz]] by simp
qed simp

declare writemem.simps [simp del]

section \<open>Wrap-around\<close>

lemma of_nat_unat_add: "of_nat (unat (addr :: u16) + i) = addr + of_nat i"
  by simp

lemma ram_slice_eq: "ram_slice m (unat addr) n = map (\<lambda>i. m (addr + of_nat i)) [0..<n]"
  unfolding ram_slice_def
  by (rule nth_equalityI) simp_all

lemma readmem_eq: "readmem m addr sz = map (\<lambda>i. m (addr + of_nat i)) [0..<unat sz]"
proof (induction m addr sz rule: readmem.induct)
  case (1 m addr sz)
  show ?case
  proof (cases "sz = 0")
    case True
    then show ?thesis by (simp add: readmem.simps)
  next
    case False
    let ?n = "piece addr sz"
    have "unat (sz - of_nat ?n) = unat sz - ?n" by (rule unat_minus_piece [OF piece_le])
    then have ih: "readmem m (addr + of_nat ?n) (sz - of_nat ?n) =
        map (\<lambda>i. m (addr + of_nat i)) [?n..<unat sz]"
      using 1 [OF False] piece_le [of addr sz]
      by (intro nth_equalityI) (simp_all add: add.assoc)
    have "[0..<unat sz] = [0..<?n] @ [?n..<unat sz]"
      using upt_glue [of 0 ?n "unat sz"] piece_le [of addr sz] by simp
    then show ?thesis
      using False ih by (simp add: readmem.simps [of m addr sz] ram_slice_eq)
  qed
qed

text \<open>The memory after storing a run of bytes from \<open>addr\<close> on, modulo 64K.\<close>

definition stored :: "u16 \<Rightarrow> bytes \<Rightarrow> ram \<Rightarrow> ram" where
  "stored addr bs m = (\<lambda>x. if unat (x - addr) < length bs then bs ! unat (x - addr) else m x)"

lemma stored_Nil [simp]: "stored addr [] m = m"
  by (simp add: stored_def)

lemma ram_store_stored:
  assumes "unat addr + length bs \<le> 0x10000"
  shows "ram_store (unat addr) bs m = stored addr bs m"
proof
  fix x
  show "ram_store (unat addr) bs m x = stored addr bs m x"
  proof (cases "addr \<le> x")
    case True
    then have "unat (x - addr) = unat x - unat addr" by (simp add: unat_sub)
    with True show ?thesis by (auto simp: ram_store_def stored_def word_le_nat_alt)
  next
    case False
    then have lt: "unat x < unat addr" by (simp add: word_le_nat_alt not_le)
    have "unat (x - addr) = unat x + 0x10000 - unat addr"
      using lt unat_u16_lt [of addr] by (simp add: unat_sub_if_size word_size)
    then have "\<not> unat (x - addr) < length bs" using assms lt by linarith
    then show ?thesis using lt by (auto simp: ram_store_def stored_def)
  qed
qed

lemma unat_diff_of_nat:
  assumes "k < 65536" and "l \<le> 65536"
  shows "unat (of_nat k - of_nat l :: u16) = (if l \<le> k then k - l else k + 65536 - l)"
proof (cases "l = 65536")
  case True
  then have z: "(of_nat l :: u16) = 0" by simp
  have "unat (of_nat k - of_nat l :: u16) = unat (of_nat k :: u16)" by (simp only: z diff_zero)
  with True assms(1) show ?thesis by (simp add: unat_of_nat_u16)
next
  case False
  with assms show ?thesis by (simp add: unat_sub_if_size word_size unat_of_nat_u16)
qed

lemma stored_append:
  assumes "length as + length bs \<le> 0x10000"
  shows "stored (addr + of_nat (length as)) bs (stored addr as m) = stored addr (as @ bs) m"
proof
  fix x
  define k where "k = unat (x - addr)"
  have x: "x = addr + of_nat k" by (simp add: k_def)
  have k: "k < 0x10000" using unat_u16_lt [of "x - addr"] by (simp add: k_def)
  have "x - (addr + of_nat (length as)) = of_nat k - of_nat (length as)"
    unfolding x by (simp only: add_diff_cancel_left)
  then have j: "unat (x - (addr + of_nat (length as))) =
      (if length as \<le> k then k - length as else k + 65536 - length as)"
    using assms k by (simp only: unat_diff_of_nat)
  show "stored (addr + of_nat (length as)) bs (stored addr as m) x = stored addr (as @ bs) m x"
    using assms by (auto simp: stored_def j k_def [symmetric] nth_append)
qed

lemma writemem_eq:
  assumes "unat sz \<le> length buf"
  shows "writemem buf addr sz m = Ok () (stored addr (take (unat sz) buf) m)"
  using assms
proof (induction buf addr sz m rule: writemem.induct)
  case (1 buf addr sz m)
  show ?case
  proof (cases "sz = 0")
    case True
    then show ?thesis by (simp add: writemem.simps)
  next
    case False
    let ?n = "piece addr sz"
    have n: "?n \<le> unat sz" "?n \<le> length buf" using piece_le [of addr sz] "1.prems" by simp_all
    have us: "unat (sz - of_nat ?n) = unat sz - ?n" by (rule unat_minus_piece [OF n(1)])
    have "unat addr + ?n \<le> 0x10000" using unat_u16_lt [of addr] unfolding piece_def by linarith
    then have "ram_store (unat addr) (take ?n buf) m = stored addr (take ?n buf) m"
      using n by (intro ram_store_stored) simp
    then have "writemem buf addr sz m =
        writemem (drop ?n buf) (addr + of_nat ?n) (sz - of_nat ?n) (stored addr (take ?n buf) m)"
      using False n by (simp add: writemem.simps [of buf addr sz] Let_def)
    also have "\<dots> = Ok () (stored (addr + of_nat ?n) (take (unat sz - ?n) (drop ?n buf))
                            (stored addr (take ?n buf) m))"
      using "1.IH" [OF False refl] n us \<open>ram_store _ _ _ = _\<close> "1.prems" by simp
    also have "stored (addr + of_nat ?n) (take (unat sz - ?n) (drop ?n buf)) (stored addr (take ?n buf) m)
        = stored addr (take ?n buf @ take (unat sz - ?n) (drop ?n buf)) m"
    proof -
      have la: "length (take ?n buf) = ?n" using n by simp
      have lb: "length (take (unat sz - ?n) (drop ?n buf)) = unat sz - ?n" using "1.prems" by simp
      have "?n + (unat sz - ?n) \<le> 0x10000" using n unat_u16_lt [of sz] by linarith
      then show ?thesis
        using stored_append [of "take ?n buf" "take (unat sz - ?n) (drop ?n buf)" addr m]
        unfolding la lb by blast
    qed
    also have "take ?n buf @ take (unat sz - ?n) (drop ?n buf) = take (unat sz) buf"
      using take_add [of ?n "unat sz - ?n" buf] n by simp
    finally show ?thesis .
  qed
qed

lemma stored_at: "i < length bs \<Longrightarrow> length bs \<le> 0x10000 \<Longrightarrow> stored addr bs m (addr + of_nat i) = bs ! i"
  by (simp add: stored_def unat_of_nat_u16)

section \<open>Streams\<close>

text \<open>An output stream that takes \<open>room\<close> more bytes before it fails, and an input stream.\<close>

record ostr =
  sunk :: bytes
  room :: nat
  obad :: bool

record istr =
  source :: bytes
  ifail :: bool

definition os_write :: "bytes \<Rightarrow> ostr \<Rightarrow> ostr" where
  "os_write bs f =
     (if length bs \<le> room f then f\<lparr>sunk := sunk f @ bs, room := room f - length bs\<rparr>
      else f\<lparr>sunk := sunk f @ take (room f) bs, room := 0, obad := True\<rparr>)"

function readmem_stream :: "ram \<Rightarrow> ostr \<Rightarrow> u16 \<Rightarrow> u16 \<Rightarrow> ostr \<times> u16" where
  "readmem_stream m f addr sz =
     (if obad f \<or> sz = 0 then (f, sz)
      else let n = piece addr sz; f' = os_write (ram_slice m (unat addr) n) f
           in if obad f' then (f', sz)
              else readmem_stream m f' (addr + of_nat n) (sz - of_nat n))"
  by pat_completeness auto
termination
proof (relation "measure (\<lambda>(m, f, addr, sz). unat sz)")
  fix m :: ram and f f' :: ostr and addr sz :: u16 and n
  assume "\<not> (obad f \<or> sz = 0)" and "n = piece addr sz"
  then show "((m, f', addr + of_nat n, sz - of_nat n), (m, f, addr, sz))
      \<in> measure (\<lambda>(m, f, addr, sz). unat sz)"
    using piece_pos [of sz addr] piece_le [of addr sz] unat_minus_piece [OF piece_le [of addr sz]] by simp
qed simp

declare readmem_stream.simps [simp del]

definition is_read :: "nat \<Rightarrow> istr \<Rightarrow> bytes \<times> istr" where
  "is_read n f =
     (let got = take n (source f) in (got, \<lparr>source = drop n (source f), ifail = length got < n\<rparr>))"

function writemem_stream :: "istr \<Rightarrow> u16 \<Rightarrow> u16 \<Rightarrow> ram \<Rightarrow> istr \<times> u16 \<times> ram" where
  "writemem_stream f addr sz m =
     (if ifail f \<or> sz = 0 then (f, sz, m)
      else case is_read (piece addr sz) f of (got, f') \<Rightarrow>
           if got = [] then (f', sz, m)
           else writemem_stream f' (addr + of_nat (length got)) (sz - of_nat (length got))
                  (ram_store (unat addr) got m))"
  by pat_completeness auto
termination
proof (relation "measure (\<lambda>(f, addr, sz, m). unat sz)")
  fix f f' :: istr and addr sz :: u16 and m :: ram and got
  assume r: "(got, f') = is_read (piece addr sz) f" "got \<noteq> []"
  then have "length got \<le> piece addr sz" "0 < length got"
    by (auto simp: is_read_def Let_def)
  then have "length got \<le> unat sz" using piece_le [of addr sz] by linarith
  then show "((f', addr + of_nat (length got), sz - of_nat (length got), ram_store (unat addr) got m),
      (f, addr, sz, m)) \<in> measure (\<lambda>(f, addr, sz, m). unat sz)"
    using unat_minus_piece [of "length got" sz] \<open>0 < length got\<close> by (simp del: length_greater_0_conv)
qed simp

declare writemem_stream.simps [simp del]

lemma readmem_stream_ok:
  assumes "\<not> obad f" and "unat sz \<le> room f"
  shows "readmem_stream m f addr sz =
     (f\<lparr>sunk := sunk f @ readmem m addr sz, room := room f - unat sz\<rparr>, 0)"
  using assms
proof (induction m f addr sz rule: readmem_stream.induct)
  case (1 m f addr sz)
  show ?case
  proof (cases "sz = 0")
    case True
    then show ?thesis by (simp add: readmem_stream.simps readmem.simps)
  next
    case False
    let ?n = "piece addr sz"
    define f' where "f' = os_write (ram_slice m (unat addr) ?n) f"
    have n: "?n \<le> unat sz" by (rule piece_le)
    have len: "length (ram_slice m (unat addr) ?n) = ?n" by (simp add: ram_slice_def)
    have f': "f' = f\<lparr>sunk := sunk f @ ram_slice m (unat addr) ?n, room := room f - ?n\<rparr>"
      using "1.prems" n len by (simp add: f'_def os_write_def)
    have us: "unat (sz - of_nat ?n) = unat sz - ?n" by (rule unat_minus_piece [OF n])
    have "readmem_stream m f addr sz = readmem_stream m f' (addr + of_nat ?n) (sz - of_nat ?n)"
      using False "1.prems" f' by (simp add: readmem_stream.simps [of m f] Let_def f'_def [symmetric])
    also have "\<dots> = (f'\<lparr>sunk := sunk f' @ readmem m (addr + of_nat ?n) (sz - of_nat ?n),
        room := room f' - unat (sz - of_nat ?n)\<rparr>, 0)"
      using False "1.prems" f' us n
      by (intro "1.IH" [OF _ refl f'_def]) simp_all
    finally show ?thesis
      using False n us by (simp add: f' readmem.simps [of m addr sz])
  qed
qed

lemma writemem_stream_result:
  assumes "\<not> ifail f"
  shows "writemem_stream f addr sz m =
     (\<lparr>source = drop (unat sz) (source f), ifail = length (source f) < unat sz\<rparr>,
      sz - of_nat (min (unat sz) (length (source f))), stored addr (take (unat sz) (source f)) m)"
  using assms
proof (induction f addr sz m rule: writemem_stream.induct)
  case (1 f addr sz m)
  show ?case
  proof (cases "sz = 0")
    case True
    with "1.prems" show ?thesis by (cases f) (simp add: writemem_stream.simps)
  next
    case False
    let ?n = "piece addr sz" and ?s = "source f"
    define got where "got = take ?n ?s"
    define f' :: istr where "f' = \<lparr>source = drop ?n ?s, ifail = length got < ?n\<rparr>"
    have rd: "is_read ?n f = (got, f')" by (simp add: is_read_def got_def f'_def Let_def)
    have n: "?n \<le> unat sz" "0 < ?n" using piece_le piece_pos [OF False] by auto
    have fit: "unat addr + length got \<le> 0x10000"
      using unat_u16_lt [of addr] unfolding got_def piece_def length_take by linarith
    show ?thesis
    proof (cases "?n \<le> length ?s")
      case True
      then have ne: "got \<noteq> []" and lg: "length got = ?n" and nf: "\<not> ifail f'"
        using n by (auto simp: got_def f'_def)
      have us: "unat (sz - of_nat ?n) = unat sz - ?n" by (rule unat_minus_piece [OF n(1)])
      have "writemem_stream f addr sz m =
          writemem_stream f' (addr + of_nat ?n) (sz - of_nat ?n) (stored addr got m)"
        using False "1.prems" rd ne lg ram_store_stored [OF fit, of m]
        by (simp add: writemem_stream.simps [of f])
      also have "\<dots> = (\<lparr>source = drop (unat sz - ?n) (drop ?n ?s),
          ifail = length (drop ?n ?s) < unat sz - ?n\<rparr>,
          sz - of_nat ?n - of_nat (min (unat sz - ?n) (length (drop ?n ?s))),
          stored (addr + of_nat ?n) (take (unat sz - ?n) (drop ?n ?s)) (stored addr got m))"
        using "1.IH" [OF _ rd [symmetric] ne] False "1.prems" nf us lg ram_store_stored [OF fit, of m]
        by (simp add: f'_def)
      also have "stored (addr + of_nat ?n) (take (unat sz - ?n) (drop ?n ?s)) (stored addr got m) =
          stored addr (take (unat sz) ?s) m"
      proof -
        have "length got + length (take (unat sz - ?n) (drop ?n ?s)) \<le> 0x10000"
          using n(1) unat_u16_lt [of sz] unfolding lg length_take by linarith
        from stored_append [OF this, of addr m] show ?thesis
          using take_add [of ?n "unat sz - ?n" ?s] n unfolding lg by (simp add: got_def)
      qed
      also have "sz - of_nat ?n - of_nat (min (unat sz - ?n) (length (drop ?n ?s))) =
          sz - of_nat (min (unat sz) (length ?s))"
      proof -
        have "min (unat sz) (length ?s) = ?n + min (unat sz - ?n) (length ?s - ?n)"
          using n True by simp
        then show ?thesis by (simp only: of_nat_add length_drop) simp
      qed
      also have "length (drop ?n ?s) < unat sz - ?n \<longleftrightarrow> length ?s < unat sz"
        using n True by auto
      finally show ?thesis using n by simp
    next
      case short: False
      then have got: "got = ?s" "ifail f'" and small: "length ?s < unat sz"
        using n by (simp_all add: got_def f'_def)
      have tk: "take (unat sz) ?s = ?s" "drop ?n ?s = []" "drop (unat sz) ?s = []"
        using short small by simp_all
      have stop: "writemem_stream g a z r = (g, z, r)" if "ifail g" for g a z r
        using that by (simp add: writemem_stream.simps)
      show ?thesis
        using False "1.prems" rd got tk small ram_store_stored [OF fit, of m] short
        by (auto simp: writemem_stream.simps [of f] stop f'_def)
    qed
  qed
qed

end
