(* ===== verification/Console.thy ===== *)
theory Console
  imports CPM_Prelude "HOL-Library.Sublist"
begin

text \<open>
  The telnet console (\<^verbatim>\<open>server.cpp\<close>): the byte queue between the network thread and the CPU, the
  TELNET and line-end filter of \<open>console\<close>, the console calls of the CPU (\<open>ConChk\<close>, \<open>ConIn\<close>,
  \<open>ConOut\<close>) and the accept loop of \<open>server\<close>. System call results (what \<open>recv\<close>, \<open>write\<close>,
  \<open>accept\<close> and the others return) are inputs of the model.
\<close>

section \<open>The byte queue\<close>

definition enqueueConsoleByte :: "u8 \<Rightarrow> bytes \<Rightarrow> bytes" where
  "enqueueConsoleByte c q = q @ [c]"

definition dequeueConsoleByte :: "bytes \<Rightarrow> u8 option \<times> bytes" where
  "dequeueConsoleByte q = (case q of [] \<Rightarrow> (None, []) | c # r \<Rightarrow> (Some c, r))"

definition consoleByteAvailable :: "bytes \<Rightarrow> bool" where
  "consoleByteAvailable q \<longleftrightarrow> q \<noteq> []"

definition ConChk :: "bytes \<Rightarrow> nat" where
  "ConChk q = (if consoleByteAvailable q then 0xFF else 0)"

text \<open>Control-Q ends the calling thread, which is the CPU.\<close>

datatype conin = ConChar u8 | ThreadExit

definition ConIn :: "bytes \<Rightarrow> conin \<times> bytes" where
  "ConIn q =
     (case dequeueConsoleByte q of
        (None, q') \<Rightarrow> (ConChar 0, q')
      | (Some c, q') \<Rightarrow> if c = 0x11 then (ThreadExit, q') else (ConChar c, q'))"

text \<open>
  \<open>ConOut\<close>: \<open>fd\<close> is the socket after the one-second grace, \<open>rs\<close> the results of the successive
  \<open>write\<close> calls. \<open>None\<close>: still in the loop when the results are used up.
\<close>

fun write_loop :: "int list \<Rightarrow> int option" where
  "write_loop [] = None"
| "write_loop (n # rs) = (if n = 1 then Some n else write_loop rs)"

definition ConOut :: "int \<Rightarrow> int list \<Rightarrow> int option" where
  "ConOut fd rs = (if fd \<noteq> -1 then write_loop rs else Some 0)"

section \<open>The TELNET filter\<close>

datatype telnet_state = Data | Iac | Option | Subnegotiation | SubnegotiationIac

record console_t =
  telnetState :: telnet_state
  previousWasCr :: bool

definition console_init :: console_t where
  "console_init = \<lparr>telnetState = Data, previousWasCr = False\<rparr>"

text \<open>The switch: the next state, and whether the byte goes on to the line-end filter.\<close>

fun telnet_step :: "telnet_state \<Rightarrow> u8 \<Rightarrow> telnet_state \<times> bool" where
  "telnet_step Iac c =
     (if c = 0xFF then (Data, True)
      else if 0xFB \<le> c \<and> c \<le> 0xFE then (Option, False)
      else if c = 0xFA then (Subnegotiation, False)
      else (Data, False))"
| "telnet_step Option c = (Data, False)"
| "telnet_step Subnegotiation c = (if c = 0xFF then SubnegotiationIac else Subnegotiation, False)"
| "telnet_step SubnegotiationIac c = (if c = 0xF0 then Data else Subnegotiation, False)"
| "telnet_step Data c = (if c = 0xFF then (Iac, False) else (Data, True))"

text \<open>The rest of the loop body: the flag afterwards and the byte queued, if any.\<close>

definition crlf_step :: "bool \<Rightarrow> u8 \<Rightarrow> bool \<times> u8 option" where
  "crlf_step prevcr c =
     (if prevcr \<and> (c = 10 \<or> c = 0) then (False, None)
      else if c = 13 then (True, Some 13)
      else if c = 10 then (False, Some 13)
      else (False, Some (c AND 0x7F)))"

definition console_byte :: "u8 \<Rightarrow> console_t \<times> bytes \<Rightarrow> console_t \<times> bytes" where
  "console_byte c w =
     (case w of (st, q) \<Rightarrow>
      case telnet_step (telnetState st) c of
        (ts, False) \<Rightarrow> (st\<lparr>telnetState := ts\<rparr>, q)
      | (ts, True) \<Rightarrow>
          (case crlf_step (previousWasCr st) c of
             (cr, None) \<Rightarrow> (st\<lparr>telnetState := ts, previousWasCr := cr\<rparr>, q)
           | (cr, Some b) \<Rightarrow> (st\<lparr>telnetState := ts, previousWasCr := cr\<rparr>, enqueueConsoleByte b q)))"

datatype recv_event = Byte u8 | Closed | Errno nat

abbreviation (input) EINTR :: nat where "EINTR \<equiv> 4"
abbreviation (input) EAGAIN :: nat where "EAGAIN \<equiv> 11"

text \<open>The receive loop; \<open>None\<close> means it is still waiting for the next event.\<close>

fun console_run :: "recv_event list \<Rightarrow> console_t \<times> bytes \<Rightarrow> nat option \<times> console_t \<times> bytes" where
  "console_run [] w = (None, w)"
| "console_run (Closed # evs) w = (Some 0, w)"
| "console_run (Errno e # evs) w =
     (if e = EINTR \<or> e = EAGAIN then console_run evs w else (Some e, w))"
| "console_run (Byte c # evs) w = console_run evs (console_byte c w)"

definition console :: "recv_event list \<Rightarrow> bytes \<Rightarrow> nat option \<times> bytes" where
  "console evs q = (case console_run evs (console_init, q) of (r, _, q') \<Rightarrow> (r, q'))"

section \<open>The server thread\<close>

record server_t =
  sockfd :: int
  newsockfd :: int
  consoleBuffer :: bytes

definition server_init :: server_t where
  "server_init = \<lparr>sockfd = -1, newsockfd = -1, consoleBuffer = []\<rparr>"

definition IsConnected :: "server_t \<Rightarrow> bool" where
  "IsConnected s \<longleftrightarrow> newsockfd s \<noteq> -1"

datatype server_result = Exit string server_t | Running server_t

text \<open>The results of \<open>socket\<close>, \<open>bind\<close> and \<open>listen\<close>.\<close>

definition server_setup :: "int \<Rightarrow> int \<Rightarrow> int \<Rightarrow> server_t \<Rightarrow> server_result" where
  "server_setup sk bnd lst s =
     (let s' = s\<lparr>sockfd := sk\<rparr>
      in if sk < 0 then Exit ''ERROR opening socket'' s'
         else if bnd < 0 then Exit ''ERROR on binding'' s'
         else if lst < 0 then Exit ''ERROR on listen'' s'
         else Running s')"

text \<open>
  One client: the descriptor from \<open>accept\<close>, whether the two address lookups succeed, and what
  \<open>recv\<close> yields.
\<close>

record client =
  accepted :: int
  hostp :: bool
  hostaddrp :: bool
  events :: "recv_event list"

text \<open>
  The accept loop. Closing the connection leaves \<open>newsockfd\<close> at the closed descriptor until the
  next client arrives. A session still going on when its events are used up stays open.
\<close>

fun server_loop :: "client list \<Rightarrow> server_t \<Rightarrow> server_result" where
  "server_loop [] s = Running s"
| "server_loop (c # cs) s =
     (let s1 = s\<lparr>newsockfd := accepted c\<rparr>
      in if accepted c < 0 then Exit ''ERROR on accept'' s1
         else if \<not> hostp c then Exit ''ERROR on gethostbyaddr'' s1
         else if \<not> hostaddrp c then Exit ''ERROR on inet_ntoa'' s1
         else case console (events c) (consoleBuffer s1) of
                (None, q) \<Rightarrow> Running (s1\<lparr>consoleBuffer := q\<rparr>)
              | (Some _, q) \<Rightarrow> server_loop cs (s1\<lparr>consoleBuffer := q\<rparr>))"

text \<open>
  Shutting down: \<open>stoptelnet\<close> cancels the thread, and its cleanup handler closes the descriptors. The
  list is of the descriptors passed to \<open>close\<close>: at the end of each session, then by the handler.
\<close>

fun session_closes :: "client list \<Rightarrow> server_t \<Rightarrow> int list" where
  "session_closes [] s = []"
| "session_closes (c # cs) s =
     (if accepted c < 0 \<or> \<not> hostp c \<or> \<not> hostaddrp c then []
      else case console (events c) (consoleBuffer s) of
             (None, q) \<Rightarrow> []
           | (Some _, q) \<Rightarrow> accepted c # session_closes cs (s\<lparr>newsockfd := accepted c, consoleBuffer := q\<rparr>))"

definition cleanupHandler :: "server_t \<Rightarrow> int list" where
  "cleanupHandler s = filter (\<lambda>fd. fd \<noteq> -1) [newsockfd s, sockfd s]"

definition stoptelnet :: "client list \<Rightarrow> server_t \<Rightarrow> int list" where
  "stoptelnet cs s =
     session_closes cs s @ (case server_loop cs s of Exit _ _ \<Rightarrow> [] | Running s' \<Rightarrow> cleanupHandler s')"

text \<open>When the last session has ended, its descriptor is closed a second time.\<close>

lemma closed_descriptor:
  "server_loop cs s = Running s' \<Longrightarrow> length (session_closes cs s) = length cs \<Longrightarrow> cs \<noteq> [] \<Longrightarrow>
   newsockfd s' = last (session_closes cs s) \<and> 0 \<le> newsockfd s'"
proof (induction cs s rule: session_closes.induct)
  case (2 c cs s)
  then show ?case by (cases cs) (auto simp: Let_def split: if_splits prod.splits option.splits)
qed simp

lemma double_close:
  assumes "server_loop cs s = Running s'" and "length (session_closes cs s) = length cs" and "cs \<noteq> []"
  shows "\<exists>fd. 2 \<le> count_list (stoptelnet cs s) fd"
proof
  have n: "newsockfd s' = last (session_closes cs s)" "newsockfd s' \<noteq> -1" using closed_descriptor [OF assms] by auto
  have ne: "session_closes cs s \<noteq> []" using assms(2,3) by auto
  then have "last (session_closes cs s) \<in> set (session_closes cs s)" by (rule last_in_set)
  then have "0 < count_list (session_closes cs s) (newsockfd s')" unfolding n(1) by (simp add: count_list_0_iff neq0_conv [symmetric] del: neq0_conv)
  moreover have "0 < count_list (cleanupHandler s') (newsockfd s')" using n(2) by (simp add: cleanupHandler_def)
  ultimately show "2 \<le> count_list (stoptelnet cs s) (newsockfd s')" using assms(1) by (simp add: stoptelnet_def)
qed

section \<open>The filter against its specification\<close>

text \<open>What TELNET sends: data with \<open>IAC\<close> doubled, commands, negotiations, subnegotiations.\<close>

datatype telnet_item =
    Literal u8
  | Command u8
  | Negotiate u8 u8
  | Sub bytes

fun item_ok :: "telnet_item \<Rightarrow> bool" where
  "item_ok (Literal c) = True"
| "item_ok (Command c) \<longleftrightarrow> c < 0xFA"
| "item_ok (Negotiate c p) \<longleftrightarrow> 0xFB \<le> c \<and> c \<le> 0xFE"
| "item_ok (Sub bs) = True"

definition escape :: "bytes \<Rightarrow> bytes" where
  "escape bs = concat (map (\<lambda>b. if b = 0xFF then [0xFF, 0xFF] else [b]) bs)"

fun encode_item :: "telnet_item \<Rightarrow> bytes" where
  "encode_item (Literal c) = escape [c]"
| "encode_item (Command c) = [0xFF, c]"
| "encode_item (Negotiate c p) = [0xFF, c, p]"
| "encode_item (Sub bs) = [0xFF, 0xFA] @ escape bs @ [0xFF, 0xF0]"

definition encode :: "telnet_item list \<Rightarrow> bytes" where
  "encode xs = concat (map encode_item xs)"

fun literals :: "telnet_item list \<Rightarrow> bytes" where
  "literals [] = []"
| "literals (Literal c # xs) = c # literals xs"
| "literals (_ # xs) = literals xs"

text \<open>Every line end (CR LF, CR NUL, CR, LF) becomes one CR; everything else loses its top bit.\<close>

fun normalise :: "bytes \<Rightarrow> bytes" where
  "normalise [] = []"
| "normalise [c] = [if c = 10 then 13 else c AND 0x7F]"
| "normalise (c # b # r) =
     (if c = 13 \<and> (b = 10 \<or> b = 0) then 13 # normalise r
      else (if c = 10 then 13 else c AND 0x7F) # normalise (b # r))"

definition feed :: "bytes \<Rightarrow> console_t \<times> bytes \<Rightarrow> console_t \<times> bytes" where
  "feed bs w = fold console_byte bs w"

lemma feed_simps [simp]:
  "feed [] w = w" "feed (b # bs) w = feed bs (console_byte b w)"
  "feed (as @ bs) w = feed bs (feed as w)"
  by (simp_all add: feed_def)

lemma console_run_bytes:
  "console_run (map Byte bs @ evs) w = console_run evs (feed bs w)"
  by (induction bs arbitrary: w) simp_all

text \<open>The line-end filter as a function on the data bytes.\<close>

fun crlf_run :: "bool \<Rightarrow> bytes \<Rightarrow> bool \<times> bytes" where
  "crlf_run cr [] = (cr, [])"
| "crlf_run cr (c # cs) =
     (case crlf_step cr c of (cr', out) \<Rightarrow>
      case crlf_run cr' cs of (cr'', rest) \<Rightarrow>
        (cr'', (case out of None \<Rightarrow> rest | Some b \<Rightarrow> b # rest)))"

lemma crlf_run_append:
  "crlf_run cr (as @ bs) =
     (fst (crlf_run (fst (crlf_run cr as)) bs), snd (crlf_run cr as) @ snd (crlf_run (fst (crlf_run cr as)) bs))"
  by (induction as arbitrary: cr) (auto simp: split: prod.splits option.splits)

lemma normalise_13: "normalise (13 # cs) =
   13 # normalise (case cs of [] \<Rightarrow> [] | b # r \<Rightarrow> if b = 10 \<or> b = 0 then r else b # r)"
  by (cases cs) simp_all

lemma crlf_run_normalise:
  "snd (crlf_run False cs) = normalise cs \<and>
   snd (crlf_run True cs) =
     normalise (case cs of [] \<Rightarrow> [] | b # r \<Rightarrow> if b = 10 \<or> b = 0 then r else b # r)"
proof (induction cs)
  case (Cons c cs)
  have F: "snd (crlf_run False (c # cs)) = normalise (c # cs)"
  proof (cases "c = 13")
    case True
    with Cons show ?thesis by (simp only: normalise_13) (auto simp: crlf_step_def split: prod.splits)
  next
    case False
    then have "normalise (c # cs) = (if c = 10 then 13 else c AND 0x7F) # normalise cs"
      by (cases cs) simp_all
    with False Cons show ?thesis by (auto simp: crlf_step_def split: prod.splits)
  qed
  moreover have "snd (crlf_run True (c # cs)) = (if c = 10 \<or> c = 0 then normalise cs else snd (crlf_run False (c # cs)))"
    using Cons by (auto simp: crlf_step_def split: prod.splits)
  ultimately show ?case by auto
qed simp

lemma console_byte_skip:
  "telnet_step (telnetState st) c = (ts, False) \<Longrightarrow> console_byte c (st, q) = (st\<lparr>telnetState := ts\<rparr>, q)"
  by (simp add: console_byte_def)

lemma console_byte_data:
  "telnet_step (telnetState st) c = (ts, True) \<Longrightarrow>
   console_byte c (st, q) =
     (st\<lparr>telnetState := ts, previousWasCr := fst (crlf_step (previousWasCr st) c)\<rparr>,
      q @ (case snd (crlf_step (previousWasCr st) c) of None \<Rightarrow> [] | Some b \<Rightarrow> [b]))"
  by (auto simp: console_byte_def enqueueConsoleByte_def split: prod.splits option.splits)

lemma feed_sub:
  assumes "telnetState st = Subnegotiation"
  shows "feed (escape bs) (st, q) = (st, q)"
proof -
  have eq: "st\<lparr>telnetState := Subnegotiation\<rparr> = st" using assms by (cases st) simp
  show ?thesis
    by (induction bs) (simp_all add: escape_def console_byte_skip assms eq)
qed

lemma feed_item:
  assumes "item_ok x" and "telnetState st = Data"
  shows "feed (encode_item x) (st, q) =
     (st\<lparr>previousWasCr := fst (crlf_run (previousWasCr st) (literals [x]))\<rparr>,
      q @ snd (crlf_run (previousWasCr st) (literals [x])))"
proof (cases x)
  case (Literal c)
  with assms show ?thesis
    by (cases "c = 0xFF") (auto simp: escape_def console_byte_skip console_byte_data split: prod.splits option.splits)
next
  case (Command c)
  with assms have "telnet_step Iac c = (Data, False)"
    by (auto simp: word_le_nat_alt word_less_nat_alt)
  with Command assms show ?thesis by (simp add: console_byte_skip)
next
  case (Negotiate c p)
  with assms have "telnet_step Iac c = (Option, False)" by auto
  with Negotiate assms show ?thesis by (simp add: console_byte_skip)
next
  case (Sub bs)
  with assms show ?thesis by (simp add: console_byte_skip feed_sub)
qed

lemma feed_encode:
  assumes "\<forall>x \<in> set xs. item_ok x" and "telnetState st = Data"
  shows "feed (encode xs) (st, q) =
     (st\<lparr>previousWasCr := fst (crlf_run (previousWasCr st) (literals xs))\<rparr>,
      q @ snd (crlf_run (previousWasCr st) (literals xs)))"
  using assms
proof (induction xs arbitrary: st q)
  case Nil
  then show ?case by (simp add: encode_def)
next
  case (Cons x xs)
  let ?cr = "fst (crlf_run (previousWasCr st) (literals [x]))"
  have lits: "literals (x # xs) = literals [x] @ literals xs" by (cases x) simp_all
  have "feed (encode (x # xs)) (st, q) = feed (encode xs) (feed (encode_item x) (st, q))"
    by (simp add: encode_def)
  also have "feed (encode_item x) (st, q) =
      (st\<lparr>previousWasCr := ?cr\<rparr>, q @ snd (crlf_run (previousWasCr st) (literals [x])))"
    using Cons.prems by (intro feed_item) simp_all
  finally show ?case using Cons unfolding lits crlf_run_append by (simp del: literals.simps)
qed

lemma console_items:
  assumes "\<forall>x \<in> set xs. item_ok x"
  shows "console (map Byte (encode xs) @ Closed # evs) q = (Some 0, q @ normalise (literals xs))"
  using feed_encode [OF assms, of console_init q] crlf_run_normalise [of "literals xs"]
  by (simp add: console_def console_run_bytes console_init_def)

section \<open>Seven-bit console input\<close>

lemma and_7F_lt: "(c AND 0x7F :: u8) < 0x80"
proof -
  have "c AND 0x7F \<le> (0x7F :: u8)" by (rule word_and_le1)
  then show ?thesis by (rule order.strict_trans1) simp
qed

lemma console_byte_seven_bit:
  assumes "\<forall>b \<in> set (snd w). b < 0x80"
  shows "\<forall>b \<in> set (snd (console_byte c w)). b < 0x80"
  using assms
  by (auto simp: console_byte_def enqueueConsoleByte_def crlf_step_def and_7F_lt
      split: prod.splits bool.splits option.splits if_splits)

lemma console_run_seven_bit:
  "\<forall>b \<in> set (snd w). b < 0x80 \<Longrightarrow> \<forall>b \<in> set (snd (snd (console_run evs w))). b < 0x80"
proof (induction evs w rule: console_run.induct)
  case (4 c evs w)
  then show ?case using console_byte_seven_bit [of w c] by simp
qed auto

section \<open>Sessions\<close>

lemma server_loop_sessions:
  assumes "\<forall>c \<in> set cs. 0 \<le> accepted c \<and> hostp c \<and> hostaddrp c"
    and "list_all2 (\<lambda>c xs. (\<forall>x \<in> set xs. item_ok x) \<and> events c = map Byte (encode xs) @ [Closed]) cs xss"
  shows "\<exists>s'. server_loop cs s = Running s' \<and>
     consoleBuffer s' = consoleBuffer s @ concat (map (\<lambda>xs. normalise (literals xs)) xss) \<and>
     newsockfd s' = (if cs = [] then newsockfd s else accepted (last cs))"
  using assms(2,1)
proof (induction arbitrary: s rule: list_all2_induct)
  case (Cons c cs xs xss)
  define s1 where "s1 = s\<lparr>newsockfd := accepted c, consoleBuffer := consoleBuffer s @ normalise (literals xs)\<rparr>"
  have "console (events c) (consoleBuffer s) = (Some 0, consoleBuffer s @ normalise (literals xs))"
    using Cons.hyps console_items [of xs "[]" "consoleBuffer s"] by simp
  then have step: "server_loop (c # cs) s = server_loop cs s1"
    using Cons.prems by (simp add: Let_def s1_def)
  obtain s' where "server_loop cs s1 = Running s'"
    "consoleBuffer s' = consoleBuffer s1 @ concat (map (\<lambda>xs. normalise (literals xs)) xss)"
    "newsockfd s' = (if cs = [] then newsockfd s1 else accepted (last cs))"
    using Cons.IH [of s1] Cons.prems by auto
  with step show ?case by (auto simp: s1_def)
qed simp

section \<open>A first-in first-out queue\<close>

locale fifo =
  fixes items :: "'q \<Rightarrow> 'a list" and enq :: "'a \<Rightarrow> 'q \<Rightarrow> 'q" and deq :: "'q \<Rightarrow> 'a option \<times> 'q"
  assumes items_enq: "items (enq x q) = items q @ [x]"
    and deq_empty: "items q = [] \<Longrightarrow> fst (deq q) = None \<and> items (snd (deq q)) = []"
    and deq_front: "items q = x # r \<Longrightarrow> fst (deq q) = Some x \<and> items (snd (deq q)) = r"
begin

text \<open>An interleaving of producers (\<open>Some x\<close>) and attempts of the consumer (\<open>None\<close>).\<close>

fun run :: "'a option list \<Rightarrow> 'q \<Rightarrow> 'a list \<times> 'q" where
  "run [] q = ([], q)"
| "run (Some x # ops) q = run ops (enq x q)"
| "run (None # ops) q =
     (case deq q of (r, q') \<Rightarrow> case run ops q' of (out, q'') \<Rightarrow>
        ((case r of None \<Rightarrow> out | Some x \<Rightarrow> x # out), q''))"

lemma deq_items: "items q = (case fst (deq q) of None \<Rightarrow> [] | Some x \<Rightarrow> [x]) @ items (snd (deq q))"
  using deq_empty [of q] deq_front [of q] by (cases "items q") auto

lemma run_order:
  "items q @ map the (filter (\<lambda>p. p \<noteq> None) ops) = fst (run ops q) @ items (snd (run ops q))"
proof (induction ops q rule: run.induct)
  case (3 ops q)
  obtain r q' where dq: "deq q = (r, q')" by (cases "deq q")
  obtain out q'' where rn: "run ops q' = (out, q'')" by (cases "run ops q'")
  have "items q' @ map the (filter (\<lambda>p. p \<noteq> None) ops) = out @ items q''"
    using 3 [OF dq [symmetric]] rn by simp
  moreover have "items q = (case r of None \<Rightarrow> [] | Some x \<Rightarrow> [x]) @ items q'"
    using deq_items [of q] dq by simp
  ultimately show ?case using dq rn by (cases r) simp_all
qed (simp_all add: items_enq)

end

interpretation conq: fifo "\<lambda>q. q" enqueueConsoleByte dequeueConsoleByte
  by unfold_locales (auto simp: enqueueConsoleByte_def dequeueConsoleByte_def)

section \<open>Network thread and CPU together\<close>

text \<open>
  The two threads share only the queue, under its mutex, so their steps interleave atomically.
  \<open>received\<close> records what every connection sent, the current one last, and \<open>delivered\<close> what
  \<open>ConIn\<close> returned.
\<close>

record con_sys =
  net :: console_t
  conbuf :: bytes
  received :: "bytes list"
  delivered :: bytes
  cpu_running :: bool

definition con_start :: con_sys where
  "con_start = \<lparr>net = console_init, conbuf = [], received = [[]], delivered = [], cpu_running = True\<rparr>"

inductive con_step :: "con_sys \<Rightarrow> con_sys \<Rightarrow> bool" where
  net_byte: "console_byte c (net s, conbuf s) = (st, q) \<Longrightarrow>
     con_step s (s\<lparr>net := st, conbuf := q,
       received := butlast (received s) @ [last (received s) @ [c]]\<rparr>)"
| net_reconnect: "con_step s (s\<lparr>net := console_init, received := received s @ [[]]\<rparr>)"
| cpu_in: "cpu_running s \<Longrightarrow> ConChk (conbuf s) \<noteq> 0 \<Longrightarrow> ConIn (conbuf s) = (ConChar c, q) \<Longrightarrow>
     con_step s (s\<lparr>conbuf := q, delivered := delivered s @ [c]\<rparr>)"
| cpu_exit: "cpu_running s \<Longrightarrow> ConIn (conbuf s) = (ThreadExit, q) \<Longrightarrow>
     con_step s (s\<lparr>conbuf := q, cpu_running := False\<rparr>)"

definition session_out :: "bytes \<Rightarrow> bytes" where
  "session_out bs = snd (feed bs (console_init, []))"

lemma console_byte_queue:
  "console_byte c (st, q) = (fst (console_byte c (st, [])), q @ snd (console_byte c (st, [])))"
  by (auto simp: console_byte_def enqueueConsoleByte_def split: prod.splits bool.splits option.splits)

lemma session_out_items:
  "\<forall>x \<in> set xs. item_ok x \<Longrightarrow> session_out (encode xs) = normalise (literals xs)"
  using feed_encode [of xs console_init "[]"] crlf_run_normalise [of "literals xs"]
  by (simp add: session_out_def console_init_def)

definition con_inv :: "con_sys \<Rightarrow> bool" where
  "con_inv s \<longleftrightarrow>
     received s \<noteq> [] \<and> net s = fst (feed (last (received s)) (console_init, [])) \<and>
     delivered s @ (if cpu_running s then [] else [0x11]) @ conbuf s
       = concat (map session_out (received s)) \<and>
     0x11 \<notin> set (delivered s)"

lemma ConIn_Char:
  "ConIn q = (ConChar c, q') \<Longrightarrow> ConChk q \<noteq> 0 \<Longrightarrow> q = c # q' \<and> c \<noteq> 0x11"
  by (cases q) (auto simp: ConIn_def ConChk_def consoleByteAvailable_def dequeueConsoleByte_def
      split: if_splits)

lemma ConIn_Exit: "ConIn q = (ThreadExit, q') \<Longrightarrow> q = 0x11 # q'"
  by (cases q) (auto simp: ConIn_def dequeueConsoleByte_def split: if_splits)

lemma con_inv_start: "con_inv con_start"
  by (simp add: con_inv_def con_start_def session_out_def)

lemma con_inv_step:
  assumes "con_inv s" and "con_step s s'"
  shows "con_inv s'"
  using assms(2)
proof (cases rule: con_step.cases)
  case (net_byte c st q)
  obtain pre cur where rc: "received s = pre @ [cur]"
    using assms(1) by (metis con_inv_def append_butlast_last_id)
  obtain st0 out where f: "feed cur (console_init, []) = (st0, out)" by (cases "feed cur (console_init, [])")
  have st0: "net s = st0" using assms(1) rc f by (simp add: con_inv_def)
  have stq: "st = fst (console_byte c (st0, []))" "q = conbuf s @ snd (console_byte c (st0, []))"
    using console_byte_queue [of c st0 "conbuf s"] net_byte(2) st0 by simp_all
  have "feed (cur @ [c]) (console_init, []) = (st, out @ snd (console_byte c (st0, [])))"
    using console_byte_queue [of c st0 out] stq(1) f by simp
  then show ?thesis
    using assms(1) net_byte(1) rc f stq by (auto simp: con_inv_def session_out_def)
next
  case net_reconnect
  with assms(1) show ?thesis by (simp add: con_inv_def session_out_def)
next
  case (cpu_in c q)
  with assms(1) ConIn_Char [OF cpu_in(4,3)] show ?thesis by (simp add: con_inv_def)
next
  case (cpu_exit q)
  with assms(1) ConIn_Exit [OF cpu_exit(3)] show ?thesis by (simp add: con_inv_def)
qed

lemma con_inv_reachable: "con_step\<^sup>*\<^sup>* con_start s \<Longrightarrow> con_inv s"
  by (induction rule: rtranclp_induct) (auto intro: con_inv_start con_inv_step)

section \<open>Progress\<close>

text \<open>
  An infinite run of the two threads, and the fairness it needs: while a byte is queued and the CPU
  thread lives, the CPU thread takes a step some time, as it does when it polls the console.
\<close>

definition con_run :: "(nat \<Rightarrow> con_sys) \<Rightarrow> bool" where
  "con_run r \<longleftrightarrow> r 0 = con_start \<and> (\<forall>n. con_step (r n) (r (Suc n)))"

definition cpu_moved :: "con_sys \<Rightarrow> con_sys \<Rightarrow> bool" where
  "cpu_moved s s' \<longleftrightarrow> delivered s' \<noteq> delivered s \<or> cpu_running s' \<noteq> cpu_running s"

definition cpu_fair :: "(nat \<Rightarrow> con_sys) \<Rightarrow> bool" where
  "cpu_fair r \<longleftrightarrow>
     (\<forall>n. cpu_running (r n) \<and> conbuf (r n) \<noteq> [] \<longrightarrow> (\<exists>k \<ge> n. cpu_moved (r k) (r (Suc k))))"

definition typed :: "con_sys \<Rightarrow> bytes" where
  "typed s = concat (map session_out (received s))"

lemma con_run_inv: "con_run r \<Longrightarrow> con_inv (r n)"
  by (induction n) (auto simp: con_run_def intro: con_inv_start con_inv_step)

lemma con_step_grows:
  assumes "con_inv s" "con_step s s'"
  shows "prefix (typed s) (typed s')" "prefix (delivered s) (delivered s')" "cpu_running s' \<longrightarrow> cpu_running s"
proof -
  show "prefix (typed s) (typed s')"
    using assms(2)
  proof (cases rule: con_step.cases)
    case (net_byte c st q)
    obtain pre cur where rc: "received s = pre @ [cur]"
      using assms(1) by (metis con_inv_def append_butlast_last_id)
    obtain st0 out where f: "feed cur (console_init, []) = (st0, out)" by (cases "feed cur (console_init, [])")
    then show ?thesis using net_byte(1) rc console_byte_queue [of c st0 out]
      by (simp add: typed_def session_out_def)
  qed (simp_all add: typed_def)
  show "prefix (delivered s) (delivered s')" "cpu_running s' \<longrightarrow> cpu_running s"
    using assms(2) by (cases rule: con_step.cases; simp)+
qed

lemma con_run_grows:
  assumes "con_run r" "n \<le> k"
  shows "prefix (typed (r n)) (typed (r k))" "prefix (delivered (r n)) (delivered (r k))"
    "cpu_running (r k) \<longrightarrow> cpu_running (r n)"
proof -
  have "prefix (typed (r n)) (typed (r k)) \<and> prefix (delivered (r n)) (delivered (r k)) \<and>
      (cpu_running (r k) \<longrightarrow> cpu_running (r n))"
    using assms(2)
  proof (induction rule: dec_induct)
    case (step k)
    have "con_step (r k) (r (Suc k))" using assms(1) by (simp add: con_run_def)
    from con_step_grows [OF con_run_inv [OF assms(1)] this] step.IH show ?case by (meson prefix_order.order_trans)
  qed simp
  then show "prefix (typed (r n)) (typed (r k))" "prefix (delivered (r n)) (delivered (r k))"
    "cpu_running (r k) \<longrightarrow> cpu_running (r n)" by auto
qed

lemma con_run_delivers:
  assumes r: "con_run r" "cpu_fair r" and N: "N \<le> length (typed (r m))"
  shows "\<exists>k \<ge> m. \<not> cpu_running (r k) \<or> N \<le> length (delivered (r k))"
  using N
proof (induction "N - length (delivered (r m))" arbitrary: m rule: less_induct)
  case less
  show ?case
  proof (cases "cpu_running (r m) \<and> length (delivered (r m)) < N")
    case True
    have "delivered (r m) @ conbuf (r m) = typed (r m)"
      using con_run_inv [OF r(1), of m] True by (simp add: con_inv_def typed_def)
    then have "conbuf (r m) \<noteq> []" using True less.prems by auto
    then obtain k where k: "m \<le> k" "cpu_moved (r k) (r (Suc k))"
      using r(2) True unfolding cpu_fair_def by blast
    show ?thesis
    proof (cases "cpu_running (r (Suc k))")
      case run: True
      have g: "prefix (delivered (r m)) (delivered (r k))" "prefix (delivered (r k)) (delivered (r (Suc k)))"
        "cpu_running (r k)" "prefix (typed (r m)) (typed (r (Suc k)))"
        using con_run_grows [OF r(1), of m k] con_run_grows [OF r(1), of k "Suc k"] con_run_grows [OF r(1), of m "Suc k"] k(1) run
        by auto
      have "delivered (r (Suc k)) \<noteq> delivered (r k)" using k(2) run g(3) by (simp add: cpu_moved_def)
      then have "length (delivered (r k)) < length (delivered (r (Suc k)))"
        using g(2) by (auto simp: prefix_def)
      then have "length (delivered (r m)) < length (delivered (r (Suc k)))" using prefix_length_le [OF g(1)] by simp
      moreover have "N \<le> length (typed (r (Suc k)))" using less.prems prefix_length_le [OF g(4)] by simp
      ultimately obtain j where "Suc k \<le> j" "\<not> cpu_running (r j) \<or> N \<le> length (delivered (r j))"
        using less.hyps [of "Suc k"] True diff_less_mono2 by blast
      then show ?thesis using k(1) by (intro exI [of _ j]) auto
    qed (use k(1) in \<open>auto intro!: exI [of _ "Suc k"]\<close>)
  qed (auto intro!: exI [of _ m])
qed

lemma con_run_live:
  assumes r: "con_run r" "cpu_fair r"
  shows "\<exists>k \<ge> n. \<not> cpu_running (r k) \<or> prefix (typed (r n)) (delivered (r k))"
proof -
  obtain k where k: "n \<le> k" "\<not> cpu_running (r k) \<or> length (typed (r n)) \<le> length (delivered (r k))"
    using con_run_delivers [OF r order_refl, of n] by blast
  have "prefix (typed (r n)) (delivered (r k))" if "cpu_running (r k)"
  proof -
    have "prefix (delivered (r k)) (typed (r k))"
      using con_run_inv [OF r(1), of k] that by (metis append_Nil con_inv_def prefixI typed_def)
    then show ?thesis
      using con_run_grows(1) [OF r(1) k(1)] k(2) that by (meson prefix_length_prefix)
  qed
  then show ?thesis using k(1) by blast
qed

section \<open>Output\<close>

lemma write_loop_None: "write_loop rs = None \<longleftrightarrow> (\<forall>n \<in> set rs. n \<noteq> 1)"
  by (induction rs) auto

lemma write_loop_Some: "write_loop rs = Some n \<Longrightarrow> n = 1 \<and> 1 \<in> set rs"
  by (induction rs) (auto split: if_splits)

end
