(* ===== verification/Machine.thy ===== *)
theory Machine
  imports Memory Drives Console
begin

text \<open>
  Class \<open>IntelCPU\<close> (\<^verbatim>\<open>zilogz80.h\<close>, \<^verbatim>\<open>zilogz80.cpp\<close>): the emulated computer around the processor
  core. The port interface (\<open>Out\<close>, \<open>In\<close>), drive selection, sector transfers between memory and
  drives, breakpoints, the boot loader and the dispatch of bus cycles.

  The processor core (classes \<open>Z80\<close> and \<open>Z80Bus\<close>) is a separate project. What \<open>IntelCPU\<close> calls of
  it is an argument: \<open>z80_ops\<close> on the state of the core and \<open>bus_ops\<close> on the bus. Results of system
  calls and process globals are in \<open>env\<close>.
\<close>

section \<open>State\<close>

record 'z z80_ops =
  clearClock :: "'z \<Rightarrow> 'z"
  Clock :: "'z \<Rightarrow> u64"
  setDE :: "u16 \<Rightarrow> 'z \<Rightarrow> 'z"
  setHL :: "u16 \<Rightarrow> 'z \<Rightarrow> 'z"
  busrequest :: "bool \<Rightarrow> 'z \<Rightarrow> 'z"
  setPower :: "bool \<Rightarrow> 'z \<Rightarrow> 'z"

text \<open>
  \<open>stale\<close> is what the member \<^verbatim>\<open>path_\<close> of a drive reads as once \<open>selectdisk\<close> has returned: the
  pointer was taken from its local string. \<open>sockno\<close> and \<open>wresults\<close> are the console socket and the
  results of writing to it; \<open>newfd\<close>, \<open>lockres\<close> and \<open>unlockres\<close> those of \<open>open\<close> and \<open>flock\<close>.
\<close>

record env =
  diskspath :: string
  stale :: string
  sockno :: int
  wresults :: "int list"
  newfd :: int
  lockres :: nat
  unlockres :: nat

record 'z machine =
  z80 :: 'z
  m_trace :: bool
  m_reset :: bool
  m_FDCD :: int
  m_FDCT :: u16
  m_FDCS :: u16
  m_FDCOP :: u16
  m_FDCST :: u16
  m_DMA :: u16
  m_DPH :: u16
  m_BREAK :: u16
  breakpoints :: "u16 \<rightharpoonup> u16"
  m_ram :: ram
  currentdrive :: nat
  diskptr :: "drive option list"
  hostfs :: host
  conqueue :: bytes
  conout :: bytes
  printed :: bytes

definition MAXDRIVE :: nat where "MAXDRIVE = 16"

text \<open>\<open>IntelCPU::IntelCPU\<close>; the memory is not initialised, so its content is an argument.\<close>

definition cpu_new :: "'z \<Rightarrow> ram \<Rightarrow> host \<Rightarrow> 'z machine" where
  "cpu_new z m h =
     \<lparr>z80 = z, m_trace = False, m_reset = False, m_FDCD = -1, m_FDCT = 0, m_FDCS = 0, m_FDCOP = 0,
      m_FDCST = 0, m_DMA = 0, m_DPH = 0, m_BREAK = 0, breakpoints = Map.empty, m_ram = m,
      currentdrive = MAXDRIVE, diskptr = replicate MAXDRIVE None, hostfs = h, conqueue = [],
      conout = [], printed = []\<rparr>"

definition cpu_wf :: "'z machine \<Rightarrow> bool" where
  "cpu_wf m \<longleftrightarrow> length (diskptr m) = MAXDRIVE \<and> currentdrive m \<le> MAXDRIVE \<and>
     (currentdrive m < MAXDRIVE \<longrightarrow> diskptr m ! currentdrive m \<noteq> None)"

text \<open>The memory from an address to its end, what a pointer into \<open>m_ram\<close> may reach.\<close>

definition ram_from :: "ram \<Rightarrow> u16 \<Rightarrow> bytes" where
  "ram_from m a = ram_slice m (unat a) (0x10000 - unat a)"

section \<open>Drive selection\<close>

definition drive_letter :: "nat \<Rightarrow> char" where
  "drive_letter i = char_of (65 + i)"

fun set_path :: "string \<Rightarrow> drive \<Rightarrow> drive" where
  "set_path p (HostDir d) = HostDir (d\<lparr>drvpath := p\<rparr>)"
| "set_path p (ImageFile d) = ImageFile (d\<lparr>drvpath := p\<rparr>)"

text \<open>The call \<open>diskptr[currentdrive]->unSelect()\<close> on the drive selected so far, if there is one.\<close>

definition leave_drive :: "env \<Rightarrow> 'z machine \<Rightarrow> (unit, 'z machine) outcome" where
  "leave_drive en m =
     (if currentdrive m < MAXDRIVE
      then (case diskptr m ! currentdrive m of
              None \<Rightarrow> Ok () m
            | Some v \<Rightarrow>
                (case drive_unSelect (unlockres en) v of
                   Ok _ v' \<Rightarrow> Ok () (m\<lparr>diskptr := (diskptr m)[currentdrive m := Some v']\<rparr>)
                 | Fail e v' \<Rightarrow> Fail e (m\<lparr>diskptr := (diskptr m)[currentdrive m := Some v']\<rparr>)))
      else Ok () m)"

definition selectdisk ::
  "env \<Rightarrow> nat \<Rightarrow> dpb_t \<Rightarrow> bytes \<Rightarrow> 'z machine \<Rightarrow> (nat, 'z machine) outcome" where
  "selectdisk en i pb tltbl m =
     (let drive = diskspath en @ ''/'' @ [drive_letter i]
      in if i < MAXDRIVE \<and> (i < 4 \<or> i = 7 \<or> i = 8)
      then if i \<noteq> currentdrive m
        then bindo (leave_drive en m) (\<lambda>_ m1.
          let m2 = m1\<lparr>currentdrive := MAXDRIVE\<rparr>
          in case host_stat (hostfs m2) drive of
               Inl _ \<Rightarrow> Ok 1 m2
             | Inr nd \<Rightarrow>
                 (case diskptr m2 ! i of
                    None \<Rightarrow>
                      (case nd of
                         Directory \<Rightarrow>
                           (case disk_new (hostfs m2) drive CPM22 pb (Some tltbl) of
                              Inl e \<Rightarrow> Fail e m2
                            | Inr d \<Rightarrow>
                                Ok 0 (m2\<lparr>diskptr := (diskptr m2)[i := Some (set_path (stale en) (HostDir d))],
                                         currentdrive := i\<rparr>))
                       | Reg _ \<Rightarrow>
                           (case dskimage_new (hostfs m2) drive CPM22 pb (Some tltbl) of
                              Inl e \<Rightarrow> Fail e m2
                            | Inr d \<Rightarrow>
                                Ok 0 (m2\<lparr>diskptr := (diskptr m2)[i := Some (set_path (stale en) (ImageFile d))],
                                         currentdrive := i\<rparr>))
                       | Special \<Rightarrow> Ok 1 m2)
                  | Some v \<Rightarrow>
                      (case drive_Select (newfd en) (lockres en) (hostfs m2) v of
                         Ok _ v' \<Rightarrow> Ok 0 (m2\<lparr>diskptr := (diskptr m2)[i := Some v'], currentdrive := i\<rparr>)
                       | Fail e v' \<Rightarrow> Fail e (m2\<lparr>diskptr := (diskptr m2)[i := Some v']\<rparr>))))
        else Ok 0 m
      else Ok 1 m)"

section \<open>Sector transfers\<close>

text \<open>\<open>m_ram + m_DMA\<close> is the transfer buffer; what the drive stored in it goes back to memory.\<close>

definition rcpmdisk :: "nat \<Rightarrow> nat \<Rightarrow> 'z machine \<Rightarrow> (nat, 'z machine) outcome" where
  "rcpmdisk track sector m =
     (if currentdrive m < MAXDRIVE
      then (case diskptr m ! currentdrive m of
              None \<Rightarrow> Ok 1 m
            | Some v \<Rightarrow>
                let put = (\<lambda>b v'. m\<lparr>m_ram := ram_store (unat (m_DMA m)) b (m_ram m),
                                   diskptr := (diskptr m)[currentdrive m := Some v']\<rparr>)
                in case drive_Read track sector (ram_from (m_ram m) (m_DMA m)) (v, hostfs m) of
                     Ok r (b, v') \<Rightarrow> Ok r (put b v')
                   | Fail e (b, v') \<Rightarrow> Fail e (put b v'))
      else Ok 1 m)"

definition wcpmdisk :: "nat \<Rightarrow> nat \<Rightarrow> 'z machine \<Rightarrow> (nat, 'z machine) outcome" where
  "wcpmdisk track sector m =
     (if currentdrive m < MAXDRIVE
      then (case diskptr m ! currentdrive m of
              None \<Rightarrow> Ok 1 m
            | Some v \<Rightarrow>
                let put = (\<lambda>v' h'. m\<lparr>diskptr := (diskptr m)[currentdrive m := Some v'], hostfs := h'\<rparr>)
                in case drive_Write track sector (ram_from (m_ram m) (m_DMA m)) (v, hostfs m) of
                     Ok r (v', h') \<Rightarrow> Ok r (put v' h')
                   | Fail e (v', h') \<Rightarrow> Fail e (put v' h'))
      else Ok 1 m)"

section \<open>Ports\<close>

datatype port_t =
    CPMPORT_CONSTA | CPMPORT_CONDAT | CPMPORT_PRTSTA | CPMPORT_PRTDAT | CPMPORT_AUXDAT
  | CPMPORT_FDCD | CPMPORT_FDCT | CPMPORT_FDCS | CPMPORT_FDCOP | CPMPORT_FDCST
  | CPMPORT_DMAL | CPMPORT_DMAH | CPMPORT_DPBL | CPMPORT_DPBH | CPMPORT_EXBIOS
  | CPMPORT_TRACE | CPMPORT_BREAKL | CPMPORT_BREAKH | CPMPORT_CBREAK

definition port_table :: "(nat \<times> port_t) list" where
  "port_table =
     [(0, CPMPORT_CONSTA), (1, CPMPORT_CONDAT), (2, CPMPORT_PRTSTA), (3, CPMPORT_PRTDAT),
      (5, CPMPORT_AUXDAT), (10, CPMPORT_FDCD), (11, CPMPORT_FDCT), (12, CPMPORT_FDCS),
      (13, CPMPORT_FDCOP), (14, CPMPORT_FDCST), (15, CPMPORT_DMAL), (16, CPMPORT_DMAH),
      (17, CPMPORT_DPBL), (18, CPMPORT_DPBH), (20, CPMPORT_EXBIOS), (0x80, CPMPORT_TRACE),
      (0x81, CPMPORT_BREAKL), (0x82, CPMPORT_BREAKH), (0x83, CPMPORT_CBREAK)]"

text \<open>\<open>(port_t)(Port & 0xFF)\<close>; \<open>None\<close> for the default branch of the switches.\<close>

definition port_of :: "u16 \<Rightarrow> port_t option" where
  "port_of p = map_of port_table (unat (p AND 0xFF))"

definition set_low :: "u8 \<Rightarrow> u16 \<Rightarrow> u16" where
  "set_low v w = (w AND 0xFF00) OR ucast v"

definition set_high :: "u8 \<Rightarrow> u16 \<Rightarrow> u16" where
  "set_high v w = (w AND 0xFF) OR push_bit 8 (ucast v)"

text \<open>The parameter block and the translation table for a selection.\<close>

definition disk_params :: "'z machine \<Rightarrow> undefined + dpb_t \<times> bytes" where
  "disk_params m =
     (if m_DPH m \<noteq> 0
      then (case dph_of_bytes (ram_from (m_ram m) (m_DPH m)) of
              None \<Rightarrow> Inl OutOfBounds
            | Some dph \<Rightarrow>
                (case dpb_of_bytes (ram_from (m_ram m) (DPBLK dph)) of
                   None \<Rightarrow> Inl OutOfBounds
                 | Some pb \<Rightarrow> Inr (pb, ram_from (m_ram m) (TRANS dph))))
      else Inr (DPB_IBM8, TRANS_IBM8))"

definition set_status :: "(nat, 'z machine) outcome \<Rightarrow> (unit, 'z machine) outcome" where
  "set_status r = bindo r (\<lambda>st m. Ok () (m\<lparr>m_FDCST := of_nat st\<rparr>))"

definition Out ::
  "env \<Rightarrow> 'z z80_ops \<Rightarrow> u16 \<Rightarrow> u8 \<Rightarrow> 'z machine \<Rightarrow> (unit, 'z machine) outcome" where
  "Out en ops port v m =
     (case port_of port of
        Some CPMPORT_CONDAT \<Rightarrow>
          (case ConOut (sockno en) (wresults en) of
             None \<Rightarrow> Fail Spinning m
           | Some n \<Rightarrow> Ok () (if n = 1 then m\<lparr>conout := conout m @ [v]\<rparr> else m))
      | Some CPMPORT_PRTDAT \<Rightarrow> Ok () (m\<lparr>printed := printed m @ [v]\<rparr>)
      | Some CPMPORT_FDCD \<Rightarrow>
          let m1 = m\<lparr>m_FDCD := int (unat v)\<rparr>
          in (case disk_params m1 of
                Inl u \<Rightarrow> Fail (Undefined u) m1
              | Inr (pb, tbl) \<Rightarrow> set_status (selectdisk en (unat v) pb tbl m1))
      | Some CPMPORT_FDCT \<Rightarrow> Ok () (m\<lparr>m_FDCT := ucast v\<rparr>)
      | Some CPMPORT_FDCS \<Rightarrow> Ok () (m\<lparr>m_FDCS := ucast v\<rparr>)
      | Some CPMPORT_FDCOP \<Rightarrow>
          let m1 = m\<lparr>m_FDCOP := ucast v\<rparr>
          in if v = 0 then set_status (rcpmdisk (unat (m_FDCT m1)) (unat (m_FDCS m1)) m1)
             else if v = 1 then set_status (wcpmdisk (unat (m_FDCT m1)) (unat (m_FDCS m1)) m1)
             else Ok () (m1\<lparr>m_FDCST := 1\<rparr>)
      | Some CPMPORT_DMAL \<Rightarrow> Ok () (m\<lparr>m_DMA := set_low v (m_DMA m), m_FDCST := 0\<rparr>)
      | Some CPMPORT_DMAH \<Rightarrow> Ok () (m\<lparr>m_DMA := set_high v (m_DMA m), m_FDCST := 0\<rparr>)
      | Some CPMPORT_DPBL \<Rightarrow> Ok () (m\<lparr>m_DPH := set_low v (m_DPH m), m_FDCST := 0\<rparr>)
      | Some CPMPORT_DPBH \<Rightarrow> Ok () (m\<lparr>m_DPH := set_high v (m_DPH m), m_FDCST := 0\<rparr>)
      | Some CPMPORT_EXBIOS \<Rightarrow> Ok () (m\<lparr>z80 := clearClock ops (z80 m)\<rparr>)
      | Some CPMPORT_TRACE \<Rightarrow> Ok () (m\<lparr>m_trace := (v \<noteq> 0)\<rparr>)
      | Some CPMPORT_BREAKL \<Rightarrow> Ok () (m\<lparr>m_BREAK := set_low v (m_BREAK m)\<rparr>)
      | Some CPMPORT_BREAKH \<Rightarrow> Ok () (m\<lparr>m_BREAK := set_high v (m_BREAK m)\<rparr>)
      | Some CPMPORT_CBREAK \<Rightarrow> Ok () (m\<lparr>breakpoints := (breakpoints m)(m_BREAK m \<mapsto> ucast v)\<rparr>)
      | _ \<Rightarrow> Ok () m)"

text \<open>Values wider than a byte are cut off by the assignment to \<open>unsigned char res\<close>.\<close>

definition In :: "'z z80_ops \<Rightarrow> u16 \<Rightarrow> 'z machine \<Rightarrow> (u8, 'z machine) outcome" where
  "In ops port m =
     (case port_of port of
        Some CPMPORT_CONSTA \<Rightarrow> Ok (of_nat (ConChk (conqueue m))) m
      | Some CPMPORT_CONDAT \<Rightarrow>
          (case ConIn (conqueue m) of
             (ConChar c, q) \<Rightarrow> Ok c (m\<lparr>conqueue := q\<rparr>)
           | (ThreadExit, q) \<Rightarrow> Fail Exited (m\<lparr>conqueue := q\<rparr>))
      | Some CPMPORT_PRTSTA \<Rightarrow> Ok 0xFF m
      | Some CPMPORT_PRTDAT \<Rightarrow> Ok 0 m
      | Some CPMPORT_AUXDAT \<Rightarrow> Ok 0 m
      | Some CPMPORT_FDCD \<Rightarrow> Ok (of_int (m_FDCD m)) m
      | Some CPMPORT_FDCT \<Rightarrow> Ok (ucast (m_FDCT m)) m
      | Some CPMPORT_FDCS \<Rightarrow> Ok (ucast (m_FDCS m)) m
      | Some CPMPORT_FDCOP \<Rightarrow> Ok (ucast (m_FDCOP m)) m
      | Some CPMPORT_FDCST \<Rightarrow> Ok (ucast (m_FDCST m)) m
      | Some CPMPORT_DMAL \<Rightarrow> Ok (lo8 (m_DMA m)) m
      | Some CPMPORT_DMAH \<Rightarrow> Ok (hi8 (m_DMA m)) m
      | Some CPMPORT_DPBL \<Rightarrow> Ok (lo8 (m_DPH m)) m
      | Some CPMPORT_DPBH \<Rightarrow> Ok (hi8 (m_DPH m)) m
      | Some CPMPORT_EXBIOS \<Rightarrow>
          let clk = Clock ops (z80 m)
          in Ok (ucast (drop_bit 32 clk))
               (m\<lparr>z80 := setHL ops (ucast (drop_bit 16 clk)) (setDE ops (ucast clk) (z80 m))\<rparr>)
      | Some CPMPORT_TRACE \<Rightarrow> Ok (if m_trace m then 1 else 0) m
      | Some CPMPORT_BREAKL \<Rightarrow> Ok (lo8 (m_BREAK m)) m
      | Some CPMPORT_BREAKH \<Rightarrow> Ok (hi8 (m_BREAK m)) m
      | Some CPMPORT_CBREAK \<Rightarrow>
          Ok (case breakpoints m (m_BREAK m) of None \<Rightarrow> 0 | Some n \<Rightarrow> ucast n) m
      | None \<Rightarrow> Ok 0xFF m)"

section \<open>Bus cycles\<close>

datatype zpin = RD | WR | M1 | MEMREQ | IOREQ | REFRESH

record 'b bus_ops =
  check :: "zpin set \<Rightarrow> 'b \<Rightarrow> bool"
  busack :: "'b \<Rightarrow> bool"
  bus_addr :: "'b \<Rightarrow> u16"
  bus_data :: "'b \<Rightarrow> u8"
  bus_put :: "u8 \<Rightarrow> 'b \<Rightarrow> 'b"
  bus_reset :: "'b \<Rightarrow> 'b"

definition hit_breakpoint :: "u16 \<Rightarrow> 'z machine \<Rightarrow> 'z machine" where
  "hit_breakpoint a m =
     (case breakpoints m a of
        Some n \<Rightarrow> if n \<noteq> 0 \<and> n \<noteq> 0xFFFF then m\<lparr>breakpoints := (breakpoints m)(a \<mapsto> n - 1)\<rparr> else m
      | None \<Rightarrow> m)"

definition bus_cycle ::
  "env \<Rightarrow> 'z z80_ops \<Rightarrow> 'b bus_ops \<Rightarrow> 'b \<Rightarrow> 'z machine \<Rightarrow> ('b, 'z machine) outcome" where
  "bus_cycle en ops bo b m =
     (if m_reset m then Ok (bus_reset bo b) (m\<lparr>m_reset := False\<rparr>)
      else if busack bo b then Ok b m
      else if check bo {RD, M1, MEMREQ} b
        then Ok (bus_put bo (m_ram m (bus_addr bo b)) b) (hit_breakpoint (bus_addr bo b) m)
      else if check bo {RD, MEMREQ} b then Ok (bus_put bo (m_ram m (bus_addr bo b)) b) m
      else if check bo {WR, MEMREQ} b
        then Ok b (m\<lparr>m_ram := (m_ram m)(bus_addr bo b := bus_data bo b)\<rparr>)
      else if check bo {RD, IOREQ, M1} b
        then Ok b (m\<lparr>m_ram := (m_ram m)(bus_addr bo b := bus_data bo b)\<rparr>)
      else if check bo {IOREQ, RD} b
        then bindo (In ops (bus_addr bo b) m) (\<lambda>v m'. Ok (bus_put bo v b) m')
      else if check bo {IOREQ, WR} b
        then bindo (Out en ops (bus_addr bo b) (bus_data bo b) m) (\<lambda>_ m'. Ok b m')
      else Ok b m)"

section \<open>Memory access, boot and power\<close>

definition setBrk :: "u16 \<Rightarrow> u16 \<Rightarrow> 'z machine \<Rightarrow> 'z machine" where
  "setBrk addr cnt m = m\<lparr>breakpoints := (breakpoints m)(addr \<mapsto> cnt)\<rparr>"

definition set_trace :: "bool \<Rightarrow> 'z machine \<Rightarrow> 'z machine" where
  "set_trace onoff m = m\<lparr>m_trace := onoff\<rparr>"

definition cpu_reset :: "'z machine \<Rightarrow> 'z machine" where
  "cpu_reset m = m\<lparr>m_reset := True\<rparr>"

definition rmem :: "u16 \<Rightarrow> 'z machine \<Rightarrow> u8" where
  "rmem addr m = m_ram m addr"

text \<open>The transfers hold the bus while they run.\<close>

definition cpu_writemem ::
  "'z z80_ops \<Rightarrow> bytes \<Rightarrow> u16 \<Rightarrow> u16 \<Rightarrow> 'z machine \<Rightarrow> (unit, 'z machine) outcome" where
  "cpu_writemem ops buf addr sz m =
     (let m1 = m\<lparr>z80 := busrequest ops True (z80 m)\<rparr>
      in case writemem buf addr sz (m_ram m1) of
           Ok _ r \<Rightarrow> Ok () (m1\<lparr>m_ram := r, z80 := busrequest ops False (z80 m1)\<rparr>)
         | Fail e r \<Rightarrow> Fail e (m1\<lparr>m_ram := r\<rparr>))"

definition cpu_readmem :: "'z z80_ops \<Rightarrow> u16 \<Rightarrow> u16 \<Rightarrow> 'z machine \<Rightarrow> bytes \<times> 'z machine" where
  "cpu_readmem ops addr sz m =
     (readmem (m_ram m) addr sz,
      m\<lparr>z80 := busrequest ops False (busrequest ops True (z80 m))\<rparr>)"

text \<open>
  \<open>initBIOS\<close>: \<open>bootsector\<close> is the path compiled in, \<open>boot\<close> the built-in loader, a file the build
  generates. Stream exceptions are on, so a missing or short file raises (in the second case out
  of \<open>writemem\<close>, after the bytes read were stored and with the bus still requested) and the
  handler loads the built-in one.
\<close>

definition initBIOS ::
  "'z z80_ops \<Rightarrow> string \<Rightarrow> bytes \<Rightarrow> 'z machine \<Rightarrow> (unit, 'z machine) outcome" where
  "initBIOS ops bootsector boot m =
     (case host_lookup (hostfs m) bootsector of
        Some (Reg f) \<Rightarrow>
          let m1 = m\<lparr>z80 := busrequest ops True (z80 m)\<rparr>
          in (case writemem_stream \<lparr>source = f, ifail = False\<rparr> 0 128 (m_ram m1) of
                (fs, sz, r) \<Rightarrow>
                  if ifail fs
                  then cpu_writemem ops boot 0 (of_nat (length boot)) (m1\<lparr>m_ram := r\<rparr>)
                  else Ok () (m1\<lparr>m_ram := r, z80 := busrequest ops False (z80 m1)\<rparr>))
      | _ \<Rightarrow> cpu_writemem ops boot 0 (of_nat (length boot)) m)"

definition powercycle ::
  "'z z80_ops \<Rightarrow> string \<Rightarrow> bytes \<Rightarrow> 'z machine \<Rightarrow> (unit, 'z machine) outcome" where
  "powercycle ops bootsector boot m =
     bindo (initBIOS ops bootsector boot (m\<lparr>z80 := setPower ops False (z80 m)\<rparr>))
       (\<lambda>_ m'. Ok () (m'\<lparr>z80 := setPower ops True (z80 m')\<rparr>))"

section \<open>Registers behind the ports\<close>

lemma bit_0xFF: "bit (0xFF :: int) n \<longleftrightarrow> n < 8"
proof -
  have "(0xFF :: int) = mask 8" by (simp add: mask_eq_exp_minus_1)
  then show ?thesis by (simp only: bit_mask_iff) simp
qed

lemma bit_0xFF00: "bit (0xFF00 :: int) n \<longleftrightarrow> 8 \<le> n \<and> n < 16"
proof -
  have "(0xFF00 :: int) = push_bit 8 (mask 8)" by (simp add: mask_eq_exp_minus_1 push_bit_eq_mult)
  then show ?thesis by (simp only: bit_push_bit_iff bit_mask_iff) auto
qed

lemmas byte_bits = set_high_def set_low_def le16_def lo8_def hi8_def bit_simps bit_0xFF bit_0xFF00

lemma unat_ucast_u8 [simp]: "unat (ucast (v :: u8) :: u16) = unat v"
proof -
  have "unat v < 2 ^ 16" by (rule less_trans [OF unat_u8_lt]) simp
  then show ?thesis by (simp add: unsigned_ucast_eq take_bit_nat_eq_self_iff)
qed

lemma port_of_table:
  "port_of (ucast (v :: u8)) = map_of port_table (unat v)"
proof -
  have "(ucast v :: u16) AND 0xFF = ucast v"
    by (rule bit_eqI) (auto simp: byte_bits dest: bit_imp_le_length)
  then show ?thesis by (simp add: port_of_def)
qed

lemma set_low_high: "set_high hi (set_low lo w) = le16 lo hi"
  by (rule bit_eqI) (auto simp: byte_bits dest: bit_imp_le_length)

lemma lo8_set: "lo8 (set_low v w) = v" "lo8 (set_high v w) = lo8 w"
  by (rule bit_eqI, auto simp: byte_bits dest: bit_imp_le_length)+

lemma hi8_set: "hi8 (set_low v w) = hi8 w" "hi8 (set_high v w) = v"
  by (rule bit_eqI, auto simp: byte_bits dest: bit_imp_le_length)+

section \<open>The state invariant\<close>

lemma cpu_wf_leave:
  assumes "cpu_wf m"
  shows "cpu_wf (state_of (leave_drive en m))"
  using assms
  by (auto simp: cpu_wf_def leave_drive_def split: option.splits outcome.splits)

lemma leave_drive_frame:
  "currentdrive (state_of (leave_drive en m)) = currentdrive m"
  "length (diskptr (state_of (leave_drive en m))) = length (diskptr m)"
  by (auto simp: leave_drive_def split: option.splits outcome.splits)

lemma cpu_wf_selectdisk:
  assumes "cpu_wf m"
  shows "cpu_wf (state_of (selectdisk en i pb tbl m))"
proof -
  have wf: "cpu_wf (state_of (leave_drive en m))" by (rule cpu_wf_leave [OF assms])
  show ?thesis
  proof (cases "leave_drive en m")
    case (Ok x m1)
    with wf assms show ?thesis
      by (auto simp: selectdisk_def cpu_wf_def Let_def
          split: sum.splits option.splits node.splits outcome.splits)
  next
    case (Fail e m1)
    with wf assms show ?thesis by (simp add: selectdisk_def Let_def)
  qed
qed

lemma cpu_wf_rcpmdisk: "cpu_wf m \<Longrightarrow> cpu_wf (state_of (rcpmdisk t s m))"
  by (auto simp: cpu_wf_def rcpmdisk_def Let_def split: option.splits outcome.splits)

lemma cpu_wf_wcpmdisk: "cpu_wf m \<Longrightarrow> cpu_wf (state_of (wcpmdisk t s m))"
  by (auto simp: cpu_wf_def wcpmdisk_def Let_def split: option.splits outcome.splits)

lemma cpu_wf_set_status: "cpu_wf (state_of r) \<Longrightarrow> cpu_wf (state_of (set_status r))"
  by (cases r) (auto simp: set_status_def cpu_wf_def)

lemma cpu_wf_regs [simp]:
  "cpu_wf (m\<lparr>m_FDCD := i\<rparr>) = cpu_wf m" "cpu_wf (m\<lparr>m_FDCT := w\<rparr>) = cpu_wf m"
  "cpu_wf (m\<lparr>m_FDCS := w\<rparr>) = cpu_wf m" "cpu_wf (m\<lparr>m_FDCOP := w\<rparr>) = cpu_wf m"
  "cpu_wf (m\<lparr>m_FDCST := w\<rparr>) = cpu_wf m" "cpu_wf (m\<lparr>m_DMA := w\<rparr>) = cpu_wf m"
  "cpu_wf (m\<lparr>m_DPH := w\<rparr>) = cpu_wf m" "cpu_wf (m\<lparr>m_BREAK := w\<rparr>) = cpu_wf m"
  "cpu_wf (m\<lparr>m_trace := b\<rparr>) = cpu_wf m" "cpu_wf (m\<lparr>m_reset := b\<rparr>) = cpu_wf m"
  "cpu_wf (m\<lparr>z80 := z\<rparr>) = cpu_wf m" "cpu_wf (m\<lparr>breakpoints := bp\<rparr>) = cpu_wf m"
  "cpu_wf (m\<lparr>m_ram := r\<rparr>) = cpu_wf m" "cpu_wf (m\<lparr>conqueue := q\<rparr>) = cpu_wf m"
  "cpu_wf (m\<lparr>conout := q\<rparr>) = cpu_wf m" "cpu_wf (m\<lparr>printed := q\<rparr>) = cpu_wf m"
  by (simp_all add: cpu_wf_def)

lemma cpu_wf_Out:
  assumes "cpu_wf m"
  shows "cpu_wf (state_of (Out en ops port v m))"
proof (cases "port_of port")
  case None
  with assms show ?thesis by (simp add: Out_def)
next
  case (Some p)
  with assms show ?thesis
    by (cases p)
      (auto simp: Out_def Let_def split: option.splits sum.splits
        intro!: cpu_wf_set_status cpu_wf_selectdisk cpu_wf_rcpmdisk cpu_wf_wcpmdisk)
qed

lemma cpu_wf_In: "cpu_wf m \<Longrightarrow> cpu_wf (state_of (In ops port m))"
  by (cases "port_of port")
    (auto simp: In_def Let_def split: port_t.splits prod.splits conin.splits)

lemma cpu_wf_bind:
  "cpu_wf (state_of r) \<Longrightarrow> (\<And>x s. r = Ok x s \<Longrightarrow> state_of (f x s) = s) \<Longrightarrow> cpu_wf (state_of (bindo r f))"
  by (cases r) auto

lemma cpu_wf_bus:
  assumes "cpu_wf m"
  shows "cpu_wf (state_of (bus_cycle en ops bo b m))"
  unfolding bus_cycle_def
  using assms cpu_wf_In [OF assms] cpu_wf_Out [OF assms]
  by (auto simp: hit_breakpoint_def split: option.splits intro!: cpu_wf_bind)

lemma cpu_wf_new: "cpu_wf (cpu_new z r h)"
  by (simp add: cpu_wf_def cpu_new_def)

section \<open>Sectors between memory and drive\<close>

lemma length_ram_from [simp]: "length (ram_from r a) = 0x10000 - unat a"
  by (simp add: ram_from_def ram_slice_def)

lemma take_ram_from:
  assumes "unat a \<le> 0xFF80"
  shows "take 128 (ram_from r a) = readmem r a 128"
proof -
  have "take 128 (ram_from r a) = ram_slice r (unat a) 128"
    using assms by (simp add: ram_from_def ram_slice_def take_map)
  also have "\<dots> = readmem r a 128" by (simp add: readmem_eq ram_slice_eq)
  finally show ?thesis .
qed

lemma nth_ram_from:
  assumes "unat a \<le> unat x"
  shows "ram_from r a ! (unat x - unat a) = r x"
proof -
  have "unat x < 65536" by (rule unat_u16_lt)
  then have "[unat a..<65536] ! (unat x - unat a) = unat x" using assms by (subst nth_upt) simp_all
  moreover have "unat x - unat a < 65536 - unat a" using assms \<open>unat x < 65536\<close> by (rule diff_less_mono [rotated])
  ultimately show ?thesis using assms by (simp add: ram_from_def ram_slice_def)
qed

lemma ram_store_back:
  assumes "unat a + length b \<le> 0x10000"
  shows "ram_store (unat a) (b @ drop (length b) (ram_from r a)) r = stored a b r"
proof -
  have "ram_store (unat a) (b @ drop (length b) (ram_from r a)) r = ram_store (unat a) b r"
  proof
    fix x
    show "ram_store (unat a) (b @ drop (length b) (ram_from r a)) r x = ram_store (unat a) b r x"
      using assms nth_ram_from [of a x r] by (auto simp: ram_store_def nth_append)
  qed
  then show ?thesis using ram_store_stored [OF assms] by simp
qed

lemma drive_content_length:
  assumes "drive_wf w" and "drive_content w a = Some b"
  shows "length b = 128"
proof -
  obtain v h where w: "w = (v, h)" by (cases w)
  show ?thesis
  proof (cases v)
    case (HostDir d)
    with assms w show ?thesis by (auto dest: map_of_SomeD)
  next
    case (ImageFile d)
    with assms w obtain f where "host_lookup h (image d) = Some (Reg f)" by (auto simp: host_present_iff)
    with assms w ImageFile show ?thesis
      by (auto simp: image_len_def host_size_def host_get_full read_at_full split: if_splits)
  qed
qed

text \<open>A drive is selected, and the sector is one it stores.\<close>

definition on_drive :: "'z machine \<Rightarrow> drive \<Rightarrow> bool" where
  "on_drive m v \<longleftrightarrow> currentdrive m < MAXDRIVE \<and> currentdrive m < length (diskptr m) \<and>
     diskptr m ! currentdrive m = Some v"

lemma wcpmdisk_sector:
  assumes "on_drive m v" and "drive_wf (v, hostfs m)" and "drive_addr (v, hostfs m) t s = Some a"
    and "unat (m_DMA m) \<le> 0xFF80"
  shows "\<exists>v' h'. wcpmdisk t s m =
       Ok 0 (m\<lparr>diskptr := (diskptr m)[currentdrive m := Some v'], hostfs := h'\<rparr>) \<and>
     drive_wf (v', h') \<and> drive_addr (v', h') = drive_addr (v, hostfs m) \<and>
     drive_content (v', h') = (drive_content (v, hostfs m))(a \<mapsto> readmem (m_ram m) (m_DMA m) 128)"
proof -
  have "128 \<le> length (ram_from (m_ram m) (m_DMA m))" using assms(4) by simp
  from fdc.write_sector [OF assms(2,3) this] obtain v' h' where
    "drive_Write t s (ram_from (m_ram m) (m_DMA m)) (v, hostfs m) = Ok 0 (v', h')"
    "drive_wf (v', h')" "drive_addr (v', h') = drive_addr (v, hostfs m)"
    "drive_content (v', h') = (drive_content (v, hostfs m))(a \<mapsto> readmem (m_ram m) (m_DMA m) 128)"
    using take_ram_from [OF assms(4)] by auto
  then show ?thesis using assms(1) by (auto simp: wcpmdisk_def on_drive_def Let_def)
qed

lemma rcpmdisk_sector:
  assumes "on_drive m v" and "drive_wf (v, hostfs m)" and "drive_addr (v, hostfs m) t s = Some a"
    and "drive_content (v, hostfs m) a = Some b" and "unat (m_DMA m) \<le> 0xFF80"
  shows "rcpmdisk t s m = Ok 0 (m\<lparr>m_ram := stored (m_DMA m) b (m_ram m)\<rparr>)"
proof -
  let ?buf = "ram_from (m_ram m) (m_DMA m)"
  have lb: "length b = 128" by (rule drive_content_length [OF assms(2,4)])
  have "128 \<le> length ?buf" using assms(5) by simp
  from fdc.read_sector [OF assms(2-4) this]
  have "drive_Read t s ?buf (v, hostfs m) = Ok 0 (b @ drop 128 ?buf, v)"
    by (auto simp: drive_rd_def split: outcome.splits prod.splits)
  moreover have "ram_store (unat (m_DMA m)) (b @ drop 128 ?buf) (m_ram m) = stored (m_DMA m) b (m_ram m)"
    using ram_store_back [of "m_DMA m" b] lb assms(5) by simp
  moreover have "(diskptr m)[currentdrive m := Some v] = diskptr m"
    using assms(1) by (metis list_update_id on_drive_def)
  ultimately show ?thesis using assms(1) by (simp add: rcpmdisk_def on_drive_def Let_def)
qed

lemma overrun_drive:
  assumes "drive_wf (v, h)" and "drive_addr (v, h) t s = Some a" and "drive_content (v, h) a = Some b"
    and "length buf < 128"
  shows "\<exists>x v'. drive_Read t s buf (v, h) = Fail (Undefined OutOfBounds) (x, v')"
proof -
  have lb: "length b = 128" by (rule drive_content_length [OF assms(1,3)])
  show ?thesis
  proof (cases v)
    case (HostDir d)
    then have "data_sector d t s a"
      using assms(2) by (auto simp: data_sector_def split: sum.splits if_splits)
    with HostDir lb assms(3,4) show ?thesis by (simp add: disk_Read_def data_sector_def copy_in_def)
  next
    case (ImageFile d)
    then obtain f where f: "host_lookup h (image d) = Some (Reg f)"
      using assms(1) by (auto simp: host_present_iff)
    then have "image_offset (dpb d) t s + 128 \<le> length f"
      using assms(2) ImageFile by (auto simp: image_len_def host_size_def split: if_splits)
    then have "length (read_at (image_offset (dpb d) t s) 128 f) = 128" by (rule read_at_full)
    with ImageFile f assms(1,4) show ?thesis by (simp add: dskimage_Read_def Let_def)
  qed
qed

text \<open>A sequence of \<open>OUT\<close> instructions, as the BIOS issues them.\<close>

fun outs :: "env \<Rightarrow> 'z z80_ops \<Rightarrow> (u16 \<times> u8) list \<Rightarrow> 'z machine \<Rightarrow> (unit, 'z machine) outcome" where
  "outs en ops [] m = Ok () m"
| "outs en ops ((p, v) # ps) m = bindo (Out en ops p v m) (\<lambda>_ m'. outs en ops ps m')"

lemma outs_append:
  "outs en ops (xs @ ys) m = bindo (outs en ops xs m) (\<lambda>_ m'. outs en ops ys m')"
proof (induction xs arbitrary: m)
  case (Cons x xs)
  obtain p v where "x = (p, v)" by (cases x)
  with Cons show ?case by (cases "Out en ops p v m") simp_all
qed simp

lemma port_numbers:
  "port_of 10 = Some CPMPORT_FDCD" "port_of 11 = Some CPMPORT_FDCT" "port_of 12 = Some CPMPORT_FDCS"
  "port_of 13 = Some CPMPORT_FDCOP" "port_of 14 = Some CPMPORT_FDCST" "port_of 15 = Some CPMPORT_DMAL"
  "port_of 16 = Some CPMPORT_DMAH" "port_of 17 = Some CPMPORT_DPBL" "port_of 18 = Some CPMPORT_DPBH"
  by (simp_all add: port_of_def port_table_def)

lemma sector_copy:
  assumes "on_drive m v" and "drive_wf (v, hostfs m)"
    and "drive_addr (v, hostfs m) (unat t) (unat s) = Some a"
    and "unat (m_DMA m) \<le> 0xFF80" and "unat (le16 lo hi) \<le> 0xFF80"
  shows "\<exists>m'. outs en ops [(11, t), (12, s), (13, 1), (15, lo), (16, hi), (13, 0)] m = Ok () m' \<and>
     m_ram m' = stored (le16 lo hi) (readmem (m_ram m) (m_DMA m) 128) (m_ram m) \<and>
     m_FDCST m' = 0 \<and> m_DMA m' = le16 lo hi"
proof -
  define m1 where "m1 = m\<lparr>m_FDCT := ucast t, m_FDCS := ucast s, m_FDCOP := 1\<rparr>"
  have pre: "on_drive m1 v" "drive_wf (v, hostfs m1)"
    "drive_addr (v, hostfs m1) (unat t) (unat s) = Some a" "unat (m_DMA m1) \<le> 0xFF80"
    using assms by (simp_all add: m1_def on_drive_def)
  obtain v' h' where w: "wcpmdisk (unat t) (unat s) m1 =
       Ok 0 (m1\<lparr>diskptr := (diskptr m1)[currentdrive m1 := Some v'], hostfs := h'\<rparr>)"
    "drive_wf (v', h')" "drive_addr (v', h') = drive_addr (v, hostfs m1)"
    "drive_content (v', h') = (drive_content (v, hostfs m1))(a \<mapsto> readmem (m_ram m1) (m_DMA m1) 128)"
    using wcpmdisk_sector [OF pre] by blast
  define m2 where "m2 = m1\<lparr>diskptr := (diskptr m1)[currentdrive m1 := Some v'], hostfs := h',
      m_DMA := le16 lo hi, m_FDCST := 0, m_FDCOP := 0\<rparr>"
  have "on_drive m2 v'" using assms(1) by (simp add: m2_def m1_def on_drive_def)
  then have r: "rcpmdisk (unat t) (unat s) m2 =
      Ok 0 (m2\<lparr>m_ram := stored (le16 lo hi) (readmem (m_ram m) (m_DMA m) 128) (m_ram m2)\<rparr>)"
    using rcpmdisk_sector [of m2 v' "unat t" "unat s" a "readmem (m_ram m) (m_DMA m) 128"] w assms(5) pre(3)
    by (simp add: m2_def m1_def)
  have w': "outs en ops [(11, t), (12, s), (13, 1)] m =
      Ok () (m1\<lparr>diskptr := (diskptr m1)[currentdrive m1 := Some v'], hostfs := h', m_FDCST := 0\<rparr>)"
    using w(1) by (simp add: Out_def port_numbers set_status_def Let_def m1_def)
  have r': "outs en ops [(15, lo), (16, hi), (13, 0)]
      (m1\<lparr>diskptr := (diskptr m1)[currentdrive m1 := Some v'], hostfs := h', m_FDCST := 0\<rparr>) =
      Ok () (m2\<lparr>m_ram := stored (le16 lo hi) (readmem (m_ram m) (m_DMA m) 128) (m_ram m2), m_FDCST := 0\<rparr>)"
    using r by (simp add: Out_def port_numbers set_status_def Let_def m1_def m2_def set_low_high)
  have "outs en ops [(11, t), (12, s), (13, 1), (15, lo), (16, hi), (13, 0)] m =
      Ok () (m2\<lparr>m_ram := stored (le16 lo hi) (readmem (m_ram m) (m_DMA m) 128) (m_ram m2), m_FDCST := 0\<rparr>)"
    using outs_append [of en ops "[(11, t), (12, s), (13, 1)]" "[(15, lo), (16, hi), (13, 0)]" m] w' r'
    by (simp del: outs.simps)
  then show ?thesis by (simp add: m2_def m1_def)
qed

end
