(* ===== verification/Monitor.thy ===== *)
theory Monitor
  imports Memory Disk_IO
begin

text \<open>
  The monitor (\<^verbatim>\<open>monitor.cpp\<close>): the command loop that runs beside the emulation and reads lines from
  standard input. Extraction of characters and 16-bit numbers from a string stream follows the
  standard library, with the base taken from the prefix because \<open>basefield\<close> is cleared. The clock
  frequency is a \<open>double\<close>; reading, printing and storing it is an argument.
\<close>

section \<open>Stream extraction\<close>

text \<open>\<open>input >> std::skipws >> command\<close>\<close>

definition get_char :: "string \<Rightarrow> (char \<times> string) option" where
  "get_char s = (case dropWhile is_space s of [] \<Rightarrow> None | c # r \<Rightarrow> Some (c, r))"

definition digit_val :: "char \<Rightarrow> nat option" where
  "digit_val ch =
     (let n = (of_char ch :: nat)
      in if 48 \<le> n \<and> n \<le> 57 then Some (n - 48)
         else if 97 \<le> n \<and> n \<le> 102 then Some (n - 97 + 10)
         else if 65 \<le> n \<and> n \<le> 70 then Some (n - 65 + 10)
         else None)"

text \<open>The digits of the given base at the front of a string: value, number of digits, rest.\<close>

fun get_digits :: "nat \<Rightarrow> nat \<Rightarrow> nat \<Rightarrow> string \<Rightarrow> nat \<times> nat \<times> string" where
  "get_digits base v k [] = (v, k, [])"
| "get_digits base v k (c # s) =
     (case digit_val c of
        None \<Rightarrow> (v, k, c # s)
      | Some x \<Rightarrow> if x < base then get_digits base (v * base + x) (Suc k) s else (v, k, c # s))"

text \<open>The sign and the prefix: \<open>0x\<close> for base 16, \<open>0\<close> for base 8 (itself a digit), else base 10.\<close>

definition get_sign :: "string \<Rightarrow> bool \<times> string" where
  "get_sign s =
     (case s of
        c # r \<Rightarrow> if c = CHR ''-'' then (True, r) else if c = CHR ''+'' then (False, r) else (False, s)
      | [] \<Rightarrow> (False, []))"

definition get_magnitude :: "string \<Rightarrow> nat \<times> nat \<times> string" where
  "get_magnitude s =
     (case s of
        c # d # r \<Rightarrow>
          if c = CHR ''0'' then (if d = CHR ''x'' \<or> d = CHR ''X'' then get_digits 16 0 0 r
                                 else get_digits 8 0 0 s)
          else get_digits 10 0 0 s
      | _ \<Rightarrow> get_digits 10 0 0 s)"

text \<open>\<open>input >> param\<close> for \<open>uint16_t param\<close>; \<open>None\<close> when the extraction fails.\<close>

definition get_uint16 :: "string \<Rightarrow> u16 option \<times> string" where
  "get_uint16 s =
     (case get_sign (dropWhile is_space s) of (neg, r) \<Rightarrow>
      case get_magnitude r of (v, k, r') \<Rightarrow>
        (if k = 0 \<or> 65535 < v then None else Some (if neg then - of_nat v else of_nat v), r'))"

section \<open>State\<close>

text \<open>\<open>pc\<close> is \<open>None\<close> until the first \<open>D\<close> command with an address: the constructor leaves it
  uninitialised. \<open>shown\<close> collects what is printed.\<close>

record 'd mon =
  pc :: "u16 option"
  mhz :: 'd
  shown :: string

record 'd double_ops =
  getd :: "string \<Rightarrow> 'd option \<times> nat"   \<comment> \<open>value and number of characters taken\<close>
  showd :: "'d \<Rightarrow> string"

definition emit :: "string \<Rightarrow> 'd mon \<Rightarrow> 'd mon" where
  "emit s m = m\<lparr>shown := shown m @ s\<rparr>"

abbreviation (input) newline :: string where "newline \<equiv> [CHR 0x0A]"

fun hex_string :: "nat \<Rightarrow> string" where
  "hex_string n = (if n < 16 then [hex_digit n] else hex_string (n div 16) @ [hex_digit (n mod 16)])"

declare hex_string.simps [simp del]

definition zpad :: "nat \<Rightarrow> string \<Rightarrow> string" where
  "zpad w s = replicate (w - length s) CHR ''0'' @ s"

definition isprint :: "u8 \<Rightarrow> bool" where
  "isprint c \<longleftrightarrow> 32 \<le> unat c \<and> unat c \<le> 126"

section \<open>Dump\<close>

text \<open>
  The loop prints \<open>cnt\<close> bytes taken with \<open>mem >> c\<close> from a stream that holds the memory. The
  extraction skips white space, so blanks, tabs and line ends in memory are passed over, and once
  the stream is used up the variable printed is uninitialised.
\<close>

definition dump_byte :: "u16 \<Rightarrow> nat \<Rightarrow> u8 \<Rightarrow> string \<Rightarrow> string \<times> string" where
  "dump_byte a n c ascii =
     (let lead = (if n mod 16 = 0 then newline @ zpad 4 (hex_string (unat a + n)) @ '':'' else '','');
          ascii' = ascii @ [if isprint c then byte_char c else CHR ''.'']
      in if n mod 16 = 15 then (lead @ zpad 2 (hex_string (unat c)) @ '' :'' @ [CHR 0x27] @ ascii' @ [CHR 0x27], [])
         else (lead @ zpad 2 (hex_string (unat c)), ascii'))"

fun dump_loop :: "u16 \<Rightarrow> nat \<Rightarrow> nat \<Rightarrow> bytes \<Rightarrow> string \<Rightarrow> string \<Rightarrow> (unit, string) outcome" where
  "dump_loop a 0 n mem ascii out = Ok () out"
| "dump_loop a (Suc k) n mem ascii out =
     (case dropWhile (\<lambda>b. is_space (byte_char b)) mem of
        [] \<Rightarrow> Fail (Undefined Uninitialised) out
      | c # mem' \<Rightarrow>
          (case dump_byte a n c ascii of (s, ascii') \<Rightarrow> dump_loop a k (Suc n) mem' ascii' (out @ s)))"

lemma dump_loop_code [code]:
  "dump_loop a k n mem ascii out =
     (if k = 0 then Ok () out
      else case dropWhile (\<lambda>b. is_space (byte_char b)) mem of
        [] \<Rightarrow> Fail (Undefined Uninitialised) out
      | c # mem' \<Rightarrow>
          (case dump_byte a n c ascii of (s, ascii') \<Rightarrow> dump_loop a (k - 1) (Suc n) mem' ascii' (out @ s)))"
proof (cases k)
  case (Suc k')
  then have "k - 1 = k'" "k \<noteq> 0" by simp_all
  then show ?thesis unfolding \<open>k - 1 = k'\<close> unfolding Suc by simp
qed simp

definition dump :: "ram \<Rightarrow> u16 \<Rightarrow> u16 \<Rightarrow> 'd mon \<Rightarrow> (unit, 'd mon) outcome" where
  "dump ram a cnt m =
     (case dump_loop a (unat cnt) 0 (readmem ram a cnt) [] [] of
        Ok _ s \<Rightarrow> Ok () ((emit s m)\<lparr>pc := Some (a + cnt)\<rparr>)
      | Fail e s \<Rightarrow> Fail e (emit s m))"

text \<open>The parameters of \<open>D\<close>: the address if one is given, the number of bytes or 128.\<close>

definition dump_params :: "string \<Rightarrow> u16 option \<Rightarrow> u16 option \<times> u16 \<times> string" where
  "dump_params s pc0 =
     (case get_uint16 s of
        (None, r) \<Rightarrow> (pc0, 128, r)
      | (Some a, r) \<Rightarrow>
          (case get_uint16 r of (None, r') \<Rightarrow> (Some a, 128, r') | (Some n, r') \<Rightarrow> (Some a, n, r')))"

section \<open>Commands\<close>

definition help_text :: string where
  "help_text =
     newline @ ''X                     ; exit programm.'' @ newline
     @ ''D [hex-addr [bytes]]  ; Dump'' @ newline
     @ ''S [n MHz]             ; set/get Speed'' @ newline"

lemma get_char_length: "get_char s = Some (c, r) \<Longrightarrow> length r < length s"
proof -
  assume "get_char s = Some (c, r)"
  then have "dropWhile is_space s = c # r" by (auto simp: get_char_def split: list.splits)
  then show ?thesis using length_dropWhile_le [of is_space s] by simp
qed

lemma get_digits_length: "get_digits base v k s = (v', k', r) \<Longrightarrow> length r \<le> length s"
  by (induction base v k s rule: get_digits.induct) (force split: option.splits if_splits)+

lemma get_magnitude_length: "get_magnitude s = (v, k, r) \<Longrightarrow> length r \<le> length s"
  by (auto simp: get_magnitude_def simp del: get_digits.simps split: list.splits if_splits
      dest!: get_digits_length)

lemma get_sign_length: "get_sign s = (neg, r) \<Longrightarrow> length r \<le> length s"
  by (auto simp: get_sign_def split: list.splits if_splits)

lemma get_uint16_length: "get_uint16 s = (v, r) \<Longrightarrow> length r \<le> length s"
proof -
  assume "get_uint16 s = (v, r)"
  moreover obtain neg t where t: "get_sign (dropWhile is_space s) = (neg, t)"
    by (cases "get_sign (dropWhile is_space s)")
  moreover obtain n k r' where m: "get_magnitude t = (n, k, r')" by (cases "get_magnitude t")
  ultimately have "r = r'" by (simp add: get_uint16_def)
  then show ?thesis
    using get_sign_length [OF t] get_magnitude_length [OF m] length_dropWhile_le [of is_space s] by simp
qed

lemma dump_params_length: "dump_params s p = (a, n, r) \<Longrightarrow> length r \<le> length s"
  by (auto simp: dump_params_def split: prod.splits option.splits dest!: get_uint16_length)

text \<open>The loop over the commands of one line; the result tells whether \<open>X\<close> was given.\<close>

function mon_line :: "'d double_ops \<Rightarrow> ram \<Rightarrow> string \<Rightarrow> 'd mon \<Rightarrow> (bool, 'd mon) outcome" where
  "mon_line ops ram s m =
     (case get_char s of
        None \<Rightarrow> Ok False m
      | Some (command, r) \<Rightarrow>
          if to_upper command = CHR ''X'' then Ok True m
          else if to_upper command = CHR ''?'' then mon_line ops ram r (emit (help_text @ newline) m)
          else if to_upper command = CHR ''S''
          then (case getd ops r of
                  (None, n) \<Rightarrow> Ok False (emit (showd ops (mhz m) @ newline) m)
                | (Some f, n) \<Rightarrow> mon_line ops ram (drop n r) (emit (showd ops f @ newline) (m\<lparr>mhz := f\<rparr>)))
          else if to_upper command = CHR ''D''
          then (case dump_params r (pc m) of
                  (None, cnt, r') \<Rightarrow> Fail (Undefined Uninitialised) m
                | (Some a, cnt, r') \<Rightarrow>
                    (case dump ram a cnt m of
                       Fail e m' \<Rightarrow> Fail e m'
                     | Ok _ m' \<Rightarrow> mon_line ops ram r' (emit newline m')))
          else mon_line ops ram r (emit newline m))"
  by pat_completeness auto
termination
  by (relation "measure (\<lambda>(ops, ram, s, m). length s)")
    (auto dest!: get_char_length dump_params_length [OF sym])

declare mon_line.simps [simp del]

text \<open>
  The outer loop; every line comes with the memory at the time it is executed, since the CPU runs
  beside the monitor. \<open>Ok (Some 0)\<close>: left with \<open>X\<close>; \<open>Ok None\<close>: the input ends and the loop goes on
  reading empty lines.
\<close>

fun monitor_run :: "'d double_ops \<Rightarrow> (string \<times> ram) list \<Rightarrow> 'd mon \<Rightarrow> (nat option, 'd mon) outcome" where
  "monitor_run ops [] m = Ok None (emit (newline @ ''#:'') m)"
| "monitor_run ops ((l, ram) # ls) m =
     bindo (mon_line ops ram l (emit (newline @ ''#:'') m))
       (\<lambda>leave m'. if leave then Ok (Some 0) m' else monitor_run ops ls m')"

section \<open>Numbers round trip\<close>

lemma char_of_48 [simp]: "char_of (48 :: nat) = CHR ''0''"
  by code_simp

lemma digit_val_char: "x < 10 \<Longrightarrow> digit_val (char_of (48 + x)) = Some x"
  by (simp add: digit_val_def)

lemma digit_val_hex: "x < 16 \<Longrightarrow> digit_val (hex_digit x) = Some x"
proof -
  assume "x < 16"
  then have "x \<in> set [0..<16]" by simp
  moreover have "\<forall>x \<in> set [0..<16]. digit_val (hex_digit x) = Some x" by code_simp
  ultimately show ?thesis by blast
qed

lemma get_digits_decimal:
  "get_digits 10 v k (nat_string n @ t) =
     get_digits 10 (v * 10 ^ length (nat_string n) + n) (k + length (nat_string n)) t"
proof (induction n arbitrary: v k t rule: nat_string.induct)
  case (1 n)
  show ?case
  proof (cases "n < 10")
    case True
    then show ?thesis by (simp add: nat_string.simps [of n] digit_val_char)
  next
    case False
    let ?s = "nat_string (n div 10)"
    have "nat_string n @ t = ?s @ char_of (48 + n mod 10) # t"
      using False by (simp add: nat_string.simps [of n])
    then show ?thesis
      using 1 [OF False] False by (simp add: digit_val_char nat_string.simps [of n] algebra_simps)
  qed
qed

lemma get_digits_hex:
  "get_digits 16 v k (hex_string n @ t) =
     get_digits 16 (v * 16 ^ length (hex_string n) + n) (k + length (hex_string n)) t"
proof (induction n arbitrary: v k t rule: hex_string.induct)
  case (1 n)
  show ?case
  proof (cases "n < 16")
    case True
    then show ?thesis by (simp add: hex_string.simps [of n] digit_val_hex)
  next
    case False
    let ?s = "hex_string (n div 16)"
    have "hex_string n @ t = ?s @ hex_digit (n mod 16) # t"
      using False by (simp add: hex_string.simps [of n])
    then show ?thesis
      using 1 [OF False] False by (simp add: digit_val_hex hex_string.simps [of n] algebra_simps)
  qed
qed

text \<open>The first character of a decimal number is a digit, and not \<open>0\<close> unless it is the only one.\<close>

lemma nat_string_head:
  "\<exists>(x::nat) s. nat_string n = char_of (48 + x) # s \<and> x < 10 \<and> (x = 0 \<longrightarrow> s = [])"
proof (induction n rule: nat_string.induct)
  case (1 n)
  show ?case
  proof (cases "n < 10")
    case True
    then have "nat_string n = char_of (48 + n) # [] \<and> n < 10 \<and> (n = 0 \<longrightarrow> [] = ([] :: string))"
      by (simp add: nat_string.simps [of n])
    then show ?thesis by blast
  next
    case False
    then obtain x :: nat and s where xs: "nat_string (n div 10) = char_of (48 + x) # s" "x < 10" "x = 0 \<longrightarrow> s = []"
      using 1 by blast
    have "x \<noteq> 0"
    proof
      assume "x = 0"
      with xs have "nat_string (n div 10) = ''0''" by simp
      then have "get_digits 10 0 0 ''0'' = (n div 10, 1, [])"
        using get_digits_decimal [of 0 0 "n div 10" "[]"] by simp
      then have "n div 10 = 0" by (simp add: digit_val_def)
      with False show False by simp
    qed
    moreover have "nat_string n = char_of (48 + x) # s @ [char_of (48 + n mod 10)]"
      using xs(1) False by (simp add: nat_string.simps [of n])
    ultimately show ?thesis using xs(2) by blast
  qed
qed

lemma length_hex_string: "0 < length (hex_string n)"
  by (simp add: hex_string.simps [of n])

lemma get_uint16_decimal:
  assumes "n < 65536" and "rest = [] \<or> digit_val (hd rest) = None"
    and "n = 0 \<longrightarrow> rest = [] \<or> hd rest \<noteq> CHR ''x'' \<and> hd rest \<noteq> CHR ''X''"
  shows "get_uint16 (nat_string n @ rest) = (Some (of_nat n), rest)"
proof -
  obtain x :: nat and s where h: "nat_string n = char_of (48 + x) # s" "x < 10" "x = 0 \<longrightarrow> s = []"
    using nat_string_head by blast
  have "of_char (char_of (48 + x) :: char) = 48 + x" using h(2) by simp
  then have plain: "\<not> is_space (char_of (48 + x))" "char_of (48 + x) \<noteq> CHR ''-''" "char_of (48 + x) \<noteq> CHR ''+''"
    "char_of (48 + x) = CHR ''0'' \<longleftrightarrow> x = 0"
    using h(2) by (auto simp: is_space_def dest: arg_cong [where f = "of_char :: char \<Rightarrow> nat"])
  have stop: "get_digits b v k rest = (v, k, rest)" for b v k
    using assms(2) by (cases rest) auto
  have dg: "get_digits 10 0 0 (nat_string n @ rest) = (n, length (nat_string n), rest)"
    by (simp add: get_digits_decimal stop)
  have "get_magnitude (nat_string n @ rest) = (n, length (nat_string n), rest)"
  proof (cases "x = 0 \<and> rest \<noteq> []")
    case True
    then have n0: "n = 0" and st: "nat_string n = ''0''"
      using h dg get_digits.simps stop [of 10] by (auto simp: digit_val_def)
    obtain c r where rest: "rest = c # r" using True by (cases rest) auto
    have "get_digits 8 0 0 (CHR ''0'' # rest) = (0, 1, rest)"
      by (simp add: digit_val_def stop)
    with assms(3) n0 st rest show ?thesis by (simp add: get_magnitude_def)
  next
    case False
    then show ?thesis
      using dg h plain by (cases "s @ rest") (auto simp: get_magnitude_def simp del: get_digits.simps)
  qed
  then show ?thesis using assms(1) h plain by (simp add: get_uint16_def get_sign_def)
qed

lemma get_uint16_hex:
  assumes "n < 65536" and "rest = [] \<or> digit_val (hd rest) = None"
  shows "get_uint16 (''0x'' @ hex_string n @ rest) = (Some (of_nat n), rest)"
proof -
  have stop: "get_digits b v k rest = (v, k, rest)" for b v k
    using assms(2) by (cases rest) auto
  have "get_digits 16 0 0 (hex_string n @ rest) = (n, length (hex_string n), rest)"
    by (simp add: get_digits_hex stop)
  then show ?thesis
    using assms(1) length_hex_string [of n]
    by (simp add: get_uint16_def get_sign_def get_magnitude_def is_space_def)
qed

section \<open>When a dump is defined\<close>

abbreviation (input) blank_byte :: "u8 \<Rightarrow> bool" where
  "blank_byte b \<equiv> is_space (byte_char b)"

lemma filter_dropWhile_blank:
  "filter (\<lambda>b. \<not> P b) (dropWhile P xs) = filter (\<lambda>b. \<not> P b) xs"
  by (induction xs) auto

lemma filter_all_length: "length xs \<le> length (filter P xs) \<longleftrightarrow> (\<forall>x \<in> set xs. P x)"
proof
  assume le: "length xs \<le> length (filter P xs)"
  show "\<forall>x \<in> set xs. P x"
  proof (rule ccontr)
    assume "\<not> ?thesis"
    then obtain x where "x \<in> set xs" "\<not> P x" by blast
    then have "length (filter P xs) < length xs" by (rule length_filter_less)
    with le show False by simp
  qed
qed simp

lemma dump_loop_Ok:
  "is_ok (dump_loop a k n mem ascii out) \<longleftrightarrow> k \<le> length (filter (\<lambda>b. \<not> blank_byte b) mem)"
proof (induction a k n mem ascii out rule: dump_loop.induct)
  case (2 a k n mem ascii out)
  let ?P = "\<lambda>b. blank_byte b"
  show ?case
  proof (cases "dropWhile ?P mem")
    case Nil
    then have "filter (\<lambda>b. \<not> ?P b) mem = []" using filter_dropWhile_blank [of ?P mem] by simp
    then show ?thesis using Nil by (simp only: dump_loop.simps list.case is_ok.simps) simp
  next
    case (Cons c mem')
    then have c: "\<not> ?P c" using hd_dropWhile [of ?P mem] by simp
    have "filter (\<lambda>b. \<not> ?P b) mem = c # filter (\<lambda>b. \<not> ?P b) mem'"
      using filter_dropWhile_blank [of ?P mem] c by (simp add: Cons)
    then show ?thesis
      using 2 [OF Cons] by (cases "dump_byte a n c ascii") (simp add: Cons)
  qed
qed simp

lemma dump_Ok:
  "is_ok (dump ram a cnt m) \<longleftrightarrow> (\<forall>b \<in> set (readmem ram a cnt). \<not> blank_byte b)"
proof -
  let ?mem = "readmem ram a cnt"
  have len: "length ?mem = unat cnt" by (simp add: readmem_eq)
  have "is_ok (dump ram a cnt m) \<longleftrightarrow> is_ok (dump_loop a (unat cnt) 0 ?mem [] [])"
    by (cases "dump_loop a (unat cnt) 0 ?mem [] []") (simp_all add: dump_def)
  also have "\<dots> \<longleftrightarrow> length ?mem \<le> length (filter (\<lambda>b. \<not> blank_byte b) ?mem)"
    by (simp add: dump_loop_Ok len)
  also have "\<dots> \<longleftrightarrow> (\<forall>b \<in> set ?mem. \<not> blank_byte b)" by (rule filter_all_length)
  finally show ?thesis .
qed

end
