(* ===== verification/Options.thy ===== *)
theory Options
  imports Machine Monitor
begin

text \<open>
  The main program (\<^verbatim>\<open>Z80CPM.cpp\<close>) and the message levels (\<^verbatim>\<open>cpm.h\<close>): option handling, the
  \<open>split\<close> helper, the \<open>LOG\<close> macro, the command line and the start-up sequence.
\<close>

section \<open>Message levels\<close>

datatype MSGLEVEL = LOFF | LERR | LWRN | LINF

fun level_num :: "MSGLEVEL \<Rightarrow> nat" where
  "level_num LOFF = 0" | "level_num LERR = 1" | "level_num LWRN = 2" | "level_num LINF = 3"

text \<open>\<open>verbosity\<close> is the integer cast to the enumeration, compared as \<open>unsigned\<close>.\<close>

definition log_shown :: "int \<Rightarrow> MSGLEVEL \<Rightarrow> bool" where
  "log_shown verbosity L \<longleftrightarrow> nat (verbosity mod 2 ^ 32) \<le> level_num L \<and> verbosity \<noteq> 0"

section \<open>Splitting\<close>

text \<open>\<open>getline\<close> with a delimiter until it fails: an empty piece at the end is not delivered.\<close>

fun split_pieces :: "char \<Rightarrow> string \<Rightarrow> string \<Rightarrow> string list" where
  "split_pieces delim acc [] = (if acc = [] then [] else [acc])"
| "split_pieces delim acc (c # s) =
     (if c = delim then acc # split_pieces delim [] s else split_pieces delim (acc @ [c]) s)"

definition split :: "string \<Rightarrow> char \<Rightarrow> string list \<Rightarrow> string list" where
  "split s delim elems = elems @ split_pieces delim [] s"

section \<open>Options\<close>

definition atoi :: "string \<Rightarrow> int" where
  "atoi s =
     (case get_sign (dropWhile is_space s) of (neg, r) \<Rightarrow>
      case get_digits 10 0 0 r of (v, _, _) \<Rightarrow> if neg then - int v else int v)"

text \<open>The globals; \<open>console\<close> and \<open>host\<close> under the names \<open>consoleprog\<close> and \<open>hostname\<close>.\<close>

record 'd globals =
  verbosity :: int
  debuglevel :: int
  tracing :: bool
  diskpath :: string
  consoleprog :: string
  hostname :: string
  rcfile :: string
  portno :: int
  z80mhz :: 'd

text \<open>
  The initial values; \<open>dflt\<close> is \<^verbatim>\<open>CPM22_DEFAULT_DISKPATH\<close> if the build defines it, and \<open>home\<close> the
  variable \<^verbatim>\<open>HOME\<close>, without which the construction of a string from a null pointer is undefined.
\<close>

definition globals_init :: "string option \<Rightarrow> string option \<Rightarrow> 'd \<Rightarrow> undefined + 'd globals" where
  "globals_init dflt home zero =
     (case home of
        None \<Rightarrow> Inl NullPointer
      | Some dr \<Rightarrow>
          Inr \<lparr>verbosity = 0, debuglevel = 0, tracing = False,
               diskpath = (case dflt of Some p \<Rightarrow> p | None \<Rightarrow> dr @ ''/.cpm''),
               consoleprog = ''/usr/bin/plink -fg green -bg black -T '' @ [CHR 0x22] @ ''CP/M 2.2''
                 @ [CHR 0x22] @ '' -load CPM22'',
               hostname = ''localhost'', rcfile = dr @ ''/.cpmrc'', portno = 1234, z80mhz = zero\<rparr>)"

datatype 'd opt_result = Continue "'d globals" | Return int "'d globals" | OptUndefined undefined

text \<open>
  One turn of the option loop. \<open>service\<close> is \<open>getservbyname\<close> and \<open>atof\<close> the conversion to
  \<open>double\<close>. Assigning a missing argument to a string dereferences a null pointer, as does \<open>atoi\<close>.
\<close>

definition opt_string :: "string option \<Rightarrow> (string \<Rightarrow> 'd opt_result) \<Rightarrow> 'd opt_result" where
  "opt_string arg f = (case arg of None \<Rightarrow> OptUndefined NullPointer | Some a \<Rightarrow> f a)"

definition option_step ::
  "(string \<Rightarrow> int option) \<Rightarrow> (string \<Rightarrow> 'd) \<Rightarrow> char \<Rightarrow> string option \<Rightarrow> 'd globals \<Rightarrow> 'd opt_result" where
  "option_step service atof op optarg g =
     (if op = CHR ''l'' then opt_string optarg (\<lambda>a. Continue (g\<lparr>verbosity := atoi a\<rparr>))
      else if op = CHR ''g'' then opt_string optarg (\<lambda>a. Continue (g\<lparr>debuglevel := atoi a\<rparr>))
      else if op = CHR ''t'' then Continue (g\<lparr>tracing := True\<rparr>)
      else if op = CHR ''d'' then opt_string optarg (\<lambda>a. Continue (g\<lparr>diskpath := a\<rparr>))
      else if op = CHR ''c''
      then opt_string optarg (\<lambda>a. Continue (g\<lparr>consoleprog := replicate (of_char CHR '','') CHR '' ''\<rparr>))
      else if op = CHR ''h'' then opt_string optarg (\<lambda>a. Continue (g\<lparr>hostname := a\<rparr>))
      else if op = CHR ''p''
      then opt_string optarg (\<lambda>a.
             if a = [] \<or> digit_val (a ! 0) = None \<or> 10 \<le> the (digit_val (a ! 0))
             then (case service a of
                     Some p \<Rightarrow> Continue (g\<lparr>portno := p\<rparr>) | None \<Rightarrow> Return (-1) g)
             else Continue (g\<lparr>portno := atoi a\<rparr>))
      else if op = CHR ''r'' then opt_string optarg (\<lambda>a. Continue (g\<lparr>rcfile := a\<rparr>))
      else if op = CHR ''z'' then opt_string optarg (\<lambda>a. Continue (g\<lparr>z80mhz := atof a\<rparr>))
      else Continue g)"

fun options ::
  "(string \<Rightarrow> int option) \<Rightarrow> (string \<Rightarrow> 'd) \<Rightarrow> (char \<times> string option) list \<Rightarrow> 'd globals \<Rightarrow> 'd opt_result" where
  "options service atof [] g = Continue g"
| "options service atof ((op, arg) # rest) g =
     (case option_step service atof op arg g of
        Continue g' \<Rightarrow> options service atof rest g'
      | r \<Rightarrow> r)"

section \<open>The command line\<close>

text \<open>
  The option tables and what \<open>getopt_long\<close> makes of a command line with them: words that are no
  options are skipped, \<^verbatim>\<open>--\<close> ends the options, long names may be shortened as long as they are
  unambiguous and take a value after \<^verbatim>\<open>=\<close> (a required one also in the next word), and a word with one
  dash is a cluster of letters whose last may take the rest of the word or the next word as its value.
  Anything else is reported and delivered as \<^verbatim>\<open>?\<close>.
\<close>

datatype has_arg = no_argument | required_argument | optional_argument

definition long_options :: "(string \<times> has_arg \<times> char) list" where
  "long_options =
     [(''verbos'', optional_argument, CHR ''l''), (''debug'', optional_argument, CHR ''g''),
      (''trace'', required_argument, CHR ''t''), (''diskpath'', required_argument, CHR ''d''),
      (''console'', required_argument, CHR ''c''), (''host'', required_argument, CHR ''h''),
      (''port'', required_argument, CHR ''p''), (''rcfile'', required_argument, CHR ''r''),
      (''z80mhz'', required_argument, CHR ''z''), (''help'', no_argument, CHR ''?'')]"

definition short_options :: string where
  "short_options = ''l:g:td:c:h:p:r:z:?''"

definition short_kind :: "char \<Rightarrow> has_arg option" where
  "short_kind c =
     (if c = CHR '':'' then None
      else case dropWhile (\<lambda>x. x \<noteq> c) short_options of
        [] \<Rightarrow> None
      | _ # s \<Rightarrow> Some (if take 1 s = '':'' then required_argument else no_argument))"

definition long_kind :: "string \<Rightarrow> (has_arg \<times> char) option" where
  "long_kind name =
     (case map_of long_options name of
        Some k \<Rightarrow> Some k
      | None \<Rightarrow>
          (case filter (\<lambda>(n, _). take (length name) n = name) long_options of
             [(_, k)] \<Rightarrow> Some k
           | _ \<Rightarrow> None))"

definition bad_option :: "char \<times> string option" where
  "bad_option = (CHR ''?'', None)"

fun short_cluster :: "string \<Rightarrow> string list \<Rightarrow> (char \<times> string option) list \<times> string list" where
  "short_cluster [] rest = ([], rest)"
| "short_cluster (c # cs) rest =
     (case short_kind c of
        None \<Rightarrow> (case short_cluster cs rest of (os, r) \<Rightarrow> (bad_option # os, r))
      | Some required_argument \<Rightarrow>
          if cs \<noteq> [] then ([(c, Some cs)], rest)
          else (case rest of [] \<Rightarrow> ([bad_option], []) | a # r \<Rightarrow> ([(c, Some a)], r))
      | Some _ \<Rightarrow> (case short_cluster cs rest of (os, r) \<Rightarrow> ((c, None) # os, r)))"

definition long_option :: "string \<Rightarrow> string list \<Rightarrow> (char \<times> string option) \<times> string list" where
  "long_option w rest =
     (let name = takeWhile (\<lambda>c. c \<noteq> CHR ''='') w; val = drop (length name) w
      in case long_kind name of
           None \<Rightarrow> (bad_option, rest)
         | Some (k, c) \<Rightarrow>
             if val \<noteq> [] then (if k = no_argument then bad_option else (c, Some (tl val)), rest)
             else if k = required_argument
             then (case rest of [] \<Rightarrow> (bad_option, []) | a # r \<Rightarrow> ((c, Some a), r))
             else ((c, None), rest))"

lemma short_cluster_length: "short_cluster cs rest = (os, r) \<Longrightarrow> length r \<le> length rest"
  by (induction cs rest arbitrary: os r rule: short_cluster.induct)
    (force split: option.splits has_arg.splits prod.splits list.splits if_splits)+

lemma long_option_length: "long_option w rest = (x, r) \<Longrightarrow> length r \<le> length rest"
  by (auto simp: long_option_def Let_def split: option.splits if_splits list.splits)

function getopt_long :: "string list \<Rightarrow> (char \<times> string option) list" where
  "getopt_long [] = []"
| "getopt_long (a # as) =
     (if a = ''--'' then []
      else if take 2 a = ''--'' then (case long_option (drop 2 a) as of (x, r) \<Rightarrow> x # getopt_long r)
      else if take 1 a = ''-'' \<and> a \<noteq> ''-''
      then (case short_cluster (drop 1 a) as of (os, r) \<Rightarrow> os @ getopt_long r)
      else getopt_long as)"
  by pat_completeness auto
termination
  by (relation "measure length")
    (auto dest!: short_cluster_length [OF sym] long_option_length [OF sym])

definition procname :: "string \<Rightarrow> string" where
  "procname arg0 = rev (takeWhile (\<lambda>c. c \<noteq> CHR ''/'') (rev arg0))"

definition main_options ::
  "(string \<Rightarrow> int option) \<Rightarrow> (string \<Rightarrow> 'd) \<Rightarrow> string list \<Rightarrow> 'd globals \<Rightarrow> 'd opt_result" where
  "main_options service atof args g = options service atof (getopt_long args) g"

section \<open>Start-up\<close>

text \<open>
  After the options: \<open>chdir\<close>, the console server, \<open>fork\<close> (the child becomes the terminal program),
  then power on and the monitor. The working directory is the disk path, so a relative disk path
  is applied twice when \<open>selectdisk\<close> forms a drive's path; \<open>cwd_path\<close> is what a path denotes then.
\<close>

definition cwd_path :: "string \<Rightarrow> string \<Rightarrow> string" where
  "cwd_path cwd p = path_append cwd p"

definition drive_file :: "string \<Rightarrow> string \<Rightarrow> nat \<Rightarrow> string" where
  "drive_file start dpath i =
     cwd_path (cwd_path start dpath) (dpath @ ''/'' @ [drive_letter i])"

datatype main_result = Exits int | Terminates cpm_error | StillRunning

definition main_start ::
  "'z z80_ops \<Rightarrow> 'd double_ops \<Rightarrow> string \<Rightarrow> bytes \<Rightarrow> 'd globals \<Rightarrow> bool \<Rightarrow> int \<Rightarrow> (string \<times> ram) list \<Rightarrow>
   'z machine \<Rightarrow> 'd mon \<Rightarrow> main_result" where
  "main_start zops dops bootsector boot g chdir_ok pid lines m mo =
     (if \<not> chdir_ok then Exits (-1)
      else if pid < 0 then Exits (-1)
      else case powercycle zops bootsector boot (set_trace (tracing g) m) of
             Fail e _ \<Rightarrow> Terminates e
           | Ok _ m' \<Rightarrow>
               (case monitor_run dops lines mo of
                  Fail e _ \<Rightarrow> Terminates e
                | Ok None _ \<Rightarrow> StillRunning
                | Ok (Some _) _ \<Rightarrow> Exits 0))"

lemma split_pieces_join:
  "concat (map (\<lambda>p. p @ [delim]) (split_pieces delim acc s)) =
     acc @ s @ (if acc @ s = [] \<or> s \<noteq> [] \<and> last s = delim then [] else [delim])"
  by (induction delim acc s rule: split_pieces.induct) auto

lemma split_pieces_clean:
  "delim \<notin> set acc \<Longrightarrow> \<forall>p \<in> set (split_pieces delim acc s). delim \<notin> set p"
  by (induction delim acc s rule: split_pieces.induct) auto

section \<open>Spellings of an option\<close>

lemma getopt_long_word: "getopt_long (a # as) =
   (if a = ''--'' then []
    else if take 2 a = ''--'' then fst (long_option (drop 2 a) as) # getopt_long (snd (long_option (drop 2 a) as))
    else if take 1 a = ''-'' \<and> a \<noteq> ''-''
    then fst (short_cluster (drop 1 a) as) @ getopt_long (snd (short_cluster (drop 1 a) as))
    else getopt_long as)"
  by (simp add: case_prod_unfold)

lemma long_names:
  assumes "(n, k, c) \<in> set long_options"
  shows "long_kind n = Some (k, c)" and "takeWhile (\<lambda>x. x \<noteq> CHR ''='') n = n" and "n \<noteq> []"
    and "c \<notin> {CHR ''t'', CHR ''?''} \<Longrightarrow> short_kind c = Some required_argument" and "c \<noteq> CHR ''-''"
proof -
  have "\<forall>(n, k, c) \<in> set long_options. long_kind n = Some (k, c) \<and> takeWhile (\<lambda>x. x \<noteq> CHR ''='') n = n \<and>
      n \<noteq> [] \<and> (c \<notin> {CHR ''t'', CHR ''?''} \<longrightarrow> short_kind c = Some required_argument) \<and> c \<noteq> CHR ''-''"
    by code_simp
  from bspec [OF this assms] show "long_kind n = Some (k, c)" "takeWhile (\<lambda>x. x \<noteq> CHR ''='') n = n" "n \<noteq> []"
    "c \<notin> {CHR ''t'', CHR ''?''} \<Longrightarrow> short_kind c = Some required_argument" "c \<noteq> CHR ''-''"
    unfolding prod.case by argo+
qed

lemma long_option_equals:
  assumes "(n, k, c) \<in> set long_options" and "k \<noteq> no_argument"
  shows "getopt_long ((''--'' @ n @ ''='' @ v) # as) = (c, Some v) # getopt_long as"
proof -
  have "takeWhile (\<lambda>x. x \<noteq> CHR ''='') (n @ ''='' @ v) = n"
    using long_names(2) [OF assms(1)] by (simp add: takeWhile_tail takeWhile_append)
  then have "long_option (n @ ''='' @ v) as = ((c, Some v), as)"
    using long_names(1) [OF assms(1)] assms(2) by (simp add: long_option_def Let_def)
  then show ?thesis by (simp add: getopt_long_word)
qed

lemma long_option_word:
  assumes "(n, required_argument, c) \<in> set long_options"
  shows "getopt_long ((''--'' @ n) # v # as) = (c, Some v) # getopt_long as"
proof -
  have "long_option n (v # as) = ((c, Some v), as)"
    using long_names(1,2) [OF assms] by (simp add: long_option_def Let_def del: takeWhile_eq_all_conv)
  then show ?thesis using long_names(3) [OF assms] by (simp add: getopt_long_word)
qed

lemma long_option_alone:
  assumes "long_kind n = Some (optional_argument, c)" and "CHR ''='' \<notin> set n" and "n \<noteq> []"
  shows "getopt_long ((''--'' @ n) # as) = (c, None) # getopt_long as"
proof -
  have "takeWhile (\<lambda>x. x \<noteq> CHR ''='') n = n" using assms(2) by (intro takeWhile_eq_all_conv [THEN iffD2]) auto
  then have "long_option n as = ((c, None), as)" using assms(1) by (simp add: long_option_def Let_def del: takeWhile_eq_all_conv)
  then show ?thesis using assms(3) by (simp add: getopt_long_word)
qed

lemma short_option_word:
  assumes "short_kind c = Some required_argument" and "c \<noteq> CHR ''-''"
  shows "getopt_long ([CHR ''-'', c] # v # as) = (c, Some v) # getopt_long as"
    and "v \<noteq> [] \<Longrightarrow> getopt_long ((CHR ''-'' # c # v) # as) = (c, Some v) # getopt_long as"
  using assms by (simp_all add: getopt_long_word)

end
