(* ===== verification/System_Properties.thy ===== *)
theory System_Properties
  imports Options
begin

text \<open>
  The properties of the machine around the drives: the console, the memory transfers, ports and
  boot, the monitor and the main program.
\<close>

section \<open>Console\<close>



text \<open>
  C8. Nothing is lost, duplicated or reordered between the network and the CPU: in every state that
  the two threads can reach by interleaving, the bytes the CPU has taken, followed by the bytes
  still queued, are the filtered input of all connections in order (with the control-Q that ended
  the CPU in between, once it has).
\<close>

theorem console_order:
  assumes "con_step\<^sup>*\<^sup>* con_start s"
  shows "delivered s @ (if cpu_running s then [] else [0x11]) @ conbuf s
       = concat (map session_out (received s)) \<and> 0x11 \<notin> set (delivered s)"
  using con_inv_reachable [OF assms] by (simp add: con_inv_def)

theorem console_order_witness:
  "\<exists>s. con_step\<^sup>*\<^sup>* con_start s \<and> delivered s @ conbuf s = concat (map session_out (received s)) \<and>
     delivered s = [] \<and> conbuf s = [65]"
proof -
  let ?s = "con_start\<lparr>net := console_init, conbuf := [65],
      received := butlast (received con_start) @ [last (received con_start) @ [65]]\<rparr>"
  have "console_byte 65 (net con_start, conbuf con_start) = (console_init, [65])"
    by (simp add: con_start_def console_init_def console_byte_def crlf_step_def enqueueConsoleByte_def)
  then have "con_step con_start ?s" by (rule con_step.net_byte)
  then have "con_step\<^sup>*\<^sup>* con_start ?s" by simp
  with console_order [OF this] show ?thesis by (intro exI [of _ ?s]) (simp add: con_start_def)
qed

text \<open>
  C17. Everything typed arrives: in every run of the two threads in which the CPU goes on polling while
  bytes are queued, all that the filter has passed by any moment is delivered to the CPU later, in
  order, unless the CPU thread has ended on a control-Q by then.
\<close>

theorem console_live:
  assumes "con_run r" and "cpu_fair r"
  shows "\<exists>k \<ge> n. \<not> cpu_running (r k) \<or> prefix (concat (map session_out (received (r n)))) (delivered (r k))"
  using con_run_live [OF assms, of n] by (simp add: typed_def)

text \<open>A run: one byte arrives, the CPU takes it, and from then on clients connect without typing.\<close>

definition demo_run :: "nat \<Rightarrow> con_sys" where
  "demo_run n =
     (if n = 0 then con_start
      else if n = 1 then \<lparr>net = console_init, conbuf = [65], received = [[65]], delivered = [], cpu_running = True\<rparr>
      else \<lparr>net = console_init, conbuf = [], received = [65] # replicate (n - 2) [], delivered = [65], cpu_running = True\<rparr>)"

lemma demo_run_fair: "con_run demo_run" "cpu_fair demo_run"
proof -
  have "con_step (demo_run n) (demo_run (Suc n))" for n
  proof (cases "n < 2")
    case True
    have "console_byte 65 (console_init, []) = (console_init, [65])"
      by (simp add: console_init_def console_byte_def crlf_step_def enqueueConsoleByte_def)
    then have "con_step con_start (con_start\<lparr>net := console_init, conbuf := [65],
        received := butlast (received con_start) @ [last (received con_start) @ [65]]\<rparr>)"
      by (intro con_step.net_byte) (simp add: con_start_def)
    moreover have "con_step (demo_run 1) ((demo_run 1)\<lparr>conbuf := [], delivered := delivered (demo_run 1) @ [65]\<rparr>)"
      by (intro con_step.cpu_in) (simp_all add: demo_run_def ConChk_def consoleByteAvailable_def ConIn_def dequeueConsoleByte_def)
    moreover have "n = 0 \<or> n = 1" using True by auto
    ultimately show ?thesis by (auto simp: demo_run_def con_start_def)
  next
    case False
    then obtain j where j: "n = j + 2" using le_Suc_ex [of 2 n] by (auto simp: add.commute)
    then have "replicate (Suc n - 2) ([] :: bytes) = replicate (n - 2) [] @ [[]]"
      by (simp add: replicate_append_same)
    then show ?thesis using con_step.net_reconnect [of "demo_run n"] False
      by (simp add: demo_run_def del: diff_Suc_Suc)
  qed
  then show "con_run demo_run" by (simp add: con_run_def demo_run_def)
  show "cpu_fair demo_run"
    unfolding cpu_fair_def
  proof (intro allI impI)
    fix n assume "cpu_running (demo_run n) \<and> conbuf (demo_run n) \<noteq> []"
    then have "n \<le> 1" by (auto simp: demo_run_def con_start_def split: if_splits)
    then show "\<exists>k \<ge> n. cpu_moved (demo_run k) (demo_run (Suc k))"
      by (intro exI [of _ 1]) (simp add: cpu_moved_def demo_run_def)
  qed
qed

theorem console_live_witness:
  "\<exists>k \<ge> 1. \<not> cpu_running (demo_run k) \<or> prefix (concat (map session_out (received (demo_run 1)))) (delivered (demo_run k))"
  using console_live [OF demo_run_fair] .

text \<open>
  Consecutive connections feed one stream: if every client is accepted, sends a well-formed
  stream and closes, the server goes on running and has queued the filtered data of all of them in
  order. The descriptor of the last, closed, connection stays in place, so \<open>IsConnected\<close> still holds.
\<close>

theorem server_sessions:
  assumes "\<forall>c \<in> set cs. 0 \<le> accepted c \<and> hostp c \<and> hostaddrp c"
    and "list_all2 (\<lambda>c xs. (\<forall>x \<in> set xs. item_ok x) \<and> events c = map Byte (encode xs) @ [Closed]) cs xss"
  shows "\<exists>s'. server_loop cs server_init = Running s' \<and>
     consoleBuffer s' = concat (map (\<lambda>xs. normalise (literals xs)) xss) \<and> (IsConnected s' \<longleftrightarrow> cs \<noteq> [])"
proof -
  obtain s' where s: "server_loop cs server_init = Running s'"
    "consoleBuffer s' = consoleBuffer server_init @ concat (map (\<lambda>xs. normalise (literals xs)) xss)"
    "newsockfd s' = (if cs = [] then newsockfd server_init else accepted (last cs))"
    using server_loop_sessions [OF assms, of server_init] by blast
  have "IsConnected s' \<longleftrightarrow> cs \<noteq> []"
  proof (cases "cs = []")
    case False
    then have "0 \<le> accepted (last cs)" using assms(1) by simp
    with False s(3) show ?thesis by (simp add: IsConnected_def)
  qed (use s(3) in \<open>simp add: IsConnected_def server_init_def\<close>)
  with s show ?thesis by (simp add: server_init_def)
qed

theorem server_sessions_witness:
  "\<exists>s'. server_loop [\<lparr>accepted = 4, hostp = True, hostaddrp = True, events = [Byte 65, Closed]\<rparr>] server_init
     = Running s' \<and> consoleBuffer s' = [65] \<and> IsConnected s'"
proof -
  let ?c = "\<lparr>accepted = 4, hostp = True, hostaddrp = True, events = [Byte 65, Closed]\<rparr>"
  have "list_all2 (\<lambda>c xs. (\<forall>x \<in> set xs. item_ok x) \<and> events c = map Byte (encode xs) @ [Closed])
      [?c] [[Literal 65]]" by (simp add: encode_def escape_def)
  moreover have "\<forall>c \<in> set [?c]. 0 \<le> accepted c \<and> hostp c \<and> hostaddrp c" by simp
  ultimately show ?thesis using server_sessions [of "[?c]" "[[Literal 65]]"] by simp
qed

text \<open>
  The CPU only ever sees seven-bit characters from the console, whatever arrives and however
  the connection ends.
\<close>

theorem console_seven_bit:
  assumes "\<forall>b \<in> set q. b < 0x80"
  shows "\<forall>b \<in> set (snd (console evs q)). b < 0x80"
  using console_run_seven_bit [of "(console_init, q)" evs] assms
  by (auto simp: console_def split: prod.splits)

theorem console_seven_bit_witness:
  "snd (console [Byte 0xC1, Byte 0xFF, Byte 0xFF, Errno 104] []) = [0x41, 0x7F] \<and>
   list_all (\<lambda>b. b < 0x80) (snd (console [Byte 0xC1, Byte 0xFF, Byte 0xFF, Errno 104] []))"
proof
  show "snd (console [Byte 0xC1, Byte 0xFF, Byte 0xFF, Errno 104] []) = [0x41, 0x7F]" by code_simp
  show "list_all (\<lambda>b. b < 0x80) (snd (console [Byte 0xC1, Byte 0xFF, Byte 0xFF, Errno 104] []))"
    using console_seven_bit [of "[]" "[Byte 0xC1, Byte 0xFF, Byte 0xFF, Errno 104]"] by (simp add: list_all_iff)
qed

text \<open>
  \<open>ConOut\<close> writes a character exactly when the socket takes it in the end: it reports success
  only after a \<open>write\<close> that returned 1, reports 0 only when no client has ever connected, and never
  returns as long as every \<open>write\<close> fails, whatever the error is.
\<close>

theorem conout_result:
  "(ConOut fd rs = Some 1 \<longleftrightarrow> fd \<noteq> -1 \<and> 1 \<in> set rs) \<and> (ConOut fd rs = Some 0 \<longleftrightarrow> fd = -1) \<and>
   (ConOut fd rs = None \<longleftrightarrow> fd \<noteq> -1 \<and> 1 \<notin> set rs)"
proof -
  have "write_loop rs = (if 1 \<in> set rs then Some 1 else None)" by (induction rs) auto
  then show ?thesis by (simp add: ConOut_def)
qed

section \<open>Memory\<close>

text \<open>
  C31. Block transfers wrap around the 64K memory and invert each other: after \<open>writemem\<close>, \<open>readmem\<close>
  of the same range delivers the bytes written, and every address outside the range is unchanged.
\<close>

theorem memory_roundtrip:
  assumes "unat sz \<le> length buf"
  shows "\<exists>m'. writemem buf addr sz m = Ok () m' \<and> readmem m' addr sz = take (unat sz) buf \<and>
     (\<forall>x. unat sz \<le> unat (x - addr) \<longrightarrow> m' x = m x)"
proof -
  let ?bs = "take (unat sz) buf"
  have len: "length ?bs = unat sz" using assms by simp
  have "unat sz < 65536" by (rule unat_u16_lt)
  then have le: "length ?bs \<le> 0x10000" using len by linarith
  have "readmem (stored addr ?bs m) addr sz = ?bs"
    using len by (intro nth_equalityI) (simp_all add: readmem_eq stored_at [OF _ le])
  moreover have "stored addr ?bs m x = m x" if "unat sz \<le> unat (x - addr)" for x
    using that len by (simp add: stored_def)
  ultimately show ?thesis using writemem_eq [OF assms, of addr m] by blast
qed

theorem memory_roundtrip_witness:
  "\<exists>m'. writemem [1, 2, 3] 0xFFFF 3 (\<lambda>_. 0) = Ok () m' \<and> readmem m' 0xFFFF 3 = [1, 2, 3]"
  using memory_roundtrip [of 3 "[1, 2, 3]" "0xFFFF" "\<lambda>_. 0"] by auto

text \<open>
  Loading from a stream stores exactly the bytes the stream has, at most the size asked for,
  wrapping at 64K; the size left over is what is missing, and the stream is failed exactly when
  something is.
\<close>

theorem stream_load:
  assumes "\<not> ifail f"
  shows "writemem_stream f addr sz m =
     (\<lparr>source = drop (unat sz) (source f), ifail = length (source f) < unat sz\<rparr>,
      sz - of_nat (min (unat sz) (length (source f))), stored addr (take (unat sz) (source f)) m)"
  by (rule writemem_stream_result [OF assms])

theorem stream_load_witness:
  "writemem_stream \<lparr>source = [1, 2], ifail = False\<rparr> 0xFFFF 3 (\<lambda>_. 0) =
     (\<lparr>source = [], ifail = True\<rparr>, 1, stored 0xFFFF [1, 2] (\<lambda>_. 0))"
  using stream_load [of "\<lparr>source = [1, 2], ifail = False\<rparr>" "0xFFFF" 3 "\<lambda>_. 0"] by simp

text \<open>
  Saving to a stream that has room writes the same bytes as the transfer to a buffer and
  leaves nothing over.
\<close>

theorem stream_save:
  assumes "\<not> obad f" and "unat sz \<le> room f"
  shows "readmem_stream m f addr sz =
     (f\<lparr>sunk := sunk f @ map (\<lambda>i. m (addr + of_nat i)) [0..<unat sz], room := room f - unat sz\<rparr>, 0)"
  using readmem_stream_ok [OF assms] by (simp add: readmem_eq)

theorem stream_save_witness:
  "readmem_stream (\<lambda>a. ucast a) \<lparr>sunk = [], room = 5, obad = False\<rparr> 0xFFFF 2 =
     (\<lparr>sunk = [0xFF, 0], room = 3, obad = False\<rparr>, 0)"
  using stream_save [of "\<lparr>sunk = [], room = 5, obad = False\<rparr>" 2 "\<lambda>a. ucast a" "0xFFFF"]
  by (simp add: upt_rec)

section \<open>Ports, selection, boot\<close>

text \<open>
  The address registers are assembled from two port writes, low byte first, and read back
  through the same ports; setting them clears the status.
\<close>

theorem address_ports:
  "outs en ops [(15, lo), (16, hi)] m = Ok () (m\<lparr>m_DMA := le16 lo hi, m_FDCST := 0\<rparr>) \<and>
   outs en ops [(17, lo), (18, hi)] m = Ok () (m\<lparr>m_DPH := le16 lo hi, m_FDCST := 0\<rparr>) \<and>
   In ops 15 (m\<lparr>m_DMA := le16 lo hi\<rparr>) = Ok lo (m\<lparr>m_DMA := le16 lo hi\<rparr>) \<and>
   In ops 16 (m\<lparr>m_DMA := le16 lo hi\<rparr>) = Ok hi (m\<lparr>m_DMA := le16 lo hi\<rparr>)"
  by (simp add: Out_def In_def port_numbers set_low_high)

text \<open>
  The outcomes of a drive selection: either status 0, and then the drive is one of A to D, H or
  I, it exists and is current; or status 1, and then no drive is current or nothing changed. Drive
  J (number 9) is always refused.
\<close>

theorem selectdisk_result:
  assumes "selectdisk en i pb tbl m = Ok r m'" and "cpu_wf m"
  shows "(r = 0 \<and> i \<in> {0, 1, 2, 3, 7, 8} \<and> currentdrive m' = i \<and> diskptr m' ! i \<noteq> None) \<or>
     (r = 1 \<and> (currentdrive m' = MAXDRIVE \<or> m' = m))"
proof (cases "(i < 4 \<or> i = 7 \<or> i = 8) \<and> i \<noteq> currentdrive m")
  case True
  then have i: "i < MAXDRIVE" "i \<in> {0, 1, 2, 3, 7, 8}" by (auto simp: MAXDRIVE_def)
  have guard: "i < MAXDRIVE \<and> (i < 4 \<or> i = 7 \<or> i = 8)" and other: "i \<noteq> currentdrive m" using True i(1) by auto
  obtain m1 where m1: "leave_drive en m = Ok () m1"
    using assms(1) True i(1) by (cases "leave_drive en m") (auto simp: selectdisk_def Let_def)
  have "length (diskptr m1) = MAXDRIVE"
    using leave_drive_frame(2) [of en m] m1 assms(2) by (simp add: cpu_wf_def)
  then have "(r = 0 \<and> currentdrive m' = i \<and> diskptr m' ! i \<noteq> None) \<or> (r = 1 \<and> currentdrive m' = MAXDRIVE)"
    using assms(1) i(1) m1 unfolding selectdisk_def Let_def if_P [OF guard] if_P [OF other]
    by (auto split: sum.splits option.splits node.splits outcome.splits)
  then show ?thesis using i(2) by blast
next
  case False
  then show ?thesis
    using assms by (auto simp: selectdisk_def Let_def cpu_wf_def MAXDRIVE_def split: if_splits)
qed

definition h00 :: host where "h00 = \<lparr>nodes = [], denied = (\<lambda>_. False)\<rparr>"

definition en0 :: env where
  "en0 = \<lparr>diskspath = ''.'', stale = [], sockno = -1, wresults = [], newfd = 5, lockres = 0, unlockres = 0\<rparr>"

theorem selectdisk_result_witness:
  "selectdisk en0 9 DPB_IBM8 TRANS_IBM8 (cpu_new () (\<lambda>_. 0) h00) = Ok 1 (cpu_new () (\<lambda>_. 0) h00) \<and>
   ((1::nat) = 0 \<and> (9::nat) \<in> {0, 1, 2, 3, 7, 8} \<and> currentdrive (cpu_new () (\<lambda>_. 0) h00) = 9 \<and>
      diskptr (cpu_new () (\<lambda>_. 0) h00) ! 9 \<noteq> None \<or>
    (1::nat) = 1 \<and> (currentdrive (cpu_new () (\<lambda>_. 0) h00) = MAXDRIVE \<or>
      cpu_new () (\<lambda>_. 0) h00 = cpu_new () (\<lambda>_. 0) h00))"
proof -
  have s: "selectdisk en0 9 DPB_IBM8 TRANS_IBM8 (cpu_new () (\<lambda>_. 0) h00) = Ok 1 (cpu_new () (\<lambda>_. 0) h00)"
    by (simp add: selectdisk_def Let_def)
  from selectdisk_result [OF s cpu_wf_new] s show ?thesis by (rule conjI [rotated])
qed

text \<open>
  Power on loads the boot sector at address 0: the first 128 bytes of the external file when it
  has that many, and the built-in loader otherwise (over what a short file left behind).
\<close>

theorem boot_loaded:
  assumes "length boot < 65536"
  shows "\<exists>m'. initBIOS ops bootsector boot m = Ok () m' \<and>
     m_ram m' = (case host_lookup (hostfs m) bootsector of
        Some (Reg f) \<Rightarrow> if 128 \<le> length f then stored 0 (take 128 f) (m_ram m)
                        else stored 0 boot (stored 0 f (m_ram m))
      | _ \<Rightarrow> stored 0 boot (m_ram m))"
proof -
  have sz: "unat (of_nat (length boot) :: u16) = length boot"
    using assms by (simp add: unat_of_nat_u16)
  have load: "\<exists>m''. cpu_writemem ops boot 0 (of_nat (length boot)) m1 = Ok () m'' \<and>
      m_ram m'' = stored 0 boot (m_ram m1)" for m1
    using writemem_eq [of "of_nat (length boot)" boot 0 "m_ram m1"] sz by (simp add: cpu_writemem_def)
  show ?thesis
  proof (cases "\<exists>f. host_lookup (hostfs m) bootsector = Some (Reg f)")
    case True
    then obtain f where f: "host_lookup (hostfs m) bootsector = Some (Reg f)" by blast
    show ?thesis
      using f load [of "m\<lparr>z80 := busrequest ops True (z80 m), m_ram := stored 0 f (m_ram m)\<rparr>"]
      by (auto simp: initBIOS_def writemem_stream_result)
  next
    case False
    then have "initBIOS ops bootsector boot m = cpu_writemem ops boot 0 (of_nat (length boot)) m"
      by (auto simp: initBIOS_def split: option.splits node.splits)
    with load [of m] False show ?thesis by (auto split: option.splits node.splits)
  qed
qed

definition zops0 :: "unit z80_ops" where
  "zops0 = \<lparr>clearClock = id, Clock = (\<lambda>_. 0), setDE = (\<lambda>_. id), setHL = (\<lambda>_. id),
            busrequest = (\<lambda>_. id), setPower = (\<lambda>_. id)\<rparr>"

theorem boot_loaded_witness:
  "\<exists>m'. initBIOS zops0 ''boot.bin'' [0xC3, 0, 1] (cpu_new () (\<lambda>_. 0) h00) = Ok () m' \<and>
     m_ram m' = stored 0 [0xC3, 0, 1] (\<lambda>_. 0)"
  using boot_loaded [of "[0xC3, 0, 1]" zops0 "''boot.bin''" "cpu_new () (\<lambda>_. 0) h00"]
  by (simp add: cpu_new_def h00_def host_lookup_def)

text \<open>
  A breakpoint with a finite count is reported that many times: each instruction fetched at
  its address takes one off, down to zero.
\<close>

theorem breakpoint_countdown:
  assumes "breakpoints m a = Some n" and "n \<noteq> 0xFFFF" and "k \<le> unat n"
  shows "breakpoints ((hit_breakpoint a ^^ k) m) a = Some (n - of_nat k)"
  using assms(3)
proof (induction k)
  case 0
  with assms show ?case by simp
next
  case (Suc k)
  then have ih: "breakpoints ((hit_breakpoint a ^^ k) m) a = Some (n - of_nat k)" by simp
  have u: "unat (n - of_nat k) = unat n - k" using Suc.prems by (intro unat_minus_piece) simp
  have "n - of_nat k \<noteq> 0" using u Suc.prems by (auto simp: unat_eq_zero [symmetric])
  moreover have "n - of_nat k \<noteq> 0xFFFF"
  proof
    assume "n - of_nat k = 0xFFFF"
    then have "unat n - k = 0xFFFF" using u by simp
    moreover have "unat n < 65536" by (rule unat_u16_lt)
    ultimately have "unat n = 65535" by linarith
    then have "unat n = unat (0xFFFF :: u16)" by simp
    with assms(2) show False by (simp only: word_unat_eq_iff)
  qed
  ultimately show ?case using ih
    by (simp add: hit_breakpoint_def [of a "(hit_breakpoint a ^^ k) m"] diff_diff_eq add.commute)
qed

theorem breakpoint_countdown_witness:
  "breakpoints ((hit_breakpoint 0x100 ^^ 2) (setBrk 0x100 3 (cpu_new () (\<lambda>_. 0) h00))) 0x100 = Some (3 - of_nat 2)"
  by (rule breakpoint_countdown) (simp_all add: setBrk_def)

section \<open>Monitor and main program\<close>

text \<open>
  Numbers given to the monitor: a decimal number and a hexadecimal one with the prefix \<open>0x\<close> are
  read as what they denote, over the whole range of addresses, and leave nothing behind.
\<close>

theorem monitor_numbers:
  assumes "n < 65536"
  shows "get_uint16 (nat_string n) = (Some (of_nat n), []) \<and>
     get_uint16 (''0x'' @ hex_string n) = (Some (of_nat n), [])"
  using get_uint16_decimal [OF assms, of "[]"] get_uint16_hex [OF assms, of "[]"] by simp

theorem monitor_numbers_witness:
  "get_uint16 (nat_string 100) = (Some (of_nat 100), []) \<and> get_uint16 (''0x'' @ hex_string 100) = (Some (of_nat 100), [])"
  using monitor_numbers [of 100] by simp

text \<open>
  A dump shows the memory asked for only if that memory holds no blank, tab, line or page end:
  the bytes are taken with formatted extraction, which skips white space, and the bytes missing
  at the end are uninitialised.
\<close>

theorem dump_defined:
  "is_ok (dump ram a cnt m) \<longleftrightarrow> (\<forall>b \<in> set (readmem ram a cnt). \<not> is_space (byte_char b))"
  by (rule dump_Ok)

theorem dump_defined_witness: "\<not> is_ok (dump (\<lambda>_. 0x20) 0x100 1 \<lparr>pc = None, mhz = (), shown = []\<rparr>)"
  using dump_defined [of "\<lambda>_. 0x20" "0x100" 1 "\<lparr>pc = None, mhz = (), shown = []\<rparr>"]
  by (simp add: readmem_eq is_space_def byte_char_def)

text \<open>
  The message filter is inverted: with verbosity 1 to 3, a message of a level is shown exactly
  when the verbosity does not exceed the level, so verbosity 3 shows only informational messages
  and verbosity 1 shows all; verbosity 0 shows none.
\<close>

theorem log_filter:
  assumes "0 \<le> v" and "v \<le> 3"
  shows "log_shown v L \<longleftrightarrow> v \<noteq> 0 \<and> nat v \<le> level_num L"
  using assms by (auto simp: log_shown_def)

theorem log_filter_witness: "\<not> log_shown 3 LERR"
  using log_filter [of 3 LERR] by simp

text \<open>
  \<open>split\<close> inverts joining: the pieces contain no delimiter, and putting a delimiter after each
  gives the text back, with a final delimiter added unless it had one (or was empty).
\<close>

theorem split_join:
  "concat (map (\<lambda>p. p @ [delim]) (split s delim [])) =
     s @ (if s = [] \<or> last s = delim then [] else [delim]) \<and>
   list_all (\<lambda>p. delim \<notin> set p) (split s delim [])"
  using split_pieces_join [of delim "[]" s] split_pieces_clean [of delim "[]" s]
  by (auto simp: split_def list_all_iff)

section \<open>Command line\<close>






end
