(* ===== verification/Aztec_Qsort.thy ===== *)
theory Aztec_Qsort
  imports CPM_Prelude "HOL-Library.Multiset"
begin

text \<open>
  \<^verbatim>\<open>disks/I/2/QSORT.C\<close>: the non-recursive quicksort of the C library on the emulator's disks.

  The array is the list of its elements. A pointer into it is the index of the element it points
  to, counted from the array passed in; it is an integer because \<open>j\<close> may step in front of the array.
  The comparison function is an argument, called on the elements pointed to. A comparison or a
  swap outside the array, and a push on the full stack of 16 requests, are undefined. Pointer
  differences are signed 16-bit byte counts, their quotient by the unsigned \<open>size\<close> is unsigned.
\<close>

type_synonym 'a compar = "'a \<Rightarrow> 'a \<Rightarrow> int"

definition elem :: "'a list \<Rightarrow> int \<Rightarrow> 'a option" where
  "elem xs i = (if 0 \<le> i \<and> i < int (length xs) then Some (xs ! nat i) else None)"

definition cmp_at :: "'a compar \<Rightarrow> 'a list \<Rightarrow> int \<Rightarrow> int \<Rightarrow> int option" where
  "cmp_at cmp xs i j =
     (case (elem xs i, elem xs j) of (Some a, Some b) \<Rightarrow> Some (cmp a b) | _ \<Rightarrow> None)"

text \<open>The two scans, \<open>None\<close> when they leave the array.\<close>

function scan_up :: "'a compar \<Rightarrow> 'a list \<Rightarrow> int \<Rightarrow> int \<Rightarrow> int option" where
  "scan_up cmp xs x i =
     (case cmp_at cmp xs i x of
        None \<Rightarrow> None
      | Some c \<Rightarrow> if c < 0 then scan_up cmp xs x (i + 1) else Some i)"
  by pat_completeness auto
termination
  by (relation "measure (\<lambda>(cmp, xs, x, i). nat (int (length xs) - i))")
    (auto simp: cmp_at_def elem_def split: option.splits if_splits)

function scan_down :: "'a compar \<Rightarrow> 'a list \<Rightarrow> int \<Rightarrow> int \<Rightarrow> int option" where
  "scan_down cmp xs x j =
     (case cmp_at cmp xs x j of
        None \<Rightarrow> None
      | Some c \<Rightarrow> if c < 0 then scan_down cmp xs x (j - 1) else Some j)"
  by pat_completeness auto
termination
  by (relation "measure (\<lambda>(cmp, xs, x, j). nat (j + 1))")
    (auto simp: cmp_at_def elem_def split: option.splits if_splits)

declare scan_up.simps [simp del] scan_down.simps [simp del]

definition swapmem :: "'a list \<Rightarrow> int \<Rightarrow> int \<Rightarrow> 'a list" where
  "swapmem xs i j = xs[nat i := xs ! nat j, nat j := xs ! nat i]"

text \<open>The inner \<open>do\<close> loop; \<open>x\<close> follows the pivot element when it is swapped.\<close>

lemma scan_up_ge: "scan_up cmp xs x i = Some i' \<Longrightarrow> i \<le> i'"
  by (induction cmp xs x i rule: scan_up.induct)
    (subst (asm) (2) scan_up.simps, auto split: option.splits if_splits)

lemma scan_down_le: "scan_down cmp xs x j = Some j' \<Longrightarrow> j' \<le> j"
  by (induction cmp xs x j rule: scan_down.induct)
    (subst (asm) (2) scan_down.simps, auto split: option.splits if_splits)

function part_loop ::
  "'a compar \<Rightarrow> 'a list \<Rightarrow> int \<Rightarrow> int \<Rightarrow> int \<Rightarrow> (int \<times> int, 'a list) outcome" where
  "part_loop cmp xs x i j =
     (case scan_up cmp xs x i of
        None \<Rightarrow> Fail (Undefined OutOfBounds) xs
      | Some i1 \<Rightarrow>
          (case scan_down cmp xs x j of
             None \<Rightarrow> Fail (Undefined OutOfBounds) xs
           | Some j1 \<Rightarrow>
               let (ys, y) = (if i1 < j1
                              then (swapmem xs i1 j1, if i1 = x then j1 else if j1 = x then i1 else x)
                              else (xs, x));
                   (i2, j2) = (if i1 \<le> j1 then (i1 + 1, j1 - 1) else (i1, j1))
               in if i2 \<le> j2 then part_loop cmp ys y i2 j2 else Ok (i2, j2) ys))"
  by pat_completeness auto
termination
proof (relation "measure (\<lambda>(cmp, xs, x, i, j). nat (j - i + 1))", goal_cases)
  case 1
  then show ?case by simp
next
  case (2 cmp xs x i j i1 j1 p ys y q i2 j2)
  then show ?case using scan_up_ge [OF 2(1)] scan_down_le [OF 2(2)]
    by (auto split: if_splits)
qed

declare part_loop.simps [simp del]

section \<open>The request stack\<close>

definition pdiff :: "nat \<Rightarrow> int \<Rightarrow> int \<Rightarrow> int" where
  "pdiff sz a b = sint (of_int ((a - b) * int sz) :: u16)"

definition mid :: "nat \<Rightarrow> int \<Rightarrow> int \<Rightarrow> int" where
  "mid sz base r = base + int (unat (of_int ((r - base) * int sz) :: u16) div sz div 2)"

type_synonym requests = "(int \<times> int) list"

definition push :: "int \<times> int \<Rightarrow> requests \<Rightarrow> requests option" where
  "push p stk = (if length stk < 16 then Some (p # stk) else None)"

text \<open>One pass of the \<open>do\<close> loop: the partition to continue with and the stack.\<close>

definition split_pass ::
  "'a compar \<Rightarrow> nat \<Rightarrow> 'a list \<Rightarrow> int \<Rightarrow> int \<Rightarrow> requests \<Rightarrow>
   (int \<times> int \<times> requests, 'a list) outcome" where
  "split_pass cmp sz xs base r stk =
     bindo (part_loop cmp xs (mid sz base r) base r)
       (\<lambda>(i, j) ys.
          if pdiff sz j base < pdiff sz r i
          then (case (if i < r then push (i, r) stk else Some stk) of
                  None \<Rightarrow> Fail (Undefined OutOfBounds) ys
                | Some stk' \<Rightarrow> Ok (base, j, stk') ys)
          else (case (if base < j then push (base, j) stk else Some stk) of
                  None \<Rightarrow> Fail (Undefined OutOfBounds) ys
                | Some stk' \<Rightarrow> Ok (i, r, stk') ys))"

text \<open>Where the loops go on: the same partition, a stacked one, or nowhere.\<close>

fun next_part :: "int \<times> int \<times> requests \<Rightarrow> (int \<times> int \<times> requests) option" where
  "next_part (base, r, stk) =
     (if base < r then Some (base, r, stk)
      else case stk of [] \<Rightarrow> None | (l, r') # stk' \<Rightarrow> Some (l, r', stk'))"

text \<open>
  The loops need not end for a comparison function that is no order; \<open>None\<close> stands for that.
\<close>

partial_function (option) qsort_loop ::
  "'a compar \<Rightarrow> nat \<Rightarrow> 'a list \<Rightarrow> int \<times> int \<times> requests \<Rightarrow> (unit, 'a list) outcome option" where
  [code]: "qsort_loop cmp sz xs st =
     (case split_pass cmp sz xs (fst st) (fst (snd st)) (snd (snd st)) of
        Fail e ys \<Rightarrow> Some (Fail e ys)
      | Ok st' ys \<Rightarrow>
          (case next_part st' of
             None \<Rightarrow> Some (Ok () ys)
           | Some st'' \<Rightarrow> qsort_loop cmp sz ys st''))"

definition qsort :: "'a compar \<Rightarrow> nat \<Rightarrow> 'a list \<Rightarrow> (unit, 'a list) outcome option" where
  "qsort cmp sz xs = qsort_loop cmp sz xs (0, int (length xs) - 1, [])"

section \<open>Partitioning\<close>

text \<open>
  What a comparison function has to be: the strict part of a total preorder. \<open>before cmp a b\<close> is
  that preorder.
\<close>

definition weak_order :: "'a compar \<Rightarrow> bool" where
  "weak_order cmp \<longleftrightarrow>
     (\<forall>a b. cmp a b < 0 \<longrightarrow> \<not> cmp b a < 0) \<and>
     (\<forall>a b c. cmp a b < 0 \<longrightarrow> cmp a c < 0 \<or> cmp c b < 0)"

definition before :: "'a compar \<Rightarrow> 'a \<Rightarrow> 'a \<Rightarrow> bool" where
  "before cmp a b \<longleftrightarrow> \<not> cmp b a < 0"

lemma before_trans: "weak_order cmp \<Longrightarrow> before cmp a b \<Longrightarrow> before cmp b c \<Longrightarrow> before cmp a c"
  unfolding weak_order_def before_def by blast

lemma before_refl: "weak_order cmp \<Longrightarrow> before cmp a a"
  unfolding weak_order_def before_def by blast

lemma before_less: "weak_order cmp \<Longrightarrow> cmp a b < 0 \<Longrightarrow> before cmp a b"
  unfolding weak_order_def before_def by blast

abbreviation (input) at :: "'a list \<Rightarrow> int \<Rightarrow> 'a" where
  "at xs k \<equiv> xs ! nat k"

lemma cmp_at_in:
  "0 \<le> i \<Longrightarrow> i < int (length xs) \<Longrightarrow> 0 \<le> j \<Longrightarrow> j < int (length xs) \<Longrightarrow>
   cmp_at cmp xs i j = Some (cmp (at xs i) (at xs j))"
  by (simp add: cmp_at_def elem_def)

lemma scan_up_stops:
  assumes "0 \<le> i" "i \<le> k" "k < int (length xs)" "0 \<le> x" "x < int (length xs)"
    and "before cmp (at xs x) (at xs k)"
  shows "\<exists>i1. scan_up cmp xs x i = Some i1 \<and> i \<le> i1 \<and> i1 \<le> k \<and> before cmp (at xs x) (at xs i1) \<and>
           (\<forall>m. i \<le> m \<and> m < i1 \<longrightarrow> cmp (at xs m) (at xs x) < 0)"
  using assms
proof (induction cmp xs x i rule: scan_up.induct)
  case (1 cmp xs x i)
  show ?case
  proof (cases "cmp (at xs i) (at xs x) < 0")
    case True
    then have "i \<noteq> k" using "1.prems" by (auto simp: before_def)
    then obtain i1 where "scan_up cmp xs x (i + 1) = Some i1" "i + 1 \<le> i1" "i1 \<le> k"
      "before cmp (at xs x) (at xs i1)" "\<forall>m. i + 1 \<le> m \<and> m < i1 \<longrightarrow> cmp (at xs m) (at xs x) < 0"
      using "1.IH" [of "cmp (at xs i) (at xs x)"] "1.prems" True by (auto simp: cmp_at_in)
    moreover have "\<forall>m. i \<le> m \<and> m < i1 \<longrightarrow> cmp (at xs m) (at xs x) < 0"
    proof (intro allI impI)
      fix m assume "i \<le> m \<and> m < i1"
      then show "cmp (at xs m) (at xs x) < 0"
        using True calculation(5) by (cases "m = i") auto
    qed
    ultimately show ?thesis using True "1.prems" by (subst scan_up.simps) (auto simp: cmp_at_in)
  next
    case False
    then show ?thesis using "1.prems" by (subst scan_up.simps) (auto simp: cmp_at_in before_def)
  qed
qed

lemma scan_down_stops:
  assumes "0 \<le> k" "k \<le> j" "j < int (length xs)" "0 \<le> x" "x < int (length xs)"
    and "before cmp (at xs k) (at xs x)"
  shows "\<exists>j1. scan_down cmp xs x j = Some j1 \<and> j1 \<le> j \<and> k \<le> j1 \<and> before cmp (at xs j1) (at xs x) \<and>
           (\<forall>m. j1 < m \<and> m \<le> j \<longrightarrow> cmp (at xs x) (at xs m) < 0)"
  using assms
proof (induction cmp xs x j rule: scan_down.induct)
  case (1 cmp xs x j)
  show ?case
  proof (cases "cmp (at xs x) (at xs j) < 0")
    case True
    then have "j \<noteq> k" using "1.prems" by (auto simp: before_def)
    then obtain j1 where "scan_down cmp xs x (j - 1) = Some j1" "j1 \<le> j - 1" "k \<le> j1"
      "before cmp (at xs j1) (at xs x)" "\<forall>m. j1 < m \<and> m \<le> j - 1 \<longrightarrow> cmp (at xs x) (at xs m) < 0"
      using "1.IH" [of "cmp (at xs x) (at xs j)"] "1.prems" True by (auto simp: cmp_at_in)
    moreover have "\<forall>m. j1 < m \<and> m \<le> j \<longrightarrow> cmp (at xs x) (at xs m) < 0"
    proof (intro allI impI)
      fix m assume "j1 < m \<and> m \<le> j"
      then show "cmp (at xs x) (at xs m) < 0"
        using True calculation(5) by (cases "m = j") auto
    qed
    ultimately show ?thesis using True "1.prems" by (subst scan_down.simps) (auto simp: cmp_at_in)
  next
    case False
    then show ?thesis using "1.prems" by (subst scan_down.simps) (auto simp: cmp_at_in before_def)
  qed
qed

text \<open>A rearrangement inside the segment from \<open>l\<close> to \<open>h\<close>.\<close>

definition rearranged :: "int \<Rightarrow> int \<Rightarrow> 'a list \<Rightarrow> 'a list \<Rightarrow> bool" where
  "rearranged l h xs ys \<longleftrightarrow> mset ys = mset xs \<and>
     (\<forall>k. 0 \<le> k \<and> (k < l \<or> h < k) \<longrightarrow> at ys k = at xs k) \<and>
     (\<forall>k. l \<le> k \<and> k \<le> h \<longrightarrow> (\<exists>m. l \<le> m \<and> m \<le> h \<and> at ys k = at xs m))"

lemma rearranged_length: "rearranged l h xs ys \<Longrightarrow> length ys = length xs"
  by (auto simp: rearranged_def dest: mset_eq_length)

lemma rearranged_refl: "rearranged l h xs xs"
  by (auto simp: rearranged_def)

lemma rearranged_trans: "rearranged l h xs ys \<Longrightarrow> rearranged l h ys zs \<Longrightarrow> rearranged l h xs zs"
  unfolding rearranged_def by metis

lemma at_swapmem:
  assumes "0 \<le> i" "i < int (length xs)" "0 \<le> j" "j < int (length xs)" "0 \<le> k" "k < int (length xs)"
  shows "at (swapmem xs i j) k = (if k = i then at xs j else if k = j then at xs i else at xs k)"
  using assms by (auto simp: swapmem_def nth_list_update nat_eq_iff)

lemma length_swapmem [simp]: "length (swapmem xs i j) = length xs"
  by (simp add: swapmem_def)

lemma rearranged_swapmem:
  assumes "0 \<le> l" "l \<le> i" "i \<le> h" "l \<le> j" "j \<le> h" "h < int (length xs)"
  shows "rearranged l h xs (swapmem xs i j)"
proof -
  have "mset (swapmem xs i j) = mset xs" unfolding swapmem_def by (rule mset_swap) (use assms in auto)
  moreover have "at (swapmem xs i j) k = at xs k" if "0 \<le> k" "k < l \<or> h < k" for k
    using that assms by (auto simp: swapmem_def nth_list_update nat_eq_iff)
  moreover have "\<exists>m. l \<le> m \<and> m \<le> h \<and> at (swapmem xs i j) k = at xs m" if "l \<le> k" "k \<le> h" for k
    using that assms by (auto simp: at_swapmem)
  ultimately show ?thesis by (auto simp: rearranged_def)
qed

text \<open>The loop invariant: what is known of the elements passed by \<open>i\<close> and by \<open>j\<close>.\<close>

definition passed :: "'a compar \<Rightarrow> int \<Rightarrow> int \<Rightarrow> 'a list \<Rightarrow> int \<Rightarrow> int \<Rightarrow> int \<Rightarrow> bool" where
  "passed cmp base r xs x i j \<longleftrightarrow>
     0 \<le> base \<and> base \<le> i \<and> j \<le> r \<and> r < int (length xs) \<and> base \<le> x \<and> x \<le> r \<and>
     i \<le> r + 1 \<and> base - 1 \<le> j \<and>
     (\<forall>k. base \<le> k \<and> k < i \<longrightarrow> before cmp (at xs k) (at xs x)) \<and>
     (\<forall>k. j < k \<and> k \<le> r \<longrightarrow> before cmp (at xs x) (at xs k))"

text \<open>An element in front of each scan that stops it.\<close>

definition stoppers :: "'a compar \<Rightarrow> int \<Rightarrow> int \<Rightarrow> 'a list \<Rightarrow> int \<Rightarrow> int \<Rightarrow> int \<Rightarrow> bool" where
  "stoppers cmp base r xs x i j \<longleftrightarrow>
     (\<exists>k. i \<le> k \<and> k \<le> r \<and> before cmp (at xs x) (at xs k)) \<and>
     (\<exists>k. base \<le> k \<and> k \<le> j \<and> before cmp (at xs k) (at xs x))"

lemma scans_stop:
  assumes w: "weak_order cmp" and p: "passed cmp base r xs x i j" and s: "stoppers cmp base r xs x i j"
  obtains i1 j1 where "scan_up cmp xs x i = Some i1" "scan_down cmp xs x j = Some j1"
    "i \<le> i1" "i1 \<le> r" "base \<le> j1" "j1 \<le> j"
    "before cmp (at xs x) (at xs i1)" "before cmp (at xs j1) (at xs x)"
    "passed cmp base r xs x i1 j1"
    "i \<le> x \<and> x \<le> j \<longrightarrow> i1 \<le> x \<and> x \<le> j1"
proof -
  from s obtain k m where k: "i \<le> k" "k \<le> r" "before cmp (at xs x) (at xs k)"
    and m: "base \<le> m" "m \<le> j" "before cmp (at xs m) (at xs x)" by (auto simp: stoppers_def)
  define k' where "k' = (if i \<le> x \<and> x \<le> j then x else k)"
  define m' where "m' = (if i \<le> x \<and> x \<le> j then x else m)"
  have k': "i \<le> k'" "k' \<le> r" "before cmp (at xs x) (at xs k')"
    and m': "base \<le> m'" "m' \<le> j" "before cmp (at xs m') (at xs x)"
    using k m p before_refl [OF w] by (auto simp: k'_def m'_def passed_def)
  obtain i1 where i1: "scan_up cmp xs x i = Some i1" "i \<le> i1" "i1 \<le> k'" "before cmp (at xs x) (at xs i1)"
    "\<forall>m. i \<le> m \<and> m < i1 \<longrightarrow> cmp (at xs m) (at xs x) < 0"
    using scan_up_stops [of i k' xs x cmp] k' p by (auto simp: passed_def)
  obtain j1 where j1: "scan_down cmp xs x j = Some j1" "j1 \<le> j" "m' \<le> j1" "before cmp (at xs j1) (at xs x)"
    "\<forall>m. j1 < m \<and> m \<le> j \<longrightarrow> cmp (at xs x) (at xs m) < 0"
    using scan_down_stops [of m' j xs x cmp] m' p by (auto simp: passed_def)
  have up: "before cmp (at xs m) (at xs x)" if "i \<le> m" "m < i1" for m
    using i1(5) that before_less [OF w] by blast
  have down: "before cmp (at xs x) (at xs m)" if "j1 < m" "m \<le> j" for m
    using j1(5) that before_less [OF w] by blast
  have "passed cmp base r xs x i1 j1"
    using p i1 j1 k' m' up down unfolding passed_def by (smt (verit, del_insts))
  moreover have "i1 \<le> x \<and> x \<le> j1" if "i \<le> x \<and> x \<le> j"
    using that i1(3) j1(3) by (simp add: k'_def m'_def)
  ultimately show ?thesis
    using i1 j1 k' m' p by (intro that [of i1 j1]) (auto simp: passed_def)
qed

text \<open>A swap keeps the pivot element under \<open>x\<close> and lets both pointers pass.\<close>

lemma passed_swap:
  assumes p: "passed cmp base r xs x i1 j1" and lt: "i1 < j1"
    and ge: "before cmp (at xs x) (at xs i1)" and le: "before cmp (at xs j1) (at xs x)"
    and y: "y = (if i1 = x then j1 else if j1 = x then i1 else x)"
  shows "passed cmp base r (swapmem xs i1 j1) y (i1 + 1) (j1 - 1)"
    and "i1 + 1 \<le> j1 - 1 \<Longrightarrow> stoppers cmp base r (swapmem xs i1 j1) y (i1 + 1) (j1 - 1)"
proof -
  let ?ys = "swapmem xs i1 j1"
  have bounds: "0 \<le> base" "base \<le> i1" "j1 \<le> r" "r < int (length xs)" "base \<le> x" "x \<le> r"
    using p by (auto simp: passed_def)
  have at: "at ?ys k = (if k = i1 then at xs j1 else if k = j1 then at xs i1 else at xs k)"
    if "base \<le> k" "k \<le> r" for k
    using that bounds lt by (intro at_swapmem) auto
  have yr: "base \<le> y" "y \<le> r" using y bounds lt by auto
  have piv: "at ?ys y = at xs x" using y at [of y] bounds lt by auto
  have lo: "before cmp (at ?ys k) (at xs x)" if "base \<le> k" "k < i1 + 1" for k
    using that p le at [of k] bounds lt by (auto simp: passed_def)
  have hi: "before cmp (at xs x) (at ?ys k)" if "j1 - 1 < k" "k \<le> r" for k
    using that p ge at [of k] bounds lt by (auto simp: passed_def)
  show "passed cmp base r ?ys y (i1 + 1) (j1 - 1)"
    using bounds lt yr lo hi unfolding passed_def piv by auto
  assume "i1 + 1 \<le> j1 - 1"
  then show "stoppers cmp base r ?ys y (i1 + 1) (j1 - 1)"
    unfolding stoppers_def piv using hi [of j1] lo [of i1] bounds lt by (intro conjI exI [of _ j1] exI [of _ i1]) auto
qed

text \<open>Meeting at one element lets both pointers pass it.\<close>

lemma passed_meet:
  assumes "passed cmp base r xs x i1 i1"
    and "before cmp (at xs x) (at xs i1)" and "before cmp (at xs i1) (at xs x)"
  shows "passed cmp base r xs x (i1 + 1) (i1 - 1)"
  using assms unfolding passed_def by (smt (verit))

lemma part_loop_partitions:
  assumes "weak_order cmp" "passed cmp base r xs x i j" "stoppers cmp base r xs x i j"
  shows "\<exists>i' j' ys y. part_loop cmp xs x i j = Ok (i', j') ys \<and> j' < i' \<and> i \<le> i' \<and> j' \<le> j \<and>
           passed cmp base r ys y i' j' \<and> rearranged base r xs ys \<and>
           (i \<le> x \<and> x \<le> j \<longrightarrow> i < i' \<and> j' < j)"
  using assms
proof (induction cmp xs x i j rule: part_loop.induct)
  case (1 cmp xs x i j)
  obtain i1 j1 where s: "scan_up cmp xs x i = Some i1" "scan_down cmp xs x j = Some j1"
    "i \<le> i1" "i1 \<le> r" "base \<le> j1" "j1 \<le> j"
    "before cmp (at xs x) (at xs i1)" "before cmp (at xs j1) (at xs x)"
    "passed cmp base r xs x i1 j1" "i \<le> x \<and> x \<le> j \<longrightarrow> i1 \<le> x \<and> x \<le> j1"
    by (rule scans_stop [OF "1.prems"])
  have b: "0 \<le> base" "base \<le> i" "j \<le> r" "r < int (length xs)" using "1.prems"(2) by (auto simp: passed_def)
  consider (swap) "i1 < j1" | (meet) "i1 = j1" | (crossed) "j1 < i1" by linarith
  then show ?case
  proof cases
    case swap
    define ys y where "ys = swapmem xs i1 j1" and "y = (if i1 = x then j1 else if j1 = x then i1 else x)"
    have ps: "passed cmp base r ys y (i1 + 1) (j1 - 1)"
      "i1 + 1 \<le> j1 - 1 \<Longrightarrow> stoppers cmp base r ys y (i1 + 1) (j1 - 1)"
      unfolding ys_def by (rule passed_swap [OF s(9) swap s(7,8) y_def])+
    have re: "rearranged base r xs ys"
      unfolding ys_def by (rule rearranged_swapmem) (use b s swap in auto)
    have unf: "part_loop cmp xs x i j =
        (if i1 + 1 \<le> j1 - 1 then part_loop cmp ys y (i1 + 1) (j1 - 1) else Ok (i1 + 1, j1 - 1) ys)"
      using s(1,2) swap by (subst part_loop.simps) (auto simp: ys_def y_def Let_def)
    show ?thesis
    proof (cases "i1 + 1 \<le> j1 - 1")
      case True
      have "\<exists>i' j' zs z. part_loop cmp ys y (i1 + 1) (j1 - 1) = Ok (i', j') zs \<and> j' < i' \<and> i1 + 1 \<le> i' \<and>
          j' \<le> j1 - 1 \<and> passed cmp base r zs z i' j' \<and> rearranged base r ys zs \<and>
          (i1 + 1 \<le> y \<and> y \<le> j1 - 1 \<longrightarrow> i1 + 1 < i' \<and> j' < j1 - 1)"
        by (rule "1.IH" [OF s(1,2)]) (use swap True ps "1.prems"(1) in \<open>auto simp: ys_def y_def\<close>)
      then show ?thesis using unf True s(3,6) rearranged_trans [OF re] by (auto; fastforce)
    next
      case False
      then show ?thesis using unf ps re s swap by auto
    qed
  next
    case meet
    then have "part_loop cmp xs x i j = Ok (i1 + 1, i1 - 1) xs"
      using s(1,2) by (subst part_loop.simps) auto
    moreover have "passed cmp base r xs x (i1 + 1) (i1 - 1)"
      using passed_meet s(7-9) meet by blast
    ultimately show ?thesis using s meet rearranged_refl by auto
  next
    case crossed
    then have "part_loop cmp xs x i j = Ok (i1, j1) xs"
      using s(1,2) by (subst part_loop.simps) auto
    then show ?thesis using s crossed rearranged_refl by auto
  qed
qed

section \<open>Pending partitions\<close>

text \<open>
  Two elements are in order unless a pending partition contains both; pending partitions do not
  overlap; the partition at depth \<open>k\<close> of the stack has at most the \<open>2 ^ k\<close>th part of the array.
\<close>

definition ordered :: "'a compar \<Rightarrow> 'a list \<Rightarrow> (int \<times> int) set \<Rightarrow> bool" where
  "ordered cmp xs S \<longleftrightarrow>
     (\<forall>a b. 0 \<le> a \<and> a < b \<and> b < int (length xs) \<longrightarrow>
        before cmp (at xs a) (at xs b) \<or> (\<exists>(l, h) \<in> S. l \<le> a \<and> b \<le> h))"

fun apart :: "requests \<Rightarrow> bool" where
  "apart [] = True"
| "apart ((l, h) # s) = ((\<forall>(a, b) \<in> set s. b < l \<or> h < a) \<and> apart s)"

fun fits :: "int \<Rightarrow> requests \<Rightarrow> bool" where
  "fits n [] = True"
| "fits n ((l, h) # s) =
     (0 \<le> l \<and> l < h \<and> h < n \<and> (h - l + 1) * 2 ^ length s \<le> n \<and> fits n s)"

definition weight :: "requests \<Rightarrow> nat" where
  "weight s = sum_list (map (\<lambda>(l, h). nat (2 * (h - l) + 1)) s)"

lemma ordered_trivial:
  assumes "h \<le> l"
  shows "ordered cmp xs (insert (l, h) S) \<longleftrightarrow> ordered cmp xs S"
proof -
  have "(\<exists>(l', h') \<in> insert (l, h) S. l' \<le> a \<and> b \<le> h') \<longleftrightarrow> (\<exists>(l', h') \<in> S. l' \<le> a \<and> b \<le> h')"
    if "a < b" for a b
    using that assms by auto
  then show ?thesis unfolding ordered_def by blast
qed

lemma ordered_empty:
  assumes "ordered cmp xs {}"
  shows "sorted_wrt (before cmp) xs"
proof (unfold sorted_wrt_iff_nth_less, intro allI impI)
  fix i j assume "i < j" "j < length xs"
  then show "before cmp (xs ! i) (xs ! j)"
    using assms [unfolded ordered_def, rule_format, of "int i" "int j"] by simp
qed

lemma ordered_split:
  assumes w: "weak_order cmp" and p: "passed cmp base r ys y i j" and ji: "j < i"
    and re: "rearranged base r xs ys" and o: "ordered cmp xs (insert (base, r) S)"
    and ap: "\<forall>(a, b) \<in> S. b < base \<or> r < a"
  shows "ordered cmp ys (insert (base, j) (insert (i, r) S))"
  unfolding ordered_def
proof (intro allI impI)
  fix a b assume ab: "0 \<le> a \<and> a < b \<and> b < int (length ys)"
  have len: "length ys = length xs" using re by (rule rearranged_length)
  have bnd: "0 \<le> base" "r < int (length ys)" using p by (auto simp: passed_def)
  have old: "before cmp (at xs m) (at xs n) \<or> (\<exists>(l, h) \<in> S. l \<le> m \<and> n \<le> h) \<or> base \<le> m \<and> n \<le> r"
    if "0 \<le> m" "m < n" "n < int (length xs)" for m n
    using o that unfolding ordered_def by auto
  have inside: "\<exists>m. base \<le> m \<and> m \<le> r \<and> at ys k = at xs m" if "base \<le> k" "k \<le> r" for k
    using re that by (auto simp: rearranged_def)
  have outside: "at ys k = at xs k" if "0 \<le> k" "k < base \<or> r < k" for k
    using re that by (auto simp: rearranged_def)
  consider (both) "base \<le> a" "b \<le> r" | (right) "a < base" "base \<le> b" "b \<le> r"
    | (left) "r < b" "base \<le> a" "a \<le> r" | (none) "a < base \<or> r < a" "b < base \<or> r < b"
    using ab by linarith
  then show "before cmp (at ys a) (at ys b) \<or>
      (\<exists>(l, h) \<in> insert (base, j) (insert (i, r) S). l \<le> a \<and> b \<le> h)"
  proof cases
    case both
    have "before cmp (at ys a) (at ys b)" if "j < b" "a < i"
      using that both p before_trans [OF w, of "at ys a" "at ys y" "at ys b"] by (auto simp: passed_def)
    then show ?thesis using both by fastforce
  next
    case right
    then obtain m where "base \<le> m" "m \<le> r" "at ys b = at xs m" using inside by blast
    then show ?thesis using old [of a m] outside [of a] ab right bnd len ap by fastforce
  next
    case left
    then obtain m where "base \<le> m" "m \<le> r" "at ys a = at xs m" using inside by blast
    then show ?thesis using old [of m b] outside [of b] ab left bnd len ap by fastforce
  next
    case none
    then show ?thesis using old [of a b] outside [of a] outside [of b] ab bnd len by auto
  qed
qed

section \<open>One pass\<close>

lemma small_sint: "- 32768 \<le> k \<Longrightarrow> k \<le> 32767 \<Longrightarrow> sint (of_int k :: u16) = k"
  by (simp add: signed_of_int signed_take_bit_int_eq_self_iff)

lemma pdiff_small:
  assumes "0 < sz" "n * int sz \<le> 32767" "- 1 \<le> a - b" "a - b \<le> n" "1 \<le> n"
  shows "pdiff sz a b = (a - b) * int sz"
proof -
  have "(a - b) * int sz \<le> n * int sz" using assms by (intro mult_right_mono) auto
  moreover have "- 1 * int sz \<le> (a - b) * int sz" using assms by (intro mult_right_mono) auto
  moreover have "1 * int sz \<le> n * int sz" using assms by (intro mult_right_mono) auto
  ultimately show ?thesis unfolding pdiff_def using assms(2) by (intro small_sint) linarith+
qed

lemma mid_between:
  assumes "0 < sz" "base \<le> r" "(r - base) * int sz \<le> 32767"
  shows "base \<le> mid sz base r \<and> mid sz base r \<le> r"
proof -
  let ?k = "nat (r - base)"
  have eq: "(r - base) * int sz = int (?k * sz)" using assms by simp
  then have small: "?k * sz \<le> 32767" using assms(3) by linarith
  have "unat (of_int ((r - base) * int sz) :: u16) = ?k * sz"
    unfolding eq of_int_of_nat_eq unat_of_nat_u16 using small by simp
  then have "mid sz base r = base + int (?k div 2)" using assms(1) by (simp add: mid_def)
  then show ?thesis using assms(2) by (auto simp: zdiv_int)
qed

text \<open>The state between passes.\<close>

definition qsort_inv :: "'a compar \<Rightarrow> 'a list \<Rightarrow> int \<Rightarrow> int \<Rightarrow> requests \<Rightarrow> bool" where
  "qsort_inv cmp xs base r stk \<longleftrightarrow>
     0 \<le> base \<and> r < int (length xs) \<and> (r - base + 1) * 2 ^ length stk \<le> int (length xs) \<and>
     fits (int (length xs)) stk \<and> apart ((base, r) # stk) \<and>
     ordered cmp xs (set ((base, r) # stk))"

lemma fits_push:
  assumes "l < h" "0 \<le> l" "h < n" "fits n stk" "(h - l + 1) * 2 ^ length stk \<le> n" "n \<le> 32767"
  shows "push (l, h) stk = Some ((l, h) # stk)" and "fits n ((l, h) # stk)"
proof -
  have "2 * 2 ^ length stk \<le> (h - l + 1) * 2 ^ length stk"
    using assms(1) by (intro mult_right_mono) auto
  then have "2 * 2 ^ length stk \<le> (32767::int)" using assms(5,6) by linarith
  then have "(2::int) ^ Suc (length stk) < 2 ^ 15" by simp
  then have "Suc (length stk) < 15" by (rule power_less_imp_less_exp [rotated]) simp
  then have "length stk < 16" by simp
  then show "push (l, h) stk = Some ((l, h) # stk)" by (simp add: push_def)
  show "fits n ((l, h) # stk)" using assms by simp
qed

text \<open>Pushing the larger part and going on with the smaller one keeps the sizes bounded.\<close>

lemma part_sizes:
  fixes a b c n :: int
  assumes "(c + 1) * 2 ^ d \<le> n" "a + b \<le> c + 1" "0 \<le> a" "a \<le> b"
  shows "a * 2 ^ Suc d \<le> n" and "b * 2 ^ d \<le> n" and "a * 2 ^ d \<le> n"
proof -
  have "(2 * a) * 2 ^ d \<le> (c + 1) * 2 ^ d" "b * 2 ^ d \<le> (c + 1) * 2 ^ d" "a * 2 ^ d \<le> (c + 1) * 2 ^ d"
    using assms by (auto intro!: mult_right_mono)
  moreover have "a * 2 ^ Suc d = (2 * a) * 2 ^ d" by simp
  ultimately show "a * 2 ^ Suc d \<le> n" "b * 2 ^ d \<le> n" "a * 2 ^ d \<le> n" using assms(1) by linarith+
qed

text \<open>
  A pass that leaves the partition \<open>(l, h)\<close> for later, when it has more than one element, and goes
  on with \<open>(b, t)\<close>, which is no larger.
\<close>

lemma defer_part:
  assumes cur: "0 \<le> base" "r < int (length ys)" "(r - base + 1) * 2 ^ length stk \<le> int (length ys)"
      "fits (int (length ys)) stk" "\<forall>(a, c) \<in> set stk. c < base \<or> r < a" "apart stk"
    and o: "ordered cmp ys (insert (l, h) (insert (b, t) (set stk)))"
    and parts: "base \<le> l" "h \<le> r" "base \<le> b" "t \<le> r" "h < b \<or> t < l"
    and less: "h - l < r - base" "t - b < r - base" "b - 1 \<le> t" "t - b \<le> h - l" "(t - b + 1) + (h - l + 1) \<le> r - base + 1"
    and small: "int (length ys) \<le> 32767"
  shows "\<exists>stk'. (if l < h then push (l, h) stk else Some stk) = Some stk' \<and>
           qsort_inv cmp ys b t stk' \<and> weight ((b, t) # stk') < weight ((base, r) # stk)"
proof -
  let ?n = "int (length ys)"
  have sizes: "(t - b + 1) * 2 ^ Suc (length stk) \<le> ?n" "(h - l + 1) * 2 ^ length stk \<le> ?n"
    "(t - b + 1) * 2 ^ length stk \<le> ?n"
    using part_sizes [OF cur(3), of "t - b + 1" "h - l + 1"] less by auto
  have ap: "\<forall>(a, c) \<in> set stk. (c < l \<or> h < a) \<and> (c < b \<or> t < a)"
    using cur(5) parts by fastforce
  show ?thesis
  proof (cases "l < h")
    case True
    have f: "push (l, h) stk = Some ((l, h) # stk)" "fits ?n ((l, h) # stk)"
      using fits_push [of l h ?n stk] True cur parts small sizes by auto
    have "qsort_inv cmp ys b t ((l, h) # stk)"
      unfolding qsort_inv_def using cur parts sizes f ap o by (auto simp: insert_commute)
    then show ?thesis using True f(1) less by (auto simp: weight_def)
  next
    case False
    have "ordered cmp ys (insert (b, t) (set stk))"
      using o False ordered_trivial [of h l cmp ys "insert (b, t) (set stk)"] by simp
    then have "qsort_inv cmp ys b t stk"
      unfolding qsort_inv_def using cur parts sizes ap by auto
    then show ?thesis using False less by (auto simp: weight_def)
  qed
qed

lemma split_pass_ok:
  assumes w: "weak_order cmp" and sz: "0 < sz" and small: "int (length xs) * int sz \<le> 32767"
    and inv: "qsort_inv cmp xs base r stk" and ne: "base \<le> r"
  shows "\<exists>b' r' stk' ys. split_pass cmp sz xs base r stk = Ok (b', r', stk') ys \<and> mset ys = mset xs \<and>
           qsort_inv cmp ys b' r' stk' \<and> weight ((b', r') # stk') < weight ((base, r) # stk)"
proof -
  let ?n = "int (length xs)" and ?x = "mid sz base r"
  have b: "0 \<le> base" "r < ?n" "(r - base + 1) * 2 ^ length stk \<le> ?n" "fits ?n stk"
    "\<forall>(a, b) \<in> set stk. b < base \<or> r < a" "apart stk" "ordered cmp xs (insert (base, r) (set stk))"
    using inv by (auto simp: qsort_inv_def)
  have n1: "1 \<le> ?n" using b ne by linarith
  have "?n * 1 \<le> ?n * int sz" using sz by (intro mult_left_mono) auto
  then have n2: "?n \<le> 32767" using small by linarith
  have "(r - base) * int sz \<le> ?n * int sz" using b sz by (intro mult_right_mono) auto
  then have x: "base \<le> ?x \<and> ?x \<le> r" using mid_between [OF sz ne] small by linarith
  have "passed cmp base r xs ?x base r" "stoppers cmp base r xs ?x base r"
    using b ne x before_refl [OF w] by (auto simp: passed_def stoppers_def)
  then obtain i j ys y where p: "part_loop cmp xs ?x base r = Ok (i, j) ys" "j < i" "base < i" "j < r"
    "passed cmp base r ys y i j" "rearranged base r xs ys"
    using part_loop_partitions [OF w, of base r xs ?x base r] x by blast
  have ij: "base - 1 \<le> j" "i \<le> r + 1" using p(5) by (auto simp: passed_def)
  have len: "length ys = length xs" and ms: "mset ys = mset xs"
    using p(6) rearranged_length by (auto simp: rearranged_def)
  have o: "ordered cmp ys (insert (base, j) (insert (i, r) (set stk)))"
    by (rule ordered_split [OF w p(5,2,6) b(7,5)])
  have pd: "pdiff sz j base < pdiff sz r i \<longleftrightarrow> j - base < r - i"
    using pdiff_small [OF sz small, of j base] pdiff_small [OF sz small, of r i] b ij p ne n1 sz
    by (simp add: mult_less_cancel_right)
  show ?thesis
  proof (cases "j - base < r - i")
    case True
    obtain stk' where "(if i < r then push (i, r) stk else Some stk) = Some stk'"
      "qsort_inv cmp ys base j stk'" "weight ((base, j) # stk') < weight ((base, r) # stk)"
      using defer_part [of base r ys stk cmp i r base j] b o len n2 p ij True by (auto simp: insert_commute)
    then show ?thesis using p(1) pd True ms by (auto simp: split_pass_def)
  next
    case False
    obtain stk' where "(if base < j then push (base, j) stk else Some stk) = Some stk'"
      "qsort_inv cmp ys i r stk'" "weight ((i, r) # stk') < weight ((base, r) # stk)"
      using defer_part [of base r ys stk cmp base j i r] b o len n2 p ij False by auto
    then show ?thesis using p(1) pd False ms by (auto simp: split_pass_def)
  qed
qed

section \<open>The whole sort\<close>

lemma next_part_ok:
  assumes "qsort_inv cmp xs b r stk"
  shows "case next_part (b, r, stk) of
           None \<Rightarrow> sorted_wrt (before cmp) xs
         | Some (b', r', stk') \<Rightarrow> qsort_inv cmp xs b' r' stk' \<and> b' \<le> r' \<and>
             weight ((b', r') # stk') \<le> weight ((b, r) # stk)"
proof (cases "b < r")
  case False
  have o: "ordered cmp xs (set stk)"
    using assms False ordered_trivial [of r b cmp xs "set stk"] by (auto simp: qsort_inv_def)
  show ?thesis
  proof (cases stk)
    case Nil
    then show ?thesis using o False by (simp add: ordered_empty)
  next
    case (Cons p stk')
    then show ?thesis using o False assms
      by (cases p) (auto simp: qsort_inv_def weight_def)
  qed
qed (use assms in auto)

lemma qsort_loop_sorts:
  assumes "weak_order cmp" "0 < sz" "int (length xs) * int sz \<le> 32767"
    and "qsort_inv cmp xs base r stk" "base \<le> r"
  shows "\<exists>ys. qsort_loop cmp sz xs (base, r, stk) = Some (Ok () ys) \<and> mset ys = mset xs \<and>
           sorted_wrt (before cmp) ys"
  using assms(3-5)
proof (induction "weight ((base, r) # stk)" arbitrary: xs base r stk rule: less_induct)
  case less
  obtain b' r' stk' ys where s: "split_pass cmp sz xs base r stk = Ok (b', r', stk') ys" "mset ys = mset xs"
    "qsort_inv cmp ys b' r' stk'" "weight ((b', r') # stk') < weight ((base, r) # stk)"
    using split_pass_ok [OF assms(1,2) less.prems] by blast
  have len: "length ys = length xs" using s(2) by (rule mset_eq_length)
  show ?case
  proof (cases "next_part (b', r', stk')")
    case None
    then show ?thesis using s next_part_ok [OF s(3)] by (subst qsort_loop.simps) simp
  next
    case (Some st)
    obtain b2 r2 stk2 where st: "st = (b2, r2, stk2)" by (cases st)
    have n: "qsort_inv cmp ys b2 r2 stk2" "b2 \<le> r2" "weight ((b2, r2) # stk2) \<le> weight ((b', r') # stk')"
      using next_part_ok [OF s(3)] unfolding Some st by auto
    obtain zs where "qsort_loop cmp sz ys (b2, r2, stk2) = Some (Ok () zs)" "mset zs = mset ys"
      "sorted_wrt (before cmp) zs"
      using less.hyps [of b2 r2 stk2 ys] n s(4) less.prems(1) len by auto
    then show ?thesis using s Some st by (subst qsort_loop.simps) simp
  qed
qed

lemma qsort_inv_start: "qsort_inv cmp xs 0 (int (length xs) - 1) []"
  by (auto simp: qsort_inv_def ordered_def)

end
