(* ===== verification/Aztec_Ctype.thy ===== *)
theory Aztec_Ctype
  imports CPM_Prelude
begin

text \<open>
  \<^verbatim>\<open>CTYPE.C\<close>, \<^verbatim>\<open>CTYPE.H\<close>, \<^verbatim>\<open>ATOI.C\<close> and \<^verbatim>\<open>ATOL.C\<close> of the C library in \<^verbatim>\<open>disks/I/2\<close>: the
  character classes and the conversion of decimal strings.

  The compiler is a 16-bit one: \<open>int\<close> and \<open>unsigned\<close> are \<open>16 word\<close>, \<open>long\<close> is \<open>32 word\<close>, \<open>char\<close> is
  unsigned (the compiled library on the same disk widens it with a zero byte). A string is its bytes
  with the final zero; reading behind the last byte of the list is undefined.
\<close>

section \<open>Character classes\<close>

definition ctp :: "u8 list" where
  "ctp =
     [0,
      0x20, 0x20, 0x20, 0x20,
      0x20, 0x20, 0x20, 0x20,
      0x20, 0x30, 0x30, 0x30,
      0x30, 0x30, 0x20, 0x20,
      0x20, 0x20, 0x20, 0x20,
      0x20, 0x20, 0x20, 0x20,
      0x20, 0x20, 0x20, 0x20,
      0x20, 0x20, 0x20, 0x20,
      0x90, 0x40, 0x40, 0x40,
      0x40, 0x40, 0x40, 0x40,
      0x40, 0x40, 0x40, 0x40,
      0x40, 0x40, 0x40, 0x40,
      0x0C, 0x0C, 0x0C, 0x0C,
      0x0C, 0x0C, 0x0C, 0x0C,
      0x0C, 0x0C, 0x40, 0x40,
      0x40, 0x40, 0x40, 0x40,
      0x40, 0x09, 0x09, 0x09,
      0x09, 0x09, 0x09, 0x01,
      0x01, 0x01, 0x01, 0x01,
      0x01, 0x01, 0x01, 0x01,
      0x01, 0x01, 0x01, 0x01,
      0x01, 0x01, 0x01, 0x01,
      0x01, 0x01, 0x01, 0x40,
      0x40, 0x40, 0x40, 0x01,
      0x40, 0x0A, 0x0A, 0x0A,
      0x0A, 0x0A, 0x0A, 0x02,
      0x02, 0x02, 0x02, 0x02,
      0x02, 0x02, 0x02, 0x02,
      0x02, 0x02, 0x02, 0x02,
      0x02, 0x02, 0x02, 0x02,
      0x02, 0x02, 0x02, 0x40,
      0x40, 0x40, 0x40, 0x20]"

text \<open>\<open>ctp_[(x)+1]\<close>; \<open>None\<close> outside the table. \<open>x\<close> is an \<open>int\<close>: a character or \<open>EOF\<close>, that is -1.\<close>

definition ctp_at :: "int \<Rightarrow> u8 option" where
  "ctp_at x = (if 0 \<le> x + 1 \<and> x + 1 < 129 then Some (ctp ! nat (x + 1)) else None)"

definition in_class :: "u8 \<Rightarrow> int \<Rightarrow> bool option" where
  "in_class m x = map_option (\<lambda>b. b AND m \<noteq> 0) (ctp_at x)"

definition isalpha :: "int \<Rightarrow> bool option" where "isalpha = in_class 0x03"
definition isupper :: "int \<Rightarrow> bool option" where "isupper = in_class 0x01"
definition islower :: "int \<Rightarrow> bool option" where "islower = in_class 0x02"
definition isdigit :: "int \<Rightarrow> bool option" where "isdigit = in_class 0x04"
definition isxdigit :: "int \<Rightarrow> bool option" where "isxdigit = in_class 0x08"
definition isalnum :: "int \<Rightarrow> bool option" where "isalnum = in_class 0x07"
definition isspace :: "int \<Rightarrow> bool option" where "isspace = in_class 0x10"
definition ispunct :: "int \<Rightarrow> bool option" where "ispunct = in_class 0x40"
definition iscntrl :: "int \<Rightarrow> bool option" where "iscntrl = in_class 0x20"
definition isprint :: "int \<Rightarrow> bool option" where "isprint = in_class 0xc7"
definition isgraph :: "int \<Rightarrow> bool option" where "isgraph = in_class 0x47"

definition isascii :: "u16 \<Rightarrow> bool" where "isascii x \<longleftrightarrow> x AND 0x80 = 0"
definition toascii :: "u16 \<Rightarrow> u16" where "toascii x = x AND 127"
definition tolower_macro :: "u16 \<Rightarrow> u16" where "tolower_macro x = x OR 0x20"
definition toupper_macro :: "u16 \<Rightarrow> u16" where "toupper_macro x = x AND 0x5f"

lemma ctp_at_outside: "x < - 1 \<or> 127 < x \<Longrightarrow> ctp_at x = None"
  by (auto simp: ctp_at_def)

text \<open>Each class against the range of characters it stands for, at the table index \<open>x + 1\<close>.\<close>

lemma class_rows:
  "map (\<lambda>b. b AND 0x04 \<noteq> 0) ctp = map (\<lambda>k. 49 \<le> k \<and> k \<le> 58) [0..<129]"
  "map (\<lambda>b. b AND 0x02 \<noteq> 0) ctp = map (\<lambda>k. 98 \<le> k \<and> k \<le> 123) [0..<129]"
  "map (\<lambda>b. b AND 0x01 \<noteq> 0) ctp = map (\<lambda>k. 66 \<le> k \<and> k \<le> 91 \<or> k = 96) [0..<129]"
  "map (\<lambda>b. b AND 0x10 \<noteq> 0) ctp = map (\<lambda>k. 10 \<le> k \<and> k \<le> 14 \<or> k = 33) [0..<129]"
  "map (\<lambda>b. b AND 0x20 \<noteq> 0) ctp = map (\<lambda>k. 1 \<le> k \<and> k < 33 \<or> k = 128) [0..<129]"
  "map (\<lambda>b. b AND 0x08 \<noteq> 0) ctp =
     map (\<lambda>k. 49 \<le> k \<and> k \<le> 58 \<or> 66 \<le> k \<and> k \<le> 71 \<or> 98 \<le> k \<and> k \<le> 103) [0..<129]"
  "map (\<lambda>b. b AND 0xc7 \<noteq> 0) ctp = map (\<lambda>k. 33 \<le> k \<and> k \<le> 127) [0..<129]"
  "map (\<lambda>b. b AND 0x47 \<noteq> 0) ctp = map (\<lambda>k. 33 < k \<and> k \<le> 127) [0..<129]"
  by code_simp+

lemma length_ctp: "length ctp = 129"
  by code_simp

lemma in_class_row:
  assumes row: "map (\<lambda>b. b AND m \<noteq> 0) ctp = map P [0..<129]" and x: "- 1 \<le> x" "x \<le> 127"
  shows "in_class m x = Some (P (nat (x + 1)))"
proof -
  let ?k = "nat (x + 1)"
  have k: "?k < 129" using x by linarith
  then have "map (\<lambda>b. b AND m \<noteq> 0) ctp ! ?k = (ctp ! ?k AND m \<noteq> 0)" by (simp add: length_ctp)
  moreover have "map P [0..<129] ! ?k = P ?k" using k by simp
  ultimately have "(ctp ! ?k AND m \<noteq> 0) = P ?k" using row by simp
  then show ?thesis using x by (simp add: in_class_def ctp_at_def)
qed

lemma class_char:
  assumes "- 1 \<le> x" and "x \<le> 127"
  shows "isdigit x = Some (48 \<le> x \<and> x \<le> 57)"
    and "islower x = Some (97 \<le> x \<and> x \<le> 122)"
    and "isupper x = Some (65 \<le> x \<and> x \<le> 90 \<or> x = 95)"
    and "isspace x = Some (9 \<le> x \<and> x \<le> 13 \<or> x = 32)"
    and "iscntrl x = Some (0 \<le> x \<and> x < 32 \<or> x = 127)"
    and "isxdigit x = Some (48 \<le> x \<and> x \<le> 57 \<or> 65 \<le> x \<and> x \<le> 70 \<or> 97 \<le> x \<and> x \<le> 102)"
    and "isprint x = Some (32 \<le> x \<and> x \<le> 126)"
    and "isgraph x = Some (32 < x \<and> x \<le> 126)"
  using assms
  by (auto simp: isdigit_def islower_def isupper_def isspace_def iscntrl_def isxdigit_def
      isprint_def isgraph_def class_rows [THEN in_class_row])

section \<open>Strings in memory\<close>

text \<open>The next character of a string and the rest, \<open>*cp++\<close>.\<close>

fun getch :: "bytes \<Rightarrow> cpm_error + u8 \<times> bytes" where
  "getch [] = Inl (Undefined OutOfBounds)"
| "getch (c # cs) = Inr (c, cs)"

definition cstr :: "string \<Rightarrow> bytes" where
  "cstr s = map char_byte s @ [0]"

definition isdigit_byte :: "u8 \<Rightarrow> bool option" where
  "isdigit_byte c = isdigit (uint c)"

lemma uint_u8_bounds: "0 \<le> uint (c :: u8)" "uint (c :: u8) < 256"
  using uint_ge_0 [of c] uint_lt2p [of c] by simp_all

lemma isdigit_byte_eq: "c < 0x80 \<Longrightarrow> isdigit_byte c = Some (48 \<le> c \<and> c \<le> 57)"
  using class_char(1) [of "uint c"] uint_u8_bounds [of c]
  by (simp add: isdigit_byte_def word_less_def word_le_def)

section \<open>Decimal strings\<close>

fun skip_blanks :: "bytes \<Rightarrow> bytes" where
  "skip_blanks [] = []"
| "skip_blanks (c # cs) = (if c = 32 \<or> c = 9 then skip_blanks cs else c # cs)"

text \<open>The digit loop, for both word sizes.\<close>

fun digits_loop :: "'w::len word \<Rightarrow> bytes \<Rightarrow> cpm_error + 'w word" where
  "digits_loop n [] = Inl (Undefined OutOfBounds)"
| "digits_loop n (c # cs) =
     (case isdigit_byte c of
        None \<Rightarrow> Inl (Undefined OutOfBounds)
      | Some True \<Rightarrow> digits_loop (n * 10 + ucast c - 48) cs
      | Some False \<Rightarrow> Inr n)"

definition signed_number :: "bytes \<Rightarrow> cpm_error + 'w::len word" where
  "signed_number cp =
     (case skip_blanks cp of
        [] \<Rightarrow> Inl (Undefined OutOfBounds)
      | c # cs \<Rightarrow>
          if c = 45 then map_sum id uminus (digits_loop 0 cs)
          else if c = 43 then digits_loop 0 cs
          else digits_loop 0 (c # cs))"

definition atoi :: "bytes \<Rightarrow> cpm_error + u16" where "atoi cp = signed_number cp"
definition atol :: "bytes \<Rightarrow> cpm_error + u32" where "atol cp = signed_number cp"

text \<open>The digits of a number in a base up to 16, as the conversion routines write them.\<close>

definition digit_byte :: "nat \<Rightarrow> u8" where
  "digit_byte d = of_nat (if d < 10 then 48 + d else 87 + d)"

function numeral_bytes :: "nat \<Rightarrow> nat \<Rightarrow> bytes" where
  "numeral_bytes b n =
     (if n < b \<or> b < 2 then [digit_byte n] else numeral_bytes b (n div b) @ [digit_byte (n mod b)])"
  by pat_completeness auto
termination
  by (relation "measure snd") (auto simp: div_less_dividend)

declare numeral_bytes.simps [simp del]

lemma numeral_bytes_nonempty: "numeral_bytes b n \<noteq> []"
  by (subst numeral_bytes.simps) simp

lemma digit_byte_decimal:
  assumes "d < 10"
  shows "isdigit_byte (digit_byte d) = Some True"
    and "ucast (digit_byte d) = (of_nat d + 48 :: 'w::len word)"
    and "digit_byte d \<noteq> 45" "digit_byte d \<noteq> 43" "digit_byte d \<noteq> 32" "digit_byte d \<noteq> 9"
proof -
  have "unat (digit_byte d) = (48 + d) mod 256"
    using assms by (simp only: digit_byte_def if_True unat_of_nat_u8)
  then have u: "unat (digit_byte d) = d + 48" using assms by simp
  have "isdigit_byte (digit_byte d) = Some (48 \<le> digit_byte d \<and> digit_byte d \<le> 57)"
    by (rule isdigit_byte_eq) (use u assms in \<open>simp add: word_less_nat_alt\<close>)
  then show "isdigit_byte (digit_byte d) = Some True" using u assms by (simp add: word_le_nat_alt)
  have "ucast (digit_byte d) = (of_nat (unat (digit_byte d)) :: 'w word)" by (simp add: unsigned_of_nat)
  then show "ucast (digit_byte d) = (of_nat d + 48 :: 'w word)" using u by simp
  show "digit_byte d \<noteq> 45" "digit_byte d \<noteq> 43" "digit_byte d \<noteq> 32" "digit_byte d \<noteq> 9"
    using u by auto
qed

lemma digits_loop_numeral:
  "digits_loop v (numeral_bytes 10 n @ t) =
     digits_loop (v * 10 ^ length (numeral_bytes 10 n) + of_nat n) t"
proof (induction "10::nat" n arbitrary: v t rule: numeral_bytes.induct)
  case (1 n)
  show ?case
  proof (cases "n < 10")
    case True
    then show ?thesis
      by (simp add: numeral_bytes.simps [of 10 n] digit_byte_decimal algebra_simps)
  next
    case False
    let ?s = "numeral_bytes 10 (n div 10)"
    have d: "n mod 10 < 10" by simp
    have n: "(of_nat n :: 'a word) = of_nat (n div 10) * 10 + of_nat (n mod 10)"
      by (metis of_nat_add of_nat_mult of_nat_numeral div_mult_mod_eq)
    have eq: "numeral_bytes 10 n = ?s @ [digit_byte (n mod 10)]"
      using False by (subst numeral_bytes.simps) simp
    have "digits_loop v (numeral_bytes 10 n @ t) = digits_loop v (?s @ digit_byte (n mod 10) # t)"
      by (simp add: eq)
    also have "\<dots> = digits_loop (v * 10 ^ length ?s + of_nat (n div 10)) (digit_byte (n mod 10) # t)"
      using 1 False by simp
    also have "\<dots> = digits_loop ((v * 10 ^ length ?s + of_nat (n div 10)) * 10 + of_nat (n mod 10)) t"
      by (simp add: digit_byte_decimal [OF d] add.assoc)
    also have "(v * 10 ^ length ?s + of_nat (n div 10)) * 10 + of_nat (n mod 10) =
        v * 10 ^ length (numeral_bytes 10 n) + of_nat n"
      unfolding eq n by (simp add: algebra_simps)
    finally show ?thesis .
  qed
qed

text \<open>The value of a printed number: blanks, a sign and digits up to a character that is none.\<close>

definition ends_number :: "bytes \<Rightarrow> bool" where
  "ends_number t \<longleftrightarrow> t \<noteq> [] \<and> isdigit_byte (hd t) = Some False"

lemma digits_loop_end: "ends_number t \<Longrightarrow> digits_loop v t = Inr v"
  by (cases t) (auto simp: ends_number_def)

lemma numeral_head:
  obtains d cs where "numeral_bytes 10 n = digit_byte d # cs" "d < 10"
proof (induction "10::nat" n arbitrary: thesis rule: numeral_bytes.induct)
  case (1 n)
  show ?case
  proof (cases "n < 10")
    case True
    then show ?thesis by (intro "1.prems" [of n "[]"]) (simp add: numeral_bytes.simps [of 10 n])
  next
    case False
    then obtain d cs where "numeral_bytes 10 (n div 10) = digit_byte d # cs" "d < 10"
      using "1.hyps" by auto
    then show ?thesis using False by (intro "1.prems") (subst numeral_bytes.simps, auto)
  qed
qed

lemma skip_blanks_replicate: "skip_blanks (replicate k 32 @ t) = skip_blanks t"
  by (induction k) auto

lemma signed_number_numeral:
  assumes "ends_number t"
  shows "signed_number (replicate k 32 @ numeral_bytes 10 n @ t) = (Inr (of_nat n) :: cpm_error + 'w::len word)"
    and "signed_number (replicate k 32 @ 45 # numeral_bytes 10 n @ t) = (Inr (- of_nat n) :: cpm_error + 'w word)"
proof -
  obtain d cs where h: "numeral_bytes 10 n = digit_byte d # cs" "d < 10" by (rule numeral_head)
  have v: "digits_loop 0 (numeral_bytes 10 n @ t) = (Inr (of_nat n) :: cpm_error + 'w word)"
    by (simp add: digits_loop_numeral digits_loop_end [OF assms])
  have "signed_number (replicate k 32 @ numeral_bytes 10 n @ t) =
      (digits_loop 0 (numeral_bytes 10 n @ t) :: cpm_error + 'w word)"
    unfolding h(1) by (simp add: signed_number_def skip_blanks_replicate digit_byte_decimal [OF h(2)])
  then show "signed_number (replicate k 32 @ numeral_bytes 10 n @ t) = (Inr (of_nat n) :: cpm_error + 'w word)"
    by (simp only: v)
  show "signed_number (replicate k 32 @ 45 # numeral_bytes 10 n @ t) = (Inr (- of_nat n) :: cpm_error + 'w word)"
    using v by (simp add: signed_number_def skip_blanks_replicate)
qed

end
