(* ===== verification/Aztec_Format.thy ===== *)
theory Aztec_Format
  imports Aztec_Ctype
begin

text \<open>
  Formatted output of the C library in \<^verbatim>\<open>disks/I/2\<close>: the number conversion \<^verbatim>\<open>FMTCVT.ASM\<close>, the
  formatter \<^verbatim>\<open>FORMAT.C\<close> with \<^verbatim>\<open>SPRINTF.C\<close>, and the small formatter of \<^verbatim>\<open>PRINTF.C\<close>. The floating
  point conversions are compiled only under \<open>FLOAT\<close> and are left out.

  The output routine is an argument, a function on a state of its own; the result 0xFFFF is \<open>EOF\<close>.
  Arguments are the bytes of the caller's stack from the first one on, little endian; memory is
  a function of the address. The strings printed must not overlap the memory written by the
  output routine.
\<close>

section \<open>FMTCVT: digits by bitwise division\<close>

text \<open>
  One round of the inner loop on the register pair \<open>(h, l)\<close>: shift left, subtract the base from the
  high byte when it fits. Eight rounds divide one byte with the remainder of the previous ones.
\<close>

fun bit_step :: "nat \<Rightarrow> nat \<times> nat \<Rightarrow> nat \<times> nat" where
  "bit_step c (h, l) =
     (let hl = (2 * (256 * h + l)) mod 65536; h' = hl div 256; l' = hl mod 256
      in if h' < c then (h', l') else (h' - c, l' + 1))"

fun bit_steps :: "nat \<Rightarrow> nat \<Rightarrow> nat \<times> nat \<Rightarrow> nat \<times> nat" where
  "bit_steps c 0 p = p"
| "bit_steps c (Suc k) p = bit_steps c k (bit_step c p)"

lemma bit_steps_code [code]:
  "bit_steps c k p = (if k = 0 then p else bit_steps c (k - 1) (bit_step c p))"
  by (cases k) auto

text \<open>
  The outer loop over the four bytes, most significant first: the quotient bytes, each left in the
  place of the number's byte, and the remainder handed down.
\<close>

fun div_bytes :: "nat \<Rightarrow> nat \<times> nat \<Rightarrow> nat list \<Rightarrow> nat list \<times> nat" where
  "div_bytes c (h, l) [] = ([l], h)"
| "div_bytes c (h, l) (b # bs) = apfst ((#) l) (div_bytes c (bit_steps c 8 (h, b)) bs)"

fun div_number :: "nat \<Rightarrow> nat list \<Rightarrow> nat list \<times> nat" where
  "div_number c [] = ([], 0)"
| "div_number c (b # bs) = div_bytes c (bit_steps c 8 (0, b)) bs"

text \<open>\<open>top\<close>: digits are stored downwards until the number is zero; it need not end for other bases.\<close>

partial_function (option) cvt_loop :: "nat \<Rightarrow> nat list \<Rightarrow> bytes \<Rightarrow> bytes option" where
  [code]: "cvt_loop c num s =
     (case div_number c num of (q, r) \<Rightarrow>
      if list_all (\<lambda>b. b = 0) q then Some (digit_byte r # s) else cvt_loop c q (digit_byte r # s))"

fun neg_bytes :: "bool \<Rightarrow> bytes \<Rightarrow> bytes" where
  "neg_bytes cy [] = []"
| "neg_bytes cy (b # bs) = (0 - b - (if cy then 1 else 0)) # neg_bytes (b \<noteq> 0 \<or> cy) bs"

definition fmtcvt :: "bytes \<Rightarrow> int \<Rightarrow> bytes option" where
  "fmtcvt num base =
     (let neg = base < 0 \<and> 0x80 \<le> last num;
          n = (if neg then neg_bytes False num else num);
          digits = cvt_loop (nat \<bar>base\<bar>) (map unat (rev (n @ replicate (4 - length n) 0))) []
      in map_option (\<lambda>s. if neg then 45 # s else s) digits)"

section \<open>The formatter\<close>

record fmt_spec =
  rj :: bool
  fillc :: u16
  width :: u16
  maxwidth :: u16
  longarg :: bool
  conv :: u8

definition bindr :: "'e + 'a \<Rightarrow> ('a \<Rightarrow> 'e + 'b) \<Rightarrow> 'e + 'b" where
  "bindr m f = (case m of Inl e \<Rightarrow> Inl e | Inr x \<Rightarrow> f x)"

text \<open>\<open>*args.ip++\<close> and \<open>i\<close> bytes at \<open>args.cp\<close>.\<close>

definition arg_bytes :: "nat \<Rightarrow> bytes \<Rightarrow> cpm_error + bytes \<times> bytes" where
  "arg_bytes i args =
     (if length args < i then Inl (Undefined OutOfBounds) else Inr (take i args, drop i args))"

definition arg_int :: "bytes \<Rightarrow> cpm_error + u16 \<times> bytes" where
  "arg_int args = bindr (arg_bytes 2 args) (\<lambda>(b, r). Inr (le16 (b ! 0) (b ! 1), r))"

fun num_loop :: "u16 \<Rightarrow> u8 \<Rightarrow> bytes \<Rightarrow> cpm_error + u16 \<times> u8 \<times> bytes" where
  "num_loop w c fmt =
     (case isdigit_byte c of
        None \<Rightarrow> Inl (Undefined OutOfBounds)
      | Some False \<Rightarrow> Inr (w, c, fmt)
      | Some True \<Rightarrow>
          (case fmt of
             [] \<Rightarrow> Inl (Undefined OutOfBounds)
           | c' # fmt' \<Rightarrow> num_loop (w * 10 + ucast c - 48) c' fmt'))"

declare num_loop.simps [simp del]

text \<open>A number in the format, or \<open>*\<close> for an argument.\<close>

definition star_or_num :: "u8 \<Rightarrow> bytes \<Rightarrow> bytes \<Rightarrow> cpm_error + u16 \<times> u8 \<times> bytes \<times> bytes" where
  "star_or_num c fmt args =
     (if c = 42
      then bindr (arg_int args) (\<lambda>(w, args'). bindr (getch fmt) (\<lambda>(c', fmt'). Inr (w, c', fmt', args')))
      else bindr (num_loop 0 c fmt) (\<lambda>(w, c', fmt'). Inr (w, c', fmt', args)))"

definition flag_char :: "u8 \<Rightarrow> u8 \<Rightarrow> bytes \<Rightarrow> cpm_error + bool \<times> u8 \<times> bytes" where
  "flag_char f c fmt =
     (if c = f then bindr (getch fmt) (\<lambda>(c', fmt'). Inr (True, c', fmt')) else Inr (False, c, fmt))"

definition precision :: "u8 \<Rightarrow> bytes \<Rightarrow> bytes \<Rightarrow> cpm_error + u16 \<times> u8 \<times> bytes \<times> bytes" where
  "precision c fmt args =
     (if c = 46 then bindr (getch fmt) (\<lambda>(c, fmt). star_or_num c fmt args)
      else Inr (10000, c, fmt, args))"

definition size_flag :: "u8 \<Rightarrow> bytes \<Rightarrow> cpm_error + bool \<times> u8 \<times> bytes" where
  "size_flag c fmt =
     (if c = 108 \<or> c = 104 then bindr (getch fmt) (\<lambda>(c', fmt). Inr (c = 108, c', fmt))
      else Inr (False, c, fmt))"

text \<open>What stands between \<open>%\<close> and the conversion character, that character included.\<close>

definition parse_spec :: "bytes \<Rightarrow> bytes \<Rightarrow> cpm_error + fmt_spec \<times> bytes \<times> bytes" where
  "parse_spec fmt args =
     bindr (getch fmt) (\<lambda>(c, fmt).
     bindr (flag_char 45 c fmt) (\<lambda>(left, c, fmt).
     bindr (flag_char 48 c fmt) (\<lambda>(zero, c, fmt).
     bindr (star_or_num c fmt args) (\<lambda>(w, c, fmt, args).
     bindr (precision c fmt args) (\<lambda>(mw, c, fmt, args).
     bindr (size_flag c fmt) (\<lambda>(lng, c, fmt).
     Inr (\<lparr>rj = \<not> left, fillc = (if zero then 48 else 32), width = w, maxwidth = mw,
           longarg = lng, conv = c\<rparr>, fmt, args)))))))"

text \<open>\<open>strlen\<close> and the characters of a string in memory; after 64K addresses they repeat.\<close>

fun mem_chars :: "nat \<Rightarrow> (u16 \<Rightarrow> u8) \<Rightarrow> u16 \<Rightarrow> bytes option" where
  "mem_chars 0 mem p = None"
| "mem_chars (Suc n) mem p =
     (if mem p = 0 then Some [] else map_option ((#) (mem p)) (mem_chars n mem (p + 1)))"

lemma mem_chars_code [code]:
  "mem_chars n mem p =
     (if n = 0 then None
      else if mem p = 0 then Some [] else map_option ((#) (mem p)) (mem_chars (n - 1) mem (p + 1)))"
  by (cases n) auto

definition mem_string :: "(u16 \<Rightarrow> u8) \<Rightarrow> u16 \<Rightarrow> cpm_error + bytes" where
  "mem_string mem p =
     (case mem_chars 65536 mem p of None \<Rightarrow> Inl Spinning | Some s \<Rightarrow> Inr s)"

text \<open>The base of a number conversion: \<open>o\<close>, \<open>u\<close>, \<open>x\<close>, \<open>d\<close>.\<close>

definition conv_base :: "u8 \<Rightarrow> int option" where
  "conv_base c = (if c = 111 then Some 8 else if c = 117 then Some 10 else if c = 120 then Some 16
                  else if c = 100 then Some (- 10) else None)"

text \<open>The text at \<open>cp\<close>, the length \<open>i\<close> and the arguments left.\<close>

definition conv_text ::
  "(u16 \<Rightarrow> u8) \<Rightarrow> fmt_spec \<Rightarrow> bytes \<Rightarrow> cpm_error + bytes \<times> u16 \<times> bytes" where
  "conv_text mem sp args =
     (case conv_base (conv sp) of
        Some k \<Rightarrow>
          bindr (arg_bytes (if longarg sp then 4 else 2) args) (\<lambda>(b, args').
            case fmtcvt b k of None \<Rightarrow> Inl Spinning | Some t \<Rightarrow> Inr (t, of_nat (length t), args'))
      | None \<Rightarrow>
          if conv sp = 115
          then bindr (arg_int args) (\<lambda>(p, args').
                 bindr (mem_string mem p) (\<lambda>t. Inr (t, of_nat (length t), args')))
          else bindr (if conv sp = 99 then bindr (arg_int args) (\<lambda>(v, args'). Inr (ucast v, args'))
                      else Inr (conv sp, args))
                 (\<lambda>(c, args'). Inr (if c = 0 then [] else [c], 1, args')))"

text \<open>The characters put for one conversion.\<close>

definition field :: "fmt_spec \<Rightarrow> bytes \<Rightarrow> u16 \<Rightarrow> u16 list" where
  "field sp t i =
     (let i' = (if sint (maxwidth sp) < sint i then maxwidth sp else i);
          pad = nat (sint (width sp) - sint i');
          body = map ucast (take (nat (sint (maxwidth sp))) t)
      in if rj sp then replicate pad (fillc sp) @ body else body @ replicate pad 32)"

type_synonym 's putter = "u16 \<Rightarrow> 's \<Rightarrow> u16 \<times> 's"

fun put_all :: "'s putter \<Rightarrow> u16 list \<Rightarrow> 's \<Rightarrow> bool \<times> 's" where
  "put_all putsub [] s = (True, s)"
| "put_all putsub (c # cs) s =
     (case putsub c s of (r, s') \<Rightarrow> if r = 0xFFFF then (False, s') else put_all putsub cs s')"

section \<open>Lengths\<close>

lemma bindr_Inr: "bindr m f = Inr y \<longleftrightarrow> (\<exists>x. m = Inr x \<and> f x = Inr y)"
  by (auto simp: bindr_def split: sum.splits)

lemma bindr_simps [simp]: "bindr (Inr x) f = f x" "bindr (Inl e) f = Inl e"
  by (simp_all add: bindr_def)

lemma getch_length: "getch fmt = Inr (c, fmt') \<Longrightarrow> length fmt = Suc (length fmt')"
  by (cases fmt) auto

lemma num_loop_length: "num_loop w c fmt = Inr (w', c', fmt') \<Longrightarrow> length fmt' \<le> length fmt"
proof (induction w c fmt rule: num_loop.induct)
  case (1 w c fmt)
  show ?case
    using "1.prems" unfolding num_loop.simps [of w c fmt]
    by (auto split: option.splits bool.splits list.splits dest!: "1.IH")
qed

lemma star_or_num_length: "star_or_num c fmt args = Inr (w, c', fmt', args') \<Longrightarrow> length fmt' \<le> length fmt"
  by (auto simp: star_or_num_def bindr_Inr split: if_splits dest: num_loop_length getch_length)

lemma flag_char_length: "flag_char f c fmt = Inr (b, c', fmt') \<Longrightarrow> length fmt' \<le> length fmt"
  by (auto simp: flag_char_def bindr_Inr split: if_splits dest: getch_length)

lemma precision_length: "precision c fmt args = Inr (w, c', fmt', args') \<Longrightarrow> length fmt' \<le> length fmt"
  by (fastforce simp: precision_def bindr_Inr split: if_splits dest: getch_length star_or_num_length)

lemma size_flag_length: "size_flag c fmt = Inr (b, c', fmt') \<Longrightarrow> length fmt' \<le> length fmt"
  by (auto simp: size_flag_def bindr_Inr split: if_splits dest: getch_length)

lemma parse_spec_length:
  assumes "parse_spec fmt args = Inr (sp, fmt', args')"
  shows "length fmt' < length fmt"
proof -
  from assms obtain c1 f1 l c2 f2 z c3 f3 w c4 f4 a4 mw c5 f5 a5 lng c6 f6
    where p: "getch fmt = Inr (c1, f1)" "flag_char 45 c1 f1 = Inr (l, c2, f2)"
      "flag_char 48 c2 f2 = Inr (z, c3, f3)" "star_or_num c3 f3 args = Inr (w, c4, f4, a4)"
      "precision c4 f4 a4 = Inr (mw, c5, f5, a5)" "size_flag c5 f5 = Inr (lng, c6, f6)" "fmt' = f6"
    by (auto simp: parse_spec_def bindr_Inr)
  show ?thesis
    using getch_length [OF p(1)] flag_char_length [OF p(2)] flag_char_length [OF p(3)]
      star_or_num_length [OF p(4)] precision_length [OF p(5)] size_flag_length [OF p(6)]
    unfolding p(7) by linarith
qed

section \<open>FORMAT.C and SPRINTF.C\<close>

function format_loop ::
  "'s putter \<Rightarrow> (u16 \<Rightarrow> u8) \<Rightarrow> bytes \<Rightarrow> bytes \<Rightarrow> u16 \<Rightarrow> 's \<Rightarrow> (u16, 's) outcome" where
  "format_loop putsub mem [] args n s = Fail (Undefined OutOfBounds) s"
| "format_loop putsub mem (c # fmt) args n s =
     (if c = 0 then Ok n s
      else if c = 37
      then (case parse_spec fmt args of
              Inl e \<Rightarrow> Fail e s
            | Inr (sp, fmt', args') \<Rightarrow>
                (case conv_text mem sp args' of
                   Inl e \<Rightarrow> Fail e s
                 | Inr (t, i, args'') \<Rightarrow>
                     (case put_all putsub (field sp t i) s of
                        (False, s') \<Rightarrow> Ok 0xFFFF s'
                      | (True, s') \<Rightarrow>
                          format_loop putsub mem fmt' args'' (n + of_nat (length (field sp t i))) s')))
      else (case putsub (ucast c) s of (r, s') \<Rightarrow>
              if r = 0xFFFF then Ok 0xFFFF s' else format_loop putsub mem fmt args (n + 1) s'))"
  by pat_completeness auto
termination
  by (relation "measure (\<lambda>(putsub, mem, fmt, args, n, s). length fmt)") (auto dest: parse_spec_length)

declare format_loop.simps [simp del]

definition format :: "'s putter \<Rightarrow> (u16 \<Rightarrow> u8) \<Rightarrow> bytes \<Rightarrow> bytes \<Rightarrow> 's \<Rightarrow> (u16, 's) outcome" where
  "format putsub mem fmt args s = format_loop putsub mem fmt args 0 s"

text \<open>\<open>sprintf\<close>; the state is what was stored from \<open>str\<close> on.\<close>

definition spsub :: "bytes putter" where
  "spsub c out = (c AND 0xff, out @ [ucast c])"

definition sprintf :: "(u16 \<Rightarrow> u8) \<Rightarrow> bytes \<Rightarrow> bytes \<Rightarrow> (u16, bytes) outcome" where
  "sprintf mem fmt args = bindo (format spsub mem fmt args []) (\<lambda>n out. Ok n (out @ [0]))"

section \<open>PRINTF.C\<close>

fun dconv :: "nat \<Rightarrow> bytes \<Rightarrow> bytes" where
  "dconv n s = (let s' = (of_nat (n mod 10) + 48) # s
                in if n div 10 \<noteq> 0 then dconv (n div 10) s' else s')"

definition hexdigits :: bytes where
  "hexdigits = map char_byte ''0123456789abcdef''"

function hexconv :: "nat \<Rightarrow> bytes \<Rightarrow> bytes" where
  "hexconv n s = (let s' = (hexdigits ! (n AND 15)) # s
                  in if drop_bit 4 n \<noteq> 0 then hexconv (drop_bit 4 n) s' else s')"
  by pat_completeness auto
termination
  by (relation "measure fst") (auto simp: drop_bit_eq_div)

declare dconv.simps [simp del] hexconv.simps [simp del]

text \<open>The characters of one conversion and the arguments left; the result of the output is ignored.\<close>

definition tiny_conv ::
  "(u16 \<Rightarrow> u8) \<Rightarrow> u8 \<Rightarrow> bytes \<Rightarrow> cpm_error + u16 list \<times> bytes" where
  "tiny_conv mem c args =
     (if c = 120 then bindr (arg_int args) (\<lambda>(v, a). Inr (map ucast (hexconv (unat v) []), a))
      else if c = 117 then bindr (arg_int args) (\<lambda>(v, a). Inr (map ucast (dconv (unat v) []), a))
      else if c = 100
      then bindr (arg_int args) (\<lambda>(v, a).
             Inr (map ucast (if sint v < 0 then 45 # dconv (unat (- v)) [] else dconv (unat v) []), a))
      else if c = 115
      then bindr (arg_int args) (\<lambda>(p, a). bindr (mem_string mem p) (\<lambda>t. Inr (map ucast t, a)))
      else if c = 99 then bindr (arg_int args) (\<lambda>(v, a). Inr ([v], a))
      else Inr ([ucast c], args))"

fun put_each :: "'s putter \<Rightarrow> u16 list \<Rightarrow> 's \<Rightarrow> 's" where
  "put_each putsub [] s = s"
| "put_each putsub (c # cs) s = put_each putsub cs (snd (putsub c s))"

fun tiny_format :: "'s putter \<Rightarrow> (u16 \<Rightarrow> u8) \<Rightarrow> bytes \<Rightarrow> bytes \<Rightarrow> 's \<Rightarrow> (unit, 's) outcome" where
  "tiny_format putsub mem [] args s = Fail (Undefined OutOfBounds) s"
| "tiny_format putsub mem (c # fmt) args s =
     (if c = 0 then Ok () s
      else if c = 37
      then (case fmt of
              [] \<Rightarrow> Fail (Undefined OutOfBounds) s
            | c' # fmt' \<Rightarrow>
                (case tiny_conv mem c' args of
                   Inl e \<Rightarrow> Fail e s
                 | Inr (cs, args') \<Rightarrow> tiny_format putsub mem fmt' args' (put_each putsub cs s)))
      else tiny_format putsub mem fmt args (snd (putsub (ucast c) s)))"




section \<open>What FMTCVT computes\<close>

text \<open>
  With \<open>n\<close> rounds to go, the upper \<open>n\<close> bits of \<open>l\<close> are still dividend and the lower ones quotient.
\<close>

lemma bit_step_eq:
  assumes "2 * (256 * h + l) = 256 * a + b" "a < 256" "b < 256"
  shows "bit_step c (h, l) = (if a < c then (a, b) else (a - c, b + 1))"
proof -
  have "(2 * (256 * h + l)) mod 65536 = 256 * a + b" using assms by simp
  then show ?thesis using assms(3) by (simp only: bit_step.simps Let_def) simp
qed

lemma bit_steps_div:
  assumes "h < c" "c \<le> 128" "n \<le> 8" "x < 2 ^ n" "q < 2 ^ (8 - n)"
  shows "bit_steps c n (h, x * 2 ^ (8 - n) + q) =
           ((h * 2 ^ n + x) mod c, q * 2 ^ n + (h * 2 ^ n + x) div c)"
  using assms
proof (induction n arbitrary: h x q)
  case 0
  then show ?case by simp
next
  case (Suc n)
  define t x' where "t = x div 2 ^ n" and "x' = x mod 2 ^ n"
  have x: "x = t * 2 ^ n + x'" "x' < 2 ^ n"
    unfolding t_def x'_def by (rule div_mult_mod_eq [symmetric], simp)
  have t: "t < 2" using Suc.prems(4) by (simp add: t_def less_mult_imp_div_less)
  have p8: "2 ^ n * 2 ^ (8 - n) = (256 :: nat)" "2 ^ n * (2 * 2 ^ (8 - Suc n)) = (256 :: nat)"
    using Suc.prems(3) by (simp_all add: power_add [symmetric] power_Suc [symmetric] del: power_Suc)
  have e: "(2::nat) ^ (8 - n) = 2 * 2 ^ (8 - Suc n)"
    using Suc.prems(3) by (simp add: Suc_diff_Suc flip: power_Suc)
  have dbl: "2 * (256 * h + (x * 2 ^ (8 - Suc n) + q)) = 256 * (2 * h + t) + (x' * 2 ^ (8 - n) + 2 * q)"
  proof -
    have "2 * (x * 2 ^ (8 - Suc n)) = t * (2 ^ n * 2 ^ (8 - n)) + x' * 2 ^ (8 - n)"
      unfolding x(1) e by (simp add: algebra_simps)
    then show ?thesis unfolding p8 by simp
  qed
  have low: "x' * 2 ^ (8 - n) + 2 * q < 256"
  proof -
    have "2 * q < 2 ^ (8 - n)" using Suc.prems(5) unfolding e by simp
    moreover have "(x' + 1) * 2 ^ (8 - n) \<le> 2 ^ n * 2 ^ (8 - n)" using x(2) by (intro mult_right_mono) auto
    ultimately show ?thesis unfolding p8 by (simp add: algebra_simps)
  qed
  have h2: "2 * h + t < 256" using Suc.prems(1,2) t by linarith
  have step: "bit_step c (h, x * 2 ^ (8 - Suc n) + q) =
      (if 2 * h + t < c then (2 * h + t, x' * 2 ^ (8 - n) + 2 * q)
       else (2 * h + t - c, x' * 2 ^ (8 - n) + (2 * q + 1)))"
    using bit_step_eq [OF dbl h2 low] by simp
  have q2: "2 * q < 2 ^ (8 - n)" "2 * q + 1 < 2 ^ (8 - n)"
    using e Suc.prems(5) by simp_all
  have sum: "h * 2 ^ Suc n + x = (2 * h + t) * 2 ^ n + x'" unfolding x(1) by (simp add: algebra_simps)
  show ?case
  proof (cases "2 * h + t < c")
    case True
    then show ?thesis unfolding bit_steps.simps step using Suc.IH [of "2 * h + t" x' "2 * q"] Suc.prems x q2
      by (simp add: sum [symmetric] algebra_simps)
  next
    case False
    let ?h = "2 * h + t - c"
    have h3: "?h < c" using Suc.prems(1) t by linarith
    have "2 * h + t = c + ?h" using False by simp
    then have "(2 * h + t) * 2 ^ n = c * 2 ^ n + ?h * 2 ^ n" by (metis distrib_right)
    then have e: "(2 * h + t) * 2 ^ n + x' = c * 2 ^ n + (?h * 2 ^ n + x')" by simp
    have "bit_steps c (Suc n) (h, x * 2 ^ (8 - Suc n) + q) =
        ((?h * 2 ^ n + x') mod c, (2 * q + 1) * 2 ^ n + (?h * 2 ^ n + x') div c)"
      unfolding bit_steps.simps step using False Suc.IH [of ?h x' "2 * q + 1"] Suc.prems x q2 h3 by simp
    moreover have "(c * 2 ^ n + z) mod c = z mod c" "(c * 2 ^ n + z) div c = 2 ^ n + z div c" for z
      using Suc.prems(1) by simp_all
    moreover have "(2 * q + 1) * 2 ^ n = q * 2 ^ Suc n + 2 ^ n" by (simp add: algebra_simps)
    ultimately show ?thesis unfolding sum e by (simp only: add.assoc)
  qed
qed

lemma bit_steps_8:
  assumes "h < c" "c \<le> 128" "b < 256"
  shows "bit_steps c 8 (h, b) = ((h * 256 + b) mod c, (h * 256 + b) div c)"
  using bit_steps_div [of h c 8 b 0] assms by simp

text \<open>The value of bytes, most significant first.\<close>

definition be_val :: "nat list \<Rightarrow> nat" where
  "be_val bs = foldl (\<lambda>v b. v * 256 + b) 0 bs"

lemma be_val_from: "foldl (\<lambda>v b. v * 256 + b) a bs = a * 256 ^ length bs + be_val bs"
  unfolding be_val_def
proof (induction bs arbitrary: a)
  case (Cons b bs)
  show ?case using Cons [of "a * 256 + b"] Cons [of b] by (simp add: algebra_simps)
qed simp

lemma be_val_simps [simp]: "be_val [] = 0" "be_val (b # bs) = b * 256 ^ length bs + be_val bs"
  using be_val_from [of b bs] by (simp_all add: be_val_def)

lemma be_val_append: "be_val (as @ bs) = be_val as * 256 ^ length bs + be_val bs"
  by (induction as) (simp_all add: power_add algebra_simps)

lemma be_val_zero: "be_val bs = 0 \<longleftrightarrow> list_all (\<lambda>b. b = 0) bs"
  by (induction bs) auto

lemma divmod_scale: "v * m = v div c * c * m + v mod c * (m::nat)"
  by (metis distrib_right div_mult_mod_eq)

lemma div_bytes_val:
  assumes "h < c" "c \<le> 128" "\<forall>b \<in> set bs. b < 256"
  shows "\<exists>qs r. div_bytes c (h, l) bs = (l # qs, r) \<and> length qs = length bs \<and> r < c \<and>
           (\<forall>b \<in> set qs. b < 256) \<and> h * 256 ^ length bs + be_val bs = be_val qs * c + r"
  using assms
proof (induction bs arbitrary: h l)
  case (Cons b bs)
  let ?v = "h * 256 + b"
  have "?v div c < 256"
  proof (rule less_mult_imp_div_less)
    have "(h + 1) * 256 \<le> c * 256" using Cons.prems(1) by (intro mult_right_mono) auto
    then show "?v < 256 * c" using Cons.prems(3) by (simp add: algebra_simps)
  qed
  moreover obtain qs r where r: "div_bytes c (?v mod c, ?v div c) bs = (?v div c # qs, r)"
    "length qs = length bs" "r < c" "\<forall>b \<in> set qs. b < 256"
    "?v mod c * 256 ^ length bs + be_val bs = be_val qs * c + r"
    using Cons.IH [of "?v mod c" "?v div c"] Cons.prems by auto
  moreover have "h * 256 ^ Suc (length bs) + be_val (b # bs) = be_val (?v div c # qs) * c + r"
  proof -
    have "h * 256 ^ Suc (length bs) + be_val (b # bs) = ?v * 256 ^ length bs + be_val bs"
      by (simp add: algebra_simps)
    also have "?v * 256 ^ length bs = ?v div c * c * 256 ^ length bs + ?v mod c * 256 ^ length bs"
      by (rule divmod_scale)
    finally show ?thesis using r(2,5) by (simp add: algebra_simps)
  qed
  ultimately show ?case using Cons.prems by (simp add: bit_steps_8)
qed auto

lemma div_number_val:
  assumes "2 \<le> c" "c \<le> 128" "\<forall>b \<in> set num. b < 256"
  shows "\<exists>q. div_number c num = (q, be_val num mod c) \<and> length q = length num \<and>
           (\<forall>b \<in> set q. b < 256) \<and> be_val q = be_val num div c"
proof (cases num)
  case (Cons b bs)
  have b: "b < 256" using assms(3) Cons by simp
  obtain qs r where r: "div_bytes c (b mod c, b div c) bs = (b div c # qs, r)" "length qs = length bs" "r < c"
    "\<forall>b \<in> set qs. b < 256" "b mod c * 256 ^ length bs + be_val bs = be_val qs * c + r"
    using div_bytes_val [of "b mod c" c bs "b div c"] assms Cons by auto
  have "be_val num = b * 256 ^ length bs + be_val bs" using Cons by simp
  also have "b * 256 ^ length bs = b div c * c * 256 ^ length bs + b mod c * 256 ^ length bs"
    by (rule divmod_scale)
  also have "\<dots> + be_val bs = (b div c * 256 ^ length bs + be_val qs) * c + r"
    using r(5) by (simp add: algebra_simps)
  also have "\<dots> = be_val (b div c # qs) * c + r" using r(2) by simp
  finally have v: "be_val num = be_val (b div c # qs) * c + r" .
  have "b div c < 256" using b by (simp add: less_mult_imp_div_less le_less_trans [OF div_le_dividend])
  moreover have "be_val num mod c = r" "be_val num div c = be_val (b div c # qs)"
    unfolding v using r(3) by simp_all
  ultimately show ?thesis using Cons r b assms(1,2) by (simp add: bit_steps_8)
qed (use assms in auto)

lemma cvt_loop_val:
  assumes "2 \<le> c" "c \<le> 16" "\<forall>b \<in> set num. b < 256"
  shows "cvt_loop c num s = Some (numeral_bytes c (be_val num) @ s)"
  using assms(3)
proof (induction "be_val num" arbitrary: num s rule: less_induct)
  case less
  obtain q where q: "div_number c num = (q, be_val num mod c)" "\<forall>b \<in> set q. b < 256"
    "be_val q = be_val num div c"
    using div_number_val [OF assms(1) _ less.prems] assms(2) by auto
  have zero: "list_all (\<lambda>b. b = 0) q \<longleftrightarrow> be_val num < c"
    unfolding be_val_zero [symmetric] q(3) using assms(1) by (simp add: div_eq_0_iff)
  show ?case
  proof (cases "be_val num < c")
    case True
    then show ?thesis using q zero by (simp add: cvt_loop.simps [of c num] numeral_bytes.simps [of c "be_val num"])
  next
    case False
    then have "be_val q < be_val num" unfolding q(3) using assms(1) by simp
    then have "cvt_loop c q (digit_byte (be_val num mod c) # s) =
        Some (numeral_bytes c (be_val q) @ digit_byte (be_val num mod c) # s)"
      using less.hyps q(2) by blast
    then show ?thesis using False q zero assms(1)
      by (simp add: cvt_loop.simps [of c num] numeral_bytes.simps [of c "be_val num"])
  qed
qed

text \<open>The value of bytes, least significant first.\<close>

definition le_val :: "bytes \<Rightarrow> nat" where
  "le_val bs = be_val (map unat (rev bs))"

lemma le_val_simps [simp]: "le_val [] = 0" "le_val (b # bs) = unat b + 256 * le_val bs"
  by (simp_all add: le_val_def be_val_append)

lemma le_val_lt: "le_val bs < 256 ^ length bs"
proof (induction bs)
  case (Cons b bs)
  have "le_val bs + 1 \<le> 256 ^ length bs" using Cons by simp
  then show ?case using unat_u8_le [of b] unfolding le_val_simps length_Cons power_Suc by linarith
qed simp

lemma le_val_zeros: "be_val (map unat (rev (bs @ replicate k 0))) = le_val bs"
proof -
  have "be_val (replicate k 0) = 0" by (induction k) simp_all
  then show ?thesis by (simp add: le_val_def be_val_append map_replicate_const flip: rev_map)
qed

lemma unat_neg_byte:
  "unat (0 - b - (if cy then 1 else 0) :: u8) =
     (if unat b + of_bool cy = 0 then 0 else 256 - unat b - of_bool cy)"
proof -
  have "of_bool cy \<le> (1::nat)" by (cases cy) simp_all
  then have le: "unat b + of_bool cy \<le> 256" using unat_u8_le [of b] by linarith
  have "(of_nat (256 - (unat b + of_bool cy)) :: u8) = 0 - b - (if cy then 1 else 0)"
    unfolding of_nat_diff [OF le] by (cases cy) simp_all
  then have "unat (0 - b - (if cy then 1 else 0) :: u8) = (256 - (unat b + of_bool cy)) mod 256"
    by (metis unat_of_nat_u8)
  then show ?thesis by (cases "unat b + of_bool cy = 0") simp_all
qed

lemma le_val_neg:
  "le_val (neg_bytes cy bs) =
     (if le_val bs + of_bool cy = 0 then 0 else 256 ^ length bs - le_val bs - of_bool cy)"
proof (induction bs arbitrary: cy)
  case (Cons b bs)
  have v: "le_val bs + 1 \<le> 256 ^ length bs" using le_val_lt [of bs] by simp
  have b: "unat b \<le> 255" by simp
  have eq: "le_val (neg_bytes cy (b # bs)) =
      (if unat b + of_bool cy = 0 then 0 else 256 - unat b - of_bool cy) +
      256 * le_val (neg_bytes (b \<noteq> 0 \<or> cy) bs)"
    by (simp only: neg_bytes.simps le_val_simps unat_neg_byte)
  show ?case
  proof (cases "unat b + of_bool cy = 0")
    case True
    then have "b = 0" "\<not> cy" by (auto simp: unat_0_iff)
    then show ?thesis unfolding eq Cons by (simp add: diff_mult_distrib2)
  next
    case False
    then have c: "b \<noteq> 0 \<or> cy" by auto
    then have "le_val (neg_bytes cy (b # bs)) =
        256 - (unat b + of_bool cy) + 256 * (256 ^ length bs - (le_val bs + 1))"
      using False unfolding eq Cons by simp
    also have "\<dots> = 256 * 256 ^ length bs - (unat b + 256 * le_val bs) - of_bool cy"
    proof -
      obtain d where d: "256 ^ length bs = le_val bs + 1 + d" using v by (metis le_iff_add)
      have "of_bool cy \<le> (1::nat)" by (cases cy) simp_all
      moreover have "256 - (u + c) + 256 * (v + 1 + d - (v + 1)) = 256 * (v + 1 + d) - (u + 256 * v) - c"
        if "c \<le> 1" "u \<le> 255" for u c v :: nat
        using that by simp
      ultimately show ?thesis unfolding d using unat_u8_le [of b] by blast
    qed
    finally show ?thesis using False by auto
  qed
qed simp

text \<open>\<open>fmtcvt\<close> prints the number in the base, with a minus sign for a signed negative one.\<close>

definition int_bytes :: "int \<Rightarrow> bytes" where
  "int_bytes k = (if k < 0 then 45 # numeral_bytes 10 (nat (- k)) else numeral_bytes 10 (nat k))"

lemma cvt_loop_bytes:
  assumes "2 \<le> c" "c \<le> 16"
  shows "cvt_loop c (map unat (rev (n @ replicate k 0))) [] = Some (numeral_bytes c (le_val n))"
proof -
  have "cvt_loop c (map unat (rev (n @ replicate k 0))) [] =
      Some (numeral_bytes c (be_val (map unat (rev (n @ replicate k 0)))) @ [])"
    by (rule cvt_loop_val) (use assms in auto)
  then show ?thesis by (simp only: le_val_zeros append_Nil2)
qed

lemma fmtcvt_unsigned:
  assumes "k = 8 \<or> k = 10 \<or> k = 16"
  shows "fmtcvt num k = Some (numeral_bytes (nat k) (le_val num))"
  using assms cvt_loop_bytes [of "nat k" num "4 - length num"] by (auto simp: fmtcvt_def)

lemma fmtcvt_signed:
  "fmtcvt num (- 10) =
     Some (if 0x80 \<le> last num then 45 # numeral_bytes 10 (le_val (neg_bytes False num))
           else numeral_bytes 10 (le_val num))"
  using cvt_loop_bytes [of 10 num "4 - length num"]
    cvt_loop_bytes [of 10 "neg_bytes False num" "4 - length (neg_bytes False num)"]
  by (auto simp: fmtcvt_def)

lemma le_val_word [simp]: "le_val [lo8 w, hi8 w] = unat w"
  by (simp add: unat_lo8 unat_hi8)

text \<open>\<open>%d\<close> of an \<open>int\<close>.\<close>

lemma fmtcvt_int: "fmtcvt [lo8 w, hi8 w] (- 10) = Some (int_bytes (sint w))"
proof -
  have h: "0x80 \<le> hi8 w \<longleftrightarrow> \<not> unat w < 32768"
    by (auto simp: word_le_nat_alt unat_hi8)
  have n: "le_val (neg_bytes False [lo8 w, hi8 w]) = (if unat w = 0 then 0 else 65536 - unat w)"
    unfolding le_val_neg le_val_word by simp
  have "fmtcvt [lo8 w, hi8 w] (- 10) =
      Some (if 0x80 \<le> hi8 w then 45 # numeral_bytes 10 (if unat w = 0 then 0 else 65536 - unat w)
            else numeral_bytes 10 (unat w))"
    unfolding fmtcvt_signed le_val_word n by simp
  moreover have "nat (- sint w) = 65536 - unat w \<and> sint w < 0" if "\<not> unat w < 32768"
  proof -
    have "nat (- (int n - 65536)) = 65536 - n \<and> int n - 65536 < 0" if "n < 65536" for n
      using that by auto
    moreover have "sint w = int (unat w) - 65536" using that by (simp only: sint_u16 if_False)
    ultimately show ?thesis using unat_u16_lt [of w] by metis
  qed
  ultimately show ?thesis using h by (auto simp: int_bytes_def sint_u16)
qed

section \<open>Plain conversions\<close>

lemma dconv_eq: "dconv n s = numeral_bytes 10 n @ s"
proof (induction n s rule: dconv.induct)
  case (1 n s)
  have d: "of_nat (m mod 10) + 48 = digit_byte (m mod 10)" for m by (simp add: digit_byte_def)
  show ?case
  proof (cases "n div 10 = 0")
    case True
    then show ?thesis using d [of n]
      by (simp add: dconv.simps [of n] numeral_bytes.simps [of 10 n] div_eq_0_iff)
  next
    case False
    then show ?thesis using 1 d [of n]
      by (simp add: dconv.simps [of n] numeral_bytes.simps [of 10 n] div_eq_0_iff)
  qed
qed

lemma hexdigits_nth: "k < 16 \<Longrightarrow> hexdigits ! k = digit_byte k"
proof -
  have "\<forall>k \<in> set [0..<16]. hexdigits ! k = digit_byte k" by code_simp
  then show "k < 16 \<Longrightarrow> hexdigits ! k = digit_byte k" by simp
qed

lemma hexconv_eq: "hexconv n s = numeral_bytes 16 n @ s"
proof (induction n s rule: hexconv.induct)
  case (1 n s)
  have d: "hexdigits ! (n AND 15) = digit_byte (n mod 16)"
    using and_0xF [of n] by (simp add: hexdigits_nth)
  have q: "drop_bit 4 n = n div 16" by (simp add: drop_bit_eq_div)
  show ?case
  proof (cases "n div 16 = 0")
    case True
    then show ?thesis using d q by (simp add: hexconv.simps [of n] numeral_bytes.simps [of 16 n] div_eq_0_iff)
  next
    case False
    then show ?thesis using 1 d q
      by (simp add: hexconv.simps [of n] numeral_bytes.simps [of 16 n] div_eq_0_iff)
  qed
qed

lemma numeral_bytes_short: "n < b ^ k \<Longrightarrow> 2 \<le> b \<Longrightarrow> 0 < k \<Longrightarrow> length (numeral_bytes b n) \<le> k"
proof (induction b n arbitrary: k rule: numeral_bytes.induct)
  case (1 b n)
  show ?case
  proof (cases "n < b")
    case True
    then show ?thesis using "1.prems"(3) by (simp add: numeral_bytes.simps [of b n])
  next
    case False
    obtain j where k: "k = Suc j" using "1.prems"(3) by (cases k) auto
    have "j \<noteq> 0" using "1.prems" False k by (cases j) auto
    moreover have "n div b < b ^ j" using "1.prems" k by (simp add: less_mult_imp_div_less mult.commute)
    ultimately have "length (numeral_bytes b (n div b)) \<le> j" using "1.IH" "1.prems" False by auto
    then show ?thesis using False "1.prems" k by (simp add: numeral_bytes.simps [of b n])
  qed
qed

text \<open>A conversion character without flags, width, precision or size.\<close>

definition plain_char :: "u8 \<Rightarrow> bool" where
  "plain_char c \<longleftrightarrow> c < 0x80 \<and> c \<noteq> 0 \<and> \<not> (48 \<le> c \<and> c \<le> 57) \<and>
     c \<noteq> 45 \<and> c \<noteq> 42 \<and> c \<noteq> 46 \<and> c \<noteq> 108 \<and> c \<noteq> 104"

definition plain_spec :: "u8 \<Rightarrow> fmt_spec" where
  "plain_spec c = \<lparr>rj = True, fillc = 32, width = 0, maxwidth = 10000, longarg = False, conv = c\<rparr>"

lemma parse_spec_plain:
  assumes "plain_char c"
  shows "parse_spec (c # fmt) args = Inr (plain_spec c, fmt, args)"
proof -
  have "c \<noteq> 48" "isdigit_byte c = Some False"
    using assms isdigit_byte_eq [of c] by (auto simp: plain_char_def)
  then show ?thesis using assms
    by (simp add: parse_spec_def flag_char_def star_or_num_def num_loop.simps [of 0 c] precision_def
        size_flag_def plain_spec_def plain_char_def)
qed

lemma field_plain:
  assumes "length t < 10000" and "i = of_nat (length t) \<or> i = 1"
  shows "field (plain_spec c) t i = map ucast t"
proof -
  have "unat i < 10000" using assms by (auto simp: unat_of_nat_u16)
  then have "sint i = int (unat i)" "int (unat i) < 10000" using sint_small [of i] by linarith+
  then have "0 \<le> sint i" "sint i < 10000" by linarith+
  moreover have "sint (10000 :: u16) = 10000" by simp
  ultimately show ?thesis using assms(1) by (auto simp: field_def plain_spec_def Let_def)
qed

lemma put_all_each:
  assumes "\<forall>c s. fst (putsub c s) \<noteq> 0xFFFF"
  shows "put_all putsub cs s = (True, put_each putsub cs s)"
proof (induction cs arbitrary: s)
  case (Cons c cs)
  then show ?case using assms [rule_format, of c s] by (auto split: prod.splits)
qed simp

text \<open>Both formatters produce the same text for one plain conversion.\<close>

definition plain_arg :: "(u16 \<Rightarrow> u8) \<Rightarrow> u8 \<Rightarrow> bytes \<Rightarrow> bool" where
  "plain_arg mem c args \<longleftrightarrow> plain_char c \<and> c \<noteq> 111 \<and>
     (case arg_int args of
        Inl e \<Rightarrow> True
      | Inr (v, _) \<Rightarrow>
          (c = 99 \<longrightarrow> 0 < v \<and> v < 256) \<and>
          (c = 115 \<longrightarrow> (case mem_string mem v of Inl e \<Rightarrow> True | Inr t \<Rightarrow> length t < 10000)))"

lemma arg_bytes_2: "arg_bytes 2 args =
   (case arg_int args of Inl e \<Rightarrow> Inl e | Inr (v, a) \<Rightarrow> Inr ([lo8 v, hi8 v], a))"
proof (cases "length args < 2")
  case False
  then obtain x y r where "args = x # y # r" by (cases args; cases "tl args") auto
  then show ?thesis by (simp add: arg_int_def arg_bytes_def)
qed (simp add: arg_int_def arg_bytes_def)

lemma fmtcvt_word:
  "fmtcvt [lo8 v, hi8 v] 10 = Some (numeral_bytes 10 (unat v))"
  "fmtcvt [lo8 v, hi8 v] 16 = Some (numeral_bytes 16 (unat v))"
  using fmtcvt_unsigned [of 10 "[lo8 v, hi8 v]"] fmtcvt_unsigned [of 16 "[lo8 v, hi8 v]"]
  unfolding le_val_word by simp_all

lemma conv_of_plain [simp]: "conv (plain_spec c) = c" "longarg (plain_spec c) = False"
  by (simp_all add: plain_spec_def)

lemma conv_plain:
  assumes "plain_arg mem c args"
  shows "tiny_conv mem c args =
    (case conv_text mem (plain_spec c) args of
       Inl e \<Rightarrow> Inl e | Inr (t, i, a) \<Rightarrow> Inr (field (plain_spec c) t i, a))"
proof -
  have pc: "plain_char c" "c \<noteq> 111" using assms by (auto simp: plain_arg_def)
  have short: "length (numeral_bytes 10 (unat v)) < 10000" "length (numeral_bytes 16 (unat v)) < 10000"
    "length (int_bytes (sint v)) < 10000" for v :: u16
  proof -
    have n: "length (numeral_bytes b n) \<le> 16" if "n < 65536" "2 \<le> b" for b n
    proof -
      have "(2::nat) ^ 16 \<le> b ^ 16" using that(2) by (rule power_mono) simp
      then show ?thesis using numeral_bytes_short [of n b 16] that by simp
    qed
    show "length (numeral_bytes 10 (unat v)) < 10000" "length (numeral_bytes 16 (unat v)) < 10000"
      using n [of "unat v" 10] n [of "unat v" 16] unat_u16_lt [of v] by linarith+
    have "nat (- sint v) < 65536" "nat (sint v) < 65536"
      using sint_bounds [of v] by auto
    then show "length (int_bytes (sint v)) < 10000"
      using n [of "nat (- sint v)" 10] n [of "nat (sint v)" 10] by (auto simp: int_bytes_def)
  qed
  have neg: "(if sint v < 0 then 45 # dconv (unat (- v)) [] else dconv (unat v) []) = int_bytes (sint v)"
    for v :: u16
    using unat_minus_u16 [of v] by (auto simp: dconv_eq int_bytes_def nat_sint_u16)
  consider (u) "c = 117" | (x) "c = 120" | (d) "c = 100" | (s) "c = 115" | (c) "c = 99"
    | (other) "c \<notin> {117, 120, 100, 115, 99}" by blast
  then show ?thesis
  proof cases
    case u
    then show ?thesis using short
      by (cases "arg_int args")
        (auto simp: tiny_conv_def conv_text_def conv_base_def arg_bytes_2 fmtcvt_word field_plain dconv_eq)
  next
    case x
    then show ?thesis using short
      by (cases "arg_int args")
        (auto simp: tiny_conv_def conv_text_def conv_base_def arg_bytes_2 fmtcvt_word field_plain hexconv_eq)
  next
    case d
    then show ?thesis using short
      by (cases "arg_int args")
        (auto simp: tiny_conv_def conv_text_def conv_base_def arg_bytes_2 fmtcvt_int field_plain neg)
  next
    case s
    then show ?thesis using assms
      by (cases "arg_int args")
        (auto simp: tiny_conv_def conv_text_def conv_base_def plain_arg_def field_plain bindr_def split: sum.splits)
  next
    case c
    have "v = ucast (ucast v :: u8)" if "v < 256" for v :: u16
      using that by (simp add: word_unat_eq_iff unsigned_ucast_eq word_less_nat_alt unsigned_take_bit_eq take_bit_nat_eq_self)
    moreover have "ucast v \<noteq> (0 :: u8)" if "0 < v" "v < 256" for v :: u16
      using that calculation by (metis unsigned_0 word_gt_0)
    ultimately show ?thesis using assms c
      by (cases "arg_int args")
        (auto simp: tiny_conv_def conv_text_def conv_base_def plain_arg_def field_plain)
  next
    case other
    then show ?thesis using pc
      by (auto simp: tiny_conv_def conv_text_def conv_base_def field_plain plain_char_def)
  qed
qed

text \<open>Formats in which every conversion is plain and has a plain argument.\<close>

fun plain_format :: "(u16 \<Rightarrow> u8) \<Rightarrow> bytes \<Rightarrow> bytes \<Rightarrow> bool" where
  "plain_format mem [] args = True"
| "plain_format mem (c # fmt) args =
     (if c = 0 then True
      else if c = 37
      then (case fmt of
              [] \<Rightarrow> True
            | c' # fmt' \<Rightarrow> plain_arg mem c' args \<and>
                (case tiny_conv mem c' args of
                   Inl e \<Rightarrow> True | Inr (cs, args') \<Rightarrow> plain_format mem fmt' args'))
      else plain_format mem fmt args)"

lemma formatters_agree:
  assumes "plain_format mem fmt args" and "\<forall>c s. fst (putsub c s) \<noteq> 0xFFFF"
  shows "tiny_format putsub mem fmt args s =
           (case format_loop putsub mem fmt args n s of Ok m s' \<Rightarrow> Ok () s' | Fail e s' \<Rightarrow> Fail e s')"
  using assms
proof (induction putsub mem fmt args s arbitrary: n rule: tiny_format.induct)
  case (1 putsub mem args s)
  then show ?case by (simp add: format_loop.simps)
next
  case (2 putsub mem c fmt args s)
  consider (nul) "c = 0" | (conv) "c = 37" | (char) "c \<noteq> 0" "c \<noteq> 37" by blast
  then show ?case
  proof cases
    case nul
    then show ?thesis by (simp add: format_loop.simps)
  next
    case char
    have "plain_format mem fmt args" using "2.prems"(1) char by simp
    moreover have "fst (putsub (ucast c) s) \<noteq> 0xFFFF" using "2.prems"(2) by blast
    ultimately show ?thesis using char "2.IH"(2) "2.prems"(2)
      by (cases "putsub (ucast c) s") (auto simp: format_loop.simps)
  next
    case conv
    show ?thesis
    proof (cases fmt)
      case Nil
      then show ?thesis using conv by (simp add: format_loop.simps parse_spec_def)
    next
      case (Cons c' fmt')
      then have pa: "plain_arg mem c' args" using "2.prems"(1) conv by simp
      then have ps: "parse_spec fmt args = Inr (plain_spec c', fmt', args)"
        using Cons parse_spec_plain by (simp add: plain_arg_def)
      show ?thesis
      proof (cases "conv_text mem (plain_spec c') args")
        case (Inl e)
        then show ?thesis using conv Cons ps conv_plain [OF pa] by (simp add: format_loop.simps)
      next
        case (Inr x)
        obtain t i a where x: "x = (t, i, a)" by (cases x)
        let ?cs = "field (plain_spec c') t i"
        have tc: "tiny_conv mem c' args = Inr (?cs, a)" using conv_plain [OF pa] Inr x by simp
        then have "plain_format mem fmt' a" using "2.prems"(1) conv Cons by simp
        then have "tiny_format putsub mem fmt' a (put_each putsub ?cs s) =
            (case format_loop putsub mem fmt' a (n + of_nat (length ?cs)) (put_each putsub ?cs s) of
               Ok m s' \<Rightarrow> Ok () s' | Fail e s' \<Rightarrow> Fail e s')"
          using "2.IH"(1) [OF _ conv Cons tc refl] "2.prems"(2) conv by simp
        then show ?thesis using conv Cons ps Inr x tc put_all_each [OF "2.prems"(2), of ?cs s]
          by (simp add: format_loop.simps)
      qed
    qed
  qed
qed

text \<open>\<open>sprintf\<close> counts what it stores.\<close>

lemma spsub_result: "fst (spsub c s) \<noteq> 0xFFFF"
proof -
  have "unat (c AND 0xff) < 256"
    by (simp add: unsigned_and_eq and_0xFF_nat)
  then show ?thesis by (auto simp: spsub_def)
qed

lemma put_each_spsub: "put_each spsub cs s = s @ map ucast cs"
  by (induction cs arbitrary: s) (simp_all add: spsub_def)

lemma format_loop_spsub:
  "format_loop spsub mem fmt args n out = Ok m out' \<Longrightarrow>
   \<exists>x. out' = out @ x \<and> m = n + of_nat (length x)"
proof (induction "spsub" mem fmt args n out rule: format_loop.induct)
  case (2 mem c fmt args n s)
  consider (nul) "c = 0" | (conv) "c = 37" | (char) "c \<noteq> 0" "c \<noteq> 37" by blast
  then show ?case
  proof cases
    case nul
    then show ?thesis using "2.prems" by (simp add: format_loop.simps)
  next
    case char
    have "format_loop spsub mem fmt args (n + 1) (s @ [ucast (ucast c :: u16)]) = Ok m out'"
      using "2.prems" char spsub_result [of "ucast c" s] by (simp add: format_loop.simps spsub_def)
    then obtain x where "out' = (s @ [ucast (ucast c :: u16)]) @ x" "m = n + 1 + of_nat (length x)"
      using "2.hyps"(2) [OF char _ _ ] spsub_result [of "ucast c" s] by (fastforce simp: spsub_def)
    then show ?thesis by (intro exI [of _ "ucast (ucast c :: u16) # x"]) simp
  next
    case conv
    then obtain sp fmt' args' t i args'' where
      c: "parse_spec fmt args = Inr (sp, fmt', args')" "conv_text mem sp args' = Inr (t, i, args'')"
      "format_loop spsub mem fmt' args'' (n + of_nat (length (field sp t i)))
         (s @ map ucast (field sp t i)) = Ok m out'"
      using "2.prems" put_all_each [of spsub] spsub_result
      by (auto simp: format_loop.simps put_each_spsub split: sum.splits)
    have pa: "put_all spsub (field sp t i) s = (True, s @ map ucast (field sp t i))"
      using put_all_each [of spsub] spsub_result by (simp add: put_each_spsub)
    have "\<exists>x. out' = (s @ map ucast (field sp t i)) @ x \<and> m = n + of_nat (length (field sp t i)) + of_nat (length x)"
      by (rule "2.hyps"(1)) (use c conv pa in auto)
    then obtain x where "out' = (s @ map ucast (field sp t i)) @ x"
      "m = n + of_nat (length (field sp t i)) + of_nat (length x)" by blast
    then show ?thesis by (intro exI [of _ "map ucast (field sp t i) @ x"]) simp
  qed
qed (simp add: format_loop.simps)

lemma sprintf_plain:
  assumes "plain_char c" "conv_text mem (plain_spec c) args = Inr (t, i, args')"
    and "length t < 10000" "i = of_nat (length t) \<or> i = 1"
  shows "sprintf mem [37, c, 0] args = Ok (of_nat (length t)) (t @ [0])"
proof -
  have f: "field (plain_spec c) t i = map ucast t" by (rule field_plain [OF assms(3,4)])
  have "ucast (ucast x :: u16) = (x :: u8)" for x by (rule bit_eqI) (auto simp: bit_simps)
  then have id: "map ucast (map ucast t :: u16 list) = t" by (simp add: comp_def)
  have "put_all spsub (map ucast t) [] = (True, t)"
    using put_all_each [of spsub "map ucast t" "[]"] spsub_result id by (simp add: put_each_spsub)
  then show ?thesis using assms(1,2) f
    by (simp add: sprintf_def format_def format_loop.simps parse_spec_plain)
qed

text \<open>\<open>sprintf(buf, "%d", n)\<close>.\<close>

lemma int_bytes_short: "length (int_bytes (sint (w :: u16))) \<le> 6"
proof -
  have "nat (- sint w) < 100000" "nat (sint w) < 100000" using sint_bounds [of w] by linarith+
  then have "length (numeral_bytes 10 (nat (- sint w))) \<le> 5" "length (numeral_bytes 10 (nat (sint w))) \<le> 5"
    using numeral_bytes_short [of "nat (- sint w)" 10 5] numeral_bytes_short [of "nat (sint w)" 10 5] by simp_all
  then show ?thesis by (simp add: int_bytes_def)
qed

lemma sprintf_int:
  "sprintf mem [37, 100, 0] [lo8 w, hi8 w] =
     Ok (of_nat (length (int_bytes (sint w)))) (int_bytes (sint w) @ [0])"
proof (rule sprintf_plain)
  show "plain_char 100" by (simp add: plain_char_def)
  show "conv_text mem (plain_spec 100) [lo8 w, hi8 w] =
      Inr (int_bytes (sint w), of_nat (length (int_bytes (sint w))), [])"
    by (simp add: conv_text_def conv_base_def arg_bytes_def fmtcvt_int)
  show "length (int_bytes (sint w)) < 10000" using int_bytes_short [of w] by linarith
qed simp

end
