(* ===== verification/Aztec_Scan.thy ===== *)
theory Aztec_Scan
  imports Aztec_Format
begin

text \<open>
  Formatted input of the C library in \<^verbatim>\<open>disks/I/2\<close>: \<^verbatim>\<open>SCAN.C\<close> and \<^verbatim>\<open>SSCANF.C\<close>. The floating
  point conversions, compiled only under \<open>FLOAT\<close>, are in a theory of their own.

  The character source is an argument, \<open>(*gsub)(0)\<close> to read and \<open>(*gsub)(1)\<close> to put back, with \<open>EOF\<close>
  as -1. What is stored through the argument pointers is the list of stores, address and bytes,
  in their order; the memory written must not overlap the source. A run is \<open>None\<close> when a source that
  never runs dry keeps the scanner skipping blanks.
\<close>

type_synonym 's getter = "bool \<Rightarrow> 's \<Rightarrow> (int, 's) outcome"
type_synonym store = "u16 \<times> bytes"
type_synonym ('a, 's) run = "('a, 's) outcome option"

definition bindp :: "('a, 's) run \<Rightarrow> ('a \<Rightarrow> 's \<Rightarrow> ('b, 's) run) \<Rightarrow> ('b, 's) run" where
  "bindp m f = (case m of None \<Rightarrow> None | Some (Fail e s) \<Rightarrow> Some (Fail e s) | Some (Ok x s) \<Rightarrow> f x s)"

abbreviation (input) EOF :: int where "EOF \<equiv> - 1"

section \<open>Blanks, numbers and characters\<close>

partial_function (option) skipblank :: "'s getter \<Rightarrow> 's \<Rightarrow> (bool, 's) run" where
  [code]: "skipblank gsub s =
     (case gsub False s of
        Fail e s' \<Rightarrow> Some (Fail e s')
      | Ok c s' \<Rightarrow>
          (case isspace c of
             None \<Rightarrow> Some (Fail (Undefined OutOfBounds) s')
           | Some blank \<Rightarrow>
               if blank then skipblank gsub s'
               else (case gsub True s' of
                       Fail e s'' \<Rightarrow> Some (Fail e s'')
                     | Ok r s'' \<Rightarrow> Some (Ok (r = EOF) s''))))"

text \<open>\<open>index\<close>: the terminator counts as a character of the string.\<close>

fun index_of :: "bytes \<Rightarrow> u8 \<Rightarrow> nat option" where
  "index_of [] c = None"
| "index_of (b # bs) c = (if b = c then Some 0 else map_option Suc (index_of bs c))"

definition digit_list :: bytes where
  "digit_list = map char_byte ''ABCDEFabcdef9876543210''"

definition digit_vals :: "nat list" where
  "digit_vals = [10, 11, 12, 13, 14, 15, 10, 11, 12, 13, 14, 15, 9, 8, 7, 6, 5, 4, 3, 2, 1, 0]"

text \<open>The digit loop of \<open>getnum\<close> with \<open>k\<close> characters left: the count and the value.\<close>

fun getnum_loop ::
  "'s getter \<Rightarrow> nat \<Rightarrow> nat \<Rightarrow> nat \<Rightarrow> nat \<Rightarrow> u32 \<Rightarrow> 's \<Rightarrow> (nat \<times> u32, 's) outcome" where
  "getnum_loop gsub off base 0 cnt val s = Ok (cnt, val) s"
| "getnum_loop gsub off base (Suc k) cnt val s =
     bindo (gsub False s) (\<lambda>c s.
       case index_of (drop off digit_list @ [0]) (of_int c) of
         None \<Rightarrow>
           if base = 16 \<and> val = 0 \<and> (c = 120 \<or> c = 88)
           then getnum_loop gsub off base k (Suc cnt) val s
           else bindo (gsub True s) (\<lambda>_ s. Ok (cnt, val) s)
       | Some i \<Rightarrow>
           if off + i < length digit_vals
           then getnum_loop gsub off base k (Suc cnt) (val * of_nat base + of_nat (digit_vals ! (off + i))) s
           else Fail (Undefined OutOfBounds) s)"

declare getnum_loop.simps [simp del]

definition getnum ::
  "'s getter \<Rightarrow> nat \<Rightarrow> nat \<Rightarrow> u16 \<Rightarrow> 's \<Rightarrow> (nat \<times> u32, 's) outcome" where
  "getnum gsub off base maxw s =
     (if sint maxw \<le> 0 then Ok (0, 0) s
      else bindo (gsub False s) (\<lambda>c s.
        bindo (if c = 45 \<or> c = 43 then Ok (1 :: nat) s
               else bindo (gsub True s) (\<lambda>_ s. Ok 0 s)) (\<lambda>cnt s.
        bindo (getnum_loop gsub off base (nat (sint maxw) - cnt) cnt 0 s) (\<lambda>(n, v) s.
          Ok (n, if c = 45 then - v else v) s))))"

text \<open>The character loop of \<open>%s\<close>, \<open>%[\<close> and \<open>%c\<close>; \<open>lflag\<close> inverts the set.\<close>

fun str_loop ::
  "'s getter \<Rightarrow> bytes \<Rightarrow> bool \<Rightarrow> nat \<Rightarrow> bytes \<Rightarrow> 's \<Rightarrow> (bytes, 's) outcome" where
  "str_loop gsub tlist lflag 0 acc s = Ok acc s"
| "str_loop gsub tlist lflag (Suc k) acc s =
     bindo (gsub False s) (\<lambda>c s.
       if c = EOF then Ok acc s
       else if (index_of (tlist @ [0]) (of_int c) \<noteq> None) = lflag
       then bindo (gsub True s) (\<lambda>_ s. Ok acc s)
       else str_loop gsub tlist lflag k (acc @ [of_int c]) s)"

section \<open>Conversion specifications\<close>

record scan_spec =
  suppress :: bool
  swidth :: u16
  lflag :: bool
  sconv :: u8

fun scan_num :: "u16 \<Rightarrow> bytes \<Rightarrow> cpm_error + u16 \<times> bytes" where
  "scan_num w [] = Inl (Undefined OutOfBounds)"
| "scan_num w (c # fmt) =
     (case isdigit_byte c of
        None \<Rightarrow> Inl (Undefined OutOfBounds)
      | Some True \<Rightarrow> scan_num (w * 10 + ucast c - 48) fmt
      | Some False \<Rightarrow> Inr (w, c # fmt))"

text \<open>A look at the next character, which is skipped when it is the one wanted.\<close>

definition opt_char :: "u8 \<Rightarrow> bytes \<Rightarrow> cpm_error + bool \<times> bytes" where
  "opt_char f fmt = bindr (getch fmt) (\<lambda>(c, r). Inr (if c = f then (True, r) else (False, fmt)))"

definition scan_width :: "bytes \<Rightarrow> cpm_error + u16 \<times> bytes" where
  "scan_width fmt =
     bindr (getch fmt) (\<lambda>(c, r).
       case isdigit_byte c of
         None \<Rightarrow> Inl (Undefined OutOfBounds)
       | Some d \<Rightarrow> if d then scan_num 0 fmt else Inr (127, fmt))"

definition parse_scan :: "bytes \<Rightarrow> cpm_error + scan_spec \<times> bytes" where
  "parse_scan fmt =
     bindr (opt_char 42 fmt) (\<lambda>(skip, fmt).
     bindr (scan_width fmt) (\<lambda>(w, fmt).
     bindr (opt_char 108 fmt) (\<lambda>(lng, fmt).
     bindr (getch fmt) (\<lambda>(c, fmt).
     Inr (\<lparr>suppress = skip, swidth = w, lflag = lng, sconv = c\<rparr>, fmt)))))"

text \<open>The set of \<open>%[\<close>: the characters up to \<open>]\<close>, at most 129 fit \<open>tlist\<close>.\<close>

fun scan_set :: "nat \<Rightarrow> bytes \<Rightarrow> cpm_error + bytes \<times> bytes" where
  "scan_set k [] = Inl (Undefined OutOfBounds)"
| "scan_set k (c # fmt) =
     (if c = 93 then Inr ([], fmt)
      else if k = 0 then Inl (Undefined OutOfBounds)
      else bindr (scan_set (k - 1) fmt) (\<lambda>(cs, r). Inr (c # cs, r)))"

definition parse_set :: "bytes \<Rightarrow> cpm_error + bool \<times> bytes \<times> bytes" where
  "parse_set fmt =
     bindr (getch fmt) (\<lambda>(c, r).
     let (neg, fmt) = (if c = 94 \<or> c = 126 then (True, r) else (False, fmt)) in
     bindr (scan_set 129 fmt) (\<lambda>(cs, fmt). Inr (neg, cs, fmt)))"

text \<open>Long argument, offset into the digits and base of a number conversion.\<close>

definition num_conv :: "u8 \<Rightarrow> bool \<Rightarrow> (bool \<times> nat \<times> nat) option" where
  "num_conv c lng =
     (if c = 104 then Some (False, 12, 10)
      else if c = 68 then Some (True, 12, 10) else if c = 100 then Some (lng, 12, 10)
      else if c = 88 then Some (True, 0, 16) else if c = 120 then Some (lng, 0, 16)
      else if c = 79 then Some (True, 14, 8) else if c = 111 then Some (lng, 14, 8)
      else None)"

definition long_bytes :: "u32 \<Rightarrow> bytes" where
  "long_bytes v = [lo8 (ucast v), hi8 (ucast v), lo8 (ucast (drop_bit 16 v)), hi8 (ucast (drop_bit 16 v))]"

definition int_image :: "bool \<Rightarrow> u32 \<Rightarrow> bytes" where
  "int_image lng v = (if lng then long_bytes v else [lo8 (ucast v), hi8 (ucast v)])"

text \<open>
  The outcome of one directive: \<open>Stop\<close> for \<open>goto stopscan\<close>, otherwise what it assigned, the format
  and the arguments left.
\<close>

datatype directive = Stop | Go "store list" bytes bytes

definition lift :: "('a, 's) outcome \<Rightarrow> ('a, 's) run" where "lift m = Some m"

definition take_arg :: "bool \<Rightarrow> bytes \<Rightarrow> cpm_error + u16 \<times> bytes" where
  "take_arg skip args = (if skip then Inr (0, args) else arg_int args)"

definition conv_number ::
  "'s getter \<Rightarrow> scan_spec \<Rightarrow> bool \<times> nat \<times> nat \<Rightarrow> bytes \<Rightarrow> bytes \<Rightarrow> 's \<Rightarrow> (directive, 's) run" where
  "conv_number gsub sp nc fmt args s =
     (case nc of (lng, off, base) \<Rightarrow>
      bindp (skipblank gsub s) (\<lambda>eof s.
      if eof then Some (Ok Stop s)
      else bindp (lift (getnum gsub off base (swidth sp) s)) (\<lambda>(n, v) s.
        if n = 0 then Some (Ok Stop s)
        else case take_arg (suppress sp) args of
               Inl e \<Rightarrow> Some (Fail e s)
             | Inr (p, args') \<Rightarrow>
                 Some (Ok (Go (if suppress sp then [] else [(p, int_image lng v)]) fmt args') s))))"

definition conv_chars ::
  "'s getter \<Rightarrow> scan_spec \<Rightarrow> bytes \<Rightarrow> bool \<Rightarrow> u16 \<Rightarrow> bytes \<Rightarrow> bytes \<Rightarrow> 's \<Rightarrow> (directive, 's) run" where
  "conv_chars gsub sp tlist neg w fmt args s =
     (case take_arg (suppress sp) args of
        Inl e \<Rightarrow> Some (Fail e s)
      | Inr (p, args') \<Rightarrow>
          bindp (lift (str_loop gsub tlist neg (unat w) [] s)) (\<lambda>cs s.
            if cs = [] then Some (Ok Stop s)
            else Some (Ok (Go (if suppress sp then [] else [(p, cs @ [0])]) fmt args') s)))"

definition matchit :: "'s getter \<Rightarrow> int \<Rightarrow> bytes \<Rightarrow> bytes \<Rightarrow> 's \<Rightarrow> (directive, 's) run" where
  "matchit gsub c fmt args s =
     bindp (lift (gsub False s)) (\<lambda>r s.
       if r = c then Some (Ok (Go [] fmt args) s)
       else bindp (lift (gsub True s)) (\<lambda>_ s. Some (Ok Stop s)))"

definition conversion ::
  "'s getter \<Rightarrow> bytes \<Rightarrow> bytes \<Rightarrow> 's \<Rightarrow> (directive, 's) run" where
  "conversion gsub fmt args s =
     (case parse_scan fmt of
        Inl e \<Rightarrow> Some (Fail e s)
      | Inr (sp, fmt) \<Rightarrow>
          (case num_conv (sconv sp) (lflag sp) of
             Some nc \<Rightarrow> conv_number gsub sp nc fmt args s
           | None \<Rightarrow>
               if sconv sp = 37 then matchit gsub 37 fmt args s
               else if sconv sp = 91
               then (case parse_set fmt of
                       Inl e \<Rightarrow> Some (Fail e s)
                     | Inr (neg, cs, fmt) \<Rightarrow>
                         bindp (skipblank gsub s) (\<lambda>eof s.
                         if eof then Some (Ok Stop s)
                         else conv_chars gsub sp cs neg (swidth sp) fmt args s))
               else if sconv sp = 115
               then bindp (skipblank gsub s) (\<lambda>eof s.
                      if eof then Some (Ok Stop s)
                      else conv_chars gsub sp [32, 9, 10] True (swidth sp) fmt args s)
               else if sconv sp = 99 then conv_chars gsub sp [] True 1 fmt args s
               else Some (Ok (Go [] fmt args) s)))"

text \<open>One round of the loop over the format, \<open>c\<close> being its next character.\<close>

definition directive_of ::
  "'s getter \<Rightarrow> u8 \<Rightarrow> bytes \<Rightarrow> bytes \<Rightarrow> 's \<Rightarrow> (directive, 's) run" where
  "directive_of gsub c fmt args s =
     (if c = 37 then conversion gsub fmt args s
      else case isspace (uint c) of
             None \<Rightarrow> Some (Fail (Undefined OutOfBounds) s)
           | Some True \<Rightarrow>
               bindp (skipblank gsub s) (\<lambda>eof s. Some (Ok (if eof then Stop else Go [] fmt args) s))
           | Some False \<Rightarrow> matchit gsub (uint c) fmt args s)"

definition stopscan :: "'s getter \<Rightarrow> store list \<Rightarrow> 's \<Rightarrow> (int \<times> store list, 's) run" where
  "stopscan gsub sts s =
     (if sts = [] 
      then bindp (lift (gsub False s)) (\<lambda>c s.
             if c = EOF then Some (Ok (EOF, sts) s)
             else bindp (lift (gsub True s)) (\<lambda>_ s. Some (Ok (0, sts) s)))
      else Some (Ok (int (length sts), sts) s))"

section \<open>The scanner\<close>

lemma bindp_Ok: "bindp m f = Some (Ok y t) \<longleftrightarrow> (\<exists>x s. m = Some (Ok x s) \<and> f x s = Some (Ok y t))"
  by (auto simp: bindp_def split: option.splits outcome.splits)

lemma bindp_simps [simp]:
  "bindp (Some (Ok x s)) f = f x s" "bindp (Some (Fail e s)) f = Some (Fail e s)" "bindp None f = None"
  "bindp (lift (Ok x s)) f = f x s" "bindp (lift (Fail e s)) f = Some (Fail e s)"
  by (simp_all add: bindp_def lift_def)

lemma scan_num_length: "scan_num w fmt = Inr (w', fmt') \<Longrightarrow> length fmt' \<le> length fmt"
  by (induction w fmt rule: scan_num.induct) (fastforce split: option.splits bool.splits)+

lemma opt_char_length: "opt_char f fmt = Inr (b, fmt') \<Longrightarrow> length fmt' \<le> length fmt"
  by (cases fmt) (auto simp: opt_char_def split: if_splits)

lemma scan_width_length: "scan_width fmt = Inr (w, fmt') \<Longrightarrow> length fmt' \<le> length fmt"
  by (auto simp: scan_width_def bindr_Inr split: option.splits if_splits dest: scan_num_length)

lemma parse_scan_length:
  assumes "parse_scan fmt = Inr (sp, fmt')"
  shows "length fmt' < length fmt"
proof -
  from assms obtain b f1 w f2 l f3 c where p: "opt_char 42 fmt = Inr (b, f1)" "scan_width f1 = Inr (w, f2)"
    "opt_char 108 f2 = Inr (l, f3)" "getch f3 = Inr (c, fmt')"
    by (auto simp: parse_scan_def bindr_Inr)
  show ?thesis
    using opt_char_length [OF p(1)] scan_width_length [OF p(2)] opt_char_length [OF p(3)] getch_length [OF p(4)]
    by linarith
qed

lemma scan_set_length: "scan_set k fmt = Inr (cs, fmt') \<Longrightarrow> length fmt' < length fmt"
  by (induction k fmt arbitrary: cs rule: scan_set.induct) (fastforce simp: bindr_Inr split: if_splits)+

lemma parse_set_length: "parse_set fmt = Inr (neg, cs, fmt') \<Longrightarrow> length fmt' < length fmt"
  by (auto simp: parse_set_def bindr_Inr Let_def split: if_splits dest!: getch_length scan_set_length)

lemma conv_number_fmt: "conv_number gsub sp nc fmt args s = Some (Ok (Go st fmt' args') s') \<Longrightarrow> fmt' = fmt"
  by (cases "take_arg (suppress sp) args") (auto simp: conv_number_def bindp_Ok split: prod.splits if_splits)

lemma conv_chars_fmt: "conv_chars gsub sp ts neg w fmt args s = Some (Ok (Go st fmt' args') s') \<Longrightarrow> fmt' = fmt"
  by (cases "take_arg (suppress sp) args") (auto simp: conv_chars_def bindp_Ok split: if_splits)

lemma matchit_fmt: "matchit gsub c fmt args s = Some (Ok (Go st fmt' args') s') \<Longrightarrow> fmt' = fmt"
  by (auto simp: matchit_def bindp_Ok split: if_splits)

lemma conversion_length:
  "conversion gsub fmt args s = Some (Ok (Go st fmt' args') s') \<Longrightarrow> length fmt' < length fmt"
  by (auto simp: conversion_def bindp_Ok split: sum.splits prod.splits option.splits if_splits
      dest!: parse_scan_length parse_set_length conv_number_fmt conv_chars_fmt matchit_fmt)

lemma directive_of_length:
  "directive_of gsub c fmt args s = Some (Ok (Go st fmt' args') s') \<Longrightarrow> length fmt' \<le> length fmt"
  by (auto simp: directive_of_def bindp_Ok split: option.splits if_splits bool.splits
      dest!: conversion_length matchit_fmt)

function scan_loop ::
  "'s getter \<Rightarrow> bytes \<Rightarrow> bytes \<Rightarrow> store list \<Rightarrow> 's \<Rightarrow> (int \<times> store list, 's) run" where
  "scan_loop gsub [] args sts s = Some (Fail (Undefined OutOfBounds) s)"
| "scan_loop gsub (c # fmt) args sts s =
     (if c = 0 then stopscan gsub sts s
      else case directive_of gsub c fmt args s of
             None \<Rightarrow> None
           | Some (Fail e s') \<Rightarrow> Some (Fail e s')
           | Some (Ok Stop s') \<Rightarrow> stopscan gsub sts s'
           | Some (Ok (Go st fmt' args') s') \<Rightarrow> scan_loop gsub fmt' args' (sts @ st) s')"
  by pat_completeness auto
termination
  by (relation "measure (\<lambda>(gsub, fmt, args, sts, s). length fmt)") (auto dest!: directive_of_length)

declare scan_loop.simps [simp del]

definition scanfmt :: "'s getter \<Rightarrow> bytes \<Rightarrow> bytes \<Rightarrow> 's \<Rightarrow> (int \<times> store list, 's) run" where
  "scanfmt gsub fmt args s = scan_loop gsub fmt args [] s"

section \<open>SSCANF.C\<close>

record sscan =
  scnstr :: bytes
  scnpos :: nat
  quit :: bool

definition sgetc :: "sscan getter" where
  "sgetc what s =
     (if what
      then if quit s then Ok EOF s
           else if scnpos s = 0 \<or> length (scnstr s) < scnpos s then Fail (Undefined OutOfBounds) s
           else Ok (uint (scnstr s ! (scnpos s - 1))) (s\<lparr>scnpos := scnpos s - 1\<rparr>)
      else if length (scnstr s) \<le> scnpos s then Fail (Undefined OutOfBounds) s
           else if scnstr s ! scnpos s \<noteq> 0
           then Ok (uint (scnstr s ! scnpos s)) (s\<lparr>scnpos := scnpos s + 1\<rparr>)
           else Ok EOF (s\<lparr>quit := True\<rparr>))"

definition sscanf :: "bytes \<Rightarrow> bytes \<Rightarrow> bytes \<Rightarrow> (int \<times> store list, sscan) run" where
  "sscanf str fmt args = scanfmt sgetc fmt args \<lparr>scnstr = str, scnpos = 0, quit = False\<rparr>"

section \<open>Scanning a string\<close>

text \<open>The source with \<open>pre\<close> already read and \<open>rest\<close> to come.\<close>

definition sst :: "bytes \<Rightarrow> bytes \<Rightarrow> sscan" where
  "sst pre rest = \<lparr>scnstr = pre @ rest, scnpos = length pre, quit = False\<rparr>"

lemma sgetc_get: "c \<noteq> 0 \<Longrightarrow> sgetc False (sst pre (c # r)) = Ok (uint c) (sst (pre @ [c]) r)"
  by (simp add: sgetc_def sst_def)

lemma sgetc_unget: "sgetc True (sst (pre @ [c]) r) = Ok (uint c) (sst pre (c # r))"
  by (simp add: sgetc_def sst_def nth_append)

lemma sgetc_end:
  "sgetc False (sst pre (0 # r)) = Ok EOF ((sst pre (0 # r))\<lparr>quit := True\<rparr>)"
  "sgetc True ((sst pre (0 # r))\<lparr>quit := True\<rparr>) = Ok EOF ((sst pre (0 # r))\<lparr>quit := True\<rparr>)"
  by (simp_all add: sgetc_def sst_def)

text \<open>Where a directive leaves the source that ends before \<open>c\<close>.\<close>

definition stopped :: "bytes \<Rightarrow> u8 \<Rightarrow> bytes \<Rightarrow> sscan" where
  "stopped pre c r = (if c = 0 then (sst pre (c # r))\<lparr>quit := True\<rparr> else sst pre (c # r))"

lemma isspace_byte: "c < 0x80 \<Longrightarrow> isspace (uint c) = Some (9 \<le> c \<and> c \<le> 13 \<or> c = 32)" for c :: u8
  using class_char(4) [of "uint c"] uint_u8_bounds [of c]
  by (simp add: word_less_def word_le_def word_uint_eq_iff)

lemma skipblank_stop:
  assumes "c \<noteq> 0" "c < 0x80" "\<not> (9 \<le> c \<and> c \<le> 13)" "c \<noteq> 32"
  shows "skipblank sgetc (sst pre (replicate k 32 @ c # r)) = Some (Ok False (sst (pre @ replicate k 32) (c # r)))"
proof (induction k arbitrary: pre)
  case 0
  have "isspace (uint c) = Some False" using isspace_byte [OF assms(2)] assms by simp
  moreover have "uint c \<noteq> - 1" using uint_u8_bounds [of c] by linarith
  ultimately show ?case using assms(1) by (subst skipblank.simps) (simp add: sgetc_get sgetc_unget)
next
  case (Suc k)
  have "isspace (uint (32 :: u8)) = Some True" using isspace_byte [of 32] by simp
  then show ?case using Suc [of "pre @ [32]"]
    by (subst skipblank.simps) (simp add: sgetc_get)
qed

text \<open>The decimal digits in the table and what stands for none of them.\<close>

lemma index_digit:
  assumes "d < 10"
  shows "index_of (drop 12 digit_list @ [0]) (digit_byte d) = Some (9 - d)"
    and "digit_vals ! (12 + (9 - d)) = d"
proof -
  have "\<forall>d \<in> set [0..<10]. index_of (drop 12 digit_list @ [0]) (digit_byte d) = Some (9 - d)" by code_simp
  then show "index_of (drop 12 digit_list @ [0]) (digit_byte d) = Some (9 - d)" using assms by simp
  have "\<forall>d \<in> set [0..<10]. digit_vals ! (12 + (9 - d)) = d" by code_simp
  then show "digit_vals ! (12 + (9 - d)) = d" using assms by simp
qed

lemma index_no_digit:
  assumes "c \<noteq> 0" "\<not> (48 \<le> c \<and> c \<le> 57)"
  shows "index_of (drop 12 digit_list @ [0]) c = None"
proof -
  have e: "drop 12 digit_list @ [0] = [57, 56, 55, 54, 53, 52, 51, 50, 49, 48, 0]" by code_simp
  show ?thesis unfolding e using assms by auto
qed

lemma getnum_loop_digit:
  assumes "d < 10"
  shows "getnum_loop sgetc 12 10 (Suc k) cnt v (sst pre (digit_byte d # t)) =
     getnum_loop sgetc 12 10 k (Suc cnt) (v * 10 + of_nat d) (sst (pre @ [digit_byte d]) t)"
proof -
  have "digit_byte d \<noteq> 0" "12 + (9 - d) < length digit_vals"
    using digit_byte_decimal(1) [OF assms] isdigit_byte_eq [of 0] by (auto simp: digit_vals_def)
  then show ?thesis by (simp add: getnum_loop.simps sgetc_get index_digit [OF assms])
qed

lemma getnum_loop_numeral:
  "getnum_loop sgetc 12 10 (length (numeral_bytes 10 n) + k) cnt v (sst pre (numeral_bytes 10 n @ t)) =
     getnum_loop sgetc 12 10 k (cnt + length (numeral_bytes 10 n))
       (v * 10 ^ length (numeral_bytes 10 n) + of_nat n) (sst (pre @ numeral_bytes 10 n) t)"
proof (induction "10::nat" n arbitrary: k cnt v pre t rule: numeral_bytes.induct)
  case (1 n)
  show ?case
  proof (cases "n < 10")
    case True
    then show ?thesis by (simp add: numeral_bytes.simps [of 10 n] getnum_loop_digit)
  next
    case False
    let ?s = "numeral_bytes 10 (n div 10)"
    have eq: "numeral_bytes 10 n = ?s @ [digit_byte (n mod 10)]"
      using False by (subst numeral_bytes.simps) simp
    have n: "(of_nat n :: u32) = of_nat (n div 10) * 10 + of_nat (n mod 10)"
      by (metis of_nat_add of_nat_mult of_nat_numeral div_mult_mod_eq)
    have "getnum_loop sgetc 12 10 (length ?s + Suc k) cnt v (sst pre (?s @ digit_byte (n mod 10) # t)) =
        getnum_loop sgetc 12 10 (Suc k) (cnt + length ?s) (v * 10 ^ length ?s + of_nat (n div 10))
          (sst (pre @ ?s) (digit_byte (n mod 10) # t))"
      by (rule "1.hyps") (use False in simp)
    also have "\<dots> = getnum_loop sgetc 12 10 k (Suc (cnt + length ?s))
          ((v * 10 ^ length ?s + of_nat (n div 10)) * 10 + of_nat (n mod 10)) (sst (pre @ numeral_bytes 10 n) t)"
      by (simp add: getnum_loop_digit eq)
    finally show ?thesis unfolding eq n by (simp add: algebra_simps)
  qed
qed

lemma getnum_loop_end:
  assumes "\<not> (48 \<le> c \<and> c \<le> 57)"
  shows "getnum_loop sgetc 12 10 (Suc k) cnt v (sst pre (c # r)) = Ok (cnt, v) (stopped pre c r)"
proof (cases "c = 0")
  case True
  have "index_of (drop 12 digit_list @ [0]) (- 1) = None" by code_simp
  then show ?thesis using True by (simp add: getnum_loop.simps sgetc_end stopped_def)
next
  case False
  then show ?thesis using index_no_digit [OF False assms] by (simp add: getnum_loop.simps sgetc_get sgetc_unget stopped_def)
qed

lemma getnum_loop_digits:
  assumes "\<not> (48 \<le> c \<and> c \<le> 57)" "length (numeral_bytes 10 n) < k"
  shows "getnum_loop sgetc 12 10 k cnt v (sst pre (numeral_bytes 10 n @ c # r)) =
     Ok (cnt + length (numeral_bytes 10 n), v * 10 ^ length (numeral_bytes 10 n) + of_nat n)
        (stopped (pre @ numeral_bytes 10 n) c r)"
proof -
  obtain j where "k = length (numeral_bytes 10 n) + Suc j" using assms(2) less_imp_Suc_add by fastforce
  then show ?thesis using getnum_loop_numeral [of n "Suc j"] getnum_loop_end [OF assms(1)] by simp
qed

text \<open>\<open>%d\<close> reads a printed number, after any blanks, up to a character that is no digit.\<close>

lemma getnum_int:
  fixes w :: u16
  assumes "\<not> (48 \<le> c \<and> c \<le> 57)"
  shows "getnum sgetc 12 10 127 (sst pre (int_bytes (sint w) @ c # r)) =
     Ok (length (int_bytes (sint w)), of_int (sint w)) (stopped (pre @ int_bytes (sint w)) c r)"
proof (cases "sint w < 0")
  case True
  let ?n = "nat (- sint w)"
  have len: "length (numeral_bytes 10 ?n) < 126" using int_bytes_short [of w] True by (simp add: int_bytes_def)
  have "(of_nat ?n :: u32) = - of_int (sint w)" using True by simp
  then show ?thesis using True getnum_loop_digits [OF assms len, of 1 0 "pre @ [45]" r]
    by (simp add: getnum_def int_bytes_def sgetc_get)
next
  case False
  let ?n = "nat (sint w)"
  obtain d cs where h: "numeral_bytes 10 ?n = digit_byte d # cs" "d < 10" by (rule numeral_head)
  have len: "length (numeral_bytes 10 ?n) < 127" using int_bytes_short [of w] False by (simp add: int_bytes_def)
  have v: "(of_nat ?n :: u32) = of_int (sint w)" using False by simp
  have "getnum sgetc 12 10 127 (sst pre (numeral_bytes 10 ?n @ c # r)) =
      bindo (getnum_loop sgetc 12 10 127 0 0 (sst pre (numeral_bytes 10 ?n @ c # r))) (\<lambda>(n, v) s. Ok (n, v) s)"
  proof -
    have "digit_byte d \<noteq> 0" using digit_byte_decimal(1) [OF h(2)] isdigit_byte_eq [of 0] by auto
    moreover have "uint (digit_byte d) \<noteq> 45" "uint (digit_byte d) \<noteq> 43"
      using digit_byte_decimal(3,4) [OF h(2)] by (auto simp: word_uint_eq_iff)
    ultimately show ?thesis unfolding h(1) by (simp add: getnum_def sgetc_get sgetc_unget)
  qed
  then show ?thesis using False v getnum_loop_digits [OF assms len, of 0 0 pre r]
    by (simp add: int_bytes_def)
qed

lemma int_bytes_head:
  obtains b bs where "int_bytes k = b # bs" "b \<noteq> 0" "b < 0x80" "\<not> (9 \<le> b \<and> b \<le> 13)" "b \<noteq> 32"
proof (cases "k < 0")
  case True
  then show ?thesis by (intro that [of 45 "numeral_bytes 10 (nat (- k))"]) (simp_all add: int_bytes_def)
next
  case False
  obtain d cs where h: "numeral_bytes 10 (nat k) = digit_byte d # cs" "d < 10" by (rule numeral_head)
  have u: "unat (digit_byte d) = 48 + d"
  proof -
    have "unat (digit_byte d) = (48 + d) mod 256" using h(2) by (simp only: digit_byte_def if_True unat_of_nat_u8)
    then show ?thesis using h(2) by simp
  qed
  then show ?thesis using False h
    by (intro that [of "digit_byte d" cs]) (auto simp: int_bytes_def word_less_nat_alt word_le_nat_alt)
qed

lemma sscanf_int:
  fixes w :: u16
  assumes "\<not> (48 \<le> c \<and> c \<le> 57)"
  shows "sscanf (replicate k 32 @ int_bytes (sint w) @ c # r) [37, 100, 0] [lo8 p, hi8 p] =
     Some (Ok (1, [(p, [lo8 w, hi8 w])]) (stopped (replicate k 32 @ int_bytes (sint w)) c r))"
proof -
  obtain b bs where b: "int_bytes (sint w) = b # bs" "b \<noteq> 0" "b < 0x80" "\<not> (9 \<le> b \<and> b \<le> 13)" "b \<noteq> 32"
    by (rule int_bytes_head)
  have ps: "parse_scan [100, 0] = Inr (\<lparr>suppress = False, swidth = 127, lflag = False, sconv = 100\<rparr>, [0])"
    using isdigit_byte_eq [of 100] by (simp add: parse_scan_def opt_char_def scan_width_def)
  have st: "\<lparr>scnstr = replicate k 32 @ int_bytes (sint w) @ c # r, scnpos = 0, quit = False\<rparr> =
      sst [] (replicate k 32 @ b # (bs @ c # r))"
    by (simp add: sst_def b(1))
  have sk: "skipblank sgetc (sst [] (replicate k 32 @ b # (bs @ c # r))) =
      Some (Ok False (sst (replicate k 32) (int_bytes (sint w) @ c # r)))"
    using skipblank_stop [OF b(2-5), of "[]" k "bs @ c # r"] b(1) by simp
  have "(ucast (scast w :: u32) :: u16) = w"
    by (rule bit_eqI) (auto simp: bit_simps)
  then have img: "int_image False (scast w) = [lo8 w, hi8 w]" by (simp add: int_image_def)
  have len: "length (int_bytes (sint w)) \<noteq> 0" by (simp add: b(1))
  have "directive_of sgetc 37 [100, 0] [lo8 p, hi8 p] (sst [] (replicate k 32 @ b # (bs @ c # r))) =
      Some (Ok (Go [(p, [lo8 w, hi8 w])] [0] []) (stopped (replicate k 32 @ int_bytes (sint w)) c r))"
    using getnum_int [OF assms, of "replicate k 32" w r] len
    by (simp add: directive_of_def conversion_def ps num_conv_def conv_number_def sk img take_arg_def
        arg_int_def arg_bytes_def)
  then show ?thesis unfolding sscanf_def scanfmt_def st
    by (simp add: scan_loop.simps stopscan_def)
qed

end
