(* ===== verification/Aztec_Scan_Float.thy ===== *)
theory Aztec_Scan_Float
  imports Aztec_Scan
begin

text \<open>
  The floating point input of \<^verbatim>\<open>SCAN.C\<close>, compiled under \<open>FLOAT\<close>: the text of a number is collected in
  \<open>tlist\<close> and given to \<open>atof\<close>. The image of the \<open>double\<close> or \<open>float\<close> that \<open>atof\<close> gives for a text is an
  argument.
\<close>

section \<open>Collecting the text\<close>

text \<open>\<open>tlist\<close> has 130 characters; \<open>sg\<close>, \<open>dp\<close> and \<open>ex\<close> are the flags \<open>sign\<close>, \<open>decpt\<close> and \<open>exp\<close>.\<close>

fun getflt_loop ::
  "'s getter \<Rightarrow> nat \<Rightarrow> bool \<Rightarrow> bool \<Rightarrow> bool \<Rightarrow> bytes \<Rightarrow> 's \<Rightarrow> (bytes, 's) outcome" where
  "getflt_loop gsub 0 sg dp ex acc s = Ok acc s"
| "getflt_loop gsub (Suc k) sg dp ex acc s =
     bindo (gsub False s) (\<lambda>c s.
       let store = (\<lambda>sg dp ex. if length acc < 130 then getflt_loop gsub k sg dp ex (acc @ [of_int c]) s
                               else Fail (Undefined OutOfBounds) s)
       in if \<not> sg \<and> (c = 45 \<or> c = 43) then store True dp ex
          else if \<not> dp \<and> c = 46 then store sg True ex
          else if \<not> ex \<and> (c = 101 \<or> c = 69) then store False True True
          else case isdigit c of
                 None \<Rightarrow> Fail (Undefined OutOfBounds) s
               | Some True \<Rightarrow> store sg dp ex
               | Some False \<Rightarrow> bindo (gsub True s) (\<lambda>_ s. Ok acc s))"

declare getflt_loop.simps [simp del]

definition getflt :: "'s getter \<Rightarrow> u16 \<Rightarrow> 's \<Rightarrow> (bytes, 's) outcome" where
  "getflt gsub maxw s =
     bindo (getflt_loop gsub (unat maxw) False False False [] s) (\<lambda>buf s.
       if length buf < 130 then Ok buf s else Fail (Undefined OutOfBounds) s)"

definition conv_float ::
  "(bool \<Rightarrow> bytes \<Rightarrow> bytes) \<Rightarrow> 's getter \<Rightarrow> scan_spec \<Rightarrow> bytes \<Rightarrow> bytes \<Rightarrow> 's \<Rightarrow> (directive, 's) run" where
  "conv_float atof gsub sp fmt args s =
     bindp (skipblank gsub s) (\<lambda>eof s.
     if eof then Some (Ok Stop s)
     else bindp (lift (getflt gsub (swidth sp) s)) (\<lambda>buf s.
       if buf = [] then Some (Ok Stop s)
       else case take_arg (suppress sp) args of
              Inl e \<Rightarrow> Some (Fail e s)
            | Inr (p, args') \<Rightarrow>
                Some (Ok (Go (if suppress sp then []
                              else [(p, atof (lflag sp \<or> sconv sp = 69 \<or> sconv sp = 70) buf)]) fmt args') s)))"

section \<open>What counts as a number\<close>

text \<open>The longest beginning of a text the loop takes.\<close>

fun float_span :: "bool \<Rightarrow> bool \<Rightarrow> bool \<Rightarrow> bytes \<Rightarrow> bytes" where
  "float_span sg dp ex [] = []"
| "float_span sg dp ex (c # cs) =
     (if \<not> sg \<and> (c = 45 \<or> c = 43) then c # float_span True dp ex cs
      else if \<not> dp \<and> c = 46 then c # float_span sg True ex cs
      else if \<not> ex \<and> (c = 101 \<or> c = 69) then c # float_span False True True cs
      else if 48 \<le> c \<and> c \<le> 57 then c # float_span sg dp ex cs
      else [])"

lemma uint_byte_eq [simp]:
  "uint (c :: u8) = 45 \<longleftrightarrow> c = 45" "uint c = 43 \<longleftrightarrow> c = 43" "uint c = 46 \<longleftrightarrow> c = 46"
  "uint c = 101 \<longleftrightarrow> c = 101" "uint c = 69 \<longleftrightarrow> c = 69"
  by (simp_all add: word_uint_eq_iff)

lemma getflt_loop_span:
  assumes "\<forall>c \<in> set t. c \<noteq> 0 \<and> c < 0x80" and "length (float_span sg dp ex t) < k"
    and "length acc + length (float_span sg dp ex t) \<le> 130"
  shows "\<exists>s. getflt_loop sgetc k sg dp ex acc (sst pre (t @ 0 # r)) = Ok (acc @ float_span sg dp ex t) s"
  using assms
proof (induction t arbitrary: k sg dp ex acc pre)
  case Nil
  then obtain k' where k: "k = Suc k'" by (cases k) auto
  have "isdigit (- 1) = Some False" by (simp add: class_char(1))
  then show ?case by (simp add: k getflt_loop.simps sgetc_end)
next
  case (Cons c t)
  then obtain k' where k: "k = Suc k'" by (cases k) auto
  have c: "c \<noteq> 0" "c < 0x80" using Cons.prems(1) by auto
  have dg: "isdigit (uint c) = Some (48 \<le> c \<and> c \<le> 57)" using isdigit_byte_eq [OF c(2)] by (simp add: isdigit_byte_def)
  have IH: "\<exists>s. getflt_loop sgetc k' sg' dp' ex' (acc @ [c]) (sst (pre @ [c]) (t @ 0 # r)) =
      Ok (acc @ c # float_span sg' dp' ex' t) s"
    if "float_span sg dp ex (c # t) = c # float_span sg' dp' ex' t" for sg' dp' ex'
    using Cons.IH [of sg' dp' ex' k' "acc @ [c]" "pre @ [c]"] Cons.prems k that by auto
  show ?case
  proof (cases "float_span sg dp ex (c # t) = []")
    case True
    then show ?thesis
      using dg c(1) by (auto simp: k getflt_loop.simps sgetc_get sgetc_unget Let_def split: if_splits)
  next
    case False
    then have "length acc < 130" using Cons.prems(3) by (cases "float_span sg dp ex (c # t)") auto
    then show ?thesis
      using dg c(1) IH False by (auto simp: k getflt_loop.simps sgetc_get Let_def split: if_splits)
  qed
qed

text \<open>From a string \<open>getflt\<close> takes the number it begins with.\<close>

lemma getflt_span:
  assumes "\<forall>c \<in> set t. c \<noteq> 0 \<and> c < 0x80" and "length (float_span False False False t) < unat w"
    and "length (float_span False False False t) < 130"
  shows "\<exists>s. getflt sgetc w (sst pre (t @ 0 # r)) = Ok (float_span False False False t) s"
  using getflt_loop_span [OF assms(1,2), of "[]" pre r] assms(3) by (auto simp: getflt_def)

text \<open>A sign is also taken after digits: \<open>12-3\<close> is one number for the scanner.\<close>

lemma late_sign: "float_span False False False (map char_byte ''12-3'') = map char_byte ''12-3''"
  by code_simp

end
