(* ===== verification/Aztec_Files.thy ===== *)
theory Aztec_Files
  imports Aztec_Format
begin

text \<open>
  The file descriptor layer of the C library in \<^verbatim>\<open>disks/I/2\<close>: \<^verbatim>\<open>IO.H\<close>, \<^verbatim>\<open>OPEN.C\<close>, \<^verbatim>\<open>CLOSE.C\<close>,
  \<^verbatim>\<open>READ.C\<close>, \<^verbatim>\<open>WRITE.C\<close>, \<^verbatim>\<open>FIND.C\<close>, \<^verbatim>\<open>CEOF.C\<close>, \<^verbatim>\<open>LSEEK.C\<close>, \<^verbatim>\<open>POSIT.C\<close>, \<^verbatim>\<open>IOCTL.C\<close>, \<^verbatim>\<open>ISATTY.C\<close>,
  \<^verbatim>\<open>RENAME.C\<close> and \<^verbatim>\<open>UNLINK.C\<close>, with the assembler routines \<^verbatim>\<open>FCBINIT.ASM\<close>, \<^verbatim>\<open>BLKIO.ASM\<close> and \<^verbatim>\<open>USER.ASM\<close>.

  The operating system below is an argument: one function per kind of BDOS call on a state of its
  own. A file control block keeps the fields the library reads or writes; what the BDOS keeps in
  the rest of it is opaque. The functions \<open>bdf_\<close> and \<open>ret_\<close> come with the start-up module that
  defines the channel table; they are arguments as well.
\<close>

section \<open>Data\<close>

record fcb =
  f_driv :: u8
  f_name :: bytes
  f_type :: bytes
  f_rest :: bytes
  f_record :: u16
  f_overfl :: u8

record fcbent =
  ent_fcb :: fcb
  offset :: u8
  flags :: u8
  user :: u8

datatype closer = Bdf | Ret | Filecl
datatype carg = Dev nat | Ent nat

record channel =
  c_read :: nat
  c_write :: nat
  c_ioctl :: nat
  c_seek :: nat
  c_close :: closer
  c_arg :: carg

datatype rd_fun = Tty_rd | Raw_rd
datatype wr_fun = Bdoswr | Raw_wr

record 'b lib =
  chantab :: "channel list"
  fcbtab :: "fcbent list"
  errno :: int
  Wrkbuf :: bytes
  Wfp :: "nat option"
  Wsct :: u16
  oldusr :: u8
  tbuf :: bytes
  tused :: nat
  Eol :: u8
  Tty_flags :: u16
  rd_func :: nat
  wrt_func :: nat
  Rd_tab2 :: rd_fun
  Wrt_tab2 :: wr_fun
  sys :: 'b

text \<open>
  The BDOS calls: those with a control block (open, close, delete, make, rename, file size), random
  read with the bytes put at the DMA address, random write, user number (255 asks for it),
  characters, and the console line.
\<close>

record 'b bdos =
  bd_fcb :: "nat \<Rightarrow> fcb \<Rightarrow> 'b \<Rightarrow> nat \<times> fcb \<times> 'b"
  bd_readrn :: "fcb \<Rightarrow> 'b \<Rightarrow> nat \<times> bytes \<times> fcb \<times> 'b"
  bd_writrn :: "fcb \<Rightarrow> bytes \<Rightarrow> 'b \<Rightarrow> nat \<times> fcb \<times> 'b"
  bd_user :: "u8 \<Rightarrow> 'b \<Rightarrow> u8 \<times> 'b"
  bd_char :: "nat \<Rightarrow> u16 \<Rightarrow> 'b \<Rightarrow> u16 \<times> 'b"
  bd_line :: "'b \<Rightarrow> bytes \<times> 'b"
  fn_bdf :: "int \<Rightarrow> int \<times> int"
  fn_ret :: "int \<Rightarrow> int \<times> int"

abbreviation (input) OPNFIL :: nat where "OPNFIL \<equiv> 15"
abbreviation (input) CLSFIL :: nat where "CLSFIL \<equiv> 16"
abbreviation (input) DELFIL :: nat where "DELFIL \<equiv> 19"
abbreviation (input) MAKFIL :: nat where "MAKFIL \<equiv> 22"
abbreviation (input) RENFIL :: nat where "RENFIL \<equiv> 23"
abbreviation (input) FILSIZ :: nat where "FILSIZ \<equiv> 35"

abbreviation (input) MAXCHAN :: nat where "MAXCHAN \<equiv> 11"
abbreviation (input) MAXFILE :: nat where "MAXFILE \<equiv> 8"

abbreviation (input) NOENT :: int where "NOENT \<equiv> - 1"
abbreviation (input) BADF :: int where "BADF \<equiv> - 3"
abbreviation (input) EXIST :: int where "EXIST \<equiv> - 5"
abbreviation (input) INVAL :: int where "INVAL \<equiv> - 6"
abbreviation (input) NFILE :: int where "NFILE \<equiv> - 7"
abbreviation (input) MFILE :: int where "MFILE \<equiv> - 8"
abbreviation (input) NOTTY :: int where "NOTTY \<equiv> - 9"
abbreviation (input) ACCES :: int where "ACCES \<equiv> - 10"

section \<open>FCBINIT.ASM\<close>

definition isdig :: "u8 \<Rightarrow> bool" where "isdig c \<longleftrightarrow> 48 \<le> c \<and> c \<le> 57"

fun user_digits :: "u8 \<Rightarrow> bytes \<Rightarrow> u8 \<times> bytes" where
  "user_digits d [] = (d, [])"
| "user_digits d (c # cs) = (if isdig c then user_digits (10 * d + (c - 48)) cs else (d, c # cs))"

definition fcb_upper :: "u8 \<Rightarrow> u8" where
  "fcb_upper c = (if 97 \<le> c \<and> c \<le> 122 then c - 32 else c)"

text \<open>
  Name and type fields: a star fills the rest of the field with question marks, as it is read again
  and again; characters beyond the field are skipped in the name and ignored in the type.
\<close>

fun name_field :: "nat \<Rightarrow> bytes \<Rightarrow> bytes \<times> bytes option" where
  "name_field e [] = ([], None)"
| "name_field e (c # cs) =
     (if c = 46 then ([], Some cs)
      else if c = 0 then ([], None)
      else if e = 0 then name_field 0 cs
      else if c = 42 then apfst ((@) (replicate e 63)) (name_field 0 cs)
      else apfst ((#) (fcb_upper c)) (name_field (e - 1) cs))"

fun type_field :: "nat \<Rightarrow> bytes \<Rightarrow> bytes" where
  "type_field e [] = []"
| "type_field e (c # cs) =
     (if e = 0 \<or> c = 0 then []
      else if c = 42 then replicate e 63
      else fcb_upper c # type_field (e - 1) cs)"

definition pad_field :: "nat \<Rightarrow> bytes \<Rightarrow> bytes" where
  "pad_field n f = f @ replicate (n - length f) 32"

definition blank_fcb :: "fcb \<Rightarrow> fcb" where
  "blank_fcb f = f\<lparr>f_driv := 0, f_name := replicate 8 32, f_type := replicate 3 32,
                 f_rest := replicate 4 0 @ drop 4 (f_rest f)\<rparr>"

text \<open>A user number before a slash, 255 for none, and the name behind it.\<close>

definition user_prefix :: "bytes \<Rightarrow> u8 \<times> bytes" where
  "user_prefix name =
     (case user_digits 0 name of
        (d, c # cs) \<Rightarrow> if c = 47 then (d, cs) else (255, name)
      | (d, []) \<Rightarrow> (255, name))"

text \<open>A drive letter before a colon: \<open>None\<close> when it is no letter.\<close>

definition drive_prefix :: "bytes \<Rightarrow> (u8 \<times> bytes) option" where
  "drive_prefix name =
     (case name of
        c # c' # cs \<Rightarrow>
          if c' = 58
          then let d = c AND 127
               in if 65 \<le> d \<and> d \<le> 90 then Some (d - 64, cs)
                  else if 97 \<le> d \<and> d \<le> 122 then Some (d - 96, cs) else None
          else Some (0, name)
      | _ \<Rightarrow> Some (0, name))"

text \<open>\<open>fcbinit\<close> on a string (\<open>None\<close> for the null pointer): the user number or -1, and the block.\<close>

definition fcbinit :: "bytes option \<Rightarrow> fcb \<Rightarrow> int \<times> fcb" where
  "fcbinit nm f =
     (case nm of
        None \<Rightarrow> (- 1, blank_fcb f)
      | Some s \<Rightarrow>
          (case user_prefix (skip_blanks s) of (u, rest) \<Rightarrow>
           case drive_prefix rest of
             None \<Rightarrow> (- 1, blank_fcb f)
           | Some (d, rest') \<Rightarrow>
               (case name_field 8 rest' of (n, t) \<Rightarrow>
                (uint u,
                 (blank_fcb f)\<lparr>f_driv := d, f_name := pad_field 8 n,
                    f_type := pad_field 3 (case t of None \<Rightarrow> [] | Some ts \<Rightarrow> type_field 3 ts)\<rparr>))))"

section \<open>USER.ASM and entry access\<close>

definition getusr :: "'b bdos \<Rightarrow> 'b lib \<Rightarrow> u8 \<times> 'b lib" where
  "getusr B l = (case bd_user B 255 (sys l) of (u, b) \<Rightarrow> (u, l\<lparr>sys := b\<rparr>))"

definition setusr :: "'b bdos \<Rightarrow> u8 \<Rightarrow> 'b lib \<Rightarrow> 'b lib" where
  "setusr B u l =
     (case bd_user B 255 (sys l) of (old, b) \<Rightarrow>
      let l' = l\<lparr>sys := b, oldusr := old\<rparr>
      in if u = 255 then l' else l'\<lparr>sys := snd (bd_user B u (sys l'))\<rparr>)"

definition rstusr :: "'b bdos \<Rightarrow> 'b lib \<Rightarrow> 'b lib" where
  "rstusr B l = l\<lparr>sys := snd (bd_user B (oldusr l) (sys l))\<rparr>"

definition ent :: "nat \<Rightarrow> 'b lib \<Rightarrow> fcbent" where
  "ent i l = fcbtab l ! i"

definition set_ent :: "nat \<Rightarrow> fcbent \<Rightarrow> 'b lib \<Rightarrow> 'b lib" where
  "set_ent i e l = l\<lparr>fcbtab := (fcbtab l)[i := e]\<rparr>"

definition set_fcb :: "nat \<Rightarrow> fcb \<Rightarrow> 'b lib \<Rightarrow> 'b lib" where
  "set_fcb i f l = set_ent i ((ent i l)\<lparr>ent_fcb := f\<rparr>) l"

text \<open>A BDOS call on the control block of an entry.\<close>

definition call_fcb :: "'b bdos \<Rightarrow> nat \<Rightarrow> nat \<Rightarrow> 'b lib \<Rightarrow> nat \<times> 'b lib" where
  "call_fcb B fn i l =
     (case bd_fcb B fn (ent_fcb (ent i l)) (sys l) of (r, f, b) \<Rightarrow> (r, (set_fcb i f l)\<lparr>sys := b\<rparr>))"

section \<open>FIND.C and CEOF.C\<close>

definition zap :: "'b lib \<Rightarrow> 'b lib" where
  "zap l = l\<lparr>Wfp := None\<rparr>"

text \<open>The record of the entry into the work buffer: 0, 1 for none, -1 for an error.\<close>

definition find_sect :: "'b bdos \<Rightarrow> nat \<Rightarrow> 'b lib \<Rightarrow> int \<times> 'b lib" where
  "find_sect B i l =
     (if Wfp l \<noteq> Some i \<or> f_record (ent_fcb (ent i l)) \<noteq> Wsct l
      then (case bd_readrn B (ent_fcb (ent i l)) (sys l) of (r, dat, f, b) \<Rightarrow>
            let l1 = (set_fcb i f l)\<lparr>sys := b, errno := int r, Wrkbuf := blit 0 dat (Wrkbuf l)\<rparr>
            in if r = 1 \<or> r = 4
               then (1, l1\<lparr>errno := 0, Wrkbuf := replicate 128 0x1a, Wfp := None\<rparr>)
               else if r \<noteq> 0 then (- 1, l1)
               else (0, l1\<lparr>Wfp := Some i, Wsct := f_record (ent_fcb (ent i l1))\<rparr>))
      else (0, l))"

text \<open>The length of a record without the trailing end-of-file marks.\<close>

definition text_len :: "bytes \<Rightarrow> nat" where
  "text_len w = length (dropWhile (\<lambda>c. c = 0x1a) (rev w))"

definition Ceof :: "'b bdos \<Rightarrow> nat \<Rightarrow> 'b lib \<Rightarrow> int \<times> 'b lib" where
  "Ceof B i l =
     (case call_fcb B FILSIZ i l of (_, l1) \<Rightarrow>
      let e = ent i l1; f = ent_fcb e
      in if f_record f = 0 then (0, set_ent i (e\<lparr>offset := 0\<rparr>) l1)
         else case find_sect B i (set_fcb i (f\<lparr>f_record := f_record f - 1\<rparr>) l1) of (r, l2) \<Rightarrow>
              if r \<noteq> 0 then (- 1, l2)
              else let n = text_len (Wrkbuf l2); e2 = ent i l2; f2 = ent_fcb e2
                   in if n = 128
                      then (0, set_ent i (e2\<lparr>offset := 0, ent_fcb := f2\<lparr>f_record := f_record f2 + 1\<rparr>\<rparr>) l2)
                      else (0, set_ent i (e2\<lparr>offset := of_nat n\<rparr>) l2))"

section \<open>READ.C and WRITE.C on files\<close>

text \<open>The position moves over \<open>n\<close> bytes of the current record.\<close>

definition advance :: "nat \<Rightarrow> nat \<Rightarrow> 'b lib \<Rightarrow> 'b lib" where
  "advance i n l =
     (let e = ent i l; o' = (offset e + of_nat n) AND 127; f = ent_fcb e
      in set_ent i (e\<lparr>offset := o', ent_fcb := (if o' = 0 then f\<lparr>f_record := f_record f + 1\<rparr> else f)\<rparr>) l)"

definition getsect :: "'b bdos \<Rightarrow> nat \<Rightarrow> nat \<Rightarrow> 'b lib \<Rightarrow> bytes option \<times> 'b lib" where
  "getsect B i n l =
     (case find_sect B i l of (r, l1) \<Rightarrow>
      if r \<noteq> 0 then (None, l1)
      else (Some (take n (drop (unat (offset (ent i l1))) (Wrkbuf l1))), advance i n l1))"

definition putsect :: "'b bdos \<Rightarrow> nat \<Rightarrow> bytes \<Rightarrow> 'b lib \<Rightarrow> bool \<times> 'b lib" where
  "putsect B i dat l =
     (case find_sect B i l of (r, l1) \<Rightarrow>
      if r < 0 then (False, l1)
      else let l2 = l1\<lparr>Wrkbuf := blit (unat (offset (ent i l1))) dat (Wrkbuf l1)\<rparr>
           in case bd_writrn B (ent_fcb (ent i l2)) (Wrkbuf l2) (sys l2) of (r', f, b) \<Rightarrow>
              let l3 = (set_fcb i f l2)\<lparr>sys := b, errno := int r'\<rparr>
              in if r' \<noteq> 0 then (False, l3) else (True, advance i (length dat) l3))"

text \<open>BLKIO.ASM: whole records; the number left and, for a read, the bytes.\<close>

definition next_record :: "nat \<Rightarrow> 'b lib \<Rightarrow> 'b lib" where
  "next_record i l =
     (let f = ent_fcb (ent i l) in set_fcb i (f\<lparr>f_record := f_record f + 1\<rparr>) l)"

fun blkrd :: "'b bdos \<Rightarrow> nat \<Rightarrow> nat \<Rightarrow> 'b lib \<Rightarrow> nat \<times> bytes \<times> 'b lib" where
  "blkrd B i 0 l = (0, [], l)"
| "blkrd B i (Suc k) l =
     (case bd_readrn B (ent_fcb (ent i l)) (sys l) of (r, dat, f, b) \<Rightarrow>
      let l1 = (set_fcb i f l)\<lparr>sys := b\<rparr>
      in if r \<noteq> 0
         then (Suc k, [], if r = 1 \<or> r = 4 then l1 else l1\<lparr>errno := int r\<rparr>)
         else case blkrd B i k (next_record i l1) of (j, ds, l2) \<Rightarrow> (j, dat @ ds, l2))"

fun blkwr :: "'b bdos \<Rightarrow> nat \<Rightarrow> nat \<Rightarrow> bytes \<Rightarrow> 'b lib \<Rightarrow> nat \<times> 'b lib" where
  "blkwr B i 0 dat l = (0, l)"
| "blkwr B i (Suc k) dat l =
     (case bd_writrn B (ent_fcb (ent i l)) (take 128 dat) (sys l) of (r, f, b) \<Rightarrow>
      let l1 = (set_fcb i f l)\<lparr>sys := b\<rparr>
      in if r \<noteq> 0 then (Suc k, if r = 1 \<or> r = 4 then l1 else l1\<lparr>errno := int r\<rparr>)
         else blkwr B i k (drop 128 dat) (next_record i l1))"

lemma blkrd_code [code]:
  "blkrd B i k l =
     (if k = 0 then (0, [], l)
      else case bd_readrn B (ent_fcb (ent i l)) (sys l) of (r, dat, f, b) \<Rightarrow>
           let l1 = (set_fcb i f l)\<lparr>sys := b\<rparr>
           in if r \<noteq> 0
              then (k, [], if r = 1 \<or> r = 4 then l1 else l1\<lparr>errno := int r\<rparr>)
              else case blkrd B i (k - 1) (next_record i l1) of (j, ds, l2) \<Rightarrow> (j, dat @ ds, l2))"
  by (cases k) (auto simp: Let_def split: prod.split)

lemma blkwr_code [code]:
  "blkwr B i k dat l =
     (if k = 0 then (0, l)
      else case bd_writrn B (ent_fcb (ent i l)) (take 128 dat) (sys l) of (r, f, b) \<Rightarrow>
           let l1 = (set_fcb i f l)\<lparr>sys := b\<rparr>
           in if r \<noteq> 0 then (k, if r = 1 \<or> r = 4 then l1 else l1\<lparr>errno := int r\<rparr>)
              else blkwr B i (k - 1) (drop 128 dat) (next_record i l1))"
  by (cases k) (auto simp: Let_def split: prod.split)

text \<open>\<open>filerd\<close>: the result, the bytes stored and the state.\<close>

definition filerd :: "'b bdos \<Rightarrow> nat \<Rightarrow> nat \<Rightarrow> 'b lib \<Rightarrow> nat \<times> bytes \<times> 'b lib" where
  "filerd B i len l0 =
     (let l = setusr B (user (ent i l0)) l0; o' = unat (offset (ent i l));
          h = (if o' = 0 then 0 else min (128 - o') len)
      in case (if o' = 0 then (Some [], l) else getsect B i h l) of
           (None, l1) \<Rightarrow> (0, [], rstusr B l1)
         | (Some d1, l1) \<Rightarrow>
             let k = (len - h) div 128
             in case blkrd B i k l1 of (j, d2, l2) \<Rightarrow>
                if j \<noteq> 0 then ((k - j) * 128 + h, d1 @ d2, rstusr B l2)
                else let m = h + k * 128
                     in if m < len
                        then (case getsect B i (len - m) l2 of
                                (None, l3) \<Rightarrow> (m, d1 @ d2, rstusr B l3)
                              | (Some d3, l3) \<Rightarrow> (len, d1 @ d2 @ d3, rstusr B l3))
                        else (len, d1 @ d2, rstusr B l2))"

definition filewr :: "'b bdos \<Rightarrow> nat \<Rightarrow> bytes \<Rightarrow> 'b lib \<Rightarrow> int \<times> 'b lib" where
  "filewr B i buf l0 =
     (let l = setusr B (user (ent i l0)) l0; len = length buf; o' = unat (offset (ent i l));
          h = (if o' = 0 then 0 else min (128 - o') len)
      in case (if o' = 0 then (True, l) else putsect B i (take h buf) l) of
           (False, l1) \<Rightarrow> (- 1, rstusr B l1)
         | (True, l1) \<Rightarrow>
             let k = (len - h) div 128
             in case blkwr B i k (drop h buf) l1 of (j, l2) \<Rightarrow>
                if j \<noteq> 0
                then (if (k - j) * 128 + h = 0 then - 1 else int ((k - j) * 128 + h), rstusr B l2)
                else let m = h + k * 128
                     in if m < len
                        then (case putsect B i (drop m buf) l2 of
                                (False, l3) \<Rightarrow> (int m, rstusr B l3)
                              | (True, l3) \<Rightarrow> (int len, rstusr B l3))
                        else (int len, rstusr B l2))"

section \<open>Devices\<close>

text \<open>\<open>bdoswr\<close> and \<open>tty_wr\<close>: one BDOS call per character.\<close>

fun put_chars :: "'b bdos \<Rightarrow> nat \<Rightarrow> bytes \<Rightarrow> 'b \<Rightarrow> 'b" where
  "put_chars B fn [] b = b"
| "put_chars B fn (c # cs) b = put_chars B fn cs (snd (bd_char B fn (ucast c) b))"

definition newline_pairs :: "bytes \<Rightarrow> bytes" where
  "newline_pairs cs = concat (map (\<lambda>c. if c = 10 then [13, 10] else [c]) cs)"

definition bdoswr :: "'b bdos \<Rightarrow> nat \<Rightarrow> bytes \<Rightarrow> 'b lib \<Rightarrow> int \<times> 'b lib" where
  "bdoswr B kind buf l = (int (length buf), l\<lparr>sys := put_chars B kind buf (sys l)\<rparr>)"

definition tty_wr :: "'b bdos \<Rightarrow> bytes \<Rightarrow> 'b lib \<Rightarrow> int \<times> 'b lib" where
  "tty_wr B buf l = (int (length buf), l\<lparr>sys := put_chars B 2 (newline_pairs buf) (sys l)\<rparr>)"

abbreviation (input) CRMOD :: u16 where "CRMOD \<equiv> 0x10"
abbreviation (input) ECHO :: u16 where "ECHO \<equiv> 0x08"
abbreviation (input) RAW :: u16 where "RAW \<equiv> 0x20"
abbreviation (input) CBREAK :: u16 where "CBREAK \<equiv> 0x02"

definition raw_wr :: "'b bdos \<Rightarrow> bytes \<Rightarrow> 'b lib \<Rightarrow> int \<times> 'b lib" where
  "raw_wr B buf l =
     (int (length buf),
      l\<lparr>sys := put_chars B (wrt_func l)
                (if Tty_flags l AND CRMOD \<noteq> 0 then newline_pairs buf else buf) (sys l)\<rparr>)"

text \<open>\<open>bdosrd\<close>: the end-of-file character is stored but not counted.\<close>

fun bdosrd :: "'b bdos \<Rightarrow> nat \<Rightarrow> nat \<Rightarrow> nat \<Rightarrow> bytes \<Rightarrow> 'b lib \<Rightarrow> nat \<times> bytes \<times> 'b lib" where
  "bdosrd B kind 0 cnt buf l = (cnt, buf, l)"
| "bdosrd B kind (Suc n) cnt buf l =
     (case bd_char B kind 0 (sys l) of (c, b) \<Rightarrow>
      let l' = l\<lparr>sys := b\<rparr>; buf' = buf @ [ucast c]
      in if ucast c = (0x1a :: u8) then (cnt, buf', l') else bdosrd B kind n (Suc cnt) buf' l')"

text \<open>
  \<open>tty_rd\<close>: the line buffer of 258 bytes is filled by the BDOS when it is empty; the line end is
  stored behind the characters and counted in the byte at index 1.
\<close>

definition tty_fill :: "'b bdos \<Rightarrow> 'b lib \<Rightarrow> bool \<times> 'b lib" where
  "tty_fill B l =
     (case bd_line B (sys l) of (line, b) \<Rightarrow>
      let t0 = (tbuf l)[0 := 255, 1 := of_nat (length line), 2 := 0];
          t1 = blit 2 line t0; b' = snd (bd_char B 2 10 b)
      in if t1 ! 2 = 0x1a then (False, l\<lparr>sys := b', tbuf := t1[1 := 0]\<rparr>)
         else let n = t1 ! 1 + 1
              in (True, l\<lparr>sys := b', tbuf := t1[1 := n, unat n + 1 := Eol l], tused := 2\<rparr>))"

definition tty_take :: "u16 \<Rightarrow> 'b lib \<Rightarrow> nat \<times> bytes \<times> 'b lib" where
  "tty_take len l =
     (let have_n = unat (tbuf l ! 1); n = (if sint len < int have_n then nat (sint len) else have_n)
      in (n, take n (drop (tused l) (tbuf l)),
          l\<lparr>tused := tused l + n, tbuf := (tbuf l)[1 := of_nat (have_n - n)]\<rparr>))"

definition tty_rd :: "'b bdos \<Rightarrow> u16 \<Rightarrow> 'b lib \<Rightarrow> nat \<times> bytes \<times> 'b lib" where
  "tty_rd B len l =
     (if tbuf l ! 1 = 0
      then (case tty_fill B l of (ok, l') \<Rightarrow> if ok then tty_take len l' else (0, [], l'))
      else tty_take len l)"

text \<open>\<open>raw_rd\<close>: up to ten polls for a character; it goes on polling until it has the first one.\<close>

fun poll :: "'b bdos \<Rightarrow> nat \<Rightarrow> nat \<Rightarrow> 'b \<Rightarrow> u16 \<times> 'b" where
  "poll B fn 0 b = (0, b)"
| "poll B fn (Suc k) b =
     (case bd_char B fn 0xff b of (c, b') \<Rightarrow> if c \<noteq> 0 then (c, b') else poll B fn k b')"

partial_function (option) raw_rd :: "'b bdos \<Rightarrow> nat \<Rightarrow> bytes \<Rightarrow> 'b lib \<Rightarrow> (bytes \<times> 'b lib) option" where
  [code]: "raw_rd B len buf l =
     (if len \<le> length buf then Some (buf, l)
      else (case poll B (rd_func l) 10 (sys l) of (c, b) \<Rightarrow>
            if c \<noteq> 0 then raw_rd B len (buf @ [if c = 13 then Eol l else ucast c]) (l\<lparr>sys := b\<rparr>)
            else if length buf < 1 then raw_rd B len buf (l\<lparr>sys := b\<rparr>)
            else Some (buf, l\<lparr>sys := b\<rparr>)))"

text \<open>A function of the start-up module works on \<open>errno\<close> only.\<close>

definition call_errno :: "(int \<Rightarrow> int \<times> int) \<Rightarrow> 'b lib \<Rightarrow> int \<times> 'b lib" where
  "call_errno f l = (case f (errno l) of (r, e) \<Rightarrow> (r, l\<lparr>errno := e\<rparr>))"

section \<open>OPEN.C and CLOSE.C\<close>

record device =
  d_read :: nat
  d_write :: nat
  d_ioctl :: nat
  d_seek :: nat
  d_file :: bool

definition condev :: device where
  "condev = \<lparr>d_read = 2, d_write = 2, d_ioctl = 1, d_seek = 0, d_file = False\<rparr>"
definition bdosout :: device where
  "bdosout = \<lparr>d_read = 0, d_write = 3, d_ioctl = 0, d_seek = 0, d_file = False\<rparr>"
definition bdosin :: device where
  "bdosin = \<lparr>d_read = 3, d_write = 0, d_ioctl = 0, d_seek = 0, d_file = False\<rparr>"
definition filedev :: device where
  "filedev = \<lparr>d_read = 1, d_write = 1, d_ioctl = 0, d_seek = 1, d_file = True\<rparr>"

definition devtabl :: "(bytes \<times> device \<times> nat) list" where
  "devtabl =
     [(cstr ''con:'', condev, 2), (cstr ''CON:'', condev, 2), (cstr ''lst:'', bdosout, 5),
      (cstr ''LST:'', bdosout, 5), (cstr ''prn:'', bdosout, 5), (cstr ''PRN:'', bdosout, 5),
      (cstr ''pun:'', bdosout, 4), (cstr ''PUN:'', bdosout, 4), (cstr ''rdr:'', bdosin, 3),
      (cstr ''RDR:'', bdosin, 3)]"

definition find_device :: "bytes \<Rightarrow> device \<times> nat" where
  "find_device name = (case map_of devtabl name of None \<Rightarrow> (filedev, 0) | Some d \<Rightarrow> d)"

abbreviation (input) O_CREAT :: u16 where "O_CREAT \<equiv> 0x0100"
abbreviation (input) O_TRUNC :: u16 where "O_TRUNC \<equiv> 0x0200"
abbreviation (input) O_EXCL :: u16 where "O_EXCL \<equiv> 0x0400"
abbreviation (input) O_APPEND :: u16 where "O_APPEND \<equiv> 0x0800"

fun first_index :: "('a \<Rightarrow> bool) \<Rightarrow> 'a list \<Rightarrow> nat option" where
  "first_index P [] = None"
| "first_index P (x # xs) = (if P x then Some 0 else map_option Suc (first_index P xs))"

definition set_chan :: "nat \<Rightarrow> channel \<Rightarrow> 'b lib \<Rightarrow> 'b lib" where
  "set_chan fd c l = l\<lparr>chantab := (chantab l)[fd := c]\<rparr>"

text \<open>Opening, creating or refusing the file of an entry whose control block is set.\<close>

definition open_entry :: "'b bdos \<Rightarrow> u16 \<Rightarrow> nat \<Rightarrow> 'b lib \<Rightarrow> int option \<times> 'b lib" where
  "open_entry B flag i l =
     (let l1 = (if flag AND O_TRUNC \<noteq> 0 then snd (call_fcb B DELFIL i l) else l)
      in case call_fcb B OPNFIL i l1 of (r, l2) \<Rightarrow>
         if r = 0xff
         then if flag AND (O_TRUNC OR O_CREAT) = 0 then (Some NOENT, l2)
              else (case call_fcb B MAKFIL i l2 of (r', l3) \<Rightarrow>
                    if r' = 0xff then (Some NOENT, l3) else (None, l3))
         else if flag AND (O_CREAT OR O_EXCL) = O_CREAT OR O_EXCL then (Some EXIST, l2)
         else (None, l2))"

definition fileop :: "'b bdos \<Rightarrow> bytes \<Rightarrow> u16 \<Rightarrow> nat \<Rightarrow> 'b lib \<Rightarrow> int \<times> 'b lib" where
  "fileop B name flag fd l =
     (case first_index (\<lambda>e. flags e = 0) (fcbtab l) of
        None \<Rightarrow> (- 1, l\<lparr>errno := NFILE\<rparr>)
      | Some i \<Rightarrow>
          (case fcbinit (Some name) (ent_fcb (ent i l)) of (u, f) \<Rightarrow>
           let l1 = set_fcb i f l
           in if u = - 1 then (- 1, l1\<lparr>errno := INVAL\<rparr>)
              else case (if u = 255 then getusr B l1 else (of_int u, l1)) of (usr, l2) \<Rightarrow>
                   case open_entry B flag i (setusr B usr l2) of
                     (Some e, l3) \<Rightarrow> (- 1, rstusr B (l3\<lparr>errno := e\<rparr>))
                   | (None, l3) \<Rightarrow>
                       let e = ent i l3;
                           l4 = set_ent i (e\<lparr>offset := 0, user := usr, flags := ucast (flag AND 3) + 1,
                                    ent_fcb := (ent_fcb e)\<lparr>f_overfl := 0, f_record := 0\<rparr>\<rparr>) l3;
                           l5 = set_chan fd ((chantab l4 ! fd)\<lparr>c_arg := Ent i, c_close := Filecl\<rparr>) l4;
                           l6 = (if flag AND O_APPEND \<noteq> 0 then snd (Ceof B i l5) else l5)
                       in (0, rstusr B l6)))"

definition open_fd :: "'b bdos \<Rightarrow> bytes \<Rightarrow> u16 \<Rightarrow> 'b lib \<Rightarrow> int \<times> 'b lib" where
  "open_fd B name flag l =
     (case first_index (\<lambda>c. c_close c = Bdf) (take MAXCHAN (chantab l)) of
        None \<Rightarrow> (- 1, l\<lparr>errno := MFILE\<rparr>)
      | Some fd \<Rightarrow>
          (case find_device name of (dev, arg) \<Rightarrow>
           let m = (flag AND 3) + 1; ch = chantab l ! fd;
               ch1 = (if m AND 1 \<noteq> 0 then ch\<lparr>c_read := d_read dev\<rparr> else ch)
           in if m AND 1 \<noteq> 0 \<and> d_read dev = 0 then (- 1, (set_chan fd ch1 l)\<lparr>errno := ACCES\<rparr>)
              else let ch2 = (if m AND 2 \<noteq> 0 then ch1\<lparr>c_write := d_write dev\<rparr> else ch1)
                   in if m AND 2 \<noteq> 0 \<and> d_write dev = 0
                      then (- 1, (set_chan fd ch2 l)\<lparr>errno := ACCES\<rparr>)
                      else let l1 = set_chan fd (ch2\<lparr>c_arg := Dev arg, c_ioctl := d_ioctl dev,
                                      c_seek := d_seek dev, c_close := Ret\<rparr>) l
                           in case (if d_file dev then fileop B name flag fd l1
                                    else call_errno (fn_ret B) l1) of
                                (r, l2) \<Rightarrow>
                                  if r < 0
                                  then (- 1, set_chan fd ((chantab l2 ! fd)\<lparr>c_close := Bdf\<rparr>) l2)
                                  else (int fd, l2)))"

definition creat :: "'b bdos \<Rightarrow> bytes \<Rightarrow> 'b lib \<Rightarrow> int \<times> 'b lib" where
  "creat B name l = open_fd B name (1 OR O_TRUNC OR O_CREAT) l"

definition filecl :: "'b bdos \<Rightarrow> nat \<Rightarrow> 'b lib \<Rightarrow> int \<times> 'b lib" where
  "filecl B i l =
     (let l1 = setusr B (user (ent i l)) (zap l);
          l2 = rstusr B (snd (call_fcb B CLSFIL i l1))
      in (0, set_ent i ((ent i l2)\<lparr>flags := 0\<rparr>) l2))"

definition call_closer :: "'b bdos \<Rightarrow> channel \<Rightarrow> 'b lib \<Rightarrow> (int, 'b lib) outcome" where
  "call_closer B ch l =
     (case c_close ch of
        Bdf \<Rightarrow> (case call_errno (fn_bdf B) l of (r, l') \<Rightarrow> Ok r l')
      | Ret \<Rightarrow> (case call_errno (fn_ret B) l of (r, l') \<Rightarrow> Ok r l')
      | Filecl \<Rightarrow>
          (case c_arg ch of
             Dev n \<Rightarrow> Fail (Undefined OutOfBounds) l
           | Ent i \<Rightarrow> (case filecl B i l of (r, l') \<Rightarrow> Ok r l')))"

text \<open>\<open>close\<close> accepts the descriptor \<open>MAXCHAN\<close>, one behind the table.\<close>

definition close_fd :: "'b bdos \<Rightarrow> int \<Rightarrow> 'b lib \<Rightarrow> (int, 'b lib) outcome" where
  "close_fd B fd l =
     (if fd < 0 \<or> fd > int MAXCHAN then Ok (- 1) (l\<lparr>errno := BADF\<rparr>)
      else if length (chantab l) \<le> nat fd then Fail (Undefined OutOfBounds) l
      else bindo (call_closer B (chantab l ! nat fd) l) (\<lambda>r l1.
             Ok r (set_chan (nat fd) ((chantab l1 ! nat fd)\<lparr>c_read := 0, c_write := 0, c_ioctl := 0,
                     c_seek := 0, c_close := Bdf\<rparr>) l1)))"

section \<open>Descriptors\<close>

text \<open>
  \<open>read\<close> and \<open>write\<close> do not check the descriptor and dispatch on the number in the channel; a
  device function reads its argument as a BDOS function number, a file function as an entry. A
  \<open>read\<close> gives the result and the bytes stored; \<open>None\<close> means that \<open>raw_rd\<close> polls for ever.
\<close>

definition chan_at :: "int \<Rightarrow> 'b lib \<Rightarrow> channel option" where
  "chan_at fd l = (if 0 \<le> fd \<and> nat fd < length (chantab l) then Some (chantab l ! nat fd) else None)"

definition read_fd :: "'b bdos \<Rightarrow> int \<Rightarrow> u16 \<Rightarrow> 'b lib \<Rightarrow> (int \<times> bytes, 'b lib) outcome option" where
  "read_fd B fd len l =
     (case chan_at fd l of
        None \<Rightarrow> Some (Fail (Undefined OutOfBounds) l)
      | Some ch \<Rightarrow>
          if c_read ch = 0 then (case call_errno (fn_bdf B) l of (r, l') \<Rightarrow> Some (Ok (r, []) l'))
          else if c_read ch = 2
          then (case Rd_tab2 l of
                  Tty_rd \<Rightarrow> (case tty_rd B len l of (n, d, l') \<Rightarrow> Some (Ok (int n, d) l'))
                | Raw_rd \<Rightarrow>
                    map_option (\<lambda>(d, l'). Ok (int (length d), d) l') (raw_rd B (nat (sint len)) [] l))
          else (case c_arg ch of
                  Ent i \<Rightarrow>
                    if c_read ch = 1
                    then (case filerd B i (unat len) l of (n, d, l') \<Rightarrow> Some (Ok (int n, d) l'))
                    else Some (Fail (Undefined OutOfBounds) l)
                | Dev k \<Rightarrow>
                    if c_read ch = 3
                    then (case bdosrd B k (nat (sint len)) 0 [] l of (n, d, l') \<Rightarrow> Some (Ok (int n, d) l'))
                    else Some (Fail (Undefined OutOfBounds) l)))"

definition write_fd :: "'b bdos \<Rightarrow> int \<Rightarrow> bytes \<Rightarrow> 'b lib \<Rightarrow> (int, 'b lib) outcome" where
  "write_fd B fd buf l =
     (case chan_at fd l of
        None \<Rightarrow> Fail (Undefined OutOfBounds) l
      | Some ch \<Rightarrow>
          if c_write ch = 0 then (case call_errno (fn_bdf B) l of (r, l') \<Rightarrow> Ok r l')
          else (case c_arg ch of
                  Ent i \<Rightarrow>
                    if c_write ch = 1 then (case filewr B i buf l of (r, l') \<Rightarrow> Ok r l')
                    else Fail (Undefined OutOfBounds) l
                | Dev k \<Rightarrow>
                    if c_write ch = 2 \<and> Wrt_tab2 l = Raw_wr
                    then (case raw_wr B buf l of (r, l') \<Rightarrow> Ok r l')
                    else if c_write ch = 2 \<or> c_write ch = 3
                    then (case bdoswr B k buf l of (r, l') \<Rightarrow> Ok r l')
                    else Fail (Undefined OutOfBounds) l))"

definition isatty_fd :: "int \<Rightarrow> 'b lib \<Rightarrow> nat option" where
  "isatty_fd fd l = map_option c_ioctl (chan_at fd l)"

text \<open>The entry of a descriptor that can seek.\<close>

definition seek_entry :: "int \<Rightarrow> 'b lib \<Rightarrow> cpm_error + nat option" where
  "seek_entry fd l =
     (case chan_at fd l of
        None \<Rightarrow> Inl (Undefined OutOfBounds)
      | Some ch \<Rightarrow>
          if c_seek ch = 0 then Inr None
          else (case c_arg ch of Dev n \<Rightarrow> Inl (Undefined OutOfBounds) | Ent i \<Rightarrow> Inr (Some i)))"

definition tell :: "nat \<Rightarrow> 'b lib \<Rightarrow> u32" where
  "tell i l = ucast (offset (ent i l)) + push_bit 7 (ucast (f_record (ent_fcb (ent i l))))"

text \<open>Seeking to the end closes the file, with the partial close mark in its name, and measures it.\<close>

definition seek_end :: "'b bdos \<Rightarrow> nat \<Rightarrow> 'b lib \<Rightarrow> 'b lib" where
  "seek_end B i l =
     (let l1 = setusr B (user (ent i l)) l;
          f1 = ent_fcb (ent i l1);
          l2 = set_fcb i (f1\<lparr>f_name := (f_name f1)[4 := f_name f1 ! 4 OR 0x80]\<rparr>) l1;
          l3 = snd (call_fcb B CLSFIL i l2);
          f3 = ent_fcb (ent i l3);
          l4 = set_fcb i (f3\<lparr>f_name := (f_name f3)[4 := f_name f3 ! 4 AND 0x7f]\<rparr>) l3
      in rstusr B (snd (Ceof B i l4)))"

definition seek_to :: "nat \<Rightarrow> u32 \<Rightarrow> 'b lib \<Rightarrow> int \<times> 'b lib" where
  "seek_to i pos l =
     (let e = ent i l; f = (ent_fcb e)\<lparr>f_overfl := 0\<rparr>
      in if sint pos < 0
         then (- 1, (set_ent i (e\<lparr>offset := 0, ent_fcb := f\<lparr>f_record := 0\<rparr>\<rparr>) l)\<lparr>errno := INVAL\<rparr>)
         else (sint pos,
               set_ent i (e\<lparr>offset := ucast (pos AND 127),
                            ent_fcb := f\<lparr>f_record := ucast (drop_bit 7 pos)\<rparr>\<rparr>) l))"

definition lseek :: "'b bdos \<Rightarrow> int \<Rightarrow> u32 \<Rightarrow> nat \<Rightarrow> 'b lib \<Rightarrow> (int, 'b lib) outcome" where
  "lseek B fd pos how l =
     (case seek_entry fd l of
        Inl e \<Rightarrow> Fail e l
      | Inr None \<Rightarrow> Ok (- 1) (l\<lparr>errno := BADF\<rparr>)
      | Inr (Some i) \<Rightarrow>
          if how = 2 then (let l' = seek_end B i l in case seek_to i (pos + tell i l') l' of (r, l'') \<Rightarrow> Ok r l'')
          else if how = 1 then (case seek_to i (pos + tell i l) l of (r, l') \<Rightarrow> Ok r l')
          else if how = 0 then (case seek_to i pos l of (r, l') \<Rightarrow> Ok r l')
          else Ok (- 1) (l\<lparr>errno := INVAL\<rparr>))"

definition posit :: "int \<Rightarrow> u16 \<Rightarrow> 'b lib \<Rightarrow> (int, 'b lib) outcome" where
  "posit fd pos l =
     (case seek_entry fd l of
        Inl e \<Rightarrow> Fail e l
      | Inr None \<Rightarrow> Ok (- 1) (l\<lparr>errno := BADF\<rparr>)
      | Inr (Some i) \<Rightarrow>
          (let e = ent i l
           in Ok 0 (set_ent i (e\<lparr>offset := 0, ent_fcb := (ent_fcb e)\<lparr>f_record := pos, f_overfl := 0\<rparr>\<rparr>) l)))"

text \<open>\<open>ioctl\<close>: 0 reads the control flags, 1 sets them and with them the terminal functions.\<close>

definition tty_set :: "u16 \<Rightarrow> 'b lib \<Rightarrow> 'b lib" where
  "tty_set fl l =
     (let l1 = l\<lparr>Tty_flags := fl, Wrt_tab2 := Raw_wr, Rd_tab2 := Raw_rd\<rparr>
      in if fl AND RAW \<noteq> 0 then l1\<lparr>rd_func := 6, wrt_func := 6, Eol := 13\<rparr>
         else (if fl AND CBREAK \<noteq> 0
               then l1\<lparr>rd_func := (if fl AND ECHO \<noteq> 0 then 1 else 6), wrt_func := 2\<rparr>
               else l1\<lparr>Rd_tab2 := Tty_rd, wrt_func := 2\<rparr>)
              \<lparr>Eol := (if fl AND CRMOD \<noteq> 0 then 10 else 13)\<rparr>)"

definition ioctl :: "int \<Rightarrow> nat \<Rightarrow> u16 \<Rightarrow> 'b lib \<Rightarrow> (int \<times> u16, 'b lib) outcome" where
  "ioctl fd cmd arg l =
     (case chan_at fd l of
        None \<Rightarrow> Fail (Undefined OutOfBounds) l
      | Some ch \<Rightarrow>
          if c_ioctl ch = 0 then Ok (- 1, arg) (l\<lparr>errno := NOTTY\<rparr>)
          else if cmd = 0 then Ok (0, Tty_flags l) l
          else if cmd = 1 then Ok (0, arg) (tty_set arg l)
          else Ok (0, arg) l)"

section \<open>RENAME.C and UNLINK.C\<close>

text \<open>
  The BDOS takes both names of a rename in one block, the new one in its second half (here the
  opaque part). A bad name is not noticed: its user number -1 is passed on as 255.
\<close>

definition name_image :: "fcb \<Rightarrow> bytes" where
  "name_image f = f_driv f # f_name f @ f_type f @ take 4 (f_rest f)"

definition new_fcb :: fcb where
  "new_fcb = \<lparr>f_driv = 0, f_name = [], f_type = [], f_rest = [], f_record = 0, f_overfl = 0\<rparr>"

definition rename_file :: "'b bdos \<Rightarrow> bytes \<Rightarrow> bytes \<Rightarrow> 'b lib \<Rightarrow> int \<times> 'b lib" where
  "rename_file B old new l =
     (case fcbinit (Some old) new_fcb of (u, fo) \<Rightarrow>
      case fcbinit (Some new) new_fcb of (_, fn) \<Rightarrow>
      let l1 = setusr B (of_int u) l
      in case bd_fcb B OPNFIL fn (sys l1) of (r, fn', b) \<Rightarrow>
         let l2 = l1\<lparr>sys := b\<rparr>
         in if r \<noteq> 0xff
            then (- 1, rstusr B (l2\<lparr>sys := snd (snd (bd_fcb B CLSFIL fn' b)), errno := EXIST\<rparr>))
            else case bd_fcb B RENFIL (fo\<lparr>f_rest := take 4 (f_rest fo) @ name_image fn'\<rparr>) b of (r', _, b') \<Rightarrow>
                 if r' = 0xff then (- 1, rstusr B (l2\<lparr>sys := b', errno := NOENT\<rparr>))
                 else (0, rstusr B (l2\<lparr>sys := b'\<rparr>)))"

definition unlink_file :: "'b bdos \<Rightarrow> bytes \<Rightarrow> 'b lib \<Rightarrow> int \<times> 'b lib" where
  "unlink_file B name l =
     (case fcbinit (Some name) new_fcb of (u, f) \<Rightarrow>
      let l1 = setusr B (of_int u) l
      in case bd_fcb B DELFIL f (sys l1) of (r, _, b) \<Rightarrow>
         let l2 = rstusr B (l1\<lparr>sys := b\<rparr>)
         in if r = 0xff then (- 1, l2\<lparr>errno := NOENT\<rparr>) else (0, l2))"

end
