(* ===== verification/Aztec_File_Spec.thy ===== *)
theory Aztec_File_Spec
  imports Aztec_Files
begin

text \<open>
  What the file functions of \<^verbatim>\<open>READ.C\<close> and \<^verbatim>\<open>WRITE.C\<close> promise: a file is an array of bytes, a
  descriptor a position in it. The BDOS enters as the record-wise store it is documented to be.
\<close>

named_theorems file_simps \<open>reading the state after an update of an entry\<close>

section \<open>The store below\<close>

text \<open>
  \<open>recs f b\<close> are the 128-byte records of the file that the control block \<open>f\<close> names. They do not depend
  on the record number and its overflow byte in the block or on the user number selected; a read of a missing record
  ends with code 1 or 4 and stores nothing; a write replaces one record.
\<close>

definition bdos_files :: "'b bdos \<Rightarrow> (fcb \<Rightarrow> 'b \<Rightarrow> u16 \<Rightarrow> bytes option) \<Rightarrow> bool" where
  "bdos_files B recs \<longleftrightarrow>
     (\<forall>f b x. recs (f\<lparr>f_record := x\<rparr>) b = recs f b \<and> recs (f\<lparr>f_overfl := 0\<rparr>) b = recs f b) \<and>
     (\<forall>f b x d. recs f b x = Some d \<longrightarrow> length d = 128) \<and>
     (\<forall>f b u. recs f (snd (bd_user B u b)) = recs f b) \<and>
     (\<forall>f b r d f' b'. bd_readrn B f b = (r, d, f', b') \<longrightarrow>
        f_record f' = f_record f \<and> recs f' b' = recs f b \<and>
        (case recs f b (f_record f) of Some d0 \<Rightarrow> r = 0 \<and> d = d0 | None \<Rightarrow> (r = 1 \<or> r = 4) \<and> d = [])) \<and>
     (\<forall>f b d r f' b'. length d = 128 \<longrightarrow> bd_writrn B f d b = (r, f', b') \<longrightarrow>
        r = 0 \<and> f_record f' = f_record f \<and> recs f' b' = (recs f b)(f_record f \<mapsto> d))"

lemma bdos_filesD:
  assumes "bdos_files B recs"
  shows "recs (f\<lparr>f_record := x\<rparr>) b = recs f b"
    and "recs f b x = Some d \<Longrightarrow> length d = 128"
    and "recs f (snd (bd_user B u b)) = recs f b"
    and "recs f b (f_record f) = Some d \<Longrightarrow>
          \<exists>f' b'. bd_readrn B f b = (0, d, f', b') \<and> f_record f' = f_record f \<and> recs f' b' = recs f b"
    and "recs f b (f_record f) = None \<Longrightarrow>
          \<exists>r f' b'. bd_readrn B f b = (r, [], f', b') \<and> (r = 1 \<or> r = 4) \<and>
            f_record f' = f_record f \<and> recs f' b' = recs f b"
    and "length d = 128 \<Longrightarrow>
          \<exists>f' b'. bd_writrn B f d b = (0, f', b') \<and> f_record f' = f_record f \<and>
            recs f' b' = (recs f b)(f_record f \<mapsto> d)"
proof -
  show "recs (f\<lparr>f_record := x\<rparr>) b = recs f b" using assms unfolding bdos_files_def by simp
  show "recs f b x = Some d \<Longrightarrow> length d = 128" using assms unfolding bdos_files_def by blast
  show "recs f (snd (bd_user B u b)) = recs f b" using assms unfolding bdos_files_def by blast
  obtain r dd f' b' where rd: "bd_readrn B f b = (r, dd, f', b')" by (cases "bd_readrn B f b") auto
  have rl: "f_record f' = f_record f \<and> recs f' b' = recs f b \<and>
      (case recs f b (f_record f) of Some d0 \<Rightarrow> r = 0 \<and> dd = d0 | None \<Rightarrow> (r = 1 \<or> r = 4) \<and> dd = [])"
    using assms rd unfolding bdos_files_def by blast
  show "recs f b (f_record f) = Some d \<Longrightarrow>
      \<exists>f' b'. bd_readrn B f b = (0, d, f', b') \<and> f_record f' = f_record f \<and> recs f' b' = recs f b"
    using rd rl by simp
  show "recs f b (f_record f) = None \<Longrightarrow>
      \<exists>r f' b'. bd_readrn B f b = (r, [], f', b') \<and> (r = 1 \<or> r = 4) \<and>
        f_record f' = f_record f \<and> recs f' b' = recs f b"
    using rd rl by simp
  have wl: "\<forall>f b d r f' b'. length d = 128 \<longrightarrow> bd_writrn B f d b = (r, f', b') \<longrightarrow>
      r = 0 \<and> f_record f' = f_record f \<and> recs f' b' = (recs f b)(f_record f \<mapsto> d)"
    using assms unfolding bdos_files_def by (elim conjE)
  obtain r2 f2 b2 where wr: "bd_writrn B f d b = (r2, f2, b2)" by (cases "bd_writrn B f d b") auto
  show "length d = 128 \<Longrightarrow> \<exists>f' b'. bd_writrn B f d b = (0, f', b') \<and> f_record f' = f_record f \<and>
      recs f' b' = (recs f b)(f_record f \<mapsto> d)"
    using wl [rule_format, OF _ wr] wr by blast
qed

section \<open>The view of one descriptor\<close>

lemma ent_set [file_simps]:
  "i < length (fcbtab l) \<Longrightarrow> ent i (set_ent i e l) = e"
  "i < length (fcbtab l) \<Longrightarrow> ent i (set_fcb i f l) = (ent i l)\<lparr>ent_fcb := f\<rparr>"
  by (simp_all add: ent_def set_ent_def set_fcb_def)

lemma ent_other [file_simps]:
  "ent i (l\<lparr>sys := b\<rparr>) = ent i l" "ent i (l\<lparr>errno := e\<rparr>) = ent i l" "ent i (l\<lparr>Wrkbuf := w\<rparr>) = ent i l"
  "ent i (l\<lparr>Wfp := p\<rparr>) = ent i l" "ent i (l\<lparr>Wsct := x\<rparr>) = ent i l" "ent i (l\<lparr>oldusr := u\<rparr>) = ent i l"
  by (simp_all add: ent_def)

lemma set_fields [file_simps]:
  "sys (set_ent i e l) = sys l" "Wrkbuf (set_ent i e l) = Wrkbuf l" "Wfp (set_ent i e l) = Wfp l"
  "Wsct (set_ent i e l) = Wsct l" "length (fcbtab (set_ent i e l)) = length (fcbtab l)"
  "sys (set_fcb i f l) = sys l" "Wrkbuf (set_fcb i f l) = Wrkbuf l" "Wfp (set_fcb i f l) = Wfp l"
  "Wsct (set_fcb i f l) = Wsct l" "length (fcbtab (set_fcb i f l)) = length (fcbtab l)"
  by (simp_all add: set_ent_def set_fcb_def)

text \<open>
  Entry \<open>i\<close> stands at offset \<open>off\<close> of record \<open>x\<close> of a file with the records \<open>m\<close>; a work buffer that
  belongs to it holds what the file has.
\<close>

definition file_at ::
  "(fcb \<Rightarrow> 'b \<Rightarrow> u16 \<Rightarrow> bytes option) \<Rightarrow> nat \<Rightarrow> 'b lib \<Rightarrow> (u16 \<Rightarrow> bytes option) \<Rightarrow> u16 \<Rightarrow> u8 \<Rightarrow> bool" where
  "file_at recs i l m x off \<longleftrightarrow>
     i < length (fcbtab l) \<and> length (Wrkbuf l) = 128 \<and> off < 128 \<and>
     f_record (ent_fcb (ent i l)) = x \<and> offset (ent i l) = off \<and>
     recs (ent_fcb (ent i l)) (sys l) = m \<and>
     (Wfp l = Some i \<longrightarrow> m (Wsct l) = Some (Wrkbuf l))"

lemma file_at_user:
  assumes "bdos_files B recs" "file_at recs i l m x off"
  shows "file_at recs i (setusr B u l) m x off" "file_at recs i (rstusr B l) m x off"
    "Wfp (setusr B u l) = Wfp l" "Wsct (setusr B u l) = Wsct l"
proof -
  have s: "sys (setusr B u l) = snd (bd_user B u (snd (bd_user B 255 (sys l)))) \<or>
      sys (setusr B u l) = snd (bd_user B 255 (sys l))"
    by (auto simp: setusr_def Let_def split: prod.splits)
  have f: "ent i (setusr B u l) = ent i l" "length (fcbtab (setusr B u l)) = length (fcbtab l)"
    "Wrkbuf (setusr B u l) = Wrkbuf l" "Wfp (setusr B u l) = Wfp l" "Wsct (setusr B u l) = Wsct l"
    by (auto simp: setusr_def Let_def ent_def split: prod.splits)
  show "file_at recs i (setusr B u l) m x off"
    using s f assms(2) bdos_filesD(3) [OF assms(1)] by (auto simp: file_at_def)
  show "file_at recs i (rstusr B l) m x off"
    using assms(2) bdos_filesD(3) [OF assms(1)] by (auto simp: file_at_def rstusr_def file_simps)
  show "Wfp (setusr B u l) = Wfp l" "Wsct (setusr B u l) = Wsct l" by (fact f)+
qed

lemma find_sect_present:
  assumes "bdos_files B recs" "file_at recs i l m x off" "m x = Some d"
  shows "\<exists>l'. find_sect B i l = (0, l') \<and> file_at recs i l' m x off \<and> Wrkbuf l' = d \<and>
           Wfp l' = Some i \<and> Wsct l' = x"
proof (cases "Wfp l = Some i \<and> x = Wsct l")
  case True
  then show ?thesis using assms(2,3) by (auto simp: find_sect_def file_at_def)
next
  case False
  have v: "i < length (fcbtab l)" "f_record (ent_fcb (ent i l)) = x"
    "recs (ent_fcb (ent i l)) (sys l) = m" "length (Wrkbuf l) = 128"
    using assms(2) by (auto simp: file_at_def)
  have len: "length d = 128" using assms(3) v(3) bdos_filesD(2) [OF assms(1)] by blast
  obtain f' b' where r: "bd_readrn B (ent_fcb (ent i l)) (sys l) = (0, d, f', b')"
    "f_record f' = x" "recs f' b' = m"
    using bdos_filesD(4) [OF assms(1), of "ent_fcb (ent i l)" "sys l" d] v assms(3) by auto
  have "blit 0 d (Wrkbuf l) = d" using len v(4) by (simp add: blit_all)
  then show ?thesis using False r v assms len
    by (auto simp: find_sect_def Let_def file_at_def file_simps)
qed

lemma find_sect_missing:
  assumes "bdos_files B recs" "file_at recs i l m x off" "m x = None"
  shows "\<exists>l'. find_sect B i l = (1, l') \<and> file_at recs i l' m x off \<and>
           Wrkbuf l' = replicate 128 0x1a \<and> Wfp l' = None"
proof -
  have v: "i < length (fcbtab l)" "f_record (ent_fcb (ent i l)) = x"
    "recs (ent_fcb (ent i l)) (sys l) = m" "Wfp l = Some i \<longrightarrow> m (Wsct l) = Some (Wrkbuf l)"
    using assms(2) by (auto simp: file_at_def)
  obtain r f' b' where r: "bd_readrn B (ent_fcb (ent i l)) (sys l) = (r, [], f', b')" "r = 1 \<or> r = 4"
    "f_record f' = x" "recs f' b' = m"
    using bdos_filesD(5) [OF assms(1), of "ent_fcb (ent i l)" "sys l"] v assms(3) by auto
  have "Wfp l \<noteq> Some i \<or> x \<noteq> Wsct l" using v(4) assms(3) by auto
  then show ?thesis using r v assms(2) by (auto simp: find_sect_def Let_def file_at_def file_simps)
qed

text \<open>Moving over \<open>n\<close> bytes inside a record.\<close>

definition moved :: "u16 \<Rightarrow> u8 \<Rightarrow> nat \<Rightarrow> u16 \<times> u8" where
  "moved x off n = (if unat off + n = 128 then (x + 1, 0) else (x, off + of_nat n))"

lemma advance_at:
  assumes "bdos_files B recs" "file_at recs i l m x off" "unat off + n \<le> 128" "off = 0 \<longrightarrow> 0 < n"
  shows "file_at recs i (advance i n l) m (fst (moved x off n)) (snd (moved x off n))"
    "Wfp (advance i n l) = Wfp l" "Wsct (advance i n l) = Wsct l"
proof -
  have u: "unat (off + of_nat n) = unat off + n"
    using assms(3) by (simp add: unat_word_ariths(1) unat_of_nat_u8)
  have a: "unat ((off + of_nat n) AND 127) = (unat off + n) mod 128"
    using and_mask_nat [of "unat off + n" 7] u by (simp add: unsigned_and_eq mask_eq_exp_minus_1)
  have z: "(off + of_nat n) AND 127 = (if unat off + n = 128 then 0 else off + of_nat n)"
    by (rule word_unat_eq_iff [THEN iffD2]) (use a u assms(3) in auto)
  have nz: "off + of_nat n = 0 \<Longrightarrow> off = 0 \<and> n = 0" using u by (metis add_is_0 unat_0 unat_eq_zero)
  show "Wfp (advance i n l) = Wfp l" "Wsct (advance i n l) = Wsct l"
    by (simp_all add: advance_def Let_def file_simps)
  show "file_at recs i (advance i n l) m (fst (moved x off n)) (snd (moved x off n))"
  proof (cases "unat off + n = 128")
    case True
    then show ?thesis using assms(2) z bdos_filesD(1) [OF assms(1)]
      by (auto simp: file_at_def advance_def Let_def file_simps moved_def)
  next
    case False
    have "unat (off + of_nat n) < 128" using u False assms(3) by linarith
    then have "off + of_nat n < 128" by (simp add: word_less_nat_alt)
    moreover have "off + of_nat n \<noteq> 0" using nz assms(4) by blast
    ultimately show ?thesis using assms(2) False z
      by (auto simp: file_at_def advance_def Let_def file_simps moved_def)
  qed
qed

text \<open>Reading and writing inside a record.\<close>

lemma getsect_at:
  assumes "bdos_files B recs" "file_at recs i l m x off" "m x = Some d"
    and "unat off + n \<le> 128" "off = 0 \<longrightarrow> 0 < n"
  shows "\<exists>l'. getsect B i n l = (Some (take n (drop (unat off) d)), l') \<and>
           file_at recs i l' m (fst (moved x off n)) (snd (moved x off n))"
proof -
  obtain l1 where l1: "find_sect B i l = (0, l1)" "file_at recs i l1 m x off" "Wrkbuf l1 = d"
    using find_sect_present [OF assms(1-3)] by blast
  have "offset (ent i l1) = off" using l1(2) by (simp add: file_at_def)
  then show ?thesis using l1 advance_at(1) [OF assms(1) l1(2) assms(4,5)] by (simp add: getsect_def)
qed

text \<open>The record that a partial write starts from: what is there or end-of-file marks.\<close>

definition base_rec :: "(u16 \<Rightarrow> bytes option) \<Rightarrow> u16 \<Rightarrow> bytes" where
  "base_rec m x = (case m x of Some d \<Rightarrow> d | None \<Rightarrow> replicate 128 0x1a)"

lemma putsect_at:
  assumes B: "bdos_files B recs" and v: "file_at recs i l m x off"
    and n: "unat off + length dat \<le> 128" "off = 0 \<longrightarrow> dat \<noteq> []"
  shows "\<exists>l'. putsect B i dat l = (True, l') \<and>
           file_at recs i l' (m(x \<mapsto> blit (unat off) dat (base_rec m x)))
             (fst (moved x off (length dat))) (snd (moved x off (length dat))) \<and>
           (Wfp l' = None \<or> Wfp l' = Some i \<and> Wsct l' = x)"
proof -
  obtain r l1 where l1: "find_sect B i l = (r, l1)" "0 \<le> r" "file_at recs i l1 m x off"
    "Wrkbuf l1 = base_rec m x" "Wfp l1 = None \<or> Wfp l1 = Some i \<and> Wsct l1 = x"
  proof (cases "m x")
    case None
    then show ?thesis using find_sect_missing [OF B v] that by (auto simp: base_rec_def)
  next
    case (Some d)
    then show ?thesis using find_sect_present [OF B v] that by (auto simp: base_rec_def)
  qed
  define w where "w = blit (unat off) dat (base_rec m x)"
  have len: "length w = 128" using n(1) l1(3,4) by (simp add: w_def file_at_def)
  have e: "offset (ent i l1) = off" "f_record (ent_fcb (ent i l1)) = x" "recs (ent_fcb (ent i l1)) (sys l1) = m"
    "i < length (fcbtab l1)" using l1(3) by (auto simp: file_at_def)
  obtain f' b' where wr: "bd_writrn B (ent_fcb (ent i l1)) w (sys l1) = (0, f', b')" "f_record f' = x"
    "recs f' b' = m(x \<mapsto> w)"
    using bdos_filesD(6) [OF B len, of "ent_fcb (ent i l1)" "sys l1"] e by auto
  define l3 where "l3 = (set_fcb i f' (l1\<lparr>Wrkbuf := w\<rparr>))\<lparr>sys := b', errno := 0\<rparr>"
  have v3: "file_at recs i l3 (m(x \<mapsto> w)) x off" "Wfp l3 = Wfp l1" "Wsct l3 = Wsct l1"
    using l1(3,5) wr len e by (auto simp: l3_def file_at_def file_simps)
  have "putsect B i dat l = (True, advance i (length dat) l3)"
    using l1(1,2,4) wr(1) e(1) by (simp add: putsect_def Let_def file_simps l3_def flip: w_def)
  then show ?thesis
    using advance_at [OF B v3(1) n(1)] n(2) l1(5) v3 unfolding w_def by auto
qed

text \<open>Whole records.\<close>

lemma next_record_at:
  assumes "bdos_files B recs" "file_at recs i l m x off"
  shows "file_at recs i (next_record i l) m (x + 1) off" "Wfp (next_record i l) = Wfp l"
    "Wsct (next_record i l) = Wsct l"
  using assms bdos_filesD(1) [OF assms(1)]
  by (auto simp: next_record_def Let_def file_at_def file_simps)

lemma blkrd_at:
  assumes "bdos_files B recs" "file_at recs i l m x off"
    and "\<forall>t < k. m (x + of_nat t) = Some (ds t)"
  shows "\<exists>l'. blkrd B i k l = (0, concat (map ds [0..<k]), l') \<and> file_at recs i l' m (x + of_nat k) off"
  using assms(2,3)
proof (induction k arbitrary: l x ds)
  case (Suc k)
  have "m x = Some (ds 0)" using Suc.prems(2) [rule_format, of 0] by simp
  then obtain f' b' where r: "bd_readrn B (ent_fcb (ent i l)) (sys l) = (0, ds 0, f', b')"
    "f_record f' = x" "recs f' b' = m"
    using bdos_filesD(4) [OF assms(1), of "ent_fcb (ent i l)" "sys l" "ds 0"] Suc.prems(1)
    by (auto simp: file_at_def)
  define l1 where "l1 = (set_fcb i f' l)\<lparr>sys := b'\<rparr>"
  have v1: "file_at recs i l1 m x off" using Suc.prems(1) r by (auto simp: l1_def file_at_def file_simps)
  have "m (x + 1 + of_nat t) = Some (ds (Suc t))" if "t < k" for t
    using Suc.prems(2) [rule_format, of "Suc t"] that by (simp add: add.assoc)
  then obtain l' where l': "blkrd B i k (next_record i l1) = (0, concat (map (\<lambda>t. ds (Suc t)) [0..<k]), l')"
    "file_at recs i l' m (x + 1 + of_nat k) off"
    using Suc.IH [OF next_record_at(1) [OF assms(1) v1], of "\<lambda>t. ds (Suc t)"] by blast
  have "concat (map ds [0..<Suc k]) = ds 0 @ concat (map (\<lambda>t. ds (Suc t)) [0..<k])"
    by (simp add: map_upt_Suc del: upt_Suc)
  then show ?case using r(1) l' by (simp add: l1_def [symmetric] add.assoc del: upt_Suc)
qed simp

fun put_recs :: "nat \<Rightarrow> u16 \<Rightarrow> bytes \<Rightarrow> (u16 \<Rightarrow> bytes option) \<Rightarrow> u16 \<Rightarrow> bytes option" where
  "put_recs 0 x dat m = m"
| "put_recs (Suc k) x dat m = put_recs k (x + 1) (drop 128 dat) (m(x \<mapsto> take 128 dat))"

lemma blkwr_at:
  assumes "bdos_files B recs" "file_at recs i l m x off" "k * 128 \<le> length dat"
    and "Wfp l = Some i \<longrightarrow> (\<forall>t < k. Wsct l \<noteq> x + of_nat t)"
  shows "\<exists>l'. blkwr B i k dat l = (0, l') \<and> file_at recs i l' (put_recs k x dat m) (x + of_nat k) off"
  using assms(2-4)
proof (induction k arbitrary: l x dat m)
  case (Suc k)
  have len: "length (take 128 dat) = 128" using Suc.prems(2) by simp
  obtain f' b' where r: "bd_writrn B (ent_fcb (ent i l)) (take 128 dat) (sys l) = (0, f', b')"
    "f_record f' = x" "recs f' b' = m(x \<mapsto> take 128 dat)"
    using bdos_filesD(6) [OF assms(1) len, of "ent_fcb (ent i l)" "sys l"] Suc.prems(1)
    by (auto simp: file_at_def)
  define l1 where "l1 = (set_fcb i f' l)\<lparr>sys := b'\<rparr>"
  have ne: "Wfp l = Some i \<longrightarrow> Wsct l \<noteq> x"
    using Suc.prems(3) by force
  have v1: "file_at recs i l1 (m(x \<mapsto> take 128 dat)) x off"
    using Suc.prems(1) r ne by (auto simp: l1_def file_at_def file_simps)
  have w: "Wfp l1 = Wfp l" "Wsct l1 = Wsct l" by (simp_all add: l1_def file_simps)
  have "Wsct l \<noteq> x + 1 + of_nat t" if "Wfp l = Some i" "t < k" for t
    using Suc.prems(3) [rule_format, OF that(1), of "Suc t"] that(2) by (simp add: add.assoc)
  then have "Wfp (next_record i l1) = Some i \<longrightarrow> (\<forall>t < k. Wsct (next_record i l1) \<noteq> x + 1 + of_nat t)"
    unfolding next_record_at(2,3) [OF assms(1) v1] w by blast
  moreover have "k * 128 \<le> length (drop 128 dat)" using Suc.prems(2) by simp
  ultimately obtain l' where "blkwr B i k (drop 128 dat) (next_record i l1) = (0, l')"
    "file_at recs i l' (put_recs k (x + 1) (drop 128 dat) (m(x \<mapsto> take 128 dat))) (x + 1 + of_nat k) off"
    using Suc.IH [OF next_record_at(1) [OF assms(1) v1], of "drop 128 dat"] by blast
  then show ?case using r(1) by (simp add: l1_def [symmetric] add.assoc)
qed simp

section \<open>Files as arrays of bytes\<close>

definition byte_at :: "(u16 \<Rightarrow> bytes option) \<Rightarrow> nat \<Rightarrow> u8 option" where
  "byte_at m n = map_option (\<lambda>d. d ! (n mod 128)) (m (of_nat (n div 128)))"

definition place :: "u16 \<Rightarrow> u8 \<Rightarrow> nat" where
  "place x off = 128 * unat x + unat off"

lemma unat_succ: "unat x + k < 65536 \<Longrightarrow> unat (x + of_nat k :: u16) = unat x + k"
  by (simp add: unat_word_ariths(1) unat_of_nat_u16)

lemma place_moved:
  assumes "off < 128" "unat off + n \<le> 128" "unat x < 65535"
  shows "place (fst (moved x off n)) (snd (moved x off n)) = place x off + n"
proof (cases "unat off + n = 128")
  case True
  then show ?thesis using unat_succ [of x 1] assms by (simp add: moved_def place_def)
next
  case False
  have "unat (off + of_nat n) = unat off + n"
    using assms(2) by (simp add: unat_word_ariths(1) unat_of_nat_u8)
  then show ?thesis using False by (simp add: moved_def place_def)
qed

text \<open>
  The effect of writing bytes on the byte array: outside the range, a byte stays as it was or is an
  end-of-file mark that pads a new record; records that the range does not touch stay as they were.
\<close>

definition wrote :: "(u16 \<Rightarrow> bytes option) \<Rightarrow> nat \<Rightarrow> bytes \<Rightarrow> (u16 \<Rightarrow> bytes option) \<Rightarrow> bool" where
  "wrote m p dat m' \<longleftrightarrow>
     (\<forall>n < length dat. byte_at m' (p + n) = Some (dat ! n)) \<and>
     (\<forall>n < 8388608. n < p \<or> p + length dat \<le> n \<longrightarrow>
        byte_at m' n = byte_at m n \<or> byte_at m n = None \<and> byte_at m' n = Some 0x1a) \<and>
     (\<forall>z. 128 * unat z + 128 \<le> p \<or> p + length dat \<le> 128 * unat z \<longrightarrow> m' z = m z)"

lemma wroteD:
  assumes "wrote m p dat m'"
  shows "n < length dat \<Longrightarrow> byte_at m' (p + n) = Some (dat ! n)"
    and "n < 8388608 \<Longrightarrow> n < p \<or> p + length dat \<le> n \<Longrightarrow>
      byte_at m' n = byte_at m n \<or> byte_at m n = None \<and> byte_at m' n = Some 0x1a"
    and "128 * unat z + 128 \<le> p \<or> p + length dat \<le> 128 * unat z \<Longrightarrow> m' z = m z"
  using assms by (auto simp: wrote_def)

lemma wrote_trans:
  assumes a: "wrote m p d1 m1" and b: "wrote m1 (p + length d1) d2 m2"
    and len: "p + length d1 + length d2 \<le> 8388608"
  shows "wrote m p (d1 @ d2) m2"
  unfolding wrote_def
proof (intro conjI allI impI)
  fix n assume n: "n < length (d1 @ d2)"
  show "byte_at m2 (p + n) = Some ((d1 @ d2) ! n)"
  proof (cases "n < length d1")
    case True
    then have "byte_at m1 (p + n) = Some (d1 ! n)" by (rule wroteD(1) [OF a])
    then show ?thesis using wroteD(2) [OF b, of "p + n"] len True n by (auto simp: nth_append)
  next
    case False
    then show ?thesis using wroteD(1) [OF b, of "n - length d1"] n by (simp add: nth_append)
  qed
next
  fix n assume n: "n < 8388608" "n < p \<or> p + length (d1 @ d2) \<le> n"
  then show "byte_at m2 n = byte_at m n \<or> byte_at m n = None \<and> byte_at m2 n = Some 0x1a"
    using wroteD(2) [OF a, of n] wroteD(2) [OF b, of n] by auto
next
  fix z :: u16 assume "128 * unat z + 128 \<le> p \<or> p + length (d1 @ d2) \<le> 128 * unat z"
  then show "m2 z = m z" using wroteD(3) [OF a, of z] wroteD(3) [OF b, of z] by auto
qed

lemma wrote_rec:
  assumes len: "length w = 128" and off: "o' + length dat \<le> 128" "o' < 128" "o' = 0 \<longrightarrow> dat \<noteq> []"
    and x: "p = 128 * unat x + o'"
    and w: "\<forall>k < 128. w ! k = (if o' \<le> k \<and> k < o' + length dat then dat ! (k - o')
                              else base_rec m x ! k)"
  shows "wrote m p dat (m(x \<mapsto> w))"
  unfolding wrote_def
proof (intro conjI allI impI)
  fix n assume n: "n < length dat"
  have e: "p + n = 128 * unat x + (o' + n)" "o' + n < 128" using x n off by simp_all
  have "(p + n) div 128 = unat x" "(p + n) mod 128 = o' + n" unfolding e(1) using e(2) by simp_all
  then show "byte_at (m(x \<mapsto> w)) (p + n) = Some (dat ! n)" using w n off by (simp add: byte_at_def)
next
  fix n assume n: "n < 8388608" "n < p \<or> p + length dat \<le> n"
  show "byte_at (m(x \<mapsto> w)) n = byte_at m n \<or> byte_at m n = None \<and> byte_at (m(x \<mapsto> w)) n = Some 0x1a"
  proof (cases "of_nat (n div 128) = x")
    case True
    have "unat (of_nat (n div 128) :: u16) = n div 128" using n(1) by (simp add: unat_of_nat_u16)
    then have nx: "n div 128 = unat x" using True by simp
    then have "n = 128 * unat x + n mod 128" by (metis mult_div_mod_eq)
    then have out: "\<not> (o' \<le> n mod 128 \<and> n mod 128 < o' + length dat)" using n(2) x by linarith
    have "w ! (n mod 128) = base_rec m x ! (n mod 128)"
      using w [rule_format, of "n mod 128"] out by auto
    then show ?thesis using True by (auto simp: byte_at_def base_rec_def split: option.splits)
  next
    case False
    then show ?thesis by (simp add: byte_at_def)
  qed
next
  fix z :: u16 assume z: "128 * unat z + 128 \<le> p \<or> p + length dat \<le> 128 * unat z"
  have "z \<noteq> x" using z off x by auto
  then show "(m(x \<mapsto> w)) z = m z" by simp
qed

lemma nth_blit:
  "off + length src \<le> length dst \<Longrightarrow> k < length dst \<Longrightarrow>
   blit off src dst ! k = (if off \<le> k \<and> k < off + length src then src ! (k - off) else dst ! k)"
  by (auto simp: blit_def nth_append min_def)

lemma wrote_put_recs:
  "k * 128 = length dat \<Longrightarrow> unat x + k < 65536 \<Longrightarrow> wrote m (128 * unat x) dat (put_recs k x dat m)"
proof (induction k x dat m rule: put_recs.induct)
  case (1 x dat m)
  then show ?case by (simp add: wrote_def)
next
  case (2 k x dat m)
  let ?m = "m(x \<mapsto> take 128 dat)"
  have x1: "unat (x + 1) = unat x + 1" using unat_succ [of x 1] "2.prems"(2) by simp
  have a: "wrote m (128 * unat x) (take 128 dat) ?m"
    by (rule wrote_rec [where o' = 0]) (use "2.prems"(1) in auto)
  have "wrote ?m (128 * unat (x + 1)) (drop 128 dat) (put_recs k (x + 1) (drop 128 dat) ?m)"
    by (rule "2.IH") (use "2.prems" x1 in auto)
  then have b: "wrote ?m (128 * unat x + length (take 128 dat)) (drop 128 dat)
      (put_recs k (x + 1) (drop 128 dat) ?m)"
    using x1 "2.prems"(1) by (simp add: add.commute)
  have "128 * unat x + length (take 128 dat) + length (drop 128 dat) \<le> 8388608"
    using "2.prems" by simp
  from wrote_trans [OF a b this] show ?case by simp
qed

section \<open>filewr and filerd\<close>

text \<open>
  Where a write stays inside the numbers a control block can hold, and the work buffer does not hold
  a record that is about to be written as a whole.
\<close>

definition head_len :: "u8 \<Rightarrow> nat \<Rightarrow> nat" where
  "head_len off len = (if off = 0 then 0 else min (128 - unat off) len)"

definition no_stale :: "nat \<Rightarrow> 'b lib \<Rightarrow> u16 \<Rightarrow> u8 \<Rightarrow> nat \<Rightarrow> bool" where
  "no_stale i l x off len \<longleftrightarrow>
     (Wfp l = Some i \<longrightarrow>
        (\<forall>t < (len - head_len off len) div 128. Wsct l \<noteq> (if off = 0 then x else x + 1) + of_nat t))"

text \<open>The three parts of a transfer: up to the end of the record, whole records, the rest.\<close>

lemma moved_head:
  assumes "off < 128" "off \<noteq> 0"
  shows "moved x off (head_len off len) =
    (if unat off + len < 128 then (x, off + of_nat len) else (x + 1, 0))"
proof -
  have "unat off < 128" "unat off \<noteq> 0" using assms by (simp_all add: word_less_nat_alt unat_eq_0)
  then show ?thesis using assms by (auto simp: moved_def head_len_def min_def)
qed

lemma putsect_wrote:
  assumes B: "bdos_files B recs" and v: "file_at recs i l m x off" and x: "unat x < 65535"
    and n: "unat off + length dat \<le> 128" "off = 0 \<longrightarrow> dat \<noteq> []"
  shows "\<exists>l' m'. putsect B i dat l = (True, l') \<and>
           file_at recs i l' m' (fst (moved x off (length dat))) (snd (moved x off (length dat))) \<and>
           wrote m (place x off) dat m' \<and> (Wfp l' = None \<or> Wfp l' = Some i \<and> Wsct l' = x)"
proof -
  let ?w = "blit (unat off) dat (base_rec m x)"
  have ob: "unat off < 128" "off = 0 \<longleftrightarrow> unat off = 0"
    using v by (simp_all add: file_at_def word_less_nat_alt unat_eq_zero)
  have bl: "length (base_rec m x) = 128"
    using v bdos_filesD(2) [OF B] by (auto simp: base_rec_def file_at_def split: option.splits)
  have "wrote m (place x off) dat (m(x \<mapsto> ?w))"
  proof (rule wrote_rec)
    show "\<forall>k < 128. ?w ! k = (if unat off \<le> k \<and> k < unat off + length dat then dat ! (k - unat off)
        else base_rec m x ! k)"
      using n(1) bl by (simp add: nth_blit)
  qed (use n bl ob in \<open>auto simp: place_def\<close>)
  then show ?thesis using putsect_at [OF B v n] by blast
qed

lemma wrote_Nil: "wrote m p [] m"
  by (simp add: wrote_def)

text \<open>A work buffer of the entry that holds a record in front of the position cannot become stale.\<close>

definition behind :: "nat \<Rightarrow> 'b lib \<Rightarrow> nat \<Rightarrow> bool" where
  "behind i l p \<longleftrightarrow> (Wfp l = Some i \<longrightarrow> 128 * unat (Wsct l) < p)"

lemma behind_no_stale:
  assumes "behind i l (place x off)" "off < 128" "place x off + len < 8388480"
  shows "no_stale i l x off len"
  unfolding no_stale_def
proof (intro impI allI)
  fix t assume w: "Wfp l = Some i" and t: "t < (len - head_len off len) div 128"
  define y where "y = (if off = 0 then x else x + 1)"
  have lt: "128 * unat (Wsct l) < place x off" using assms(1) w by (simp add: behind_def)
  have x1: "unat y = unat x + (if off = 0 then 0 else 1)"
    using assms(3) unat_succ [of x 1] by (simp add: y_def place_def)
  have "unat off < 128" "off = 0 \<longleftrightarrow> unat off = 0"
    using assms(2) by (simp_all add: word_less_nat_alt unat_eq_0)
  then have "place x off \<le> 128 * unat y" using x1 by (simp add: place_def)
  moreover have "unat y + t < 65536"
    using t assms(3) x1 div_times_less_eq_dividend [of "len - head_len off len" 128]
    by (auto simp: place_def split: if_splits)
  ultimately have "unat (Wsct l) < unat (y + of_nat t)" using lt unat_succ [of y t] by linarith
  then show "Wsct l \<noteq> (if off = 0 then x else x + 1) + of_nat t" by (auto simp: y_def)
qed

lemma behind_mono: "behind i l p \<Longrightarrow> p \<le> q \<Longrightarrow> behind i l q"
  by (auto simp: behind_def)

lemma behind_put: "Wfp l' = None \<or> Wfp l' = Some i \<and> Wsct l' = x \<Longrightarrow> 128 * unat x < p \<Longrightarrow> behind i l' p"
  by (auto simp: behind_def)

lemma write_head:
  assumes B: "bdos_files B recs" and v: "file_at recs i l m x off"
    and len: "place x off + len < 8388480"
    and h: "h = head_len off len" "length dat = h" and ns: "no_stale i l x off len"
  shows "\<exists>l1 m1 x1 o1. (if unat off = 0 then (True, l) else putsect B i dat l) = (True, l1) \<and>
           file_at recs i l1 m1 x1 o1 \<and> wrote m (place x off) dat m1 \<and> place x1 o1 = place x off + h \<and>
           (h < len \<longrightarrow> o1 = 0) \<and>
           (Wfp l1 = Some i \<longrightarrow> (\<forall>t < (len - h) div 128. Wsct l1 \<noteq> x1 + of_nat t)) \<and>
           (behind i l (place x off) \<longrightarrow> behind i l1 (place x1 o1))"
proof (cases "off = 0")
  case True
  then show ?thesis using v h ns wrote_Nil
    by (intro exI [of _ l] exI [of _ m] exI [of _ x] exI [of _ 0]) (auto simp: head_len_def no_stale_def)
next
  case False
  have o1: "off < 128" using v by (simp add: file_at_def)
  have o2: "unat off < 128" "unat off \<noteq> 0" using o1 False by (simp_all add: word_less_nat_alt unat_eq_0)
  have n: "unat off + length dat \<le> 128" "off = 0 \<longrightarrow> dat \<noteq> []"
    using h o2 False by (auto simp: head_len_def)
  have x: "unat x < 65535" using len by (simp add: place_def)
  obtain l1 m1 where p: "putsect B i dat l = (True, l1)"
    "file_at recs i l1 m1 (fst (moved x off h)) (snd (moved x off h))"
    "wrote m (place x off) dat m1" "Wfp l1 = None \<or> Wfp l1 = Some i \<and> Wsct l1 = x"
    using putsect_wrote [OF B v x n] h(2) by auto
  have pl: "place (fst (moved x off h)) (snd (moved x off h)) = place x off + h"
    using place_moved [OF o1 _ x] n(1) h(2) by simp
  have full: "moved x off h = (x + 1, 0)" if "h < len"
    using that h(1) False o2 by (auto simp: head_len_def moved_def min_def split: if_splits)
  have "Wsct l1 \<noteq> fst (moved x off h) + of_nat t" if w: "Wfp l1 = Some i" "t < (len - h) div 128" for t
  proof -
    have "h < len" using w(2) by (cases "h < len") auto
    moreover have b: "unat x + (1 + t) < 65536"
      using w(2) len div_times_less_eq_dividend [of "len - h" 128] by (simp add: place_def)
    then have "x + of_nat (1 + t) \<noteq> x" using unat_succ [of x "1 + t"] by (metis add_eq_self_zero nat.simps(3) plus_1_eq_Suc)
    ultimately show ?thesis using full p(4) w(1) by (simp add: add.assoc)
  qed
  moreover have "behind i l1 (place x off + h)"
    by (rule behind_put [OF p(4)]) (use o2 in \<open>simp add: place_def\<close>)
  ultimately show ?thesis using p pl o2 full by (intro exI [of _ l1] exI [of _ m1] exI [of _ "fst (moved x off h)"]
      exI [of _ "snd (moved x off h)"]) auto
qed

lemma put_recs_take: "put_recs k x (take (k * 128) dat) m = put_recs k x dat m"
proof (induction k arbitrary: x dat m)
  case (Suc k)
  have "drop 128 (take (Suc k * 128) dat) = take (k * 128) (drop 128 dat)"
    "take 128 (take (Suc k * 128) dat) = take 128 dat"
    by (simp_all add: drop_take)
  then show ?case by (simp only: put_recs.simps Suc.IH)
qed simp

lemma next_record_wrk: "Wfp (next_record i l) = Wfp l" "Wsct (next_record i l) = Wsct l"
  by (simp_all add: next_record_def Let_def file_simps)

lemma blkwr_wrk: "Wfp (snd (blkwr B i k dat l)) = Wfp l \<and> Wsct (snd (blkwr B i k dat l)) = Wsct l"
  by (induction k arbitrary: l dat) (simp_all add: Let_def file_simps next_record_wrk split: prod.split)

text \<open>The whole records of a write.\<close>

lemma write_blocks:
  assumes B: "bdos_files B recs" and v: "file_at recs i l m x 0"
    and k: "k * 128 \<le> length dat" "unat x + k < 65536"
    and ns: "Wfp l = Some i \<longrightarrow> (\<forall>t < k. Wsct l \<noteq> x + of_nat t)"
  shows "\<exists>l' m'. blkwr B i k dat l = (0, l') \<and> file_at recs i l' m' (x + of_nat k) 0 \<and>
           wrote m (place x 0) (take (k * 128) dat) m' \<and> place (x + of_nat k) 0 = place x 0 + k * 128 \<and>
           Wfp l' = Wfp l \<and> Wsct l' = Wsct l"
proof -
  obtain l' where l': "blkwr B i k dat l = (0, l')" "file_at recs i l' (put_recs k x dat m) (x + of_nat k) 0"
    using blkwr_at [OF B v k(1) ns] by blast
  have "wrote m (128 * unat x) (take (k * 128) dat) (put_recs k x (take (k * 128) dat) m)"
    by (rule wrote_put_recs) (use k in auto)
  then have "wrote m (place x 0) (take (k * 128) dat) (put_recs k x dat m)"
    by (simp add: place_def put_recs_take)
  moreover have "place (x + of_nat k) 0 = place x 0 + k * 128" using k(2) by (simp add: place_def unat_succ)
  ultimately show ?thesis using l' blkwr_wrk [of B i k dat l] by auto
qed

text \<open>What \<open>filewr\<close> does behind the first record; \<open>R\<close> and \<open>F\<close> are its answers to a failure.\<close>

lemma write_tail:
  assumes B: "bdos_files B recs" and v: "file_at recs i l m x 0"
    and len: "place x 0 + length dat < 8388480" and k: "k = length dat div 128"
    and ns: "Wfp l = Some i \<longrightarrow> (\<forall>t < k. Wsct l \<noteq> x + of_nat t)"
  shows "\<exists>l' m' x' off'.
           (case blkwr B i k dat l of (j, l2) \<Rightarrow>
              if j \<noteq> 0 then R j l2
              else if k * 128 < length dat
              then (case putsect B i (drop (k * 128) dat) l2 of (False, l3) \<Rightarrow> F l3 | (True, l3) \<Rightarrow> T l3)
              else T l2) = T l' \<and>
           file_at recs i l' m' x' off' \<and> wrote m (place x 0) dat m' \<and> place x' off' = place x 0 + length dat \<and>
           (behind i l (place x 0) \<longrightarrow> behind i l' (place x' off'))"
proof -
  have kb: "k * 128 \<le> length dat" "length dat < k * 128 + 128" using k by auto
  have x: "unat x + k < 65535" using len kb by (simp add: place_def)
  obtain l2 m2 where s2: "blkwr B i k dat l = (0, l2)" "file_at recs i l2 m2 (x + of_nat k) 0"
    "wrote m (place x 0) (take (k * 128) dat) m2" "place (x + of_nat k) 0 = place x 0 + k * 128"
    "Wfp l2 = Wfp l" "Wsct l2 = Wsct l"
    using write_blocks [OF B v kb(1) _ ns] x by auto
  show ?thesis
  proof (cases "k * 128 < length dat")
    case False
    moreover have "behind i l (place x 0) \<longrightarrow> behind i l2 (place x 0 + k * 128)"
      using s2(5,6) by (auto simp: behind_def)
    ultimately show ?thesis using s2(1-4) kb(1)
      by (intro exI [of _ l2] exI [of _ m2] exI [of _ "x + of_nat k"] exI [of _ 0]) auto
  next
    case True
    let ?r = "drop (k * 128) dat" and ?p = "moved (x + of_nat k) 0 (length dat - k * 128)"
    have x2: "unat (x + of_nat k) < 65535" using unat_succ [of x k] x by simp
    have kl: "length dat - k * 128 \<le> 128" using kb(2) by linarith
    obtain l3 m3 where s3: "putsect B i ?r l2 = (True, l3)" "file_at recs i l3 m3 (fst ?p) (snd ?p)"
      "wrote m2 (place (x + of_nat k) 0) ?r m3" "Wfp l3 = None \<or> Wfp l3 = Some i \<and> Wsct l3 = x + of_nat k"
      using putsect_wrote [OF B s2(2) x2, of ?r] kl True by auto
    have bh: "behind i l3 (place x 0 + length dat)"
      by (rule behind_put [OF s3(4)]) (use s2(4) True in \<open>simp add: place_def\<close>)
    have "wrote m (place x 0) (take (k * 128) dat @ ?r) m3"
      by (rule wrote_trans [OF s2(3)]) (use s3(3) s2(4) kb len True in auto)
    moreover have "place (fst ?p) (snd ?p) = place x 0 + length dat"
      using place_moved [of 0 "length ?r" "x + of_nat k"] x2 s2(4) kb True by simp
    ultimately show ?thesis using s2(1) s3(1,2) True bh
      by (intro exI [of _ l3] exI [of _ m3] exI [of _ "fst ?p"] exI [of _ "snd ?p"]) auto
  qed
qed

lemma filewr_wrote:
  assumes B: "bdos_files B recs" and v0: "file_at recs i l0 m x off"
    and len: "place x off + length buf < 8388480" and ns: "no_stale i l0 x off (length buf)"
  shows "\<exists>l' m' x' off'. filewr B i buf l0 = (int (length buf), l') \<and> file_at recs i l' m' x' off' \<and>
           wrote m (place x off) buf m' \<and> place x' off' = place x off + length buf \<and>
           (behind i l0 (place x off) \<longrightarrow> behind i l' (place x' off'))"
proof -
  define l where "l = setusr B (user (ent i l0)) l0"
  have v: "file_at recs i l m x off" and ns': "no_stale i l x off (length buf)"
    using file_at_user [OF B v0] ns by (auto simp: l_def no_stale_def)
  have off: "offset (ent i l) = off" "off = 0 \<longleftrightarrow> unat off = 0" using v by (auto simp: file_at_def unat_eq_0)
  define h where "h = (if unat off = 0 then 0 else min (128 - unat off) (length buf))"
  have h: "h = head_len off (length buf)" "h \<le> length buf" by (auto simp: h_def head_len_def off(2))
  obtain l1 m1 x1 o1 where s1:
    "(if unat off = 0 then (True, l) else putsect B i (take h buf) l) = (True, l1)"
    "file_at recs i l1 m1 x1 o1" "wrote m (place x off) (take h buf) m1" "place x1 o1 = place x off + h"
    "h < length buf \<longrightarrow> o1 = 0"
    "Wfp l1 = Some i \<longrightarrow> (\<forall>t < (length buf - h) div 128. Wsct l1 \<noteq> x1 + of_nat t)"
    "behind i l (place x off) \<longrightarrow> behind i l1 (place x1 o1)"
    using write_head [OF B v len h(1) _ ns', of "take h buf"] h(2) by auto
  have bh: "behind i l p \<longleftrightarrow> behind i l0 p" "behind i (rstusr B l2) p \<longleftrightarrow> behind i l2 p" for p l2
    using file_at_user(3,4) [OF B v0] by (simp_all add: behind_def l_def rstusr_def)
  define k where "k = length (drop h buf) div 128"
  define R where "R = (\<lambda>j l2. (if (k - j) * 128 + h = 0 then - 1 else int ((k - j) * 128 + h), rstusr B l2))"
  define F where "F = (\<lambda>l3. (int (h + k * 128), rstusr B l3))"
  define T where "T = (\<lambda>l3. (int (length buf), rstusr B l3))"
  have e: "(length buf - h) div 128 = k" "h + k * 128 < length buf \<longleftrightarrow> k * 128 < length (drop h buf)"
    "drop (h + k * 128) buf = drop (k * 128) (drop h buf)"
    using h(2) by (auto simp: k_def add.commute)
  have u: "filewr B i buf l0 =
      (case blkwr B i k (drop h buf) l1 of (j, l2) \<Rightarrow>
         if j \<noteq> 0 then R j l2
         else if k * 128 < length (drop h buf)
         then (case putsect B i (drop (k * 128) (drop h buf)) l2 of
                 (False, l3) \<Rightarrow> F l3 | (True, l3) \<Rightarrow> T l3)
         else T l2)"
    unfolding filewr_def Let_def l_def [symmetric] off(1) h_def [symmetric] s1(1) e R_def T_def F_def
    by (simp only: prod.case bool.case)
  show ?thesis
  proof (cases "h = length buf")
    case True
    then have "filewr B i buf l0 = T l1" unfolding u by (simp add: k_def)
    then show ?thesis using file_at_user(2) [OF B s1(2)] s1(3,4,7) True
      by (intro exI [of _ "rstusr B l1"] exI [of _ m1] exI [of _ x1] exI [of _ o1]) (auto simp: T_def bh)
  next
    case False
    then have o1: "o1 = 0" using s1(5) h(2) by simp
    have len': "place x1 0 + length (drop h buf) < 8388480" using s1(4) o1 len h(2) by simp
    obtain l' m' x' off' where t: "filewr B i buf l0 = T l'" "file_at recs i l' m' x' off'"
      "wrote m1 (place x1 0) (drop h buf) m'" "place x' off' = place x1 0 + length (drop h buf)"
      "behind i l1 (place x1 0) \<longrightarrow> behind i l' (place x' off')"
      using write_tail [OF B s1(2) [unfolded o1] len' k_def s1(6) [unfolded e(1)], of R T F]
      unfolding u by blast
    have "wrote m (place x off) (take h buf @ drop h buf) m'"
      by (rule wrote_trans [OF s1(3)]) (use t(3) s1(4) h(2) len o1 in auto)
    then show ?thesis using t file_at_user(2) [OF B t(2)] s1(4,7) h(2) o1
      by (intro exI [of _ "rstusr B l'"] exI [of _ m'] exI [of _ x'] exI [of _ off']) (auto simp: T_def bh)
  qed
qed

text \<open>Reading: the bytes from a place on, where they exist.\<close>

definition bytes_at :: "(u16 \<Rightarrow> bytes option) \<Rightarrow> nat \<Rightarrow> nat \<Rightarrow> bytes" where
  "bytes_at m p n = map (\<lambda>k. the (byte_at m (p + k))) [0..<n]"

definition present :: "(u16 \<Rightarrow> bytes option) \<Rightarrow> nat \<Rightarrow> nat \<Rightarrow> bool" where
  "present m p n \<longleftrightarrow> (\<forall>k \<in> set [0..<n]. byte_at m (p + k) \<noteq> None)"

lemma bytes_at_add: "bytes_at m p (a + b) = bytes_at m p a @ bytes_at m (p + a) b"
  by (rule nth_equalityI) (auto simp: bytes_at_def nth_append add.assoc)

lemma bytes_at_0 [simp]: "bytes_at m p 0 = []"
  by (simp add: bytes_at_def)

lemma length_bytes_at [simp]: "length (bytes_at m p n) = n"
  by (simp add: bytes_at_def)

lemma present_split: "a \<le> n \<Longrightarrow> present m p n \<longleftrightarrow> present m p a \<and> present m (p + a) (n - a)"
proof (safe; unfold present_def; (intro ballI)?)
  assume a: "a \<le> n" "\<forall>k\<in>set [0..<n]. byte_at m (p + k) \<noteq> None"
  fix k
  show "k \<in> set [0..<a] \<Longrightarrow> byte_at m (p + k) \<noteq> None" using a by simp
  show "k \<in> set [0..<n - a] \<Longrightarrow> byte_at m (p + a + k) \<noteq> None"
    using a(2) [rule_format, of "a + k"] by (simp add: add.assoc)
next
  assume a: "a \<le> n" "\<forall>k\<in>set [0..<a]. byte_at m (p + k) \<noteq> None"
    "\<forall>k\<in>set [0..<n - a]. byte_at m (p + a + k) \<noteq> None"
  fix k assume "k \<in> set [0..<n]"
  then show "byte_at m (p + k) \<noteq> None"
    using a(2) a(3) [rule_format, of "k - a"] by (cases "k < a") auto
qed

lemma byte_at_rec:
  assumes "k < 128"
  shows "byte_at m (128 * unat x + k) = map_option (\<lambda>d. d ! k) (m x)"
  using assms by (simp add: byte_at_def)

lemma bytes_at_rec:
  assumes "m x = Some d" "length d = 128" "o' + n \<le> 128"
  shows "bytes_at m (128 * unat x + o') n = take n (drop o' d)"
proof (rule nth_equalityI)
  fix k assume "k < length (bytes_at m (128 * unat x + o') n)"
  then have "k < n" by simp
  then show "bytes_at m (128 * unat x + o') n ! k = take n (drop o' d) ! k"
    using assms byte_at_rec [of "o' + k" m x] by (simp add: bytes_at_def add.assoc)
qed (use assms in simp)

lemma present_rec: "present m (128 * unat x + o') n \<Longrightarrow> 0 < n \<Longrightarrow> o' < 128 \<Longrightarrow> \<exists>d. m x = Some d"
  using byte_at_rec [of o' m x] by (cases "m x") (auto simp: present_def dest: bspec [of _ _ 0])

lemma getsect_bytes:
  assumes B: "bdos_files B recs" and v: "file_at recs i l m x off" and x: "unat x < 65535"
    and n: "unat off + n \<le> 128" "0 < n" and pr: "present m (place x off) n"
  shows "\<exists>l'. getsect B i n l = (Some (bytes_at m (place x off) n), l') \<and>
           file_at recs i l' m (fst (moved x off n)) (snd (moved x off n)) \<and>
           place (fst (moved x off n)) (snd (moved x off n)) = place x off + n"
proof -
  have off: "off < 128" "unat off < 128" using v by (simp_all add: file_at_def word_less_nat_alt)
  obtain d where d: "m x = Some d" using present_rec pr n(2) off(2) unfolding place_def by blast
  have "length d = 128" using d v bdos_filesD(2) [OF B] by (auto simp: file_at_def)
  then have "bytes_at m (place x off) n = take n (drop (unat off) d)"
    unfolding place_def using d n(1) by (intro bytes_at_rec) auto
  then show ?thesis using getsect_at [OF B v d n(1)] n(2) place_moved [OF off(1) n(1) x] by auto
qed

lemma bytes_at_recs:
  assumes "\<forall>t < k. m (x + of_nat t) = Some (ds t) \<and> length (ds t) = 128" "unat x + k < 65536"
  shows "bytes_at m (128 * unat x) (k * 128) = concat (map ds [0..<k])"
  using assms
proof (induction k)
  case (Suc k)
  have "bytes_at m (128 * unat (x + of_nat k) + 0) 128 = ds k"
    using Suc.prems bytes_at_rec [of m "x + of_nat k" "ds k" 0 128] by simp
  then have "bytes_at m (128 * unat x + k * 128) 128 = ds k"
    using Suc.prems(2) by (simp add: unat_succ algebra_simps)
  moreover have "bytes_at m (128 * unat x) (k * 128) = concat (map ds [0..<k])"
    using Suc by simp
  ultimately show ?case using bytes_at_add [of m "128 * unat x" "k * 128" 128] by (simp add: add.commute)
qed simp

lemma blkrd_bytes:
  assumes B: "bdos_files B recs" and v: "file_at recs i l m x 0" and k: "unat x + k < 65536"
    and pr: "present m (place x 0) (k * 128)"
  shows "\<exists>l'. blkrd B i k l = (0, bytes_at m (place x 0) (k * 128), l') \<and>
           file_at recs i l' m (x + of_nat k) 0 \<and> place (x + of_nat k) 0 = place x 0 + k * 128"
proof -
  have "\<exists>d. m (x + of_nat t) = Some d" if "t < k" for t
  proof -
    have "byte_at m (128 * unat x + t * 128) \<noteq> None" using pr that by (auto simp: present_def place_def)
    moreover have "128 * unat x + t * 128 = 128 * unat (x + of_nat t) + 0" using that k by (simp add: unat_succ)
    ultimately show ?thesis using byte_at_rec [of 0 m "x + of_nat t"] by auto
  qed
  then obtain ds where ds: "\<forall>t < k. m (x + of_nat t) = Some (ds t)" by metis
  moreover have "length (ds t) = 128" if "t < k" for t
    using ds that v bdos_filesD(2) [OF B] by (auto simp: file_at_def)
  ultimately have "bytes_at m (place x 0) (k * 128) = concat (map ds [0..<k])"
    using bytes_at_recs [of k m x ds] k by (simp add: place_def)
  then show ?thesis using blkrd_at [OF B v ds] k by (simp add: place_def unat_succ)
qed

lemma read_tail:
  assumes B: "bdos_files B recs" and v: "file_at recs i l m x 0"
    and len: "place x 0 + n < 8388480" and k: "k = n div 128" and pr: "present m (place x 0) n"
  shows "\<exists>l' x' off'.
           (case blkrd B i k l of (j, d2, l2) \<Rightarrow>
              if j \<noteq> 0 then R j d2 l2
              else if k * 128 < n
              then (case getsect B i (n - k * 128) l2 of
                      (None, l3) \<Rightarrow> F d2 l3 | (Some d3, l3) \<Rightarrow> T (d2 @ d3) l3)
              else T d2 l2) = T (bytes_at m (place x 0) n) l' \<and>
           file_at recs i l' m x' off' \<and> place x' off' = place x 0 + n"
proof -
  have kn: "n < k * 128 + 128" using k by auto
  then have kb: "k * 128 \<le> n" "n - k * 128 \<le> 128" using k by (simp, linarith)
  have x: "unat x + k < 65535" using len kb by (simp add: place_def)
  have pr2: "present m (place x 0) (k * 128)" "present m (place x 0 + k * 128) (n - k * 128)"
    using present_split [OF kb(1)] pr by auto
  obtain l2 where s2: "blkrd B i k l = (0, bytes_at m (place x 0) (k * 128), l2)"
    "file_at recs i l2 m (x + of_nat k) 0" "place (x + of_nat k) 0 = place x 0 + k * 128"
    using blkrd_bytes [OF B v _ pr2(1)] x by auto
  show ?thesis
  proof (cases "k * 128 < n")
    case False
    then show ?thesis using s2 kb(1) by auto
  next
    case True
    have x2: "unat (x + of_nat k) < 65535" using unat_succ [of x k] x by simp
    obtain l3 x' off' where s3: "getsect B i (n - k * 128) l2 =
        (Some (bytes_at m (place (x + of_nat k) 0) (n - k * 128)), l3)"
      "file_at recs i l3 m x' off'" "place x' off' = place (x + of_nat k) 0 + (n - k * 128)"
      using getsect_bytes [OF B s2(2) x2, of "n - k * 128"] pr2(2) True kb s2(3) by auto
    have "bytes_at m (place x 0) n =
        bytes_at m (place x 0) (k * 128) @ bytes_at m (place (x + of_nat k) 0) (n - k * 128)"
      using bytes_at_add [of m "place x 0" "k * 128" "n - k * 128"] kb(1) s2(3) by simp
    then show ?thesis using s2(1,3) s3 True by (auto intro!: exI [of _ l3])
  qed
qed

lemma read_head:
  assumes B: "bdos_files B recs" and v: "file_at recs i l m x off"
    and len: "place x off + len < 8388480" "0 < len"
    and h: "h = (if unat off = 0 then 0 else min (128 - unat off) len)" and pr: "present m (place x off) len"
  shows "\<exists>l1 x1 o1. (if unat off = 0 then (Some [], l) else getsect B i h l) =
             (Some (bytes_at m (place x off) h), l1) \<and>
           file_at recs i l1 m x1 o1 \<and> place x1 o1 = place x off + h \<and> (h < len \<longrightarrow> o1 = 0)"
proof (cases "unat off = 0")
  case True
  then show ?thesis using v h by (auto simp: unat_eq_0 intro!: exI [of _ l] exI [of _ x] exI [of _ off])
next
  case False
  have off: "unat off < 128" using v by (simp add: file_at_def word_less_nat_alt)
  have hb: "unat off + h \<le> 128" "0 < h" "h \<le> len" using h False off len(2) by auto
  have x: "unat x < 65535" using len by (simp add: place_def)
  have "h < len \<longrightarrow> snd (moved x off h) = 0" using h False off by (auto simp: moved_def)
  then show ?thesis
    using getsect_bytes [OF B v x hb(1,2)] present_split [OF hb(3)] pr False by auto
qed

text \<open>A read of bytes that are all there: as many as asked for, the file as it was.\<close>

lemma filerd_bytes:
  assumes B: "bdos_files B recs" and v0: "file_at recs i l0 m x off"
    and len: "place x off + len < 8388480" "0 < len" and pr: "present m (place x off) len"
  shows "\<exists>l' x' off'. filerd B i len l0 = (len, bytes_at m (place x off) len, l') \<and>
           file_at recs i l' m x' off' \<and> place x' off' = place x off + len"
proof -
  define l where "l = setusr B (user (ent i l0)) l0"
  have v: "file_at recs i l m x off" using file_at_user [OF B v0] by (simp add: l_def)
  have off: "offset (ent i l) = off" using v by (simp add: file_at_def)
  define h where "h = (if unat off = 0 then 0 else min (128 - unat off) len)"
  have h: "h \<le> len" by (simp add: h_def)
  obtain l1 x1 o1 where s1: "(if unat off = 0 then (Some [], l) else getsect B i h l) =
      (Some (bytes_at m (place x off) h), l1)"
    "file_at recs i l1 m x1 o1" "place x1 o1 = place x off + h" "h < len \<longrightarrow> o1 = 0"
    using read_head [OF B v len h_def pr] by blast
  define n where "n = len - h"
  define k where "k = n div 128"
  define d1 where "d1 = bytes_at m (place x off) h"
  define R where "R = (\<lambda>j d2 l2. ((k - j) * 128 + h, d1 @ d2, rstusr B l2))"
  define F where "F = (\<lambda>d2 l3. (h + k * 128, d1 @ d2, rstusr B l3))"
  define T where "T = (\<lambda>d l3. (len, d1 @ d, rstusr B l3))"
  have e: "(len - h) div 128 = k" "h + k * 128 < len \<longleftrightarrow> k * 128 < n" "len - (h + k * 128) = n - k * 128"
    using h by (auto simp: k_def n_def)
  have u: "filerd B i len l0 =
      (case blkrd B i k l1 of (j, d2, l2) \<Rightarrow>
         if j \<noteq> 0 then R j d2 l2
         else if k * 128 < n
         then (case getsect B i (n - k * 128) l2 of
                 (None, l3) \<Rightarrow> F d2 l3 | (Some d3, l3) \<Rightarrow> T (d2 @ d3) l3)
         else T d2 l2)"
    unfolding filerd_def Let_def l_def [symmetric] off h_def [symmetric] s1(1) e R_def T_def F_def d1_def [symmetric]
    by (simp only: prod.case option.case)
  have all: "d1 @ bytes_at m (place x off + h) n = bytes_at m (place x off) len"
    using bytes_at_add [of m "place x off" h n] h by (simp add: d1_def n_def)
  show ?thesis
  proof (cases "h = len")
    case True
    then have "filerd B i len l0 = T [] l1" unfolding u by (simp add: k_def n_def)
    then show ?thesis using file_at_user(2) [OF B s1(2)] s1(3) True by (auto simp: T_def d1_def)
  next
    case False
    then have o1: "o1 = 0" using s1(4) h by simp
    have len': "place x1 0 + n < 8388480" using s1(3) o1 len h by (simp add: n_def)
    have pr': "present m (place x1 0) n" using present_split [OF h] pr s1(3) o1 by (simp add: n_def)
    obtain l' x' off' where t: "filerd B i len l0 = T (bytes_at m (place x1 0) n) l'"
      "file_at recs i l' m x' off'" "place x' off' = place x1 0 + n"
      using read_tail [OF B s1(2) [unfolded o1] len' k_def pr', of R F T] unfolding u by blast
    then show ?thesis using file_at_user(2) [OF B t(2)] all s1(3) o1 h by (auto simp: T_def n_def)
  qed
qed

section \<open>Descriptors\<close>

lemma bdos_overfl: "bdos_files B recs \<Longrightarrow> recs (f\<lparr>f_overfl := 0\<rparr>) b = recs f b"
  by (simp add: bdos_files_def)

text \<open>No operation on a file changes the channels.\<close>

lemma chantab_simple [file_simps]:
  "chantab (set_ent i e l) = chantab l" "chantab (set_fcb i f l) = chantab l"
  "chantab (advance i n l) = chantab l" "chantab (next_record i l) = chantab l"
  "chantab (setusr B u l) = chantab l" "chantab (rstusr B l) = chantab l"
  by (auto simp: set_ent_def set_fcb_def advance_def next_record_def setusr_def rstusr_def Let_def
      split: prod.splits)

lemma chantab_find_sect: "chantab (snd (find_sect B i l)) = chantab l"
  by (simp add: find_sect_def Let_def file_simps split: prod.splits)

lemma chantab_sect:
  "chantab (snd (getsect B i n l)) = chantab l" "chantab (snd (putsect B i dat l)) = chantab l"
  using chantab_find_sect [of B i l]
  by (auto simp: getsect_def putsect_def Let_def file_simps split: prod.splits)

lemma chantab_blkwr: "chantab (snd (blkwr B i k dat l)) = chantab l"
  by (induction k arbitrary: l dat) (simp_all add: Let_def file_simps split: prod.split)

lemma chantab_filewr: "chantab (snd (filewr B i buf l)) = chantab l"
proof -
  define l1 where "l1 = setusr B (user (ent i l)) l"
  define h where "h = (if unat (offset (ent i l1)) = 0 then 0
    else min (128 - unat (offset (ent i l1))) (length buf))"
  define p where "p = (if unat (offset (ent i l1)) = 0 then (True, l1) else putsect B i (take h buf) l1)"
  define k where "k = (length buf - h) div 128"
  define q where "q = blkwr B i k (drop h buf) (snd p)"
  have c: "chantab (snd p) = chantab l" "chantab (snd q) = chantab l"
    by (simp_all add: p_def q_def l1_def chantab_sect chantab_blkwr file_simps)
  have "filewr B i buf l = (if \<not> fst p then (- 1, rstusr B (snd p))
      else if fst q \<noteq> 0
      then (if (k - fst q) * 128 + h = 0 then - 1 else int ((k - fst q) * 128 + h), rstusr B (snd q))
      else if h + k * 128 < length buf
      then (case putsect B i (drop (h + k * 128) buf) (snd q) of
              (False, l3) \<Rightarrow> (int (h + k * 128), rstusr B l3)
            | (True, l3) \<Rightarrow> (int (length buf), rstusr B l3))
      else (int (length buf), rstusr B (snd q)))"
    unfolding filewr_def Let_def l1_def [symmetric] h_def [symmetric] p_def [symmetric] k_def [symmetric]
    by (cases p; cases "fst p") (auto simp: q_def split_beta)
  moreover have "chantab (snd (putsect B i (drop (h + k * 128) buf) (snd q))) = chantab l"
    by (simp add: chantab_sect c)
  ultimately show ?thesis using c by (auto simp: file_simps split: prod.split bool.split)
qed

text \<open>Seeking inside the numbers a control block can hold.\<close>

lemma seek_words:
  assumes "p < 8388608"
  shows "sint (of_nat p :: u32) = int p"
    and "unat (ucast ((of_nat p :: u32) AND 127) :: u8) = p mod 128"
    and "unat (ucast (drop_bit 7 (of_nat p :: u32)) :: u16) = p div 128"
proof -
  have u: "unat (of_nat p :: u32) = p" using assms by (simp add: unat_of_nat take_bit_eq_mod)
  show "sint (of_nat p :: u32) = int p"
    using assms by (simp add: signed_of_nat signed_take_bit_int_eq_self)
  show "unat (ucast ((of_nat p :: u32) AND 127) :: u8) = p mod 128"
    using u and_mask_nat [of "p mod 256" 7] mod_mod_cancel [of 128 256 p]
    by (simp add: unsigned_ucast_eq unsigned_and_eq mask_eq_exp_minus_1 take_bit_eq_mod)
  have "p div 128 < 65536" using assms by auto
  then show "unat (ucast (drop_bit 7 (of_nat p :: u32)) :: u16) = p div 128"
    using u by (simp add: unsigned_ucast_eq unsigned_drop_bit_eq take_bit_eq_mod drop_bit_eq_div unat_div)
qed

lemma seek_to_at:
  assumes B: "bdos_files B recs" and v: "file_at recs i l m x off" and p: "p < 8388608"
  shows "\<exists>l' x' off'. seek_to i (of_nat p) l = (int p, l') \<and> file_at recs i l' m x' off' \<and>
           place x' off' = p \<and> chantab l' = chantab l"
proof -
  note w = seek_words [OF p]
  have "(ucast ((of_nat p :: u32) AND 127) :: u8) < 128" using w(2) by (simp add: word_less_nat_alt)
  then show ?thesis using v w bdos_filesD(1) [OF B] bdos_overfl [OF B]
    by (auto simp: seek_to_def Let_def file_at_def file_simps place_def
        intro!: exI [of _ "ucast (drop_bit 7 (of_nat p :: u32))"] exI [of _ "ucast ((of_nat p :: u32) AND 127)"])
qed

text \<open>A descriptor open for reading and writing a file.\<close>

definition file_chan :: "nat \<Rightarrow> nat \<Rightarrow> 'b lib \<Rightarrow> bool" where
  "file_chan fd i l \<longleftrightarrow>
     fd < length (chantab l) \<and>
     (let ch = chantab l ! fd in c_read ch = 1 \<and> c_write ch = 1 \<and> c_seek ch \<noteq> 0 \<and> c_arg ch = Ent i)"

lemma file_chan_cong: "chantab l' = chantab l \<Longrightarrow> file_chan fd i l' \<longleftrightarrow> file_chan fd i l"
  by (simp add: file_chan_def)

lemma descriptor_calls:
  assumes "file_chan fd i l"
  shows "write_fd B (int fd) buf l = (case filewr B i buf l of (r, l') \<Rightarrow> Ok r l')"
    and "read_fd B (int fd) len l = (case filerd B i (unat len) l of (n, d, l') \<Rightarrow> Some (Ok (int n, d) l'))"
    and "lseek B (int fd) pos 0 l = (case seek_to i pos l of (r, l') \<Rightarrow> Ok r l')"
  using assms
  by (simp_all add: file_chan_def write_fd_def read_fd_def lseek_def chan_at_def seek_entry_def Let_def)

text \<open>Bytes written are the bytes read back.\<close>

lemma bytes_at_wrote:
  assumes "wrote m p dat m'"
  shows "bytes_at m' p (length dat) = dat" "present m' p (length dat)"
proof -
  show "bytes_at m' p (length dat) = dat"
    by (rule nth_equalityI) (use assms in \<open>auto simp: bytes_at_def wrote_def\<close>)
  show "present m' p (length dat)" using assms by (auto simp: present_def wrote_def)
qed

lemma write_seek_read:
  assumes B: "bdos_files B recs" and ch: "file_chan fd i l" and v: "file_at recs i l m x off"
    and len: "buf \<noteq> []" "length buf < 65536" "place x off + length buf < 8388480"
    and ns: "no_stale i l x off (length buf)"
  shows "\<exists>l1 l2 l3. write_fd B (int fd) buf l = Ok (int (length buf)) l1 \<and>
           lseek B (int fd) (of_nat (place x off)) 0 l1 = Ok (int (place x off)) l2 \<and>
           read_fd B (int fd) (of_nat (length buf)) l2 = Some (Ok (int (length buf), buf) l3)"
proof -
  obtain l1 m1 x1 o1 where w: "filewr B i buf l = (int (length buf), l1)" "file_at recs i l1 m1 x1 o1"
    "wrote m (place x off) buf m1"
    using filewr_wrote [OF B v len(3) ns] by metis
  have ch1: "file_chan fd i l1" using chantab_filewr [of B i buf l] w(1) ch file_chan_cong by (metis snd_conv)
  obtain l2 x2 o2 where s: "seek_to i (of_nat (place x off)) l1 = (int (place x off), l2)"
    "file_at recs i l2 m1 x2 o2" "place x2 o2 = place x off" "chantab l2 = chantab l1"
    using seek_to_at [OF B w(2), of "place x off"] len(3) by auto
  have ch2: "file_chan fd i l2" using ch1 s(4) file_chan_cong by blast
  have "\<exists>l3. filerd B i (length buf) l2 = (length buf, buf, l3)"
    using filerd_bytes [OF B s(2), of "length buf"] s(3) len bytes_at_wrote [OF w(3)] by auto
  moreover have "unat (of_nat (length buf) :: u16) = length buf" using len(2) by (simp add: unat_of_nat_u16)
  ultimately show ?thesis
    using w(1) s(1) by (auto simp: descriptor_calls [OF ch] descriptor_calls [OF ch1] descriptor_calls [OF ch2])
qed

text \<open>
  A record that stands in the work buffer and is then written as a whole block stays in the work
  buffer as it was: the next partial read of it gives the old bytes.
\<close>

lemma stale_read:
  assumes B: "bdos_files B recs" and ch: "file_chan fd i l" and v: "file_at recs i l m x 0"
    and w: "Wfp l = Some i" "Wsct l = x" and x: "unat x < 65535" and buf: "length buf = 128"
  shows "\<exists>l1 l2 l3. write_fd B (int fd) buf l = Ok 128 l1 \<and>
           lseek B (int fd) (of_nat (place x 0)) 0 l1 = Ok (int (place x 0)) l2 \<and>
           read_fd B (int fd) 1 l2 = Some (Ok (1, [Wrkbuf l ! 0]) l3)"
proof -
  have i: "i < length (fcbtab l)" "f_record (ent_fcb (ent i l)) = x" "offset (ent i l) = 0"
    using v by (simp_all add: file_at_def)
  obtain f b where wr: "bd_writrn B (ent_fcb (ent i (setusr B (user (ent i l)) l))) buf
      (sys (setusr B (user (ent i l)) l)) = (0, f, b)"
    using bdos_filesD(6) [OF B buf] by blast
  let ?l1 = "rstusr B (next_record i ((set_fcb i f (setusr B (user (ent i l)) l))\<lparr>sys := b\<rparr>))"
  have u: "fcbtab (setusr B u l) = fcbtab l" "Wfp (setusr B u l) = Wfp l" "Wsct (setusr B u l) = Wsct l"
    "Wrkbuf (setusr B u l) = Wrkbuf l" for u and l :: "'a lib"
    by (auto simp: setusr_def Let_def split: prod.splits)
  have r: "fcbtab (rstusr B l) = fcbtab l" "Wfp (rstusr B l) = Wfp l" "Wsct (rstusr B l) = Wsct l"
    "Wrkbuf (rstusr B l) = Wrkbuf l" for l :: "'a lib"
    by (auto simp: rstusr_def)
  have l1: "filewr B i buf l = (128, ?l1)"
    using wr i buf by (simp add: filewr_def Let_def ent_def u)
  have ch1: "file_chan fd i ?l1" using chantab_filewr [of B i buf l] l1 ch file_chan_cong by (metis snd_conv)
  obtain l2 where l2: "seek_to i (of_nat (place x 0)) ?l1 = (int (place x 0), l2)"
    using seek_words(1) [of "place x 0"] x by (auto simp: seek_to_def Let_def place_def)
  have p: "place x 0 < 8388608" "place x 0 mod 128 = 0" "place x 0 div 128 = unat x"
    using x by (simp_all add: place_def)
  have z: "ucast ((of_nat (place x 0) :: u32) AND 127) = (0 :: u8)"
    "ucast (drop_bit 7 (of_nat (place x 0) :: u32)) = x"
    using seek_words(2,3) [OF p(1)] p(2,3) by (metis unat_eq_zero, metis word_unat_eq_iff)
  have e2: "offset (ent i l2) = 0" "f_record (ent_fcb (ent i l2)) = x" "Wfp l2 = Some i" "Wsct l2 = x"
    "Wrkbuf l2 = Wrkbuf l" "chantab l2 = chantab ?l1"
    using l2 seek_words(1) [OF p(1)] i(1) w z
    by (auto simp: seek_to_def Let_def file_simps r u next_record_def)
  have ch2: "file_chan fd i l2" using ch1 e2(6) file_chan_cong by blast
  have "take 1 (Wrkbuf l) = [Wrkbuf l ! 0]" using v by (cases "Wrkbuf l") (auto simp: file_at_def)
  then have "\<exists>l3. filerd B i 1 l2 = (1, [Wrkbuf l ! 0], l3)"
    using e2 by (simp add: filerd_def getsect_def find_sect_def Let_def ent_def u)
  then show ?thesis
    using l1 l2 by (auto simp: descriptor_calls [OF ch] descriptor_calls [OF ch1] descriptor_calls [OF ch2])
qed

end
