(* ===== verification/Aztec_Descriptors.thy ===== *)
theory Aztec_Descriptors
  imports Aztec_File_Spec
begin

text \<open>
  The descriptor table of \<^verbatim>\<open>OPEN.C\<close> and \<^verbatim>\<open>CLOSE.C\<close>: which descriptors \<open>open\<close> hands out, what \<open>close\<close>
  gives back, the names that \<open>fcbinit\<close> builds, and a store that satisfies what the file functions
  expect of the BDOS.
\<close>

section \<open>Free slots\<close>

lemma first_index_SomeD:
  "first_index P xs = Some k \<Longrightarrow> k < length xs \<and> P (xs ! k) \<and> (\<forall>j < k. \<not> P (xs ! j))"
proof (induction xs arbitrary: k)
  case (Cons x xs)
  then show ?case by (auto split: if_splits simp: nth_Cons split: nat.split)
qed simp

lemma first_index_None: "first_index P xs = None \<longleftrightarrow> (\<forall>x \<in> set xs. \<not> P x)"
  by (induction xs) auto

text \<open>What an operation on the table leaves as it is: every channel but \<open>fd\<close>.\<close>

definition same_chans :: "nat \<Rightarrow> 'b lib \<Rightarrow> 'b lib \<Rightarrow> bool" where
  "same_chans fd l l' \<longleftrightarrow> length (chantab l') = length (chantab l) \<and>
     (\<forall>k < length (chantab l). k \<noteq> fd \<longrightarrow> chantab l' ! k = chantab l ! k)"

lemma same_chansI: "chantab l' = (chantab l)[fd := c] \<Longrightarrow> same_chans fd l l'"
  by (simp add: same_chans_def)

lemma chantab_call [file_simps]:
  "chantab (snd (call_fcb B fn i l)) = chantab l" "chantab (snd (getusr B l)) = chantab l"
  "chantab (snd (call_errno f l)) = chantab l"
  by (simp_all add: call_fcb_def getusr_def call_errno_def file_simps split: prod.split)

lemma chantab_Ceof [file_simps]: "chantab (snd (Ceof B i l)) = chantab l"
proof -
  obtain r l1 where c: "call_fcb B FILSIZ i l = (r, l1)" by (cases "call_fcb B FILSIZ i l")
  then have "chantab l1 = chantab l" using chantab_call(1) [of B FILSIZ i l] by simp
  moreover have "chantab (snd (find_sect B i l2)) = chantab l2" for l2 :: "'a lib" by (rule chantab_find_sect)
  ultimately show ?thesis
    by (simp add: Ceof_def c Let_def split_beta file_simps)
qed

lemma chantab_open_entry [file_simps]: "chantab (snd (open_entry B flag i l)) = chantab l"
proof -
  define l1 where "l1 = (if flag AND O_TRUNC \<noteq> 0 then snd (call_fcb B DELFIL i l) else l)"
  have "chantab l1 = chantab l" by (simp add: l1_def file_simps)
  then show ?thesis by (simp add: open_entry_def Let_def split_beta file_simps flip: l1_def)
qed

lemma chantab_zap [file_simps]: "chantab (zap l) = chantab l"
  by (simp add: zap_def)

lemma chantab_filecl [file_simps]: "chantab (snd (filecl B i l)) = chantab l"
  by (simp add: filecl_def Let_def file_simps)

text \<open>\<open>fileop\<close> marks the channel as that of a file, or leaves the table alone.\<close>

lemma fileop_chan:
  assumes "fileop B name flag fd l = (r, l')"
  shows "r = - 1 \<and> chantab l' = chantab l \<or>
    r = 0 \<and> (\<exists>i. chantab l' = (chantab l)[fd := (chantab l ! fd)\<lparr>c_arg := Ent i, c_close := Filecl\<rparr>])"
proof (cases "first_index (\<lambda>e. flags e = 0) (fcbtab l)")
  case None
  then show ?thesis using assms by (auto simp: fileop_def)
next
  case (Some i)
  obtain u f where f: "fcbinit (Some name) (ent_fcb (ent i l)) = (u, f)" by fastforce
  let ?l1 = "set_fcb i f l"
  obtain usr l2 where u2: "(if u = 255 then getusr B ?l1 else (of_int u, ?l1)) = (usr, l2)" by fastforce
  have c2: "chantab l2 = chantab l"
    using u2 chantab_call(2) [of B ?l1] chantab_simple(2) [of i f l] by (auto split: if_splits)
  obtain e l3 where e: "open_entry B flag i (setusr B usr l2) = (e, l3)" by fastforce
  have c3: "chantab l3 = chantab l" using chantab_open_entry [of B flag i "setusr B usr l2"] e c2
    by (simp add: file_simps)
  show ?thesis
    using assms Some f u2 e c2 c3
    by (cases e) (auto simp: fileop_def Let_def file_simps set_chan_def split: if_splits)
qed

text \<open>A channel that closes a file names an entry of the file table.\<close>

definition chan_ok :: "channel \<Rightarrow> bool" where
  "chan_ok c \<longleftrightarrow> (c_close c = Filecl \<longrightarrow> (case c_arg c of Ent i \<Rightarrow> True | Dev n \<Rightarrow> False))"

definition chans_ok :: "'b lib \<Rightarrow> bool" where
  "chans_ok l \<longleftrightarrow> length (chantab l) = MAXCHAN \<and> list_all chan_ok (chantab l)"

lemma chans_ok_update: "chans_ok l \<Longrightarrow> chantab l' = (chantab l)[fd := c] \<Longrightarrow> chan_ok c \<Longrightarrow> chans_ok l'"
  by (auto simp: chans_ok_def list_all_iff dest!: set_update_subset_insert [THEN subsetD])

lemma open_fd_chans:
  assumes "open_fd B name flag l = (r, l')" and ok: "chans_ok l"
  shows "chans_ok l' \<and> ((r = - 1 \<and> map c_close (chantab l') = map c_close (chantab l)) \<or>
    (\<exists>fd < MAXCHAN. r = int fd \<and> c_close (chantab l ! fd) = Bdf \<and> c_close (chantab l' ! fd) \<noteq> Bdf \<and>
       (\<forall>j < fd. c_close (chantab l ! j) \<noteq> Bdf) \<and> same_chans fd l l'))"
proof (cases "first_index (\<lambda>c. c_close c = Bdf) (take MAXCHAN (chantab l))")
  case None
  then show ?thesis using assms by (auto simp: open_fd_def chans_ok_def)
next
  case (Some fd)
  have len: "length (chantab l) = MAXCHAN" using ok by (simp add: chans_ok_def)
  have fd: "fd < MAXCHAN" "c_close (chantab l ! fd) = Bdf" "\<forall>j < fd. c_close (chantab l ! j) \<noteq> Bdf"
    using first_index_SomeD [OF Some] len by simp_all
  obtain dev arg where d: "find_device name = (dev, arg)" by fastforce
  define ch1 where "ch1 = (if (flag AND 3) + 1 AND 1 \<noteq> 0 then (chantab l ! fd)\<lparr>c_read := d_read dev\<rparr> else chantab l ! fd)"
  define ch2 where "ch2 = (if (flag AND 3) + 1 AND 2 \<noteq> 0 then ch1\<lparr>c_write := d_write dev\<rparr> else ch1)"
  define ch3 where "ch3 = ch2\<lparr>c_arg := Dev arg, c_ioctl := d_ioctl dev, c_seek := d_seek dev, c_close := Ret\<rparr>"
  define l1 where "l1 = set_chan fd ch3 l"
  have cl: "c_close ch1 = Bdf" "c_close ch2 = Bdf" "c_close ch3 = Ret"
    using fd(2) by (simp_all add: ch1_def ch2_def ch3_def)
  have keep: "map c_close ((chantab l)[fd := c]) = map c_close (chantab l)" if "c_close c = Bdf" for c
    using that fd(1,2) len by (metis list_update_id map_update)
  have c1: "chantab l1 = (chantab l)[fd := ch3]" by (simp add: l1_def set_chan_def)
  obtain r2 l2 where o: "(if d_file dev then fileop B name flag fd l1 else call_errno (fn_ret B) l1) = (r2, l2)"
    by fastforce
  have c2: "\<exists>c. chantab l2 = (chantab l)[fd := c] \<and> c_close c \<noteq> Bdf \<and> chan_ok c"
  proof (cases "d_file dev")
    case True
    then have "chantab l2 = chantab l1 \<or>
        (\<exists>i. chantab l2 = (chantab l1)[fd := (chantab l1 ! fd)\<lparr>c_arg := Ent i, c_close := Filecl\<rparr>])"
      using fileop_chan [of B name flag fd l1 r2 l2] o by auto
    then show ?thesis using c1 cl(3) by (auto simp: chan_ok_def)
  next
    case False
    then show ?thesis using o chantab_call(3) [of "fn_ret B" l1] c1 cl(3) by (auto simp: chan_ok_def)
  qed
  then obtain c where c: "chantab l2 = (chantab l)[fd := c]" "c_close c \<noteq> Bdf" "chan_ok c" by blast
  have "open_fd B name flag l =
      (if (flag AND 3) + 1 AND 1 \<noteq> 0 \<and> d_read dev = 0 then (- 1, (set_chan fd ch1 l)\<lparr>errno := ACCES\<rparr>)
       else if (flag AND 3) + 1 AND 2 \<noteq> 0 \<and> d_write dev = 0 then (- 1, (set_chan fd ch2 l)\<lparr>errno := ACCES\<rparr>)
       else (case (r2, l2) of (r, l2) \<Rightarrow>
               if r < 0 then (- 1, set_chan fd ((chantab l2 ! fd)\<lparr>c_close := Bdf\<rparr>) l2) else (int fd, l2)))"
    unfolding o [symmetric]
    by (simp only: open_fd_def Some d option.case prod.case Let_def ch1_def ch2_def ch3_def l1_def)
  then have "(r, l') = (- 1, (set_chan fd ch1 l)\<lparr>errno := ACCES\<rparr>) \<or> (r, l') = (- 1, (set_chan fd ch2 l)\<lparr>errno := ACCES\<rparr>) \<or>
      (r, l') = (- 1, set_chan fd ((chantab l2 ! fd)\<lparr>c_close := Bdf\<rparr>) l2) \<or> (r, l') = (int fd, l2)"
    unfolding assms(1) by (simp split: if_splits)
  moreover have bdf: "chan_ok x" if "c_close x = Bdf" for x using that by (simp add: chan_ok_def)
  moreover have "chans_ok (set_chan fd ch1 l\<lparr>errno := ACCES\<rparr>)" "chans_ok (set_chan fd ch2 l\<lparr>errno := ACCES\<rparr>)"
    "chans_ok l2" "chans_ok (set_chan fd ((chantab l2 ! fd)\<lparr>c_close := Bdf\<rparr>) l2)"
    using cl c bdf by (auto intro: chans_ok_update [OF ok] simp: set_chan_def)
  ultimately show ?thesis
    using c cl keep fd len by (auto simp: set_chan_def same_chans_def)
qed

lemma close_fd_chans:
  assumes ok: "chans_ok l" and fd: "fd < MAXCHAN"
  shows "\<exists>r l'. close_fd B (int fd) l = Ok r l' \<and> chans_ok l' \<and> c_close (chantab l' ! fd) = Bdf \<and>
           same_chans fd l l'"
proof -
  have len: "length (chantab l) = MAXCHAN" using ok by (simp add: chans_ok_def)
  have "chan_ok (chantab l ! fd)" using ok fd by (simp add: chans_ok_def list_all_length)
  then obtain r l1 where c: "call_closer B (chantab l ! fd) l = Ok r l1" "chantab l1 = chantab l"
    using chantab_call(3) [of "fn_bdf B" l] chantab_call(3) [of "fn_ret B" l] chantab_filecl [of B _ l]
    by (cases "c_close (chantab l ! fd)"; cases "c_arg (chantab l ! fd)")
      (auto simp: call_closer_def chan_ok_def split_beta)
  show ?thesis using c fd len ok
    by (auto simp: close_fd_def set_chan_def same_chans_def chan_ok_def intro!: chans_ok_update [OF ok])
qed

section \<open>Names\<close>

lemma name_field_length: "length (fst (name_field e cs)) \<le> e"
  by (induction e cs rule: name_field.induct) (auto simp: apfst_def map_prod_def split_beta)

lemma type_field_length: "length (type_field e cs) \<le> e"
  by (induction e cs rule: type_field.induct) auto

lemma length_pad_field: "length f \<le> n \<Longrightarrow> length (pad_field n f) = n"
  by (simp add: pad_field_def)

lemma drive_prefix_bound:
  assumes "drive_prefix s = Some (d, r)"
  shows "d \<le> 26"
proof (cases "d = 0")
  case False
  then obtain c where "d = (c AND 127) - 64 \<and> 65 \<le> c AND 127 \<and> c AND 127 \<le> 90 \<or>
      d = (c AND 127) - 96 \<and> 97 \<le> c AND 127 \<and> c AND 127 \<le> 122"
    using assms by (auto simp: drive_prefix_def Let_def split: list.splits if_splits)
  then show ?thesis by (auto simp: word_le_nat_alt unat_sub)
qed simp

lemma fcbinit_fields:
  assumes "fcbinit nm f = (u, g)"
  shows "length (f_name g) = 8 \<and> length (f_type g) = 3 \<and> f_driv g \<le> 26 \<and> - 1 \<le> u \<and> u \<le> 255"
proof -
  have "length (pad_field 3 []) = 3" "length (pad_field 3 (type_field 3 ts)) = 3" for ts
    by (simp_all add: length_pad_field type_field_length)
  moreover have "length (pad_field 8 (fst (name_field 8 x))) = 8" for x
    by (simp add: length_pad_field name_field_length)
  moreover have "uint w \<le> 255" for w :: u8 using uint_lt2p [of w] by simp
  moreover have "- 1 \<le> uint w" for w :: u8 using uint_ge_0 [of w] by linarith
  ultimately show ?thesis using assms drive_prefix_bound
    by (auto simp: fcbinit_def blank_fcb_def split_beta split: option.splits)
qed

text \<open>Characters that stand for themselves in a name.\<close>

definition name_char :: "u8 \<Rightarrow> bool" where
  "name_char c \<longleftrightarrow> c \<notin> {0, 9, 32, 42, 46, 47, 58}"

lemma name_field_plain:
  "list_all name_char n \<Longrightarrow> length n \<le> e \<Longrightarrow> name_field e (n @ 46 # cs) = (map fcb_upper n, Some cs)"
  by (induction n arbitrary: e) (auto simp: name_char_def)

lemma type_field_plain:
  "list_all name_char t \<Longrightarrow> length t \<le> e \<Longrightarrow> type_field e (t @ [0]) = map fcb_upper t"
  by (induction t arbitrary: e) (auto simp: name_char_def)

lemma user_digits_plain:
  assumes "list_all name_char n"
  shows "\<exists>d c cs. user_digits k (n @ 46 # r) = (d, c # cs) \<and> c \<noteq> 47"
  using assms
proof (induction n arbitrary: k)
  case (Cons c n)
  then show ?case by (auto simp: name_char_def)
qed (simp add: isdig_def)

lemma user_prefix_plain: "list_all name_char n \<Longrightarrow> user_prefix (n @ 46 # r) = (255, n @ 46 # r)"
  using user_digits_plain [of n 0 r] by (auto simp: user_prefix_def)

lemma drive_prefix_plain:
  assumes "list_all name_char n" "n \<noteq> []"
  shows "drive_prefix (n @ 46 # r) = Some (0, n @ 46 # r)"
  using assms by (cases n; cases "tl n") (auto simp: drive_prefix_def name_char_def)

lemma fcbinit_plain:
  assumes n: "list_all name_char n" "n \<noteq> []" "length n \<le> 8" and t: "list_all name_char t" "length t \<le> 3"
  shows "fcbinit (Some (n @ 46 # t @ [0])) f =
    (255, (blank_fcb f)\<lparr>f_name := pad_field 8 (map fcb_upper n), f_type := pad_field 3 (map fcb_upper t)\<rparr>)"
proof -
  have "skip_blanks (n @ 46 # t @ [0]) = n @ 46 # t @ [0]"
    using n(1,2) by (cases n) (auto simp: name_char_def)
  then show ?thesis
    using user_prefix_plain [OF n(1)] drive_prefix_plain [OF n(1,2)] name_field_plain [OF n(1,3)] type_field_plain [OF t]
    by (simp add: fcbinit_def blank_fcb_def)
qed

section \<open>A store\<close>

text \<open>Records by file name in memory: the BDOS as the file functions know it.\<close>

type_synonym rec_store = "bytes \<times> bytes \<Rightarrow> u16 \<Rightarrow> bytes option"

definition fcb_key :: "fcb \<Rightarrow> bytes \<times> bytes" where
  "fcb_key f = (f_name f, f_type f)"

definition store_bdos :: "rec_store bdos" where
  "store_bdos =
     \<lparr>bd_fcb = (\<lambda>fn f b. (0, f, b)),
      bd_readrn = (\<lambda>f b. case b (fcb_key f) (f_record f) of
          Some d \<Rightarrow> if length d = 128 then (0, d, f, b) else (1, [], f, b) | None \<Rightarrow> (1, [], f, b)),
      bd_writrn = (\<lambda>f d b. (0, f, b(fcb_key f := (b (fcb_key f))(f_record f \<mapsto> d)))),
      bd_user = (\<lambda>u b. (0, b)), bd_char = (\<lambda>fn c b. (0, b)), bd_line = (\<lambda>b. ([], b)),
      fn_bdf = (\<lambda>e. (- 1, - 3)), fn_ret = (\<lambda>e. (0, e))\<rparr>"

definition store_recs :: "fcb \<Rightarrow> rec_store \<Rightarrow> u16 \<Rightarrow> bytes option" where
  "store_recs f b x = (case b (fcb_key f) x of Some d \<Rightarrow> if length d = 128 then Some d else None | None \<Rightarrow> None)"

lemma store_files: "bdos_files store_bdos store_recs"
  unfolding bdos_files_def
proof (intro conjI allI impI)
  fix f f' :: fcb and b b' :: rec_store and x d r u
  show "store_recs (f\<lparr>f_record := x\<rparr>) b = store_recs f b" "store_recs (f\<lparr>f_overfl := 0\<rparr>) b = store_recs f b"
    by (simp_all add: store_recs_def fcb_key_def fun_eq_iff)
  show "store_recs f b x = Some d \<Longrightarrow> length d = 128"
    by (auto simp: store_recs_def split: option.splits if_splits)
  show "store_recs f (snd (bd_user store_bdos u b)) = store_recs f b" by (simp add: store_bdos_def)
  assume "bd_readrn store_bdos f b = (r, d, f', b')"
  then have "f' = f \<and> b' = b \<and> (case store_recs f b (f_record f) of
      Some d0 \<Rightarrow> r = 0 \<and> d = d0 | None \<Rightarrow> (r = 1 \<or> r = 4) \<and> d = [])"
    by (auto simp: store_bdos_def store_recs_def split: option.splits if_splits)
  then show "f_record f' = f_record f" "store_recs f' b' = store_recs f b"
    "case store_recs f b (f_record f) of Some d0 \<Rightarrow> r = 0 \<and> d = d0 | None \<Rightarrow> (r = 1 \<or> r = 4) \<and> d = []"
    by blast+
next
  fix f f' :: fcb and b b' :: rec_store and d r
  assume "length d = 128" "bd_writrn store_bdos f d b = (r, f', b')"
  then have e: "r = 0" "f' = f" "b' = b(fcb_key f := (b (fcb_key f))(f_record f \<mapsto> d))"
    by (auto simp: store_bdos_def)
  show "store_recs f' b' = (store_recs f b)(f_record f \<mapsto> d)"
    unfolding e using \<open>length d = 128\<close> by (intro ext) (simp add: store_recs_def)
  show "r = 0" "f_record f' = f_record f" using e by simp_all
qed

end
