(* ===== verification/Library_Properties.thy ===== *)
theory Library_Properties
  imports Aztec_Qsort Aztec_Scan_Float Aztec_Descriptors
begin

text \<open>
  The properties of the C library on the emulator's disks: sorting, number conversion, formatting and
  scanning, files and descriptors.
\<close>

section \<open>Sorting\<close>



text \<open>
  An empty array is not left alone: the pivot is compared outside of it.
\<close>

theorem qsort_empty: "qsort cmp sz [] = Some (Fail (Undefined OutOfBounds) [])"
  unfolding qsort_def
  by (simp add: qsort_loop.simps [of cmp sz "[]"] split_pass_def part_loop.simps [of cmp "[]"] scan_up.simps
      cmp_at_def elem_def)

section \<open>Numbers as text\<close>

text \<open>
  C22. Printing an \<open>int\<close> and reading it back is the identity: what \<open>sprintf\<close> writes for \<open>%d\<close> is read by
  \<open>sscanf\<close> with \<open>%d\<close> and by \<open>atoi\<close> as the same 16 bits, the smallest number included.
\<close>

theorem printed_int_read:
  "\<exists>t r. sprintf mem [37, 100, 0] [lo8 w, hi8 w] = Ok (of_nat (length t)) (t @ [0]) \<and>
     sscanf (t @ [0]) [37, 100, 0] [lo8 p, hi8 p] = Some (Ok (1, [(p, [lo8 w, hi8 w])]) r) \<and>
     atoi (t @ [0]) = Inr w"
proof -
  have ends: "ends_number [0]" using isdigit_byte_eq [of 0] by (simp add: ends_number_def)
  have "of_nat (nat (sint w)) = w" if "\<not> sint w < 0"
    using of_nat_nat [of "sint w", where 'a = "16 word"] that by (simp only: of_int_sint scast_id not_less)
  moreover have "- of_nat (nat (- sint w)) = w" if "sint w < 0"
    using of_nat_nat [of "- sint w", where 'a = "16 word"] that
    by (simp only: of_int_minus of_int_sint scast_id neg_0_le_iff_le order_less_imp_le minus_minus)
  ultimately have "atoi (int_bytes (sint w) @ [0]) = Inr w"
    using signed_number_numeral [OF ends, of 0 "nat (sint w)", where 'w = 16]
      signed_number_numeral [OF ends, of 0 "nat (- sint w)", where 'w = 16]
    by (auto simp: atoi_def int_bytes_def)
  then show ?thesis using sprintf_int [of mem w] sscanf_int [of 0 0 w "[]" p] by auto
qed

text \<open>
  C33. The number conversion behind every formatted output, a bitwise long division, prints the numeral
  of a number of any size in base 8, 10 or 16; with base -10 an \<open>int\<close> is printed as a signed number.
\<close>

theorem number_conversion:
  assumes "k = 8 \<or> k = 10 \<or> k = 16"
  shows "fmtcvt num k = Some (numeral_bytes (nat k) (le_val num)) \<and>
    fmtcvt [lo8 w, hi8 w] (- 10) = Some (int_bytes (sint w))"
  using fmtcvt_unsigned [OF assms] fmtcvt_int by blast

theorem number_conversion_witness:
  "fmtcvt [0x34, 0x12] 16 = Some (numeral_bytes 16 0x1234) \<and>
   fmtcvt [lo8 0xFFFF, hi8 0xFFFF] (- 10) = Some (int_bytes (- 1))"
  using number_conversion [where k = 16 and num = "[0x34, 0x12]" and w = "0xFFFF"] by simp

text \<open>
  The small formatter of the library for tiny programs and the full one are interchangeable on
  formats made of plain conversions: they make the same calls of the output function with the same
  characters in the same order, or fail alike.
\<close>

theorem tiny_format_agrees:
  assumes "plain_format mem fmt args" and "\<And>c s. fst (putsub c s) \<noteq> 0xFFFF"
  shows "tiny_format putsub mem fmt args s =
    (case format putsub mem fmt args s of Ok n s' \<Rightarrow> Ok () s' | Fail e s' \<Rightarrow> Fail e s')"
  unfolding format_def by (rule formatters_agree [OF assms(1)]) (use assms(2) in blast)

theorem tiny_format_agrees_witness:
  "tiny_format spsub (\<lambda>a. 0) [120, 61, 37, 120, 0] [0x34, 0x12] [] =
     (case format spsub (\<lambda>a. 0) [120, 61, 37, 120, 0] [0x34, 0x12] [] of
        Ok n s' \<Rightarrow> Ok () s' | Fail e s' \<Rightarrow> Fail e s')"
proof (rule tiny_format_agrees)
  show "plain_format (\<lambda>a. 0) [120, 61, 37, 120, 0] [0x34, 0x12]" by code_simp
  show "fst (spsub c s) \<noteq> 0xFFFF" for c s by (rule spsub_result)
qed

text \<open>
  \<open>sprintf\<close> returns the number of characters it has stored, the final zero not counted, for every
  format and argument list on which it is defined.
\<close>

theorem sprintf_count:
  assumes "sprintf mem fmt args = Ok n out"
  shows "\<exists>t. out = t @ [0] \<and> n = of_nat (length t)"
proof -
  obtain t where "format_loop spsub mem fmt args 0 [] = Ok n t" "out = t @ [0]"
    using assms by (cases "format spsub mem fmt args []") (auto simp: sprintf_def format_def)
  then show ?thesis using format_loop_spsub by fastforce
qed

theorem sprintf_count_witness:
  "\<exists>t. sprintf (\<lambda>a. 0) [37, 100, 0] [7, 0] = Ok (of_nat (length t)) (t @ [0])"
proof -
  have "sprintf (\<lambda>a. 0) [37, 100, 0] [7, 0] = Ok (of_nat (length (int_bytes 7))) (int_bytes 7 @ [0])"
    using sprintf_int [of "\<lambda>a. 0" 7] by (simp add: lo8_def hi8_def)
  with sprintf_count [OF this] show ?thesis by blast
qed

text \<open>
  The character classes, inside the table from \<open>EOF\<close> to 127; behind it the macros read outside the
  table. The underscore counts as an upper case letter.
\<close>

theorem character_classes:
  "(if - 1 \<le> x \<and> x \<le> 127
    then isdigit x = Some (48 \<le> x \<and> x \<le> 57) \<and> islower x = Some (97 \<le> x \<and> x \<le> 122) \<and>
         isupper x = Some (65 \<le> x \<and> x \<le> 90 \<or> x = 95) \<and> isspace x = Some (9 \<le> x \<and> x \<le> 13 \<or> x = 32)
    else isdigit x = None \<and> islower x = None \<and> isupper x = None \<and> isspace x = None)"
  using class_char [of x] ctp_at_outside [of x]
  by (auto simp: isdigit_def islower_def isupper_def isspace_def in_class_def)

section \<open>Files\<close>

text \<open>
  The examples use a library with one file open as descriptor 3, at its start, over a store that holds
  one record of zeros of it.
\<close>

definition demo_fcb :: fcb where
  "demo_fcb = \<lparr>f_driv = 0, f_name = [65, 32, 32, 32, 32, 32, 32, 32], f_type = [84, 88, 84], f_rest = [],
     f_record = 0, f_overfl = 0\<rparr>"

definition demo_chan :: "closer \<Rightarrow> carg \<Rightarrow> channel" where
  "demo_chan cl a = \<lparr>c_read = 1, c_write = 1, c_ioctl = 0, c_seek = 1, c_close = cl, c_arg = a\<rparr>"

definition demo_lib :: "nat option \<Rightarrow> rec_store lib" where
  "demo_lib owner =
     \<lparr>chantab = (replicate 11 (demo_chan Bdf (Dev 0)))[3 := demo_chan Filecl (Ent 0)],
      fcbtab = [\<lparr>ent_fcb = demo_fcb, offset = 0, flags = 3, user = 0\<rparr>],
      errno = 0, Wrkbuf = replicate 128 0, Wfp = owner, Wsct = 0, oldusr = 0, tbuf = replicate 258 0,
      tused = 0, Eol = 10, Tty_flags = 0, rd_func = 1, wrt_func = 2, Rd_tab2 = Tty_rd, Wrt_tab2 = Bdoswr,
      sys = (\<lambda>k. if k = fcb_key demo_fcb then [0 \<mapsto> replicate 128 0] else Map.empty)\<rparr>"

lemma demo_at: "file_at store_recs 0 (demo_lib owner) [0 \<mapsto> replicate 128 0] 0 0"
  by (auto simp: file_at_def demo_lib_def ent_def demo_fcb_def store_recs_def fcb_key_def)

lemma demo_open: "file_chan 3 0 (demo_lib owner)"
  by (simp add: file_chan_def demo_lib_def demo_chan_def)

lemma demo_chans: "chans_ok (demo_lib owner)"
  by (simp add: chans_ok_def demo_lib_def demo_chan_def chan_ok_def numeral_eq_Suc)



text \<open>
  \<open>read\<close> returns the bytes of the file from the position of the descriptor on, where the file has
  them all, and changes nothing but the position.
\<close>

theorem read_file:
  assumes "bdos_files B recs" and "file_at recs i l m x off"
    and "place x off + len < 8388480" and "0 < len" and "present m (place x off) len"
  shows "\<exists>l' x' off'. filerd B i len l = (len, bytes_at m (place x off) len, l') \<and>
    file_at recs i l' m x' off' \<and> place x' off' = place x off + len"
  using filerd_bytes [OF assms] .

theorem read_file_witness:
  "\<exists>l' x' off'. filerd store_bdos 0 3 (demo_lib None) = (3, bytes_at [0 \<mapsto> replicate 128 0] 0 3, l') \<and>
     file_at store_recs 0 l' [0 \<mapsto> replicate 128 0] x' off' \<and> place x' off' = 3"
proof -
  have "present [0 \<mapsto> replicate 128 0] (place 0 0) 3" by (auto simp: present_def place_def byte_at_def)
  from read_file [OF store_files demo_at [of None] _ _ this] show ?thesis by (simp add: place_def)
qed



text \<open>
  The proviso is needed: when the work buffer holds a record and that record is written as a whole
  block, the buffer is not brought up to date, and the next short read of the record returns the old
  byte.
\<close>

theorem stale_record:
  assumes "bdos_files B recs" and "file_chan fd i l" and "file_at recs i l m x 0"
    and "Wfp l = Some i" and "Wsct l = x" and "unat x < 65535" and "length buf = 128"
  shows "\<exists>l1 l2 l3. write_fd B (int fd) buf l = Ok 128 l1 \<and>
    lseek B (int fd) (of_nat (place x 0)) 0 l1 = Ok (int (place x 0)) l2 \<and>
    read_fd B (int fd) 1 l2 = Some (Ok (1, [Wrkbuf l ! 0]) l3)"
  using stale_read [OF assms] .

theorem stale_record_witness:
  "\<exists>l1 l2 l3. write_fd store_bdos 3 (replicate 128 65) (demo_lib (Some 0)) = Ok 128 l1 \<and>
     lseek store_bdos 3 0 0 l1 = Ok 0 l2 \<and> read_fd store_bdos 3 1 l2 = Some (Ok (1, [0]) l3)"
  using stale_record [OF store_files demo_open [of "Some 0"] demo_at, of "replicate 128 65"]
  by (simp add: place_def demo_lib_def)

section \<open>Descriptors\<close>

text \<open>
  C25. \<open>open\<close> hands out the lowest free descriptor of the eleven, marks it as taken and touches no other;
  where it fails the set of free descriptors is as before. The table stays well formed.
\<close>

theorem open_descriptor:
  assumes "chans_ok l" and "open_fd B name flag l = (r, l')"
  shows "chans_ok l' \<and> ((r = - 1 \<and> map c_close (chantab l') = map c_close (chantab l)) \<or>
    (\<exists>fd < 11. r = int fd \<and> c_close (chantab l ! fd) = Bdf \<and> c_close (chantab l' ! fd) \<noteq> Bdf \<and>
       (\<forall>j < fd. c_close (chantab l ! j) \<noteq> Bdf) \<and> same_chans fd l l'))"
  using open_fd_chans [OF assms(2,1)] .

theorem open_descriptor_witness:
  "\<exists>r l'. open_fd store_bdos (cstr ''A.TXT'') 0 (demo_lib None) = (r, l') \<and> chans_ok l' \<and>
     (r = - 1 \<or> (\<exists>fd < 11. r = int fd \<and> c_close (chantab l' ! fd) \<noteq> Bdf))"
proof -
  obtain r l' where o: "open_fd store_bdos (cstr ''A.TXT'') 0 (demo_lib None) = (r, l')" by fastforce
  from open_descriptor [OF demo_chans this] show ?thesis unfolding o by blast
qed

text \<open>
  \<open>close\<close> frees a descriptor of the table and leaves the others alone; the number one behind the
  last descriptor passes its check and is used as an index outside the table.
\<close>

theorem close_descriptor:
  assumes "chans_ok l" and "fd \<le> 11"
  shows "if fd < 11
    then \<exists>r l'. close_fd B (int fd) l = Ok r l' \<and> chans_ok l' \<and> c_close (chantab l' ! fd) = Bdf \<and> same_chans fd l l'
    else close_fd B (int fd) l = Fail (Undefined OutOfBounds) l"
  using close_fd_chans [OF assms(1)] assms by (auto simp: close_fd_def chans_ok_def)

theorem close_descriptor_witness:
  "close_fd store_bdos 11 (demo_lib None) = Fail (Undefined OutOfBounds) (demo_lib None) \<and>
   (\<exists>r l'. close_fd store_bdos 3 (demo_lib None) = Ok r l' \<and> c_close (chantab l' ! 3) = Bdf)"
  using close_descriptor [OF demo_chans [of None], of 11 store_bdos]
    close_descriptor [OF demo_chans [of None], of 3 store_bdos] by auto

text \<open>
  C34. A control block made by \<open>fcbinit\<close> is always well formed: eight and three characters, a drive
  from 0 to 26, a user number that is -1 or a byte, whatever string it is given.
\<close>

theorem control_block:
  "length (f_name (snd (fcbinit nm f))) = 8 \<and> length (f_type (snd (fcbinit nm f))) = 3 \<and>
   f_driv (snd (fcbinit nm f)) \<le> 26 \<and> - 1 \<le> fst (fcbinit nm f) \<and> fst (fcbinit nm f) \<le> 255"
  using fcbinit_fields [of nm f] by (cases "fcbinit nm f") simp

text \<open>
  A plain name of at most eight and three characters reaches the control block in upper case,
  padded with blanks, for the default drive and user.
\<close>

theorem control_block_name:
  assumes "list_all name_char n" and "n \<noteq> []" and "length n \<le> 8" and "list_all name_char t" and "length t \<le> 3"
  shows "fcbinit (Some (n @ 46 # t @ [0])) f =
    (255, (blank_fcb f)\<lparr>f_name := pad_field 8 (map fcb_upper n), f_type := pad_field 3 (map fcb_upper t)\<rparr>)"
  using fcbinit_plain [OF assms] .

theorem control_block_name_witness:
  "f_name (snd (fcbinit (Some ([97, 49] @ 46 # [116] @ [0])) demo_fcb)) = [65, 49, 32, 32, 32, 32, 32, 32]"
proof -
  have a: "list_all name_char [97, 49]" "list_all name_char [116]" by (simp_all add: name_char_def)
  have "pad_field 8 (map fcb_upper [97, 49]) = [65, 49, 32, 32, 32, 32, 32, 32]" by code_simp
  then show ?thesis using control_block_name [OF a(1) _ _ a(2), of demo_fcb] by simp
qed

end
