(* ===== verification/Aztec_Stdio.thy ===== *)
theory Aztec_Stdio
  imports Aztec_Descriptors Aztec_Scan
begin

text \<open>
  The buffered streams of the C library in \<^verbatim>\<open>disks/I/2\<close>: \<^verbatim>\<open>STDIO.H\<close>, \<^verbatim>\<open>GETBUFF.C\<close>, \<^verbatim>\<open>GETC.C\<close>, \<^verbatim>\<open>PUTC.C\<close>,
  \<^verbatim>\<open>AGETC.C\<close>, \<^verbatim>\<open>APUTC.C\<close>, \<^verbatim>\<open>UNGETC.C\<close>, \<^verbatim>\<open>SETBUF.C\<close>, \<^verbatim>\<open>FDOPEN.C\<close>, \<^verbatim>\<open>FSEEK.C\<close>, \<^verbatim>\<open>FREAD.C\<close>, \<^verbatim>\<open>FWRITE.C\<close>, \<^verbatim>\<open>FGETS.C\<close>,
  \<^verbatim>\<open>FPUTS.C\<close>, \<^verbatim>\<open>GETS.C\<close>, \<^verbatim>\<open>PUTS.C\<close>, \<^verbatim>\<open>GETW.C\<close>, \<^verbatim>\<open>PUTW.C\<close>, \<^verbatim>\<open>GETCHAR.C\<close>, \<^verbatim>\<open>PUTCHAR.C\<close>, \<^verbatim>\<open>PUTERR.C\<close>, \<^verbatim>\<open>FPRINTF.C\<close>,
  \<^verbatim>\<open>SCANF.C\<close> and \<^verbatim>\<open>FSCANF.C\<close>.

  The calls of the layer below (\<open>read\<close>, \<open>write\<close>, \<open>close\<close>, \<open>lseek\<close>, \<open>isatty\<close>, \<open>malloc\<close>, \<open>free\<close>) are an argument;
  \<open>lib_calls\<close> is the layer of this library. A pointer into the buffer of a stream is its offset in the
  buffer, \<open>None\<close> the null pointer; the bytes of the buffer are kept with the stream. A run that never
  returns is \<open>None\<close>.
\<close>

section \<open>Data\<close>

datatype buffer = Bytbuf | Allocated u16 | Given

record stream =
  bp :: "nat option"
  bend :: "nat option"
  buff :: "buffer option"
  sflags :: u8
  unit_no :: u8
  buflen :: nat
  contents :: bytes

record 's calls =
  u_read :: "int \<Rightarrow> nat \<Rightarrow> 's \<Rightarrow> (int \<times> bytes, 's) run"
  u_write :: "int \<Rightarrow> bytes \<Rightarrow> 's \<Rightarrow> (int, 's) run"
  u_close :: "int \<Rightarrow> 's \<Rightarrow> (int, 's) run"
  u_lseek :: "int \<Rightarrow> u32 \<Rightarrow> nat \<Rightarrow> 's \<Rightarrow> (int, 's) run"
  u_isatty :: "int \<Rightarrow> 's \<Rightarrow> (bool, 's) run"
  u_malloc :: "nat \<Rightarrow> 's \<Rightarrow> (u16 \<times> bytes) option \<times> 's"
  u_free :: "u16 \<Rightarrow> 's \<Rightarrow> 's"

record 's stdio =
  Cbuffs :: "stream list"
  cls_set :: bool
  below :: 's

abbreviation (input) BUFSIZ :: nat where "BUFSIZ \<equiv> 1024"
abbreviation (input) MAXSTREAM :: nat where "MAXSTREAM \<equiv> 11"
abbreviation (input) F_BUSY :: u8 where "F_BUSY \<equiv> 0x01"
abbreviation (input) F_ALLBUF :: u8 where "F_ALLBUF \<equiv> 0x02"
abbreviation (input) F_DIRTY :: u8 where "F_DIRTY \<equiv> 0x04"
abbreviation (input) F_EOF :: u8 where "F_EOF \<equiv> 0x08"
abbreviation (input) F_IOERR :: u8 where "F_IOERR \<equiv> 0x10"

definition strm :: "nat \<Rightarrow> 's stdio \<Rightarrow> stream" where
  "strm k s = Cbuffs s ! k"

definition upd_strm :: "nat \<Rightarrow> (stream \<Rightarrow> stream) \<Rightarrow> 's stdio \<Rightarrow> 's stdio" where
  "upd_strm k f s = s\<lparr>Cbuffs := (Cbuffs s)[k := f (strm k s)]\<rparr>"

definition has :: "u8 \<Rightarrow> stream \<Rightarrow> bool" where
  "has m f \<longleftrightarrow> sflags f AND m \<noteq> 0"

definition set_flag :: "u8 \<Rightarrow> stream \<Rightarrow> stream" where
  "set_flag m f = f\<lparr>sflags := sflags f OR m\<rparr>"

definition clear_flag :: "u8 \<Rightarrow> stream \<Rightarrow> stream" where
  "clear_flag m f = f\<lparr>sflags := sflags f AND NOT m\<rparr>"

definition feof :: "stream \<Rightarrow> bool" where "feof f \<longleftrightarrow> has F_EOF f"
definition ferror :: "stream \<Rightarrow> bool" where "ferror f \<longleftrightarrow> has F_IOERR f"
definition clearerr :: "stream \<Rightarrow> stream" where "clearerr f = clear_flag (F_IOERR OR F_EOF) f"
definition fileno :: "stream \<Rightarrow> int" where "fileno f = uint (unit_no f)"

text \<open>\<open>_bp >= _bend\<close>: the null pointer is the lowest address.\<close>

definition at_end :: "stream \<Rightarrow> bool" where
  "at_end f = (case bend f of None \<Rightarrow> True | Some e \<Rightarrow> (case bp f of None \<Rightarrow> False | Some p \<Rightarrow> e \<le> p))"

definition no_window :: "stream \<Rightarrow> stream" where
  "no_window f = f\<lparr>bp := None, bend := None\<rparr>"

text \<open>A call of the layer below.\<close>

definition calling :: "('s \<Rightarrow> ('a, 's) run) \<Rightarrow> 's stdio \<Rightarrow> ('a, 's stdio) run" where
  "calling c s =
     (case c (below s) of
        None \<Rightarrow> None
      | Some (Ok x b) \<Rightarrow> Some (Ok x (s\<lparr>below := b\<rparr>))
      | Some (Fail e b) \<Rightarrow> Some (Fail e (s\<lparr>below := b\<rparr>)))"

text \<open>A stream pointer is an index of \<open>Cbuffs\<close>; another one is undefined.\<close>

definition on_stream :: "nat \<Rightarrow> 's stdio \<Rightarrow> ('a, 's stdio) run \<Rightarrow> ('a, 's stdio) run" where
  "on_stream k s r = (if k < length (Cbuffs s) then r else Some (Fail (Undefined OutOfBounds) s))"

section \<open>GETBUFF.C, FDOPEN.C and SETBUF.C\<close>

definition std_stream :: "u8 \<Rightarrow> u8 \<Rightarrow> nat \<Rightarrow> stream" where
  "std_stream fl u n =
     \<lparr>bp = None, bend = None, buff = None, sflags = fl, unit_no = u, buflen = n, contents = []\<rparr>"

definition Cbuffs_init :: "stream list" where
  "Cbuffs_init =
     [std_stream F_BUSY 0 1, std_stream F_BUSY 1 1, std_stream F_BUSY 2 1] @ replicate 8 (std_stream 0 0 0)"

definition newstream :: "'s stdio \<Rightarrow> nat option \<times> 's stdio" where
  "newstream s =
     (case first_index (\<lambda>f. sflags f = 0) (Cbuffs s) of
        None \<Rightarrow> (None, s)
      | Some k \<Rightarrow> (Some k, upd_strm k (\<lambda>f. f\<lparr>buff := None, bend := None, bp := None\<rparr>) s))"

definition small_buffer :: "stream \<Rightarrow> stream" where
  "small_buffer f = f\<lparr>buflen := 1, buff := Some Bytbuf, contents := [0]\<rparr>"

definition getbuff :: "'s calls \<Rightarrow> nat \<Rightarrow> 's stdio \<Rightarrow> (unit, 's stdio) run" where
  "getbuff U k s =
     bindp (calling (u_isatty U (fileno (strm k s))) s) (\<lambda>tty s.
       if tty then Some (Ok () (upd_strm k small_buffer s))
       else (case u_malloc U BUFSIZ (below s) of (r, b) \<Rightarrow>
             let s' = s\<lparr>below := b\<rparr>
             in case r of
                  None \<Rightarrow> Some (Ok () (upd_strm k small_buffer s'))
                | Some (a, old) \<Rightarrow>
                    Some (Ok () (upd_strm k (\<lambda>f. (set_flag F_ALLBUF f)\<lparr>buflen := BUFSIZ, buff := Some (Allocated a),
                            contents := old\<rparr>) s'))))"

definition need_buff :: "'s calls \<Rightarrow> nat \<Rightarrow> 's stdio \<Rightarrow> (unit, 's stdio) run" where
  "need_buff U k s = (if buff (strm k s) = None then getbuff U k s else Some (Ok () s))"

definition fdopen :: "u8 \<Rightarrow> 's stdio \<Rightarrow> nat option \<times> 's stdio" where
  "fdopen fd s =
     (case newstream s of
        (None, s') \<Rightarrow> (None, s')
      | (Some k, s') \<Rightarrow> (Some k, upd_strm k (\<lambda>f. f\<lparr>unit_no := fd, sflags := F_BUSY\<rparr>) s'))"

definition setbuf :: "nat \<Rightarrow> bytes option \<Rightarrow> 's stdio \<Rightarrow> 's stdio" where
  "setbuf k buf s =
     (if buff (strm k s) \<noteq> None then s
      else case buf of
             None \<Rightarrow> upd_strm k small_buffer s
           | Some d \<Rightarrow> upd_strm k (\<lambda>f. f\<lparr>buff := Some Given, buflen := BUFSIZ, contents := d\<rparr>) s)"

section \<open>GETC.C and UNGETC.C\<close>

text \<open>\<open>*_bp++\<close>\<close>

definition take_char :: "nat \<Rightarrow> 's stdio \<Rightarrow> (int, 's stdio) run" where
  "take_char k s =
     (case bp (strm k s) of
        None \<Rightarrow> Some (Fail (Undefined NullPointer) s)
      | Some p \<Rightarrow>
          if p < length (contents (strm k s))
          then Some (Ok (uint (contents (strm k s) ! p)) (upd_strm k (\<lambda>f. f\<lparr>bp := Some (Suc p)\<rparr>) s))
          else Some (Fail (Undefined OutOfBounds) s))"

definition filled :: "int \<Rightarrow> bytes \<Rightarrow> stream \<Rightarrow> stream" where
  "filled n dat f =
     (let f' = f\<lparr>contents := blit 0 dat (contents f)\<rparr>
      in if n \<le> 0 then set_flag (if n = 0 then F_EOF else F_IOERR) f'
         else f'\<lparr>bp := Some 0, bend := Some (nat n)\<rparr>)"

definition getc :: "'s calls \<Rightarrow> nat \<Rightarrow> 's stdio \<Rightarrow> (int, 's stdio) run" where
  "getc U k s = on_stream k s
     (if at_end (strm k s)
      then if has (F_EOF OR F_IOERR) (strm k s) then Some (Ok EOF s)
           else bindp (need_buff U k (upd_strm k (clear_flag F_DIRTY) s)) (\<lambda>_ s.
                bindp (calling (u_read U (fileno (strm k s)) (buflen (strm k s))) s) (\<lambda>(n, dat) s.
                  let s' = upd_strm k (filled n dat) s
                  in if n \<le> 0 then Some (Ok EOF s') else take_char k s'))
      else take_char k s)"

definition ungetc :: "int \<Rightarrow> nat \<Rightarrow> 's stdio \<Rightarrow> (int, 's stdio) run" where
  "ungetc c k s = on_stream k s
     (case bp (strm k s) of
        Some (Suc p) \<Rightarrow>
          if c = EOF then Some (Ok EOF s)
          else Some (Ok c (upd_strm k (\<lambda>f. f\<lparr>bp := Some p, contents := (contents f)[p := of_int c]\<rparr>) s))
      | _ \<Rightarrow> Some (Ok EOF s))"

text \<open>\<open>agetc\<close>: seven bits, without carriage returns and zeros, up to control-Z.\<close>

partial_function (option) agetc :: "'s calls \<Rightarrow> nat \<Rightarrow> 's stdio \<Rightarrow> (int, 's stdio) run" where
  [code]: "agetc U k s =
     (case getc U k s of
        None \<Rightarrow> None
      | Some (Fail e s') \<Rightarrow> Some (Fail e s')
      | Some (Ok c s') \<Rightarrow>
          if c = EOF then Some (Ok EOF s')
          else if c AND 127 = 0x1a then Some (Ok EOF (upd_strm k (set_flag F_EOF) s'))
          else if c AND 127 = 13 \<or> c AND 127 = 0 then agetc U k s'
          else Some (Ok (c AND 127) s'))"

section \<open>PUTC.C and APUTC.C\<close>

text \<open>\<open>*_bp++ = c\<close>\<close>

definition store_char :: "nat \<Rightarrow> u8 \<Rightarrow> 's stdio \<Rightarrow> (int, 's stdio) run" where
  "store_char k c s =
     (case bp (strm k s) of
        None \<Rightarrow> Some (Fail (Undefined NullPointer) s)
      | Some p \<Rightarrow>
          if p < length (contents (strm k s))
          then Some (Ok (uint c) (upd_strm k (\<lambda>f. f\<lparr>bp := Some (Suc p), contents := (contents f)[p := c]\<rparr>) s))
          else Some (Fail (Undefined OutOfBounds) s))"

definition ioerr :: "nat \<Rightarrow> 's stdio \<Rightarrow> (int, 's stdio) run" where
  "ioerr k s = Some (Ok EOF (upd_strm k (\<lambda>f. no_window (set_flag F_IOERR f)) s))"

text \<open>The bytes between \<open>_buff\<close> and \<open>_bp\<close> go out; the result says whether all of them did.\<close>

definition write_back :: "'s calls \<Rightarrow> nat \<Rightarrow> 's stdio \<Rightarrow> (bool, 's stdio) run" where
  "write_back U k s =
     (if has F_DIRTY (strm k s)
      then (case bp (strm k s) of
              None \<Rightarrow> Some (Fail (Undefined NullPointer) s)
            | Some p \<Rightarrow>
                bindp (calling (u_write U (fileno (strm k s)) (take p (contents (strm k s)))) s)
                  (\<lambda>n s. Some (Ok (n = int p) s)))
      else Some (Ok True s))"

text \<open>\<open>flsh_(ptr, data)\<close>, with \<open>None\<close> for the data -1.\<close>

definition put_data :: "'s calls \<Rightarrow> nat \<Rightarrow> u8 \<Rightarrow> 's stdio \<Rightarrow> (int, 's stdio) run" where
  "put_data U k c s =
     bindp (need_buff U k s) (\<lambda>_ s.
       if buflen (strm k s) = 1
       then bindp (calling (u_write U (fileno (strm k s)) [c]) s) (\<lambda>n s.
              if n \<noteq> 1 then ioerr k s else Some (Ok (uint c) s))
       else store_char k c
              (upd_strm k (\<lambda>f. (set_flag F_DIRTY f)\<lparr>bp := Some 0, bend := Some (buflen f)\<rparr>) s))"

definition flsh :: "'s calls \<Rightarrow> nat \<Rightarrow> u8 option \<Rightarrow> 's stdio \<Rightarrow> (int, 's stdio) run" where
  "flsh U k dat s0 = on_stream k s0
     (let s = s0\<lparr>cls_set := True\<rparr>
      in if has F_IOERR (strm k s) then Some (Ok EOF s)
         else bindp (write_back U k s) (\<lambda>ok s.
                if \<not> ok then ioerr k s
                else case dat of
                       None \<Rightarrow> Some (Ok 0 (upd_strm k (\<lambda>f. no_window (clear_flag F_DIRTY f)) s))
                     | Some c \<Rightarrow> put_data U k c s))"

definition putc :: "'s calls \<Rightarrow> u16 \<Rightarrow> nat \<Rightarrow> 's stdio \<Rightarrow> (int, 's stdio) run" where
  "putc U c k s = on_stream k s
     (if at_end (strm k s) then flsh U k (Some (ucast c)) s else store_char k (ucast c) s)"

definition aputc :: "'s calls \<Rightarrow> u16 \<Rightarrow> nat \<Rightarrow> 's stdio \<Rightarrow> (int, 's stdio) run" where
  "aputc U c k s =
     (if c = 10
      then bindp (putc U 13 k s) (\<lambda>r s. if r = EOF then Some (Ok EOF s) else putc U c k s)
      else putc U c k s)"

definition fclose :: "'s calls \<Rightarrow> nat \<Rightarrow> 's stdio \<Rightarrow> (int, 's stdio) run" where
  "fclose U k s = on_stream k s
     (if sflags (strm k s) \<noteq> 0
      then bindp (if has F_DIRTY (strm k s) then flsh U k None s else Some (Ok 0 s)) (\<lambda>err s.
           bindp (calling (u_close U (fileno (strm k s))) s) (\<lambda>r s.
             let s' = (case buff (strm k s) of
                         Some (Allocated a) \<Rightarrow>
                           if has F_ALLBUF (strm k s) then s\<lparr>below := u_free U a (below s)\<rparr> else s
                       | _ \<Rightarrow> s)
             in Some (Ok (err OR r) (upd_strm k (\<lambda>f. f\<lparr>sflags := 0\<rparr>) s'))))
      else Some (Ok 0 s))"

fun closall :: "'s calls \<Rightarrow> nat list \<Rightarrow> 's stdio \<Rightarrow> (unit, 's stdio) run" where
  "closall U [] s = Some (Ok () s)"
| "closall U (k # ks) s = bindp (fclose U k s) (\<lambda>_ s. closall U ks s)"

section \<open>FSEEK.C\<close>

text \<open>\<open>_bend - _bp\<close>, 0 for null pointers.\<close>

definition unread :: "stream \<Rightarrow> int" where
  "unread f = (case (bp f, bend f) of (Some p, Some e) \<Rightarrow> int e - int p | _ \<Rightarrow> 0)"

definition fseek :: "'s calls \<Rightarrow> nat \<Rightarrow> u32 \<Rightarrow> nat \<Rightarrow> 's stdio \<Rightarrow> (int, 's stdio) run" where
  "fseek U k pos mode s0 = on_stream k s0
     (let s = upd_strm k (clear_flag F_EOF) s0;
          pos' = (if has F_DIRTY (strm k s) \<or> mode \<noteq> 1 then pos else pos - of_int (unread (strm k s)))
      in bindp (if has F_DIRTY (strm k s) then flsh U k None s else Some (Ok 0 s)) (\<lambda>r s.
           if r \<noteq> 0 then Some (Ok EOF s)
           else bindp (calling (u_lseek U (fileno (strm k s)) pos' mode) (upd_strm k no_window s))
                  (\<lambda>q s. Some (Ok (if q < 0 then EOF else 0) s))))"

definition ftell :: "'s calls \<Rightarrow> nat \<Rightarrow> 's stdio \<Rightarrow> (int, 's stdio) run" where
  "ftell U k s = on_stream k s
     (bindp (calling (u_lseek U (fileno (strm k s)) 0 1) s) (\<lambda>pos s.
        let f = strm k s
        in if has F_DIRTY f
           then (case bp f of
                   None \<Rightarrow> Some (Fail (Undefined NullPointer) s)
                 | Some p \<Rightarrow> Some (Ok (pos + int p) s))
           else Some (Ok (pos - unread f) s)))"

section \<open>Blocks, words and lines\<close>

text \<open>\<open>fread\<close>: the number of elements and the bytes stored.\<close>

fun read_elem :: "'s calls \<Rightarrow> nat \<Rightarrow> nat \<Rightarrow> bytes \<Rightarrow> 's stdio \<Rightarrow> (bool \<times> bytes, 's stdio) run" where
  "read_elem U k 0 acc s = Some (Ok (True, acc) s)"
| "read_elem U k (Suc i) acc s =
     bindp (getc U k s) (\<lambda>c s.
       if c = EOF then Some (Ok (False, acc) s) else read_elem U k i (acc @ [of_int c]) s)"

fun fread :: "'s calls \<Rightarrow> nat \<Rightarrow> nat \<Rightarrow> nat \<Rightarrow> nat \<Rightarrow> bytes \<Rightarrow> 's stdio \<Rightarrow> (nat \<times> bytes, 's stdio) run" where
  "fread U sz 0 k cnt acc s = Some (Ok (cnt, acc) s)"
| "fread U sz (Suc n) k cnt acc s =
     bindp (read_elem U k sz acc s) (\<lambda>(ok, acc') s.
       if ok then fread U sz n k (Suc cnt) acc' s else Some (Ok (cnt, acc') s))"

fun putc_loop :: "'s calls \<Rightarrow> bytes \<Rightarrow> nat \<Rightarrow> 's stdio \<Rightarrow> (bool, 's stdio) run" where
  "putc_loop U [] k s = Some (Ok True s)"
| "putc_loop U (c # cs) k s =
     bindp (putc U (ucast c) k s) (\<lambda>r s. if r = EOF then Some (Ok False s) else putc_loop U cs k s)"

text \<open>\<open>fwrite\<close>: the product of size and number is taken modulo \<open>2 ^ 16\<close>.\<close>

definition fwrite :: "'s calls \<Rightarrow> bytes \<Rightarrow> u16 \<Rightarrow> u16 \<Rightarrow> nat \<Rightarrow> 's stdio \<Rightarrow> (u16, 's stdio) run" where
  "fwrite U buffer sz n k s =
     (if length buffer < unat (sz * n) then Some (Fail (Undefined OutOfBounds) s)
      else bindp (putc_loop U (take (unat (sz * n)) buffer) k s) (\<lambda>ok s. Some (Ok (if ok then n else 0) s)))"

definition getw :: "'s calls \<Rightarrow> nat \<Rightarrow> 's stdio \<Rightarrow> (int, 's stdio) run" where
  "getw U k s =
     bindp (getc U k s) (\<lambda>x1 s.
       if x1 = EOF then Some (Ok EOF s)
       else bindp (getc U k s) (\<lambda>x2 s.
              if x2 = EOF then Some (Ok EOF s)
              else Some (Ok (sint (push_bit 8 (of_int x2) OR of_int x1 :: u16)) s)))"

definition putw :: "'s calls \<Rightarrow> u16 \<Rightarrow> nat \<Rightarrow> 's stdio \<Rightarrow> (int, 's stdio) run" where
  "putw U w k s =
     bindp (putc U w k s) (\<lambda>r s.
       if r < 0 then Some (Ok EOF s)
       else bindp (putc U (drop_bit 8 w) k s) (\<lambda>r s.
              if r < 0 then Some (Ok EOF s) else Some (Ok (sint w) s)))"

text \<open>
  \<open>fgets\<close>: the bytes stored without the zero, and whether the result is the null pointer. With room
  for less than two characters no character is read and the test of \<open>c\<close> uses an unset variable.
\<close>

fun fgets_loop :: "'s calls \<Rightarrow> nat \<Rightarrow> nat \<Rightarrow> bytes \<Rightarrow> 's stdio \<Rightarrow> (int \<times> bytes, 's stdio) run" where
  "fgets_loop U 0 k acc s = Some (Ok (0, acc) s)"
| "fgets_loop U (Suc n) k acc s =
     bindp (agetc U k s) (\<lambda>c s.
       if c = EOF then Some (Ok (EOF, acc) s)
       else if c = 10 then Some (Ok (c, acc @ [10]) s)
       else fgets_loop U n k (acc @ [of_int c]) s)"

definition fgets :: "'s calls \<Rightarrow> int \<Rightarrow> nat \<Rightarrow> 's stdio \<Rightarrow> (bytes option, 's stdio) run" where
  "fgets U n k s =
     (if n \<le> 1 then Some (Fail (Undefined Uninitialised) s)
      else bindp (fgets_loop U (nat (n - 1)) k [] s) (\<lambda>(c, acc) s.
             Some (Ok (if c = EOF \<and> acc = [] then None else Some acc) s)))"

fun aputc_loop :: "'s calls \<Rightarrow> bytes \<Rightarrow> nat \<Rightarrow> 's stdio \<Rightarrow> (bool, 's stdio) run" where
  "aputc_loop U [] k s = Some (Fail (Undefined OutOfBounds) s)"
| "aputc_loop U (c # cs) k s =
     (if c = 0 then Some (Ok True s)
      else bindp (aputc U (ucast c) k s) (\<lambda>r s. if r = EOF then Some (Ok False s) else aputc_loop U cs k s))"

definition fputs :: "'s calls \<Rightarrow> bytes \<Rightarrow> nat \<Rightarrow> 's stdio \<Rightarrow> (int, 's stdio) run" where
  "fputs U str k s = bindp (aputc_loop U str k s) (\<lambda>ok s. Some (Ok (if ok then 0 else EOF) s))"

definition getchar :: "'s calls \<Rightarrow> 's stdio \<Rightarrow> (int, 's stdio) run" where "getchar U s = agetc U 0 s"
definition putchar :: "'s calls \<Rightarrow> u16 \<Rightarrow> 's stdio \<Rightarrow> (int, 's stdio) run" where "putchar U c s = aputc U c 1 s"
definition puterr :: "'s calls \<Rightarrow> u16 \<Rightarrow> 's stdio \<Rightarrow> (int, 's stdio) run" where "puterr U c s = aputc U c 2 s"

text \<open>\<open>gets\<close> does not bound the line: the buffer of the caller is taken to be large enough.\<close>

partial_function (option) gets_loop :: "'s calls \<Rightarrow> bytes \<Rightarrow> 's stdio \<Rightarrow> (int \<times> bytes, 's stdio) run" where
  [code]: "gets_loop U acc s =
     (case getchar U s of
        None \<Rightarrow> None
      | Some (Fail e s') \<Rightarrow> Some (Fail e s')
      | Some (Ok c s') \<Rightarrow>
          if c = EOF \<or> c = 10 then Some (Ok (c, acc) s') else gets_loop U (acc @ [of_int c]) s')"

definition gets :: "'s calls \<Rightarrow> 's stdio \<Rightarrow> (bytes option, 's stdio) run" where
  "gets U s =
     bindp (gets_loop U [] s) (\<lambda>(c, acc) s. Some (Ok (if c = EOF \<and> acc = [] then None else Some acc) s))"

definition puts :: "'s calls \<Rightarrow> bytes \<Rightarrow> 's stdio \<Rightarrow> (int, 's stdio) run" where
  "puts U str s =
     bindp (aputc_loop U str 1 s) (\<lambda>ok s. if ok then putchar U 10 s else Some (Ok EOF s))"

section \<open>FPRINTF.C, SCANF.C and FSCANF.C\<close>

text \<open>
  The output function handed to \<open>format\<close>. A call that does not return or is undefined ends the run
  there: the state of the formatter carries it, and the formatter stops as on \<open>EOF\<close>.
\<close>

definition fpsub :: "'s calls \<Rightarrow> nat \<Rightarrow> (unit, 's stdio) run putter" where
  "fpsub U k c r =
     (case r of
        Some (Ok _ s) \<Rightarrow>
          (case aputc U c k s of
             None \<Rightarrow> (0xFFFF, None)
           | Some (Fail e s') \<Rightarrow> (0xFFFF, Some (Fail e s'))
           | Some (Ok v s') \<Rightarrow> (of_int v, Some (Ok () s')))
      | bad \<Rightarrow> (0xFFFF, bad))"

definition fprintf :: "'s calls \<Rightarrow> (u16 \<Rightarrow> u8) \<Rightarrow> nat \<Rightarrow> bytes \<Rightarrow> bytes \<Rightarrow> 's stdio \<Rightarrow> (u16, 's stdio) run" where
  "fprintf U mem k fmt args s =
     (case format (fpsub U k) mem fmt args (Some (Ok () s)) of
        Ok n r \<Rightarrow> bindp r (\<lambda>_ s. Some (Ok n s))
      | Fail e r \<Rightarrow> bindp r (\<lambda>_ s. Some (Fail e s)))"

text \<open>
  The character source of \<open>scanf\<close> and \<open>fscanf\<close>, with \<open>scnlast\<close>. A source that does not return is
  reported as a loop that is not left.
\<close>

definition gchar :: "'s calls \<Rightarrow> nat \<Rightarrow> (int \<times> 's stdio) getter" where
  "gchar U k what st =
     (case st of (scn, s) \<Rightarrow>
      case (if what then ungetc scn k s
            else if feof (strm k s) then Some (Ok EOF s) else agetc U k s) of
        None \<Rightarrow> Fail Spinning (scn, s)
      | Some (Fail e s') \<Rightarrow> Fail e (scn, s')
      | Some (Ok c s') \<Rightarrow> Ok c (c, s'))"

definition fscanf :: "'s calls \<Rightarrow> nat \<Rightarrow> bytes \<Rightarrow> bytes \<Rightarrow> 's stdio \<Rightarrow> (int \<times> store list, int \<times> 's stdio) run" where
  "fscanf U k fmt args s = scanfmt (gchar U k) fmt args (0, s)"

definition scanf :: "'s calls \<Rightarrow> bytes \<Rightarrow> bytes \<Rightarrow> 's stdio \<Rightarrow> (int \<times> store list, int \<times> 's stdio) run" where
  "scanf U fmt args s = fscanf U 0 fmt args s"

section \<open>The layer below\<close>

text \<open>The descriptor functions of this library beside an allocator on a state of its own.\<close>

definition lower :: "'h \<Rightarrow> ('a, 'b lib) outcome \<Rightarrow> ('a, 'b lib \<times> 'h) outcome" where
  "lower h r = (case r of Ok x l \<Rightarrow> Ok x (l, h) | Fail e l \<Rightarrow> Fail e (l, h))"

definition lib_calls ::
  "'b bdos \<Rightarrow> (nat \<Rightarrow> 'h \<Rightarrow> (u16 \<times> bytes) option \<times> 'h) \<Rightarrow> (u16 \<Rightarrow> 'h \<Rightarrow> 'h) \<Rightarrow> ('b lib \<times> 'h) calls" where
  "lib_calls B mal fre =
     \<lparr>u_read = (\<lambda>fd n (l, h). map_option (lower h) (read_fd B fd (of_nat n) l)),
      u_write = (\<lambda>fd dat (l, h). Some (lower h (write_fd B fd dat l))),
      u_close = (\<lambda>fd (l, h). Some (lower h (close_fd B fd l))),
      u_lseek = (\<lambda>fd pos how (l, h). Some (lower h (lseek B fd pos how l))),
      u_isatty = (\<lambda>fd (l, h). Some (case isatty_fd fd l of
          None \<Rightarrow> Fail (Undefined OutOfBounds) (l, h) | Some n \<Rightarrow> Ok (n \<noteq> 0) (l, h))),
      u_malloc = (\<lambda>n (l, h). case mal n h of (r, h') \<Rightarrow> (r, (l, h'))),
      u_free = (\<lambda>a (l, h). (l, fre a h))\<rparr>"

end
