(* ===== verification/Aztec_Stream_Spec.thy ===== *)
theory Aztec_Stream_Spec
  imports Aztec_Stdio
begin

text \<open>
  What the buffered streams promise. The layer below enters through two interfaces, a sink that takes
  bytes and a source that delivers them; the buffering is proved correct once over each of them. The
  descriptor functions on a file are a sink and a source.
\<close>

named_theorems strm_simps \<open>reading a stream after an update\<close>

lemma strm_upd [strm_simps]:
  "k < length (Cbuffs s) \<Longrightarrow> strm k (upd_strm k f s) = f (strm k s)"
  "below (upd_strm k f s) = below s" "length (Cbuffs (upd_strm k f s)) = length (Cbuffs s)"
  "strm k (s\<lparr>below := b\<rparr>) = strm k s" "strm k (s\<lparr>cls_set := c\<rparr>) = strm k s"
  by (simp_all add: strm_def upd_strm_def)

lemma flag_fields [strm_simps]:
  "bp (set_flag m f) = bp f" "bend (set_flag m f) = bend f" "buff (set_flag m f) = buff f"
  "buflen (set_flag m f) = buflen f" "contents (set_flag m f) = contents f" "unit_no (set_flag m f) = unit_no f"
  "bp (clear_flag m f) = bp f" "bend (clear_flag m f) = bend f" "buff (clear_flag m f) = buff f"
  "buflen (clear_flag m f) = buflen f" "contents (clear_flag m f) = contents f" "unit_no (clear_flag m f) = unit_no f"
  by (simp_all add: set_flag_def clear_flag_def)

lemma and_or_zero: "(a AND m = 0 \<and> b AND m = 0) \<Longrightarrow> (a OR b) AND m = (0 :: u8)"
  by (simp add: bit_eq_iff bit_simps) blast

lemma has_flags [strm_simps]:
  "has m (f\<lparr>bp := x\<rparr>) = has m f" "has m (f\<lparr>bend := x\<rparr>) = has m f" "has m (f\<lparr>buff := y\<rparr>) = has m f"
  "has m (f\<lparr>buflen := n\<rparr>) = has m f" "has m (f\<lparr>contents := d\<rparr>) = has m f"
  by (simp_all add: has_def)

lemma has_set:
  "m AND n = 0 \<Longrightarrow> has m (set_flag n f) = has m f" "m AND n = 0 \<Longrightarrow> has m (clear_flag n f) = has m f"
  "has m (clear_flag m f) = False" "m \<noteq> 0 \<Longrightarrow> has m (set_flag m f)"
proof -
  assume d: "m AND n = 0"
  then have b: "\<not> (bit m i \<and> bit n i)" for i by (metis bit_and_iff bit_0_eq bot_apply bot_bool_def)
  have "(sflags f OR n) AND m = sflags f AND m" "(sflags f AND NOT n) AND m = sflags f AND m"
    using b by (auto simp: bit_eq_iff bit_simps)
  then show "has m (set_flag n f) = has m f" "has m (clear_flag n f) = has m f"
    by (simp_all add: has_def set_flag_def clear_flag_def)
next
  have "(sflags f AND NOT m) AND m = 0" by (auto simp: bit_eq_iff bit_simps)
  then show "has m (clear_flag m f) = False" by (simp add: has_def clear_flag_def)
next
  assume "m \<noteq> 0"
  moreover have "(sflags f OR m) AND m = m" by (auto simp: bit_eq_iff bit_simps)
  ultimately show "has m (set_flag m f)" by (simp add: has_def set_flag_def)
qed

lemma has_clear [strm_simps]:
  "has F_IOERR (clear_flag F_DIRTY f) = has F_IOERR f" "has F_IOERR (set_flag F_DIRTY f) = has F_IOERR f"
  "has F_IOERR (set_flag F_ALLBUF f) = has F_IOERR f" "has F_DIRTY (set_flag F_ALLBUF f) = has F_DIRTY f"
  "has F_DIRTY (clear_flag F_DIRTY f) = False" "has F_DIRTY (set_flag F_DIRTY f) = True"
  "has F_IOERR (clear_flag F_EOF f) = has F_IOERR f" "has F_DIRTY (clear_flag F_EOF f) = has F_DIRTY f"
  "has F_EOF (clear_flag F_EOF f) = False" "has F_EOF (clear_flag F_DIRTY f) = has F_EOF f"
  "has F_EOF (set_flag F_ALLBUF f) = has F_EOF f" "has F_EOF (set_flag F_EOF f) = True"
  "has F_IOERR (set_flag F_EOF f) = has F_IOERR f" "has F_DIRTY (set_flag F_EOF f) = has F_DIRTY f"
  using has_set(1) [of F_IOERR F_DIRTY f] has_set(1) [of F_IOERR F_ALLBUF f] has_set(1) [of F_DIRTY F_ALLBUF f]
    has_set(2) [of F_IOERR F_DIRTY f] has_set(2) [of F_IOERR F_EOF f] has_set(2) [of F_DIRTY F_EOF f]
    has_set(2) [of F_EOF F_DIRTY f] has_set(1) [of F_EOF F_ALLBUF f] has_set(1) [of F_IOERR F_EOF f]
    has_set(1) [of F_DIRTY F_EOF f] has_set(3) has_set(4) [of F_DIRTY] has_set(4) [of F_EOF]
  by simp_all

lemma has_union: "has 0x18 f \<longleftrightarrow> has F_EOF f \<or> has F_IOERR f"
proof -
  have "x AND (m OR n) = 0 \<longleftrightarrow> x AND m = 0 \<and> x AND n = 0" for x m n :: u8
    by (auto simp: bit.conj_disj_distrib or_eq_0_iff)
  from this [of _ F_EOF F_IOERR] show ?thesis by (simp add: has_def)
qed

lemma calling_Ok [strm_simps]:
  "c (below s) = Some (Ok x b) \<Longrightarrow> calling c s = Some (Ok x (s\<lparr>below := b\<rparr>))"
  by (simp add: calling_def)

section \<open>Buffers\<close>

definition buffer_ok :: "stream \<Rightarrow> bool" where
  "buffer_ok f \<longleftrightarrow> (buff f \<noteq> None \<longrightarrow> length (contents f) = buflen f \<and> 0 < buflen f \<and> buflen f \<le> BUFSIZ)"

text \<open>What getting a buffer leaves as it was.\<close>

definition same_window :: "stream \<Rightarrow> stream \<Rightarrow> bool" where
  "same_window f g \<longleftrightarrow> bp g = bp f \<and> bend g = bend f \<and> unit_no g = unit_no f \<and> has F_EOF g = has F_EOF f \<and>
     has F_IOERR g = has F_IOERR f \<and> has F_DIRTY g = has F_DIRTY f"

lemma same_window_small: "same_window f (small_buffer f)"
  by (simp add: same_window_def small_buffer_def strm_simps has_def)

text \<open>
  The layer below in a state with the value \<open>v\<close> (what was written, or what is left to read): asking for
  a terminal or for memory does not change the value.
\<close>

locale stream_base =
  fixes U :: "'s calls" and fd :: int and st :: "'s \<Rightarrow> 'v \<Rightarrow> bool"
  assumes tty: "st s v \<Longrightarrow> \<exists>t s'. u_isatty U fd s = Some (Ok t s') \<and> st s' v"
    and mal: "st s v \<Longrightarrow> \<exists>r s'. u_malloc U BUFSIZ s = (r, s') \<and> st s' v \<and>
                (\<forall>a old. r = Some (a, old) \<longrightarrow> length old = BUFSIZ)"
begin

lemma getbuff_ok:
  assumes k: "k < length (Cbuffs s)" and fd: "fileno (strm k s) = fd" and st: "st (below s) v"
  shows "\<exists>s'. getbuff U k s = Some (Ok () s') \<and> st (below s') v \<and> same_window (strm k s) (strm k s') \<and>
           buff (strm k s') \<noteq> None \<and> buffer_ok (strm k s') \<and> length (Cbuffs s') = length (Cbuffs s)"
proof -
  obtain t b where t: "u_isatty U fd (below s) = Some (Ok t b)" "st b v" using tty [OF st] by blast
  obtain r b' where m: "u_malloc U BUFSIZ b = (r, b')" "st b' v" "\<forall>a old. r = Some (a, old) \<longrightarrow> length old = BUFSIZ"
    using mal [OF t(2)] by blast
  have small: "buffer_ok (small_buffer f)" "buff (small_buffer f) \<noteq> None" for f
    by (simp_all add: buffer_ok_def small_buffer_def)
  have "calling (u_isatty U (fileno (strm k s))) s = Some (Ok t (s\<lparr>below := b\<rparr>))"
    using t(1) fd by (simp add: strm_simps)
  then show ?thesis
    using t m k small same_window_small
    by (cases t; cases r)
      (auto simp: getbuff_def strm_simps buffer_ok_def same_window_def Let_def)
qed

lemma need_buff_ok:
  assumes "k < length (Cbuffs s)" "fileno (strm k s) = fd" "st (below s) v" "buffer_ok (strm k s)"
  shows "\<exists>s'. need_buff U k s = Some (Ok () s') \<and> st (below s') v \<and> same_window (strm k s) (strm k s') \<and>
           buff (strm k s') \<noteq> None \<and> buffer_ok (strm k s') \<and> length (Cbuffs s') = length (Cbuffs s)"
  using getbuff_ok [OF assms(1-3)] assms by (auto simp: need_buff_def same_window_def)

end

section \<open>Output\<close>

locale byte_sink = stream_base U fd st
  for U :: "'s calls" and fd :: int and st :: "'s \<Rightarrow> bytes \<Rightarrow> bool" +
  fixes room :: nat
  assumes sink_write: "st s bs \<Longrightarrow> length bs + length d \<le> room \<Longrightarrow>
    \<exists>s'. u_write U fd d s = Some (Ok (int (length d)) s') \<and> st s' (bs @ d)"
begin

text \<open>The bytes put into stream \<open>k\<close> so far are \<open>bs\<close>: those written and those waiting in the buffer.\<close>

definition stream_out :: "nat \<Rightarrow> 's stdio \<Rightarrow> bytes \<Rightarrow> bool" where
  "stream_out k s bs \<longleftrightarrow>
     k < length (Cbuffs s) \<and> fileno (strm k s) = fd \<and> \<not> has F_IOERR (strm k s) \<and> buffer_ok (strm k s) \<and>
     (case bp (strm k s) of
        None \<Rightarrow> bend (strm k s) = None \<and> \<not> has F_DIRTY (strm k s) \<and> st (below s) bs
      | Some p \<Rightarrow> bend (strm k s) = Some (buflen (strm k s)) \<and> has F_DIRTY (strm k s) \<and> buff (strm k s) \<noteq> None \<and>
          1 < buflen (strm k s) \<and> p \<le> buflen (strm k s) \<and>
          (\<exists>out. bs = out @ take p (contents (strm k s)) \<and> st (below s) out))"

lemma write_back_ok:
  assumes o: "stream_out k s bs" and r: "length bs \<le> room"
  shows "\<exists>b. write_back U k s = Some (Ok True (s\<lparr>below := b\<rparr>)) \<and> st b bs"
proof (cases "bp (strm k s)")
  case None
  then have "s\<lparr>below := below s\<rparr> = s" "write_back U k s = Some (Ok True s)" "st (below s) bs"
    using o by (simp_all add: stream_out_def write_back_def)
  then show ?thesis by metis
next
  case (Some p)
  define d where "d = take p (contents (strm k s))"
  obtain out where out: "bs = out @ d" "st (below s) out" using o Some by (auto simp: stream_out_def d_def)
  have len: "length d = p" using o Some by (auto simp: stream_out_def buffer_ok_def d_def)
  obtain b where "u_write U fd d (below s) = Some (Ok (int p) b)" "st b bs"
    using sink_write [OF out(2), of d] out(1) r len by auto
  then show ?thesis using o Some by (auto simp: stream_out_def write_back_def d_def strm_simps)
qed

lemma flush_ok:
  assumes o: "stream_out k s bs" and r: "length bs \<le> room"
  shows "\<exists>s'. flsh U k None s = Some (Ok 0 s') \<and> stream_out k s' bs \<and> st (below s') bs"
proof -
  have o': "stream_out k (s\<lparr>cls_set := True\<rparr>) bs" using o by (simp add: stream_out_def strm_simps split: option.splits)
  obtain b where b: "write_back U k (s\<lparr>cls_set := True\<rparr>) = Some (Ok True (s\<lparr>cls_set := True, below := b\<rparr>))" "st b bs"
    using write_back_ok [OF o' r] by auto
  have k: "k < length (Cbuffs s)" "\<not> has F_IOERR (strm k s)" using o by (auto simp: stream_out_def)
  then show ?thesis using b o
    by (auto simp: flsh_def on_stream_def Let_def strm_simps no_window_def stream_out_def buffer_ok_def fileno_def)
qed

text \<open>Before a seek everything is written and the window is closed.\<close>

lemma settle_ok:
  assumes o: "stream_out k s bs" and r: "length bs \<le> room"
  shows "\<exists>s'. (let s1 = upd_strm k (clear_flag F_EOF) s
               in if has F_DIRTY (strm k s1) then flsh U k None s1 else Some (Ok 0 s1)) = Some (Ok 0 s') \<and>
           k < length (Cbuffs s') \<and> st (below s') bs \<and> fileno (strm k s') = fd \<and> \<not> has F_IOERR (strm k s') \<and>
           \<not> has F_DIRTY (strm k s') \<and> \<not> has F_EOF (strm k s') \<and> buffer_ok (strm k s')"
proof -
  let ?s = "upd_strm k (clear_flag F_EOF) s"
  have k: "k < length (Cbuffs s)" "\<not> has F_IOERR (strm k s)" using o by (auto simp: stream_out_def)
  have o1: "stream_out k ?s bs"
    using o by (auto simp: stream_out_def strm_simps fileno_def buffer_ok_def split: option.splits)
  show ?thesis
  proof (cases "has F_DIRTY (strm k s)")
    case False
    then have "st (below s) bs" using o by (auto simp: stream_out_def split: option.splits)
    then show ?thesis using False o k by (auto simp: stream_out_def strm_simps fileno_def buffer_ok_def)
  next
    case True
    let ?t = "?s\<lparr>cls_set := True\<rparr>"
    have o2: "stream_out k ?t bs" using o1 k(1) by (simp add: stream_out_def strm_simps split: option.splits)
    obtain b where b: "write_back U k ?t = Some (Ok True (?t\<lparr>below := b\<rparr>))" "st b bs"
      using write_back_ok [OF o2 r] by auto
    have f: "fileno (strm k s) = fd" "buffer_ok (strm k s)" using o by (auto simp: stream_out_def)
    show ?thesis using True b k f
      by (auto simp: flsh_def on_stream_def Let_def strm_simps no_window_def buffer_ok_def fileno_def)
  qed
qed

text \<open>One character: into the buffer, or through it.\<close>

lemma put_data_ok:
  assumes k: "k < length (Cbuffs s)" "fileno (strm k s) = fd" "\<not> has F_IOERR (strm k s)" "buffer_ok (strm k s)"
    and w: "bp (strm k s) = None \<and> bend (strm k s) = None \<and> \<not> has F_DIRTY (strm k s) \<or>
            buff (strm k s) \<noteq> None \<and> 1 < buflen (strm k s)"
    and st: "st (below s) bs" and r: "length bs < room"
  shows "\<exists>s'. put_data U k c s = Some (Ok (uint c) s') \<and> stream_out k s' (bs @ [c])"
proof -
  obtain s1 where s1: "need_buff U k s = Some (Ok () s1)" "st (below s1) bs" "same_window (strm k s) (strm k s1)"
    "buff (strm k s1) \<noteq> None" "buffer_ok (strm k s1)" "length (Cbuffs s1) = length (Cbuffs s)"
    using need_buff_ok [OF k(1,2) st k(4)] by blast
  have f: "fileno (strm k s1) = fd" "\<not> has F_IOERR (strm k s1)" "0 < buflen (strm k s1)"
    "length (contents (strm k s1)) = buflen (strm k s1)" "k < length (Cbuffs s1)"
    using s1 k by (auto simp: same_window_def fileno_def buffer_ok_def)
  show ?thesis
  proof (cases "buflen (strm k s1) = 1")
    case True
    have none: "bp (strm k s1) = None" "bend (strm k s1) = None" "\<not> has F_DIRTY (strm k s1)"
      using w s1(1,3) True by (auto simp: same_window_def need_buff_def)
    obtain b where "u_write U fd [c] (below s1) = Some (Ok 1 b)" "st b (bs @ [c])"
      using sink_write [OF s1(2), of "[c]"] r by auto
    then show ?thesis using s1 f none True
      by (auto simp: put_data_def strm_simps stream_out_def)
  next
    case False
    let ?g = "(set_flag F_DIRTY (strm k s1))\<lparr>bp := Some 1, bend := Some (buflen (strm k s1)),
        contents := (contents (strm k s1))[0 := c]\<rparr>"
    have "take 1 ((contents (strm k s1))[0 := c]) = [c]"
      using f(3,4) by (cases "contents (strm k s1)") auto
    then show ?thesis using s1 f False
      by (auto simp: put_data_def store_char_def strm_simps stream_out_def fileno_def buffer_ok_def)
  qed
qed

lemma putc_ok:
  assumes o: "stream_out k s bs" and r: "length bs < room"
  shows "\<exists>s'. putc U c k s = Some (Ok (uint (ucast c :: u8)) s') \<and> stream_out k s' (bs @ [ucast c])"
proof (cases "at_end (strm k s)")
  case True
  let ?s = "s\<lparr>cls_set := True\<rparr>"
  have o': "stream_out k ?s bs" using o by (simp add: stream_out_def strm_simps split: option.splits)
  obtain b where b: "write_back U k ?s = Some (Ok True (?s\<lparr>below := b\<rparr>))" "st b bs"
    using write_back_ok [OF o'] r by auto
  have k: "k < length (Cbuffs s)" "fileno (strm k s) = fd" "\<not> has F_IOERR (strm k s)" "buffer_ok (strm k s)"
    using o by (auto simp: stream_out_def)
  have w: "bp (strm k s) = None \<and> bend (strm k s) = None \<and> \<not> has F_DIRTY (strm k s) \<or>
      buff (strm k s) \<noteq> None \<and> 1 < buflen (strm k s)"
    using o True by (auto simp: stream_out_def at_end_def split: option.splits)
  obtain s' where "put_data U k (ucast c) (?s\<lparr>below := b\<rparr>) = Some (Ok (uint (ucast c :: u8)) s')"
    "stream_out k s' (bs @ [ucast c])"
    using put_data_ok [of k "?s\<lparr>below := b\<rparr>" bs "ucast c"] k w b(2) r by (auto simp: strm_simps)
  then show ?thesis using True k b(1) by (auto simp: putc_def flsh_def on_stream_def Let_def strm_simps)
next
  case False
  then obtain p out where p: "bp (strm k s) = Some p" "bend (strm k s) = Some (buflen (strm k s))" "p < buflen (strm k s)"
    "bs = out @ take p (contents (strm k s))" "st (below s) out" "length (contents (strm k s)) = buflen (strm k s)"
    using o by (auto simp: stream_out_def at_end_def buffer_ok_def split: option.splits)
  have "take (Suc p) ((contents (strm k s))[p := ucast c]) = take p (contents (strm k s)) @ [ucast c]"
    using p(3,6) by (simp add: take_Suc_conv_app_nth)
  then show ?thesis using p o False
    by (auto simp: putc_def on_stream_def store_char_def strm_simps stream_out_def fileno_def buffer_ok_def)
qed

lemma putc_loop_ok:
  "stream_out k s bs \<Longrightarrow> length bs + length cs \<le> room \<Longrightarrow>
   \<exists>s'. putc_loop U cs k s = Some (Ok True s') \<and> stream_out k s' (bs @ cs)"
proof (induction cs arbitrary: s bs)
  case (Cons c cs)
  have id: "ucast (ucast c :: u16) = c" by (rule bit_eqI) (auto simp: bit_simps)
  obtain s1 where s1: "putc U (ucast c) k s = Some (Ok (uint c) s1)" "stream_out k s1 (bs @ [c])"
    using putc_ok [OF Cons.prems(1), of "ucast c"] Cons.prems(2) id by auto
  obtain s' where "putc_loop U cs k s1 = Some (Ok True s')" "stream_out k s' ((bs @ [c]) @ cs)"
    using Cons.IH [OF s1(2)] Cons.prems(2) by auto
  moreover have "uint c \<noteq> EOF" using uint_ge_0 [of c] by linarith
  ultimately show ?case using s1(1) by simp
qed auto

text \<open>A string without its zero, every line feed preceded by a carriage return.\<close>

lemma aputc_ok:
  assumes "stream_out k s bs" "length bs + 1 < room"
  shows "\<exists>s'. aputc U (ucast c) k s = Some (Ok (uint c) s') \<and> stream_out k s' (bs @ newline_pairs [c])"
proof -
  have id: "ucast (ucast c :: u16) = c" by (rule bit_eqI) (auto simp: bit_simps)
  have ten: "(ucast c :: u16) = 10 \<longleftrightarrow> c = 10"
  proof
    assume "(ucast c :: u16) = 10"
    then have "ucast (ucast c :: u16) = (10 :: u8)" by simp
    then show "c = 10" using id by simp
  qed simp
  show ?thesis
  proof (cases "c = 10")
    case True
    obtain s1 where s1: "putc U 13 k s = Some (Ok 13 s1)" "stream_out k s1 (bs @ [13])"
      using putc_ok [OF assms(1), of 13] assms(2) by auto
    show ?thesis using s1 putc_ok [OF s1(2), of 10] assms(2) True by (auto simp: aputc_def newline_pairs_def)
  next
    case False
    then show ?thesis using putc_ok [OF assms(1), of "ucast c"] assms(2) ten id
      by (auto simp: aputc_def newline_pairs_def)
  qed
qed

lemma newline_pairs_Cons: "newline_pairs (c # cs) = newline_pairs [c] @ newline_pairs cs"
  by (simp add: newline_pairs_def)

lemma newline_pairs_room: "length (newline_pairs [c]) \<le> 2" "0 < length (newline_pairs [c])"
  by (simp_all add: newline_pairs_def)

lemma aputc_loop_ok:
  "stream_out k s bs \<Longrightarrow> 0 \<notin> set cs \<Longrightarrow> length bs + length (newline_pairs cs) < room \<Longrightarrow>
   \<exists>s'. aputc_loop U (cs @ [0]) k s = Some (Ok True s') \<and> stream_out k s' (bs @ newline_pairs cs)"
proof (induction cs arbitrary: s bs)
  case Nil
  then show ?case by (simp add: newline_pairs_def)
next
  case (Cons c cs)
  have c: "c \<noteq> 0" "0 \<notin> set cs" using Cons.prems(2) by auto
  have len: "length bs + 1 < room" "length (bs @ newline_pairs [c]) + length (newline_pairs cs) < room"
    using Cons.prems(3) newline_pairs_room(2) [of c]
    by (simp_all only: newline_pairs_Cons [of c cs] length_append add.assoc)
  obtain s1 where s1: "aputc U (ucast c) k s = Some (Ok (uint c) s1)" "stream_out k s1 (bs @ newline_pairs [c])"
    using aputc_ok [OF Cons.prems(1) len(1)] by blast
  obtain s' where "aputc_loop U (cs @ [0]) k s1 = Some (Ok True s')"
    "stream_out k s' ((bs @ newline_pairs [c]) @ newline_pairs cs)"
    using Cons.IH [OF s1(2) c(2) len(2)] by blast
  moreover have "uint c \<noteq> EOF" using uint_ge_0 [of c] by linarith
  ultimately show ?case using s1(1) c(1) newline_pairs_Cons [of c cs] by simp
qed

end

section \<open>Input\<close>

text \<open>Characters that pass the text functions unchanged.\<close>

definition text_char :: "u8 \<Rightarrow> bool" where
  "text_char c \<longleftrightarrow> c < 0x80 \<and> c \<notin> {0, 13, 0x1a}"

fun next_text :: "bytes \<Rightarrow> (u8 \<times> bytes) option" where
  "next_text [] = None"
| "next_text (c # cs) =
     (let d = c AND 127
      in if d = 0x1a then None else if d = 13 \<or> d = 0 then next_text cs else Some (d, cs))"

lemma text_char_and: "text_char c \<Longrightarrow> next_text (c # cs) = Some (c, cs)"
proof -
  assume t: "text_char c"
  then have "unat c < 128" by (simp add: text_char_def word_less_nat_alt)
  then have "unat (c AND 127) = unat c" using and_mask_nat [of "unat c" 7] by (simp add: unsigned_and_eq mask_eq_exp_minus_1)
  then have "c AND 127 = c" by (simp only: word_unat_eq_iff)
  then show ?thesis using t by (simp add: text_char_def)
qed

lemma uint_eq_u8: "0 \<le> n \<Longrightarrow> n < 256 \<Longrightarrow> uint (c :: u8) = n \<longleftrightarrow> c = of_int n"
proof -
  assume "0 \<le> n" "n < 256"
  then have "uint (of_int n :: u8) = n" by (simp add: uint_word_of_int take_bit_eq_mod)
  then show ?thesis by (auto simp: word_uint_eq_iff)
qed

locale byte_source = stream_base U fd st
  for U :: "'s calls" and fd :: int and st :: "'s \<Rightarrow> bytes \<Rightarrow> bool" +
  assumes source_read: "st s rest \<Longrightarrow> 0 < n \<Longrightarrow> n \<le> BUFSIZ \<Longrightarrow>
    \<exists>d rest' s'. rest = d @ rest' \<and> length d \<le> n \<and> (d = [] \<longrightarrow> rest = []) \<and>
      u_read U fd n s = Some (Ok (int (length d), d) s') \<and> st s' rest'"
begin

text \<open>What is left to read from stream \<open>k\<close>: what waits in the buffer, then what the layer below has.\<close>

definition stream_in :: "nat \<Rightarrow> 's stdio \<Rightarrow> bytes \<Rightarrow> bool" where
  "stream_in k s rest \<longleftrightarrow>
     k < length (Cbuffs s) \<and> fileno (strm k s) = fd \<and> \<not> has F_IOERR (strm k s) \<and> \<not> has F_DIRTY (strm k s) \<and>
     buffer_ok (strm k s) \<and>
     (\<exists>r. st (below s) r \<and> (has F_EOF (strm k s) \<longrightarrow> r = []) \<and>
        (case bp (strm k s) of
           None \<Rightarrow> bend (strm k s) = None \<and> rest = r
         | Some p \<Rightarrow>
             (\<exists>e. bend (strm k s) = Some e \<and> p \<le> e \<and> e \<le> buflen (strm k s) \<and> buff (strm k s) \<noteq> None \<and>
                rest = take (e - p) (drop p (contents (strm k s))) @ r)))"

text \<open>A refill of the buffer.\<close>

lemma refill_ok:
  assumes i: "stream_in k s rest" and e: "at_end (strm k s)" "\<not> has F_EOF (strm k s)"
  shows "\<exists>s1 d rest' b. need_buff U k (upd_strm k (clear_flag F_DIRTY) s) = Some (Ok () s1) \<and>
    calling (u_read U (fileno (strm k s1)) (buflen (strm k s1))) s1 = Some (Ok (int (length d), d) (s1\<lparr>below := b\<rparr>)) \<and>
    rest = d @ rest' \<and> (d = [] \<longrightarrow> rest = []) \<and> length d \<le> buflen (strm k s1) \<and> st b rest' \<and>
    k < length (Cbuffs s1) \<and> fileno (strm k s1) = fd \<and> \<not> has F_IOERR (strm k s1) \<and> \<not> has F_DIRTY (strm k s1) \<and>
    \<not> has F_EOF (strm k s1) \<and> buff (strm k s1) \<noteq> None \<and> buffer_ok (strm k s1) \<and>
    bp (strm k s1) = bp (strm k s) \<and> bend (strm k s1) = bend (strm k s) \<and>
    (buff (strm k s) \<noteq> None \<longrightarrow> buflen (strm k s1) = buflen (strm k s))"
proof -
  have k: "k < length (Cbuffs s)" "fileno (strm k s) = fd" "\<not> has F_IOERR (strm k s)" "buffer_ok (strm k s)"
    using i by (auto simp: stream_in_def)
  have st: "st (below s) rest" using i e(1) by (auto simp: stream_in_def at_end_def split: option.splits)
  let ?s = "upd_strm k (clear_flag F_DIRTY) s"
  have "fileno (strm k ?s) = fd" "buffer_ok (strm k ?s)"
    using k by (simp_all add: strm_simps fileno_def buffer_ok_def)
  then obtain s1 where s1: "need_buff U k ?s = Some (Ok () s1)" "st (below s1) rest"
    "same_window (strm k ?s) (strm k s1)" "buff (strm k s1) \<noteq> None" "buffer_ok (strm k s1)"
    "length (Cbuffs s1) = length (Cbuffs s)"
    using need_buff_ok [of k ?s rest] k(1) st by (auto simp: strm_simps)
  have b: "0 < buflen (strm k s1)" "buflen (strm k s1) \<le> BUFSIZ" using s1(4,5) by (auto simp: buffer_ok_def)
  have f: "fileno (strm k s1) = fd" using s1(3) k by (simp add: same_window_def strm_simps fileno_def)
  obtain d rest' b' where "rest = d @ rest'" "length d \<le> buflen (strm k s1)" "d = [] \<longrightarrow> rest = []"
    "u_read U fd (buflen (strm k s1)) (below s1) = Some (Ok (int (length d), d) b')" "st b' rest'"
    using source_read [OF s1(2) b] by blast
  moreover have "buff (strm k s) \<noteq> None \<longrightarrow> buflen (strm k s1) = buflen (strm k s)"
    using s1(1) k(1) by (auto simp: need_buff_def strm_simps split: if_splits)
  ultimately show ?thesis using s1 f k e(2)
    by (intro exI [of _ s1] exI [of _ d] exI [of _ rest'] exI [of _ b'])
      (auto simp: strm_simps same_window_def)
qed

lemma getc_ok:
  assumes i: "stream_in k s rest"
  shows "\<exists>s'. (case rest of [] \<Rightarrow> getc U k s = Some (Ok EOF s') \<and> stream_in k s' []
              | c # cs \<Rightarrow> getc U k s = Some (Ok (uint c) s') \<and> stream_in k s' cs)"
proof -
  have k: "k < length (Cbuffs s)" "\<not> has F_IOERR (strm k s)" using i by (auto simp: stream_in_def)
  consider (window) "\<not> at_end (strm k s)" | (eof) "at_end (strm k s)" "has F_EOF (strm k s)"
    | (refill) "at_end (strm k s)" "\<not> has F_EOF (strm k s)" by blast
  then show ?thesis
  proof cases
    case eof
    then have "rest = []" using i by (auto simp: stream_in_def at_end_def split: option.splits)
    then show ?thesis using eof k i by (simp add: getc_def on_stream_def has_union)
  next
    case window
    then obtain p e r where p: "bp (strm k s) = Some p" "bend (strm k s) = Some e" "p < e" "e \<le> buflen (strm k s)"
      "rest = take (e - p) (drop p (contents (strm k s))) @ r" "st (below s) r" "has F_EOF (strm k s) \<longrightarrow> r = []"
      "length (contents (strm k s)) = buflen (strm k s)"
      using i by (auto simp: stream_in_def at_end_def buffer_ok_def split: option.splits)
    have "rest = contents (strm k s) ! p # take (e - Suc p) (drop (Suc p) (contents (strm k s))) @ r"
      using p(3,4,5,8) by (simp add: Cons_nth_drop_Suc [symmetric] take_Cons')
    then show ?thesis using p k window i
      by (auto simp: getc_def on_stream_def take_char_def strm_simps stream_in_def fileno_def buffer_ok_def)
  next
    case refill
    then obtain s1 d rest' b where s1: "need_buff U k (upd_strm k (clear_flag F_DIRTY) s) = Some (Ok () s1)"
      "calling (u_read U (fileno (strm k s1)) (buflen (strm k s1))) s1 = Some (Ok (int (length d), d) (s1\<lparr>below := b\<rparr>))"
      "rest = d @ rest'" "d = [] \<longrightarrow> rest = []" "length d \<le> buflen (strm k s1)" "st b rest'" "k < length (Cbuffs s1)"
      "fileno (strm k s1) = fd" "\<not> has F_IOERR (strm k s1)" "\<not> has F_DIRTY (strm k s1)" "\<not> has F_EOF (strm k s1)"
      "buff (strm k s1) \<noteq> None" "buffer_ok (strm k s1)" "bp (strm k s1) = bp (strm k s)"
      "bend (strm k s1) = bend (strm k s)" "buff (strm k s) \<noteq> None \<longrightarrow> buflen (strm k s1) = buflen (strm k s)"
      using refill_ok [OF i] by metis
    let ?s = "upd_strm k (filled (int (length d)) d) (s1\<lparr>below := b\<rparr>)"
    have g: "getc U k s = (if d = [] then Some (Ok EOF ?s) else take_char k ?s)"
      using s1(1,2) refill k by (simp add: getc_def on_stream_def has_union Let_def)
    show ?thesis
    proof (cases d)
      case Nil
      have w: "bp (strm k s) = None \<and> bend (strm k s) = None \<or>
          (\<exists>p. bp (strm k s) = Some p \<and> bend (strm k s) = Some p \<and> p \<le> buflen (strm k s) \<and> buff (strm k s) \<noteq> None)"
        using i refill(1) by (auto simp: stream_in_def at_end_def split: option.splits)
      have "stream_in k ?s []"
        using Nil s1 w
        by (auto simp: filled_def Let_def blit_self strm_simps stream_in_def buffer_ok_def fileno_def)
      then show ?thesis using g Nil s1(3,4) by simp
    next
      case (Cons c cs)
      have len: "length (contents (strm k s1)) = buflen (strm k s1)" using s1(12,13) by (simp add: buffer_ok_def)
      have bl: "blit 0 d (contents (strm k s1)) = c # cs @ drop (length d) (contents (strm k s1))"
        using Cons by (simp add: blit_def)
      have "stream_in k (upd_strm k (\<lambda>f. f\<lparr>bp := Some 1\<rparr>) ?s) (cs @ rest')"
        using Cons s1 len bl
        by (auto simp: filled_def Let_def strm_simps stream_in_def buffer_ok_def fileno_def)
      then show ?thesis using g Cons s1(3,5,7) bl len
        by (auto simp: take_char_def strm_simps filled_def Let_def)
    qed
  qed
qed

text \<open>The next character of a text, and the bytes behind it.\<close>

lemma agetc_ok:
  "stream_in k s rest \<Longrightarrow>
   \<exists>s'. (case next_text rest of None \<Rightarrow> agetc U k s = Some (Ok EOF s')
         | Some (c, cs) \<Rightarrow> agetc U k s = Some (Ok (uint c) s') \<and> stream_in k s' cs)"
proof (induction rest arbitrary: s)
  case Nil
  then obtain s' where "getc U k s = Some (Ok EOF s')" using getc_ok by fastforce
  then show ?case by (simp add: agetc.simps)
next
  case (Cons c cs)
  obtain s1 where s1: "getc U k s = Some (Ok (uint c) s1)" "stream_in k s1 cs"
    using getc_ok [OF Cons.prems] by auto
  have n: "uint c \<noteq> EOF" using uint_ge_0 [of c] by linarith
  have a: "uint c AND 127 = uint (c AND 127)" by (simp add: uint_and)
  have u: "agetc U k s =
      (if c AND 127 = 0x1a then Some (Ok EOF (upd_strm k (set_flag F_EOF) s1))
       else if c AND 127 = 13 \<or> c AND 127 = 0 then agetc U k s1 else Some (Ok (uint (c AND 127)) s1))"
    using uint_eq_u8 [of 26 "c AND 127"] uint_eq_u8 [of 13 "c AND 127"] uint_eq_u8 [of 0 "c AND 127"] by (subst agetc.simps) (simp add: s1(1) n a)
  consider "c AND 127 = 0x1a" | "c AND 127 = 13 \<or> c AND 127 = 0" | "c AND 127 \<notin> {0x1a, 13, 0}" by blast
  then show ?case
  proof cases
    case 2
    then have e: "next_text (c # cs) = next_text cs" "agetc U k s = agetc U k s1" using u by (auto simp: Let_def)
    show ?thesis using Cons.IH [OF s1(2)] unfolding e .
  qed (use s1(2) u in \<open>auto simp: Let_def\<close>)
qed

lemma fgets_loop_ok:
  "stream_in k s (newline_pairs line @ [13, 10] @ r) \<Longrightarrow> list_all text_char line \<Longrightarrow> 10 \<notin> set line \<Longrightarrow>
   length line < n \<Longrightarrow>
   \<exists>s'. fgets_loop U n k acc s = Some (Ok (10, acc @ line @ [10]) s') \<and> stream_in k s' r"
proof (induction line arbitrary: s n acc)
  case Nil
  obtain s' where "agetc U k s = Some (Ok 10 s')" "stream_in k s' r"
    using agetc_ok [OF Nil.prems(1)] by (auto simp: newline_pairs_def)
  then show ?case using Nil.prems(4) by (cases n) auto
next
  case (Cons c cs)
  have c: "text_char c" "c \<noteq> 10" using Cons.prems(2,3) by auto
  then have nx: "next_text (newline_pairs (c # cs) @ [13, 10] @ r) = Some (c, newline_pairs cs @ [13, 10] @ r)"
    by (auto simp: newline_pairs_def text_char_and simp del: next_text.simps)
  obtain s1 where s1: "agetc U k s = Some (Ok (uint c) s1)" "stream_in k s1 (newline_pairs cs @ [13, 10] @ r)"
    using agetc_ok [OF Cons.prems(1)] unfolding nx by auto
  obtain m where m: "n = Suc m" using Cons.prems(4) by (cases n) auto
  have "uint c \<noteq> EOF" using uint_ge_0 [of c] by linarith
  moreover have "uint c \<noteq> 10" using c(2) uint_eq_u8 [of 10 c] by simp
  ultimately show ?case using Cons.IH [OF s1(2), of m "acc @ [c]"] Cons.prems(2-4) s1(1) m by auto
qed

end

end
