(* ===== verification/Aztec_Stream_Files.thy ===== *)
theory Aztec_Stream_Files
  imports Aztec_Stream_Spec
begin

text \<open>
  Streams on files: the descriptor functions on a file of records are a sink and a source of bytes,
  so the buffered functions write to and read from the file as an array of bytes.
\<close>

section \<open>Reading up to the end of a file\<close>

lemma blkrd_short:
  assumes "bdos_files B recs" "file_at recs i l m x off"
    and "\<forall>t < a. m (x + of_nat t) = Some (ds t)" "m (x + of_nat a) = None" "a < k"
  shows "\<exists>l'. blkrd B i k l = (k - a, concat (map ds [0..<a]), l') \<and> file_at recs i l' m (x + of_nat a) off"
  using assms(2-5)
proof (induction a arbitrary: l x ds k)
  case 0
  obtain r f' b' where r: "bd_readrn B (ent_fcb (ent i l)) (sys l) = (r, [], f', b')" "r = 1 \<or> r = 4"
    "f_record f' = x" "recs f' b' = m"
    using bdos_filesD(5) [OF assms(1), of "ent_fcb (ent i l)" "sys l"] 0 by (auto simp: file_at_def)
  obtain k' where k: "k = Suc k'" using 0 by (cases k) auto
  show ?case using r 0 k by (auto simp: file_at_def file_simps Let_def)
next
  case (Suc a)
  obtain k' where k: "k = Suc k'" "a < k'" using Suc.prems(4) by (cases k) auto
  have "m x = Some (ds 0)" using Suc.prems(2) [rule_format, of 0] by simp
  then obtain f' b' where r: "bd_readrn B (ent_fcb (ent i l)) (sys l) = (0, ds 0, f', b')"
    "f_record f' = x" "recs f' b' = m"
    using bdos_filesD(4) [OF assms(1), of "ent_fcb (ent i l)" "sys l" "ds 0"] Suc.prems(1)
    by (auto simp: file_at_def)
  define l1 where "l1 = (set_fcb i f' l)\<lparr>sys := b'\<rparr>"
  have v1: "file_at recs i l1 m x off" using Suc.prems(1) r by (auto simp: l1_def file_at_def file_simps)
  have "\<forall>t < a. m (x + 1 + of_nat t) = Some (ds (Suc t))"
    using Suc.prems(2) by (metis Suc_less_eq add.assoc of_nat_Suc add.commute)
  moreover have "m (x + 1 + of_nat a) = None" using Suc.prems(3) by (simp add: add.assoc)
  ultimately obtain l' where l': "blkrd B i k' (next_record i l1) = (k' - a, concat (map (\<lambda>t. ds (Suc t)) [0..<a]), l')"
    "file_at recs i l' m (x + 1 + of_nat a) off"
    using Suc.IH [OF next_record_at(1) [OF assms(1) v1], of "\<lambda>t. ds (Suc t)" k'] k(2) by blast
  have "concat (map ds [0..<Suc a]) = ds 0 @ concat (map (\<lambda>t. ds (Suc t)) [0..<a])"
    by (simp add: map_upt_Suc del: upt_Suc)
  then show ?case using r(1) l' k(1) by (simp add: l1_def [symmetric] add.assoc del: upt_Suc)
qed

lemma recs_present:
  assumes "present m (128 * unat x) (a * 128)" "unat x + a < 65536"
  shows "\<exists>ds. \<forall>t < a. m (x + of_nat t) = Some (ds t)"
proof -
  have "\<exists>d. m (x + of_nat t) = Some d" if "t < a" for t
  proof -
    have "byte_at m (128 * unat x + t * 128) \<noteq> None" using assms(1) that by (auto simp: present_def)
    moreover have "128 * unat x + t * 128 = 128 * unat (x + of_nat t) + 0" using that assms(2) by (simp add: unat_succ)
    ultimately show ?thesis using byte_at_rec [of 0 m "x + of_nat t"] by auto
  qed
  then show ?thesis by metis
qed

lemma blkrd_bytes_short:
  assumes B: "bdos_files B recs" and v: "file_at recs i l m x 0" and a: "unat x + a < 65536" "a < k"
    and pr: "present m (place x 0) (a * 128)" "m (x + of_nat a) = None"
  shows "\<exists>l'. blkrd B i k l = (k - a, bytes_at m (place x 0) (a * 128), l') \<and>
           file_at recs i l' m (x + of_nat a) 0 \<and> place (x + of_nat a) 0 = place x 0 + a * 128"
proof -
  obtain ds where ds: "\<forall>t < a. m (x + of_nat t) = Some (ds t)"
    using recs_present [of m x a] pr(1) a(1) by (auto simp: place_def)
  moreover have "length (ds t) = 128" if "t < a" for t
    using ds that v bdos_filesD(2) [OF B] by (auto simp: file_at_def)
  ultimately have "bytes_at m (place x 0) (a * 128) = concat (map ds [0..<a])"
    using bytes_at_recs [of a m x ds] a(1) by (simp add: place_def)
  then show ?thesis using blkrd_short [OF B v ds pr(2) a(2)] a(1) by (simp add: place_def unat_succ)
qed

lemma getsect_missing:
  assumes "bdos_files B recs" "file_at recs i l m x off" "m x = None"
  shows "\<exists>l'. getsect B i n l = (None, l') \<and> file_at recs i l' m x off"
  using find_sect_missing [OF assms] by (auto simp: getsect_def)

text \<open>Behind the first record, with \<open>a\<close> records left and more asked for.\<close>

lemma read_tail_end:
  assumes B: "bdos_files B recs" and v: "file_at recs i l m x 0" and a: "unat x + a < 65535" "a * 128 < n"
    and pr: "present m (place x 0) (a * 128)" "m (x + of_nat a) = None" and k: "k = n div 128"
    and R: "\<And>d2 l2. R (k - a) d2 l2 = G d2 l2" "\<And>d2 l2. a = k \<Longrightarrow> F d2 l2 = G d2 l2"
  shows "\<exists>l' x' off'.
           (case blkrd B i k l of (j, d2, l2) \<Rightarrow>
              if j \<noteq> 0 then R j d2 l2
              else if k * 128 < n
              then (case getsect B i (n - k * 128) l2 of
                      (None, l3) \<Rightarrow> F d2 l3 | (Some d3, l3) \<Rightarrow> T (d2 @ d3) l3)
              else T d2 l2) = G (bytes_at m (place x 0) (a * 128)) l' \<and>
           file_at recs i l' m x' off' \<and> place x' off' = place x 0 + a * 128"
proof (cases "a < k")
  case True
  obtain l2 where "blkrd B i k l = (k - a, bytes_at m (place x 0) (a * 128), l2)"
    "file_at recs i l2 m (x + of_nat a) 0" "place (x + of_nat a) 0 = place x 0 + a * 128"
    using blkrd_bytes_short [OF B v _ True pr] a(1) by auto
  then show ?thesis using True R(1) by auto
next
  case False
  then have ak: "a = k" using a(2) k by auto
  obtain l2 where s2: "blkrd B i k l = (0, bytes_at m (place x 0) (a * 128), l2)"
    "file_at recs i l2 m (x + of_nat a) 0" "place (x + of_nat a) 0 = place x 0 + a * 128"
    using blkrd_bytes [OF B v, of a] pr(1) a(1) ak by auto
  obtain l3 where "getsect B i (n - k * 128) l2 = (None, l3)" "file_at recs i l3 m (x + of_nat a) 0"
    using getsect_missing [OF B s2(2) pr(2)] by blast
  then show ?thesis using s2 a(2) ak R(2) by auto
qed

lemma filerd_end:
  assumes B: "bdos_files B recs" and v0: "file_at recs i l0 m x off"
    and len: "place x off + r < 8388480" "r < n" "(place x off + r) mod 128 = 0"
    and pr: "present m (place x off) r" "m (of_nat ((place x off + r) div 128)) = None"
  shows "\<exists>l' x' off'. filerd B i n l0 = (r, bytes_at m (place x off) r, l') \<and>
           file_at recs i l' m x' off' \<and> place x' off' = place x off + r"
proof -
  define l where "l = setusr B (user (ent i l0)) l0"
  have v: "file_at recs i l m x off" using file_at_user [OF B v0] by (simp add: l_def)
  have off: "offset (ent i l) = off" "unat off < 128" using v by (simp_all add: file_at_def word_less_nat_alt)
  define h where "h = (if unat off = 0 then 0 else min (128 - unat off) n)"
  have h: "h \<le> r" "unat off \<noteq> 0 \<longrightarrow> 0 < r \<and> unat off + h = 128"
  proof -
    have "128 - unat off \<le> r" "0 < r" if "unat off \<noteq> 0"
    proof -
      have e: "(unat off + r) mod 128 = 0"
        using len(3) mod_mult_self4 [of 128 "unat x" "unat off + r"] by (simp add: place_def add.assoc)
      show "0 < r" using e that off(2) by (cases r) auto
      show "128 - unat off \<le> r" using e that off(2) by (cases "unat off + r < 128") auto
    qed
    then show "h \<le> r" "unat off \<noteq> 0 \<longrightarrow> 0 < r \<and> unat off + h = 128" using len(2) off(2) by (auto simp: h_def)
  qed
  have prs: "present m (place x off) h" "present m (place x off + h) (r - h)" using present_split [OF h(1)] pr(1) by auto
  have x: "unat x < 65535" using len by (simp add: place_def)
  have "\<exists>l1 x1. (if unat off = 0 then (Some [], l) else getsect B i h l) = (Some (bytes_at m (place x off) h), l1) \<and>
      file_at recs i l1 m x1 0 \<and> place x1 0 = place x off + h"
  proof (cases "unat off = 0")
    case True
    then have "off = 0" "h = 0" by (simp_all add: unat_eq_zero h_def)
    then show ?thesis using v by (intro exI [of _ l] exI [of _ x]) simp
  next
    case False
    then show ?thesis using getsect_bytes [OF B v x, of h] h prs(1) off(2) by (auto simp: moved_def)
  qed
  then obtain l1 x1 where s1: "(if unat off = 0 then (Some [], l) else getsect B i h l) =
      (Some (bytes_at m (place x off) h), l1)"
    "file_at recs i l1 m x1 0" "place x1 0 = place x off + h" by blast
  define a where "a = (r - h) div 128"
  have mult: "(place x off + r) mod 128 = 0" "place x off + h = 128 * unat x1" using len(3) s1(3) by (simp_all add: place_def)
  have "(r - h) mod 128 = 0"
  proof -
    have "place x off + r = 128 * unat x1 + (r - h)" using mult(2) h(1) by linarith
    then show ?thesis using mult(1) by simp
  qed
  then have a: "a * 128 = r - h" using div_mult_mod_eq [of "r - h" 128] by (simp add: a_def)
  have xa: "unat x1 + a < 65535" using len(1) mult(2) a h(1) by linarith
  have "(place x off + r) div 128 = unat x1 + a"
  proof -
    have "place x off + r = 128 * (unat x1 + a)" using mult(2) a h(1) by simp
    then show ?thesis by simp
  qed
  then have miss: "m (x1 + of_nat a) = None" using pr(2) xa by simp
  define k where "k = (n - h) div 128"
  define d1 where "d1 = bytes_at m (place x off) h"
  define R where "R = (\<lambda>j d2 l2. ((k - j) * 128 + h, d1 @ d2, rstusr B l2))"
  define F where "F = (\<lambda>d2 l3. (h + k * 128, d1 @ d2, rstusr B l3))"
  define G where "G = (\<lambda>d2 l3. (r, d1 @ d2, rstusr B l3))"
  define T where "T = (\<lambda>d l3. (n, d1 @ d, rstusr B l3))"
  have e: "h + k * 128 < n \<longleftrightarrow> k * 128 < n - h" "n - (h + k * 128) = n - h - k * 128" by linarith+
  have ak: "a \<le> k" unfolding a_def k_def using len(2) by (intro div_le_mono) simp
  have "R (k - a) d2 l2 = G d2 l2" for d2 l2 using ak a h(1) by (simp add: R_def G_def)
  moreover have "a = k \<Longrightarrow> F d2 l2 = G d2 l2" for d2 l2 using a h(1) by (simp add: F_def G_def)
  moreover have "a * 128 < n - h" using a len(2) h(1) by linarith
  moreover have "present m (place x1 0) (a * 128)" using prs(2) s1(3) a by simp
  ultimately obtain l' x' off' where t: "file_at recs i l' m x' off'" "place x' off' = place x1 0 + a * 128"
    "(case blkrd B i k l1 of (j, d2, l2) \<Rightarrow>
        if j \<noteq> 0 then R j d2 l2
        else if k * 128 < n - h
        then (case getsect B i (n - h - k * 128) l2 of
                (None, l3) \<Rightarrow> F d2 l3 | (Some d3, l3) \<Rightarrow> T (d2 @ d3) l3)
        else T d2 l2) = G (bytes_at m (place x1 0) (a * 128)) l'"
    using read_tail_end [OF B s1(2) xa _ _ miss k_def, of R G F T] by blast
  have "filerd B i n l0 = G (bytes_at m (place x1 0) (a * 128)) l'"
    unfolding t(3) [symmetric] filerd_def Let_def l_def [symmetric] off(1) h_def [symmetric] s1(1) k_def [symmetric] e
      R_def T_def F_def d1_def [symmetric]
    by (simp only: prod.case option.case)
  moreover have "d1 @ bytes_at m (place x1 0) (a * 128) = bytes_at m (place x off) r"
    using bytes_at_add [of m "place x off" h "r - h"] h(1) a s1(3) by (simp add: d1_def)
  ultimately show ?thesis using t(1,2) file_at_user(2) [OF B t(1)] s1(3) a h(1) by (auto simp: G_def)
qed

section \<open>Files as sinks and sources\<close>

lemma chantab_blkrd: "chantab (snd (snd (blkrd B i k l))) = chantab l"
proof (induction k arbitrary: l)
  case (Suc k)
  obtain r d f b where r: "bd_readrn B (ent_fcb (ent i l)) (sys l) = (r, d, f, b)" by (metis prod_cases4)
  obtain j ds l2 where j: "blkrd B i k (next_record i ((set_fcb i f l)\<lparr>sys := b\<rparr>)) = (j, ds, l2)" by (metis prod_cases3)
  then have "chantab l2 = chantab l"
    using Suc.IH [of "next_record i ((set_fcb i f l)\<lparr>sys := b\<rparr>)"] by (simp add: file_simps)
  then show ?case using r j by (simp add: Let_def file_simps)
qed simp

lemma chantab_filerd: "chantab (snd (snd (filerd B i n l))) = chantab l"
proof -
  define l1 where "l1 = setusr B (user (ent i l)) l"
  define h where "h = (if unat (offset (ent i l1)) = 0 then 0 else min (128 - unat (offset (ent i l1))) n)"
  define p where "p = (if unat (offset (ent i l1)) = 0 then (Some [], l1) else getsect B i h l1)"
  define k where "k = (n - h) div 128"
  obtain q l2 where p: "p = (q, l2)" by fastforce
  have c2: "chantab l2 = chantab l"
    using chantab_sect(1) [of B i h l1] p by (auto simp: p_def l1_def file_simps split: if_splits)
  obtain j ds l3 where b: "blkrd B i k l2 = (j, ds, l3)" by (metis prod_cases3)
  have c3: "chantab l3 = chantab l" using chantab_blkrd [of B i k l2] b c2 by simp
  have c4: "chantab (snd (getsect B i (n - (h + k * 128)) l3)) = chantab l" using chantab_sect(1) c3 by metis
  have "filerd B i n l = (case (q, l2) of (None, l1) \<Rightarrow> (0, [], rstusr B l1) | (Some d1, l1) \<Rightarrow>
      (case blkrd B i k l1 of (j, d2, l2) \<Rightarrow>
         if j \<noteq> 0 then ((k - j) * 128 + h, d1 @ d2, rstusr B l2)
         else if h + k * 128 < n
         then (case getsect B i (n - (h + k * 128)) l2 of
                 (None, l3) \<Rightarrow> (h + k * 128, d1 @ d2, rstusr B l3)
               | (Some d3, l3) \<Rightarrow> (n, d1 @ d2 @ d3, rstusr B l3))
         else (n, d1 @ d2, rstusr B l2)))"
    unfolding p [symmetric] filerd_def Let_def l1_def [symmetric] h_def [symmetric] p_def [symmetric] k_def [symmetric] ..
  then show ?thesis using b c2 c3 c4
    by (cases q; cases "getsect B i (n - (h + k * 128)) l3"; cases "fst (getsect B i (n - (h + k * 128)) l3)")
      (auto simp: file_simps)
qed

definition file_sunk ::
  "(fcb \<Rightarrow> 'b \<Rightarrow> u16 \<Rightarrow> bytes option) \<Rightarrow> nat \<Rightarrow> nat \<Rightarrow> (u16 \<Rightarrow> bytes option) \<Rightarrow> nat \<Rightarrow> 'b lib \<times> 'h \<Rightarrow> bytes \<Rightarrow> bool" where
  "file_sunk recs fd i m p s bs \<longleftrightarrow>
     file_chan fd i (fst s) \<and> behind i (fst s) (p + length bs) \<and>
     (\<exists>m' x off. file_at recs i (fst s) m' x off \<and> wrote m p bs m' \<and> place x off = p + length bs)"

definition file_left ::
  "(fcb \<Rightarrow> 'b \<Rightarrow> u16 \<Rightarrow> bytes option) \<Rightarrow> nat \<Rightarrow> nat \<Rightarrow> (u16 \<Rightarrow> bytes option) \<Rightarrow> 'b lib \<times> 'h \<Rightarrow> bytes \<Rightarrow> bool" where
  "file_left recs fd i m s rest \<longleftrightarrow>
     file_chan fd i (fst s) \<and>
     (\<exists>x off. file_at recs i (fst s) m x off \<and> present m (place x off) (length rest) \<and>
        rest = bytes_at m (place x off) (length rest) \<and> (place x off + length rest) mod 128 = 0 \<and>
        m (of_nat ((place x off + length rest) div 128)) = None \<and> place x off + length rest < 8388480)"

definition good_malloc :: "(nat \<Rightarrow> 'h \<Rightarrow> (u16 \<times> bytes) option \<times> 'h) \<Rightarrow> bool" where
  "good_malloc mal \<longleftrightarrow> (\<forall>n h a old h'. mal n h = (Some (a, old), h') \<longrightarrow> length old = n)"

lemma file_calls:
  assumes "file_chan fd i l"
  shows "\<exists>t. u_isatty (lib_calls B mal fre) (int fd) (l, h) = Some (Ok t (l, h))"
    and "u_write (lib_calls B mal fre) (int fd) d (l, h) = Some (lower h (case filewr B i d l of (r, l') \<Rightarrow> Ok r l'))"
    and "n < 65536 \<Longrightarrow> u_read (lib_calls B mal fre) (int fd) n (l, h) =
      Some (case filerd B i n l of (n, d, l') \<Rightarrow> Ok (int n, d) (l', h))"
proof -
  show "\<exists>t. u_isatty (lib_calls B mal fre) (int fd) (l, h) = Some (Ok t (l, h))"
    using assms by (simp add: lib_calls_def isatty_fd_def chan_at_def file_chan_def)
  show "u_write (lib_calls B mal fre) (int fd) d (l, h) = Some (lower h (case filewr B i d l of (r, l') \<Rightarrow> Ok r l'))"
    by (simp add: lib_calls_def descriptor_calls(1) [OF assms])
  assume "n < 65536"
  then have "unat (of_nat n :: u16) = n" by (simp add: unat_of_nat_u16)
  then show "u_read (lib_calls B mal fre) (int fd) n (l, h) =
      Some (case filerd B i n l of (n, d, l') \<Rightarrow> Ok (int n, d) (l', h))"
    by (simp add: lib_calls_def descriptor_calls(2) [OF assms] lower_def split: prod.split)
qed

lemma good_malloc_call:
  "good_malloc mal \<Longrightarrow> \<exists>r h'. u_malloc (lib_calls B mal fre) n (l, h) = (r, (l, h')) \<and>
     (\<forall>a old. r = Some (a, old) \<longrightarrow> length old = n)"
  unfolding good_malloc_def by (cases "mal n h") (simp add: lib_calls_def, blast)

lemma file_byte_sink:
  assumes B: "bdos_files B recs" and g: "good_malloc mal" and room: "p + room < 8388480"
  shows "byte_sink (lib_calls B mal fre) (int fd) (file_sunk recs fd i m p) room"
proof
  fix s :: "'a lib \<times> 'b" and bs
  assume s: "file_sunk recs fd i m p s bs"
  obtain l h where lh: "s = (l, h)" by (cases s)
  have ch: "file_chan fd i l" using s lh by (simp add: file_sunk_def)
  show "\<exists>t s'. u_isatty (lib_calls B mal fre) (int fd) s = Some (Ok t s') \<and> file_sunk recs fd i m p s' bs"
    using file_calls(1) [OF ch, of B mal fre h] s lh by auto
  obtain r h' where "u_malloc (lib_calls B mal fre) BUFSIZ s = (r, (l, h'))" "\<forall>a old. r = Some (a, old) \<longrightarrow> length old = BUFSIZ"
    using good_malloc_call [OF g] lh by blast
  then show "\<exists>r s'. u_malloc (lib_calls B mal fre) BUFSIZ s = (r, s') \<and> file_sunk recs fd i m p s' bs \<and>
      (\<forall>a old. r = Some (a, old) \<longrightarrow> length old = BUFSIZ)"
    using s lh by (auto simp: file_sunk_def)
  fix d :: bytes assume r: "length bs + length d \<le> room"
  obtain m1 x off where v: "file_at recs i l m1 x off" "wrote m p bs m1" "place x off = p + length bs"
    "behind i l (p + length bs)"
    using s lh by (auto simp: file_sunk_def)
  have off: "off < 128" using v(1) by (simp add: file_at_def)
  have bound: "place x off + length d < 8388480" using v(3) r room by simp
  have ns: "no_stale i l x off (length d)" by (rule behind_no_stale) (use v off bound in simp_all)
  obtain l' m2 x' off' where w: "filewr B i d l = (int (length d), l')" "file_at recs i l' m2 x' off'"
    "wrote m1 (place x off) d m2" "place x' off' = place x off + length d" "behind i l' (place x' off')"
    using filewr_wrote [OF B v(1) bound ns] v(3,4) by metis
  have "file_chan fd i l'" using chantab_filewr [of B i d l] w(1) ch file_chan_cong by (metis snd_conv)
  moreover have "wrote m p (bs @ d) m2" by (rule wrote_trans [OF v(2)]) (use w(3) v(3) bound in auto)
  ultimately have "file_sunk recs fd i m p (l', h) (bs @ d)"
    using w v(3) by (auto simp: file_sunk_def add.assoc)
  then show "\<exists>s'. u_write (lib_calls B mal fre) (int fd) d s = Some (Ok (int (length d)) s') \<and>
      file_sunk recs fd i m p s' (bs @ d)"
    using file_calls(2) [OF ch, of B mal fre d h] w(1) lh by (auto simp: lower_def)
qed

lemma file_byte_source:
  assumes B: "bdos_files B recs" and g: "good_malloc mal"
  shows "byte_source (lib_calls B mal fre) (int fd) (file_left recs fd i m)"
proof
  fix s :: "'a lib \<times> 'b" and rest
  assume s: "file_left recs fd i m s rest"
  obtain l h where lh: "s = (l, h)" by (cases s)
  have ch: "file_chan fd i l" using s lh by (simp add: file_left_def)
  show "\<exists>t s'. u_isatty (lib_calls B mal fre) (int fd) s = Some (Ok t s') \<and> file_left recs fd i m s' rest"
    using file_calls(1) [OF ch, of B mal fre h] s lh by auto
  obtain r h' where "u_malloc (lib_calls B mal fre) BUFSIZ s = (r, (l, h'))" "\<forall>a old. r = Some (a, old) \<longrightarrow> length old = BUFSIZ"
    using good_malloc_call [OF g] lh by blast
  then show "\<exists>r s'. u_malloc (lib_calls B mal fre) BUFSIZ s = (r, s') \<and> file_left recs fd i m s' rest \<and>
      (\<forall>a old. r = Some (a, old) \<longrightarrow> length old = BUFSIZ)"
    using s lh by (auto simp: file_left_def)
  fix n :: nat assume n: "0 < n" "n \<le> BUFSIZ"
  define c where "c = min n (length rest)"
  obtain x off where v: "file_at recs i l m x off" "present m (place x off) (length rest)"
    "rest = bytes_at m (place x off) (length rest)" "(place x off + length rest) mod 128 = 0"
    "m (of_nat ((place x off + length rest) div 128)) = None" "place x off + length rest < 8388480"
    using s lh by (auto simp: file_left_def)
  have "\<exists>l' x' off'. filerd B i n l = (c, bytes_at m (place x off) c, l') \<and> file_at recs i l' m x' off' \<and>
      place x' off' = place x off + c"
  proof (cases "n \<le> length rest")
    case True
    then show ?thesis using filerd_bytes [OF B v(1), of n] present_split [OF True] v(2,6) n(1) by (auto simp: c_def)
  next
    case False
    then show ?thesis using filerd_end [OF B v(1,6) _ v(4,2,5), of n] by (simp add: c_def min_def)
  qed
  then obtain l' x' off' where w: "filerd B i n l = (c, bytes_at m (place x off) c, l')" "file_at recs i l' m x' off'"
    "place x' off' = place x off + c" by blast
  define rest' where "rest' = drop c rest"
  have c: "c \<le> length rest" "c \<le> n" "c = 0 \<longrightarrow> rest = []" using n(1) by (auto simp: c_def min_def split: if_splits)
  have sp: "bytes_at m (place x off) (length rest) = bytes_at m (place x off) c @ bytes_at m (place x off + c) (length rest - c)"
    using bytes_at_add [of m "place x off" c "length rest - c"] c(1) by simp
  have r: "rest = bytes_at m (place x off) c @ rest'" "rest' = bytes_at m (place x' off') (length rest')"
  proof -
    have e: "rest' = bytes_at m (place x off + c) (length rest - c)"
      using arg_cong [OF trans [OF v(3) sp], of "drop c"] by (simp add: rest'_def)
    show "rest = bytes_at m (place x off) c @ rest'" using trans [OF v(3) sp] unfolding e .
    show "rest' = bytes_at m (place x' off') (length rest')" using e w(3) by (simp add: rest'_def)
  qed
  have "file_chan fd i l'" using chantab_filerd [of B i n l] w(1) ch file_chan_cong by (metis snd_conv)
  moreover have "present m (place x' off') (length rest')"
    using present_split [OF c(1)] v(2) w(3) by (simp add: rest'_def)
  ultimately have "file_left recs fd i m (l', h) rest'"
    using w(2,3) r(2) v(4-6) c(1) unfolding file_left_def
    by (intro conjI exI [of _ x'] exI [of _ off']) (auto simp: rest'_def)
  moreover have "u_read (lib_calls B mal fre) (int fd) n s =
      Some (Ok (int (length (bytes_at m (place x off) c)), bytes_at m (place x off) c) (l', h))"
    using file_calls(3) [OF ch, of n B mal fre h] w(1) n(2) lh by simp
  ultimately show "\<exists>d rest' s'. rest = d @ rest' \<and> length d \<le> n \<and> (d = [] \<longrightarrow> rest = []) \<and>
      u_read (lib_calls B mal fre) (int fd) n s = Some (Ok (int (length d), d) s') \<and> file_left recs fd i m s' rest'"
    using r(1) c(2,3)
    by (intro exI [of _ "bytes_at m (place x off) c"] exI [of _ rest'] exI [of _ "(l', h)"]) (auto simp: bytes_at_def)
qed

section \<open>A file after a write\<close>

text \<open>From the record \<open>x\<close> on the file has its records up to \<open>y\<close>, and none behind.\<close>

definition ends_at :: "(u16 \<Rightarrow> bytes option) \<Rightarrow> nat \<Rightarrow> nat \<Rightarrow> bool" where
  "ends_at m x y \<longleftrightarrow> (\<forall>t. x \<le> t \<and> t < y \<longrightarrow> m (of_nat t) \<noteq> None) \<and> (\<forall>t < 65536. y \<le> t \<longrightarrow> m (of_nat t) = None)"

lemma wrote_ends:
  assumes w: "wrote m p dat m'" and e: "ends_at m (p div 128) y" and len: "p + length dat < 8388352" "y < 65535"
    and off: "p mod 128 = 0 \<or> dat \<noteq> []"
  shows "\<exists>z. ends_at m' (p div 128) z \<and> p + length dat \<le> 128 * z \<and> z < 65535"
proof -
  define z where "z = max y ((p + length dat + 127) div 128)"
  have z: "p + length dat \<le> 128 * z" "z < 65535" using len by (auto simp: z_def)
  have un: "unat (of_nat t :: u16) = t" if "t < 65536" for t using that by (simp add: unat_of_nat_u16)
  have "m' (of_nat t) \<noteq> None" if t: "p div 128 \<le> t" "t < z" for t
  proof (cases "p + length dat \<le> 128 * t")
    case True
    then have "t < y" using t(2) by (auto simp: z_def)
    then show ?thesis using e t(1) wroteD(3) [OF w, of "of_nat t"] True un [of t] z(2) t(2) by (auto simp: ends_at_def)
  next
    case False
    define n where "n = max p (128 * t)"
    have n: "p \<le> n" "n < p + length dat" "n div 128 = t"
    proof -
      show "p \<le> n" by (simp add: n_def)
      have "dat \<noteq> []" using off False t(1) by (cases dat) auto
      then show "n < p + length dat" using False by (simp add: n_def)
      show "n div 128 = t" using t(1) by (auto simp: n_def max_def)
    qed
    have "byte_at m' (p + (n - p)) = Some (dat ! (n - p))" by (rule wroteD(1) [OF w]) (use n in linarith)
    then show ?thesis using n by (auto simp: byte_at_def)
  qed
  moreover have "m' (of_nat t) = None" if "t < 65536" "z \<le> t" for t
    using wroteD(3) [OF w, of "of_nat t"] un [of t] that z(1) e by (auto simp: ends_at_def z_def)
  ultimately show ?thesis using z by (auto simp: ends_at_def)
qed

lemma ends_present:
  assumes "ends_at m (p div 128) z" "p \<le> 128 * z"
  shows "present m p (128 * z - p)"
  unfolding present_def
proof
  fix k assume "k \<in> set [0..<128 * z - p]"
  then have "p div 128 \<le> (p + k) div 128" "(p + k) div 128 < z" by (auto simp: div_le_mono)
  then have "m (of_nat ((p + k) div 128)) \<noteq> None" using assms(1) by (auto simp: ends_at_def)
  then show "byte_at m (p + k) \<noteq> None" by (simp add: byte_at_def)
qed

section \<open>Streams on files\<close>

text \<open>A stream as \<open>fdopen\<close> leaves it, or after a seek: nothing in its buffer, no error.\<close>

definition idle :: "nat \<Rightarrow> stream \<Rightarrow> bool" where
  "idle fd f \<longleftrightarrow> fileno f = int fd \<and> bp f = None \<and> bend f = None \<and> \<not> has F_IOERR f \<and> \<not> has F_DIRTY f \<and>
     \<not> has F_EOF f \<and> buffer_ok f"

text \<open>An idle stream on an open file at the position \<open>place x off\<close>.\<close>

definition stream_file ::
  "(fcb \<Rightarrow> 'b \<Rightarrow> u16 \<Rightarrow> bytes option) \<Rightarrow> nat \<Rightarrow> nat \<Rightarrow> nat \<Rightarrow> ('b lib \<times> 'h) stdio \<Rightarrow> (u16 \<Rightarrow> bytes option) \<Rightarrow>
   u16 \<Rightarrow> u8 \<Rightarrow> bool" where
  "stream_file recs k fd i s m x off \<longleftrightarrow>
     k < length (Cbuffs s) \<and> idle fd (strm k s) \<and> file_chan fd i (fst (below s)) \<and>
     file_at recs i (fst (below s)) m x off \<and> behind i (fst (below s)) (place x off)"

lemma stream_file_out:
  fixes mal :: "nat \<Rightarrow> 'h \<Rightarrow> (u16 \<times> bytes) option \<times> 'h" and s :: "('b lib \<times> 'h) stdio"
  assumes "bdos_files B recs" "good_malloc mal" "place x off + room < 8388480" "stream_file recs k fd i s m x off"
  shows "byte_sink.stream_out (int fd) (file_sunk recs fd i m (place x off)) k s []"
proof -
  have "file_sunk recs fd i m (place x off) (below s) []"
    unfolding file_sunk_def using assms(4) wrote_Nil
    by (intro conjI exI [of _ m] exI [of _ x] exI [of _ off]) (auto simp: stream_file_def)
  then show ?thesis
    using assms(4)
    by (auto simp: byte_sink.stream_out_def [OF file_byte_sink [OF assms(1-3), of "\<lambda>a h. h" fd i m]] stream_file_def
        idle_def)
qed

lemma stream_put_file:
  assumes a: "bdos_files B recs" "good_malloc mal" "place x off + length cs < 8388480"
    and s: "stream_file recs k fd i s m x off"
  shows "\<exists>s1 s2. putc_loop (lib_calls B mal fre) cs k s = Some (Ok True s1) \<and>
    flsh (lib_calls B mal fre) k None s1 = Some (Ok 0 s2) \<and> file_sunk recs fd i m (place x off) (below s2) cs"
proof -
  note sink = file_byte_sink [OF a, of fre fd i m]
  obtain s1 where s1: "putc_loop (lib_calls B mal fre) cs k s = Some (Ok True s1)"
    "byte_sink.stream_out (int fd) (file_sunk recs fd i m (place x off)) k s1 ([] @ cs)"
    using byte_sink.putc_loop_ok [OF sink stream_file_out [OF a s]] by auto
  show ?thesis using s1(1) byte_sink.flush_ok [OF sink s1(2)] by auto
qed

lemma seek_file:
  assumes B: "bdos_files B recs" and s: "file_sunk recs fd i m p (l, h) bs" and p: "p + length bs < 8388480"
  shows "\<exists>l' m' x off. u_lseek (lib_calls B mal fre) (int fd) (of_nat p) 0 (l, h) = Some (Ok (int p) (l', h)) \<and>
    file_chan fd i l' \<and> file_at recs i l' m' x off \<and> place x off = p \<and> wrote m p bs m'"
proof -
  obtain m' x off where v: "file_at recs i l m' x off" "wrote m p bs m'" "file_chan fd i l"
    using s by (auto simp: file_sunk_def)
  obtain l' x' off' where w: "seek_to i (of_nat p) l = (int p, l')" "file_at recs i l' m' x' off'" "place x' off' = p"
    "chantab l' = chantab l"
    using seek_to_at [OF B v(1), of p] p by auto
  have "file_chan fd i l'" using v(3) w(4) file_chan_cong by blast
  then show ?thesis using v w descriptor_calls(3) [OF v(3)] by (auto simp: lib_calls_def lower_def)
qed

text \<open>The file read from where bytes were written.\<close>

lemma file_left_wrote:
  assumes v: "file_chan fd i l" "file_at recs i l m' x off" "wrote m p bs m'" "place x off = p"
    and e: "ends_at m (p div 128) y" and len: "p + length bs < 8388352" "y < 65535" and ne: "bs \<noteq> []"
  shows "\<exists>r. file_left recs fd i m' (l, h) (bs @ r)"
proof -
  obtain z where z: "ends_at m' (p div 128) z" "p + length bs \<le> 128 * z" "z < 65535"
    using wrote_ends [OF v(3) e len] ne by auto
  define n where "n = 128 * z - p"
  have pr: "present m' p n" using ends_present [OF z(1)] z(2) by (simp add: n_def)
  have "bytes_at m' p n = bs @ bytes_at m' (p + length bs) (n - length bs)"
    using bytes_at_add [of m' p "length bs" "n - length bs"] bytes_at_wrote(1) [OF v(3)] z(2) by (simp add: n_def)
  moreover have "length (bs @ bytes_at m' (p + length bs) (n - length bs)) = n" using z(2) by (simp add: n_def)
  moreover have "p + n = 128 * z" using z(2) by (simp add: n_def)
  moreover have "m' (of_nat z) = None" using z(1,3) by (simp add: ends_at_def)
  ultimately have "file_left recs fd i m' (l, h) (bs @ bytes_at m' (p + length bs) (n - length bs))"
    using v pr z(3) unfolding file_left_def by (intro conjI exI [of _ x] exI [of _ off]) auto
  then show ?thesis by blast
qed

lemma fputs_ok:
  assumes a: "bdos_files B recs" "good_malloc mal" "place x off + length (newline_pairs cs) < 8388479" and nz: "0 \<notin> set cs"
    and s: "stream_file recs k fd i s m x off"
  shows "\<exists>s1. fputs (lib_calls B mal fre) (cs @ [0]) k s = Some (Ok 0 s1) \<and>
    byte_sink.stream_out (int fd) (file_sunk recs fd i m (place x off)) k s1 (newline_pairs cs)"
proof -
  have room: "place x off + Suc (length (newline_pairs cs)) < 8388480" using a(3) by simp
  show ?thesis
    using byte_sink.aputc_loop_ok [OF file_byte_sink [OF a(1,2) room, of fre fd i m] stream_file_out [OF a(1,2) room s] nz]
    by (auto simp: fputs_def)
qed

lemma text_roundtrip:
  fixes mal :: "nat \<Rightarrow> 'h \<Rightarrow> (u16 \<times> bytes) option \<times> 'h" and s :: "('b lib \<times> 'h) stdio"
  assumes a: "bdos_files B recs" "good_malloc mal" and s: "stream_file recs k fd i s m x off"
    and e: "ends_at m (unat x) y" "y < 65535" "place x off + length line < 8388000"
    and line: "list_all text_char line" "10 \<notin> set line" "int (length line) + 1 < n"
  shows "\<exists>s1 s2 s3. fputs (lib_calls B mal fre) (line @ [10, 0]) k s = Some (Ok 0 s1) \<and>
    fseek (lib_calls B mal fre) k (of_nat (place x off)) 0 s1 = Some (Ok 0 s2) \<and>
    fgets (lib_calls B mal fre) n k s2 = Some (Ok (Some (line @ [10])) s3)"
proof -
  let ?U = "lib_calls B mal fre" and ?p = "place x off"
  have np: "newline_pairs (line @ [10]) = newline_pairs line @ [13, 10]" "newline_pairs line = line"
    using line(2) by (induction line) (auto simp: newline_pairs_def)
  have room: "?p + (length line + 3) < 8388480" using e(3) by simp
  have nz: "0 \<notin> set (line @ [10])" using line(1) by (auto simp: text_char_def list_all_iff)
  obtain s1 where s1: "fputs ?U ((line @ [10]) @ [0]) k s = Some (Ok 0 s1)"
    "byte_sink.stream_out (int fd) (file_sunk recs fd i m ?p) k s1 (line @ [13, 10])"
    using fputs_ok [OF a _ nz s, of fre] e(3) np by auto
  obtain s2 where s2: "(let s0 = upd_strm k (clear_flag F_EOF) s1
       in if has F_DIRTY (strm k s0) then flsh ?U k None s0 else Some (Ok 0 s0)) = Some (Ok 0 s2)"
    "k < length (Cbuffs s2)" "file_sunk recs fd i m ?p (below s2) (line @ [13, 10])" "fileno (strm k s2) = int fd"
    "\<not> has F_IOERR (strm k s2)" "\<not> has F_DIRTY (strm k s2)" "\<not> has F_EOF (strm k s2)" "buffer_ok (strm k s2)"
    using byte_sink.settle_ok [OF file_byte_sink [OF a room, of fre fd i m] s1(2)] by auto
  obtain l h where lh: "below s2 = (l, h)" by fastforce
  obtain l' m' x' off' where w: "u_lseek ?U (int fd) (of_nat ?p) 0 (l, h) = Some (Ok (int ?p) (l', h))"
    "file_chan fd i l'" "file_at recs i l' m' x' off'" "place x' off' = ?p" "wrote m ?p (line @ [13, 10]) m'"
    using seek_file [OF a(1), of fd i m ?p l h "line @ [13, 10]" mal fre] s2(3) lh e(3) by auto
  define s3 where "s3 = (upd_strm k no_window s2)\<lparr>below := (l', h)\<rparr>"
  have off: "unat off < 128" using s by (simp add: stream_file_def file_at_def word_less_nat_alt)
  have dv: "?p div 128 = unat x" using off by (simp add: place_def)
  obtain r where r: "file_left recs fd i m' (l', h) ((line @ [13, 10]) @ r)"
    using file_left_wrote [OF w(2,3,5,4), of y h] e dv by auto
  have k1: "k < length (Cbuffs s1)"
    using s1(2) by (simp add: byte_sink.stream_out_def [OF file_byte_sink [OF a room, of fre fd i m]])
  have fs: "fseek ?U k (of_nat ?p) 0 s1 = Some (Ok 0 s3)"
    using s2(1,2,4) lh w(1) k1
    by (simp add: fseek_def on_stream_def Let_def strm_simps s3_def no_window_def fileno_def)
  note src = file_byte_source [OF a, of fre fd i m']
  have "byte_source.stream_in (int fd) (file_left recs fd i m') k s3 (newline_pairs line @ [13, 10] @ r)"
    unfolding byte_source.stream_in_def [OF src]
    using s2 r np(2) by (auto simp: s3_def strm_simps no_window_def fileno_def buffer_ok_def has_def)
  moreover have len: "length line < nat (n - 1)" using line(3) by linarith
  ultimately have "\<exists>s4. fgets_loop ?U (nat (n - 1)) k [] s3 = Some (Ok (10, line @ [10]) s4)"
    using byte_source.fgets_loop_ok [OF src _ line(1,2) len, of k s3 r "[]"] by auto
  then have "\<exists>s4. fgets ?U n k s3 = Some (Ok (Some (line @ [10])) s4)" using line(3) by (auto simp: fgets_def)
  then show ?thesis using s1(1) fs by auto
qed

section \<open>The interfaces on files\<close>

text \<open>An open file at byte \<open>p\<close> is a sink and a source; the descriptor layer over the record store is one.\<close>

locale open_file =
  fixes B :: "'b bdos" and recs :: "fcb \<Rightarrow> 'b \<Rightarrow> u16 \<Rightarrow> bytes option"
    and mal :: "nat \<Rightarrow> 'h \<Rightarrow> (u16 \<times> bytes) option \<times> 'h" and fre :: "u16 \<Rightarrow> 'h \<Rightarrow> 'h"
    and fd :: nat and i :: nat and m :: "u16 \<Rightarrow> bytes option" and p :: nat
  assumes files: "bdos_files B recs" and alloc: "good_malloc mal" and inside: "p < 8388480"

sublocale open_file \<subseteq> out: byte_sink "lib_calls B mal fre" "int fd" "file_sunk recs fd i m p" "8388479 - p"
  by (rule file_byte_sink) (use files alloc inside in auto)

sublocale open_file \<subseteq> inp: byte_source "lib_calls B mal fre" "int fd" "file_left recs fd i m"
  by (rule file_byte_source) (use files alloc in auto)

end
