(* ===== verification/Aztec_Malloc.thy ===== *)
theory Aztec_Malloc
  imports CPM_Prelude
begin

text \<open>
  The storage allocator of the C library in \<^verbatim>\<open>disks/I/2\<close>: \<^verbatim>\<open>MALLOC.C\<close>, \<^verbatim>\<open>CALLOC.C\<close>, with \<^verbatim>\<open>SBRK.ASM\<close>,
  \<^verbatim>\<open>MOVMEM.ASM\<close> and \<^verbatim>\<open>SETMEM.ASM\<close>. Addresses are 16 bits wide and the memory is one array of bytes, so
  that headers and data of the blocks may overlap when the code lets them.
\<close>

section \<open>Memory\<close>

type_synonym memory = "u16 \<Rightarrow> u8"

definition peek16 :: "u16 \<Rightarrow> memory \<Rightarrow> u16" where
  "peek16 a m = le16 (m a) (m (a + 1))"

definition poke16 :: "u16 \<Rightarrow> u16 \<Rightarrow> memory \<Rightarrow> memory" where
  "poke16 a v m = m(a := lo8 v, a + 1 := hi8 v)"

text \<open>A header at \<open>p\<close> (\<open>FREE\<close>): the size of the block in units of four bytes, and the link.\<close>

definition f_size :: "memory \<Rightarrow> u16 \<Rightarrow> u16" where "f_size m p = peek16 p m"
definition f_chain :: "memory \<Rightarrow> u16 \<Rightarrow> u16" where "f_chain m p = peek16 (p + 2) m"
definition set_size :: "u16 \<Rightarrow> u16 \<Rightarrow> memory \<Rightarrow> memory" where "set_size p v = poke16 p v"
definition set_chain :: "u16 \<Rightarrow> u16 \<Rightarrow> memory \<Rightarrow> memory" where "set_chain p v = poke16 (p + 2) v"

record heap =
  h_mem :: memory
  h_memry :: u16
  h_sbot :: u16
  h_head :: u16
  h_last :: u16

abbreviation (input) GRAIN :: u16 where "GRAIN \<equiv> 1024"

section \<open>Assembler functions\<close>

definition sbrk :: "u16 \<Rightarrow> heap \<Rightarrow> u16 \<times> heap" where
  "sbrk sz h =
     (let top = unat (h_memry h) + unat sz in
      if 65536 \<le> top \<or> unat (h_sbot h) < top then (0xFFFF, h)
      else (h_memry h, h\<lparr>h_memry := of_nat top\<rparr>))"

definition rsvstk :: "u16 \<Rightarrow> u16 \<Rightarrow> heap \<Rightarrow> heap" where
  "rsvstk sp sz h = h\<lparr>h_sbot := sp + 2 - sz\<rparr>"

primrec setmem_loop :: "nat \<Rightarrow> u16 \<Rightarrow> u8 \<Rightarrow> memory \<Rightarrow> memory" where
  "setmem_loop 0 p v m = m"
| "setmem_loop (Suc n) p v m = setmem_loop n (p + 1) v (m(p := v))"

definition setmem :: "u16 \<Rightarrow> u16 \<Rightarrow> u8 \<Rightarrow> memory \<Rightarrow> memory" where
  "setmem area len v = setmem_loop (unat len) area v"

primrec downloop :: "nat \<Rightarrow> u16 \<Rightarrow> u16 \<Rightarrow> memory \<Rightarrow> memory" where
  "downloop 0 src dst m = m"
| "downloop (Suc n) src dst m = downloop n (src + 1) (dst + 1) (m(dst := m src))"

primrec uploop :: "nat \<Rightarrow> u16 \<Rightarrow> u16 \<Rightarrow> memory \<Rightarrow> memory" where
  "uploop 0 src dst m = m"
| "uploop (Suc n) src dst m = uploop n (src - 1) (dst - 1) (m(dst - 1 := m (src - 1)))"

text \<open>The counter is tested behind the first move, so that a length of 0 moves 65536 bytes.\<close>

definition movmem :: "u16 \<Rightarrow> u16 \<Rightarrow> u16 \<Rightarrow> memory \<Rightarrow> memory" where
  "movmem src dst len m =
     (let n = (if len = 0 then 65536 else unat len) in
      if src < dst then downloop n src dst m
      else if src = dst then m
      else uploop n (src + len) (dst + len) m)"

section \<open>The allocator\<close>

partial_function (option) free_find :: "memory \<Rightarrow> u16 \<Rightarrow> u16 \<Rightarrow> u16 option" where
  "free_find m hole tp =
     (if tp > hole \<or> hole > f_chain m tp
      then if tp \<ge> f_chain m tp \<and> (hole > tp \<or> hole < f_chain m tp) then Some tp
           else free_find m hole (f_chain m tp)
      else Some tp)"

declare free_find.simps [code]

definition free :: "u16 \<Rightarrow> heap \<Rightarrow> (u16 \<times> heap) option" where
  "free area h =
     (let hole = area - 4 in
      if f_chain (h_mem h) hole \<noteq> 0 then Some (0xFFFF, h)
      else Option.bind (free_find (h_mem h) hole (h_last h)) (\<lambda>tp.
        let m1 = set_chain hole (f_chain (h_mem h) tp) (h_mem h);
            m2 = set_chain tp hole m1
        in Some (0, h\<lparr>h_mem := m2, h_last := tp\<rparr>)))"

definition merge :: "u16 \<Rightarrow> heap \<Rightarrow> heap" where
  "merge tp h =
     (let nx = f_chain (h_mem h) tp;
          l = (if h_last h = nx then f_chain (h_mem h) nx else h_last h);
          m1 = set_size tp (f_size (h_mem h) tp + f_size (h_mem h) nx) (h_mem h);
          m2 = set_chain tp (f_chain m1 (f_chain m1 tp)) m1
      in h\<lparr>h_mem := m2, h_last := l\<rparr>)"

partial_function (option) coalesce :: "u16 \<Rightarrow> heap \<Rightarrow> heap option" where
  "coalesce tp h =
     (if tp \<noteq> f_chain (h_mem h) tp \<and> tp + 4 * f_size (h_mem h) tp = f_chain (h_mem h) tp
      then coalesce tp (merge tp h) else Some h)"

declare coalesce.simps [code]

definition take_block :: "u16 \<Rightarrow> u16 \<Rightarrow> u16 \<Rightarrow> heap \<Rightarrow> u16 \<times> heap" where
  "take_block units prev tp h =
     (let m = h_mem h;
          m1 = (if f_size m tp = units then set_chain prev (f_chain m tp) m
                else let l = tp + 4 * units;
                         a = set_chain prev l m;
                         b = set_chain l (f_chain a tp) a;
                         c = set_size l (f_size b tp - units) b
                     in set_size tp units c)
      in (tp + 4, h\<lparr>h_mem := set_chain tp 0 m1, h_last := prev\<rparr>))"

partial_function (option) malloc_loop :: "u16 \<Rightarrow> u16 \<Rightarrow> u16 \<Rightarrow> heap \<Rightarrow> (u16 \<times> heap) option" where
  "malloc_loop units prev tp h =
     Option.bind (coalesce tp h) (\<lambda>h1.
       if f_size (h_mem h1) tp \<ge> units then Some (take_block units prev tp h1)
       else if tp = h_last h1
       then let tp1 = fst (sbrk GRAIN h1); h2 = snd (sbrk GRAIN h1) in
            if tp1 = 0xFFFF then Some (0, h2)
            else Option.bind (free (tp1 + 4) (h2\<lparr>h_mem := set_chain tp1 0 (set_size tp1 (GRAIN div 4) (h_mem h2))\<rparr>))
                   (\<lambda>r. let h3 = snd r in malloc_loop units (h_last h3) (f_chain (h_mem h3) (h_last h3)) h3)
       else malloc_loop units tp (f_chain (h_mem h1) tp) h1)"

declare malloc_loop.simps [code]

definition malloc :: "u16 \<Rightarrow> heap \<Rightarrow> (u16 \<times> heap) option" where
  "malloc sz h =
     (let units = (sz + 3) div 4 + 1;
          hs = (if h_last h = 0
                then h\<lparr>h_mem := set_chain (h_head h) (h_head h) (h_mem h), h_last := h_head h\<rparr> else h)
      in malloc_loop units (h_last hs) (f_chain (h_mem hs) (h_last hs)) hs)"

definition realloc :: "u16 \<Rightarrow> u16 \<Rightarrow> heap \<Rightarrow> (u16 \<times> heap) option" where
  "realloc area sz h =
     (let osize = (f_size (h_mem h) (area - 4) - 1) * 4 in
      Option.bind (free area h) (\<lambda>r. Option.bind (malloc sz (snd r)) (\<lambda>(cp, h2).
        Some (cp, if cp \<noteq> 0 \<and> cp \<noteq> area
                  then h2\<lparr>h_mem := movmem area cp (if sz > osize then osize else sz) (h_mem h2)\<rparr>
                  else h2))))"

definition calloc :: "u16 \<Rightarrow> u16 \<Rightarrow> heap \<Rightarrow> (u16 \<times> heap) option" where
  "calloc nelem sz h =
     (let i = nelem * sz in
      Option.bind (malloc i h) (\<lambda>(cp, h1).
        Some (cp, if cp \<noteq> 0 then h1\<lparr>h_mem := setmem cp i 0 (h_mem h1)\<rparr> else h1)))"

end
