(* ===== verification/Aztec_Heap.thy ===== *)
theory Aztec_Heap
  imports Aztec_Malloc
begin

text \<open>
  Correctness of the allocator: the circular list of free blocks, the invariant that separates all
  blocks, and what \<open>malloc\<close>, \<open>free\<close>, \<open>realloc\<close> and \<open>calloc\<close> do with it.
\<close>

section \<open>Headers in memory\<close>

definition apart :: "u16 \<Rightarrow> u16 \<Rightarrow> bool" where
  "apart p q \<longleftrightarrow> unat p + 4 \<le> unat q \<or> unat q + 4 \<le> unat p"

definition spaced :: "u16 set \<Rightarrow> bool" where
  "spaced N \<longleftrightarrow> (\<forall>p \<in> N. unat p + 4 \<le> 65536) \<and> (\<forall>p \<in> N. \<forall>q \<in> N. p \<noteq> q \<longrightarrow> apart p q)"

lemma word_offset: "unat p + k < 65536 \<Longrightarrow> unat (p + of_nat k :: u16) = unat p + k"
  by (simp add: unat_word_ariths unat_of_nat)

lemma header_offsets:
  assumes "unat (p :: u16) + 4 \<le> 65536"
  shows "unat (p + 1) = unat p + 1" "unat (p + 2) = unat p + 2" "unat (p + 3) = unat p + 3" "p + 2 + 1 = p + 3"
  using word_offset [of p 1] word_offset [of p 2] word_offset [of p 3] assms by (simp_all add: add.assoc)

lemma poke_outside: "unat p + 2 \<le> 65536 \<Longrightarrow> unat x < unat p \<or> unat p + 2 \<le> unat x \<Longrightarrow> poke16 p v m x = m x"
  using word_offset [of p 1] by (auto simp: poke16_def)

lemma set_outside:
  assumes "unat p + 4 \<le> 65536" "unat x < unat p \<or> unat p + 4 \<le> unat x"
  shows "set_size p v m x = m x" "set_chain p v m x = m x"
  unfolding set_size_def set_chain_def
  by (rule poke_outside; use assms header_offsets [OF assms(1)] in linarith)+

lemma peek_poke: "unat p + 2 \<le> 65536 \<Longrightarrow> peek16 p (poke16 p v m) = v"
  using word_offset [of p 1] by (auto simp: peek16_def poke16_def)

lemma peek_poke_other:
  assumes "unat p + 2 \<le> 65536" "unat q + 2 \<le> 65536" "unat p + 2 \<le> unat q \<or> unat q + 2 \<le> unat p"
  shows "peek16 q (poke16 p v m) = peek16 q m"
proof -
  have "unat (q + 1) = unat q + 1" using word_offset [of q 1] assms(2) by simp
  then have "poke16 p v m q = m q" "poke16 p v m (q + 1) = m (q + 1)"
    by (rule_tac [!] poke_outside) (use assms in auto)
  then show ?thesis by (simp add: peek16_def)
qed

lemma header_same:
  assumes "unat p + 4 \<le> 65536"
  shows "f_size (set_size p v m) p = v" "f_chain (set_chain p v m) p = v"
    "f_size (set_chain p v m) p = f_size m p" "f_chain (set_size p v m) p = f_chain m p"
  using assms header_offsets [OF assms]
  by (simp_all add: f_size_def f_chain_def set_size_def set_chain_def peek_poke peek_poke_other)

lemma header_apart:
  assumes "unat p + 4 \<le> 65536" "unat q + 4 \<le> 65536" "apart p q"
  shows "f_size (set_size p v m) q = f_size m q" "f_chain (set_chain p v m) q = f_chain m q"
    "f_size (set_chain p v m) q = f_size m q" "f_chain (set_size p v m) q = f_chain m q"
  using assms header_offsets [OF assms(1)] header_offsets [OF assms(2)]
  by (auto simp: f_size_def f_chain_def set_size_def set_chain_def apart_def intro!: peek_poke_other)

text \<open>On headers that lie apart the memory behaves like two functions.\<close>

lemma headers:
  assumes "spaced N" "p \<in> N" "q \<in> N"
  shows "f_size (set_size p v m) q = (if q = p then v else f_size m q)"
    "f_chain (set_chain p v m) q = (if q = p then v else f_chain m q)"
    "f_size (set_chain p v m) q = f_size m q" "f_chain (set_size p v m) q = f_chain m q"
proof -
  have b: "unat p + 4 \<le> 65536" "unat q + 4 \<le> 65536" "q \<noteq> p \<longrightarrow> apart p q"
    using assms unfolding spaced_def by fast+
  show "f_size (set_size p v m) q = (if q = p then v else f_size m q)"
    "f_chain (set_chain p v m) q = (if q = p then v else f_chain m q)"
    "f_size (set_chain p v m) q = f_size m q" "f_chain (set_size p v m) q = f_chain m q"
    using header_same [OF b(1)] header_apart [OF b(1,2)] b(3) by (cases "q = p"; simp)+
qed

lemma header_bytes: "m p = m' p \<Longrightarrow> m (p + 1) = m' (p + 1) \<Longrightarrow> m (p + 2) = m' (p + 2) \<Longrightarrow> m (p + 3) = m' (p + 3) \<Longrightarrow>
    f_size m p = f_size m' p \<and> f_chain m p = f_chain m' p"
  by (simp add: f_size_def f_chain_def peek16_def add.assoc)

section \<open>Circular lists\<close>

primrec path :: "(u16 \<Rightarrow> u16) \<Rightarrow> u16 \<Rightarrow> u16 list \<Rightarrow> u16 \<Rightarrow> bool" where
  "path c x [] z \<longleftrightarrow> x = z"
| "path c x (y # ys) z \<longleftrightarrow> x = y \<and> path c (c y) ys z"

definition cyc :: "(u16 \<Rightarrow> u16) \<Rightarrow> u16 list \<Rightarrow> bool" where
  "cyc c xs \<longleftrightarrow> distinct xs \<and> xs \<noteq> [] \<and> path c (hd xs) xs (hd xs)"

lemma path_append: "path c x (xs @ ys) z \<longleftrightarrow> (\<exists>y. path c x xs y \<and> path c y ys z)"
  by (induction xs arbitrary: x) auto

lemma path_cong: "(\<And>x. x \<in> set xs \<Longrightarrow> c x = c' x) \<Longrightarrow> path c x xs z = path c' x xs z"
  by (induction xs arbitrary: x) auto

lemma path_hd: "path c x xs z \<Longrightarrow> xs \<noteq> [] \<Longrightarrow> x = hd xs"
  by (cases xs) auto

lemma path_snoc: "path c x (xs @ [y]) z \<longleftrightarrow> path c x xs y \<and> c y = z"
  by (auto simp: path_append)

lemma cyc_cong: "(\<And>x. x \<in> set xs \<Longrightarrow> c x = c' x) \<Longrightarrow> cyc c xs = cyc c' xs"
  unfolding cyc_def using path_cong by metis

lemma cyc_rotate: "cyc c (xs @ ys) \<Longrightarrow> cyc c (ys @ xs)"
proof (cases "xs = [] \<or> ys = []")
  case False
  assume a: "cyc c (xs @ ys)"
  then obtain y where "path c (hd xs) xs y" "path c y ys (hd xs)" using False by (auto simp: cyc_def path_append)
  moreover then have "y = hd ys" using path_hd False by blast
  ultimately show ?thesis using a False by (auto simp: cyc_def path_append)
qed auto

lemma cyc_starts: "cyc c xs \<Longrightarrow> x \<in> set xs \<Longrightarrow> \<exists>ys. cyc c (x # ys) \<and> set (x # ys) = set xs"
  using cyc_rotate [of c _ "x # _"] by (auto simp: in_set_conv_decomp) fastforce

lemma cyc_next: "cyc c (x # xs) \<Longrightarrow> c x = hd (xs @ [x])"
  using path_hd [of c "c x" xs x] by (cases xs) (auto simp: cyc_def)

lemma cyc_second: "cyc c (x # y # xs) \<Longrightarrow> c x = y \<and> c y = hd (xs @ [x])"
  using path_hd [of c "c y" xs x] by (cases xs) (auto simp: cyc_def)

lemma cyc_closed: "cyc c xs \<Longrightarrow> x \<in> set xs \<Longrightarrow> c x \<in> set xs"
proof -
  assume a: "cyc c xs" "x \<in> set xs"
  then obtain ys where ys: "cyc c (x # ys)" "set (x # ys) = set xs" using cyc_starts by blast
  have "hd (ys @ [x]) \<in> set (ys @ [x])" by (rule hd_in_set) simp
  then show ?thesis using cyc_next [OF ys(1)] ys(2) by auto
qed

lemma cyc_path: "cyc c (x # xs) \<longleftrightarrow> distinct (x # xs) \<and> path c (c x) xs x"
  by (auto simp: cyc_def)

lemma cyc_insert:
  assumes "cyc c (t # rest)" "n \<notin> set (t # rest)"
  shows "cyc (c(n := c t, t := n)) (t # n # rest)"
proof -
  have "path (c(n := c t, t := n)) (c t) rest t = path c (c t) rest t"
    by (rule path_cong) (use assms in \<open>auto simp: cyc_path\<close>)
  then show ?thesis using assms by (auto simp: cyc_path)
qed

lemma cyc_merge:
  assumes "cyc c (t # x # rest)"
  shows "cyc (c(t := c x)) (t # rest)"
proof -
  have "path (c(t := c x)) (c x) rest t = path c (c x) rest t"
    by (rule path_cong) (use assms in \<open>auto simp: cyc_path\<close>)
  then show ?thesis using assms by (auto simp: cyc_path)
qed

lemma cyc_remove:
  assumes "cyc c (t # rest)" "rest \<noteq> []"
  shows "cyc (c(last rest := c t)) rest"
proof -
  obtain r l where r: "rest = r @ [l]" using assms(2) by (cases rest rule: rev_exhaust) auto
  have p: "path c (c t) rest t" "distinct rest" "t \<notin> set rest" using assms(1) by (auto simp: cyc_path)
  have h: "c t = hd rest" using path_hd [OF p(1) assms(2)] .
  have "path c (c t) r l" using p(1) r by (simp add: path_snoc)
  then have "path (c(l := c t)) (c t) r l" using path_cong [of r "c(l := c t)" c] p(2) r by fastforce
  then show ?thesis using p(2) r h by (auto simp: cyc_def path_snoc)
qed

lemma cyc_replace:
  assumes "cyc c (t # rest)" "rest \<noteq> []" "n \<notin> set (t # rest)"
  shows "cyc (c(last rest := n, n := c t)) (n # rest)"
proof -
  obtain r l where r: "rest = r @ [l]" using assms(2) by (cases rest rule: rev_exhaust) auto
  have p: "path c (c t) rest t" "distinct rest" using assms(1) by (auto simp: cyc_path)
  have "path c (c t) r l" using p(1) r by (simp add: path_snoc)
  then have "path (c(l := n, n := c t)) (c t) r l"
    using path_cong [of r "c(l := n, n := c t)" c] p(2) r assms(3) by fastforce
  then show ?thesis using p(2) r assms(3) by (auto simp: cyc_path path_snoc)
qed

section \<open>The invariant\<close>

text \<open>
  The list head is a header without a block behind it; every other block has a header and at least
  one unit. The blocks lie above the list head, below the top of the heap, and do not overlap.
\<close>

definition extent :: "heap \<Rightarrow> u16 \<Rightarrow> nat" where
  "extent h p = (if p = h_head h then 4 else 4 * unat (f_size (h_mem h) p))"

definition blocks :: "heap \<Rightarrow> u16 set \<Rightarrow> bool" where
  "blocks h N \<longleftrightarrow>
     h_head h \<in> N \<and> 0 < unat (h_head h) \<and> f_size (h_mem h) (h_head h) = 0 \<and>
     (\<forall>p \<in> N. 4 \<le> extent h p \<and> unat (h_head h) \<le> unat p \<and> unat p + extent h p \<le> unat (h_memry h)) \<and>
     (\<forall>p \<in> N. \<forall>q \<in> N. p \<noteq> q \<longrightarrow> unat p + extent h p \<le> unat q \<or> unat q + extent h q \<le> unat p)"

definition heap_inv :: "heap \<Rightarrow> u16 list \<Rightarrow> u16 set \<Rightarrow> bool" where
  "heap_inv h C A \<longleftrightarrow>
     blocks h (set C \<union> A) \<and> set C \<inter> A = {} \<and> h_head h \<in> set C \<and> h_last h \<in> set C \<and>
     cyc (f_chain (h_mem h)) C \<and> (\<forall>a \<in> A. f_chain (h_mem h) a = 0)"

text \<open>The bytes the allocator may use: those of the free blocks and those behind the top.\<close>

definition inside :: "heap \<Rightarrow> u16 \<Rightarrow> u16 \<Rightarrow> bool" where
  "inside h p x \<longleftrightarrow> unat p \<le> unat x \<and> unat x < unat p + extent h p"

definition free_space :: "heap \<Rightarrow> u16 list \<Rightarrow> u16 set" where
  "free_space h C = {x. (\<exists>p \<in> set C. inside h p x) \<or> unat (h_memry h) \<le> unat x}"

definition evolves :: "heap \<Rightarrow> u16 list \<Rightarrow> heap \<Rightarrow> u16 list \<Rightarrow> bool" where
  "evolves h C h' C' \<longleftrightarrow>
     free_space h' C' \<subseteq> free_space h C \<and> (\<forall>x. x \<notin> free_space h C \<longrightarrow> h_mem h' x = h_mem h x) \<and>
     h_head h' = h_head h \<and> h_sbot h' = h_sbot h \<and> unat (h_memry h) \<le> unat (h_memry h')"

text \<open>More precisely, only headers of free blocks are changed, as long as no block is cut.\<close>

definition in_headers :: "u16 set \<Rightarrow> u16 \<Rightarrow> bool" where
  "in_headers N x \<longleftrightarrow> (\<exists>q \<in> N. unat q \<le> unat x \<and> unat x < unat q + 4)"

definition quiet :: "heap \<Rightarrow> u16 list \<Rightarrow> heap \<Rightarrow> u16 list \<Rightarrow> bool" where
  "quiet h C h' C' \<longleftrightarrow>
     (\<forall>q \<in> set C'. q \<in> set C \<or> unat (h_memry h) \<le> unat q) \<and> unat (h_memry h) \<le> unat (h_memry h') \<and>
     (\<forall>x. h_mem h' x \<noteq> h_mem h x \<longrightarrow> in_headers (set C) x \<or> unat (h_memry h) \<le> unat x)"

lemma quiet_headers:
  assumes q: "quiet h C h1 C1" and x: "in_headers (set C1) x \<or> unat (h_memry h1) \<le> unat x"
  shows "in_headers (set C) x \<or> unat (h_memry h) \<le> unat x"
  using x
proof
  assume "in_headers (set C1) x"
  then obtain p where p: "p \<in> set C1" "unat p \<le> unat x" "unat x < unat p + 4" by (auto simp: in_headers_def)
  then have "p \<in> set C \<or> unat (h_memry h) \<le> unat p" using q by (auto simp: quiet_def)
  then show ?thesis using p(2,3) by (auto simp: in_headers_def)
qed (use q in \<open>simp add: quiet_def\<close>)

lemma quiet_trans: "quiet h C h1 C1 \<Longrightarrow> quiet h1 C1 h2 C2 \<Longrightarrow> quiet h C h2 C2"
proof -
  assume q: "quiet h C h1 C1" "quiet h1 C1 h2 C2"
  have "p \<in> set C \<or> unat (h_memry h) \<le> unat p" if p: "p \<in> set C2" for p
  proof -
    have "p \<in> set C1 \<or> unat (h_memry h1) \<le> unat p" using q(2) p by (auto simp: quiet_def)
    then show ?thesis using q(1) by (auto simp: quiet_def)
  qed
  moreover have "in_headers (set C) x \<or> unat (h_memry h) \<le> unat x" if x: "h_mem h2 x \<noteq> h_mem h x" for x
  proof (cases "h_mem h2 x = h_mem h1 x")
    case True
    then show ?thesis using q(1) x by (auto simp: quiet_def)
  next
    case False
    then have "in_headers (set C1) x \<or> unat (h_memry h1) \<le> unat x" using q(2) by (auto simp: quiet_def)
    then show ?thesis by (rule quiet_headers [OF q(1)])
  qed
  ultimately show ?thesis using q by (auto simp: quiet_def)
qed

lemma outside_headers: "\<not> in_headers N x \<Longrightarrow> q \<in> N \<Longrightarrow> unat x < unat q \<or> unat q + 4 \<le> unat x"
  unfolding in_headers_def by (meson not_le)

lemma quiet_rotate: "quiet h C h' C1 \<Longrightarrow> set C1 = set C' \<Longrightarrow> quiet h C h' C'"
  by (simp add: quiet_def)

lemma set_changes:
  assumes "unat p + 4 \<le> 65536" "set_size p v m x \<noteq> m x \<or> set_chain p v m x \<noteq> m x"
  shows "unat p \<le> unat x \<and> unat x < unat p + 4"
  using set_outside [OF assms(1), of x] assms(2) by (metis not_le)

lemma evolves_refl [simp]: "evolves h C h C"
  by (simp add: evolves_def)

lemma evolves_trans: "evolves h C h1 C1 \<Longrightarrow> evolves h1 C1 h2 C2 \<Longrightarrow> evolves h C h2 C2"
  unfolding evolves_def by (metis order.trans subsetD)

lemma free_space_cong: "set C = set C' \<Longrightarrow> free_space h C = free_space h C'"
  by (simp add: free_space_def)

lemma evolves_rotate: "evolves h C h' C1 \<Longrightarrow> set C1 = set C' \<Longrightarrow> evolves h C h' C'"
  using free_space_cong [of C1 C' h'] by (simp add: evolves_def)

lemma heap_inv_rotate: "heap_inv h (xs @ ys) A \<Longrightarrow> heap_inv h (ys @ xs) A"
  using cyc_rotate [of "f_chain (h_mem h)" xs ys] by (auto simp: heap_inv_def Un_commute)

lemma blocksD:
  assumes "blocks h N" "p \<in> N"
  shows "4 \<le> extent h p" "unat (h_head h) \<le> unat p" "unat p + extent h p \<le> unat (h_memry h)" "p \<noteq> 0"
    "unat p + 4 \<le> 65535"
proof -
  show *: "4 \<le> extent h p" "unat (h_head h) \<le> unat p" "unat p + extent h p \<le> unat (h_memry h)"
    using assms by (auto simp: blocks_def)
  then show "p \<noteq> 0" using assms(1) by (auto simp: blocks_def)
  show "unat p + 4 \<le> 65535" using * unat_u16_lt [of "h_memry h"] by linarith
qed

lemma blocks_disjoint:
  "blocks h N \<Longrightarrow> p \<in> N \<Longrightarrow> q \<in> N \<Longrightarrow> p \<noteq> q \<Longrightarrow> unat p + extent h p \<le> unat q \<or> unat q + extent h q \<le> unat p"
  unfolding blocks_def by fast

lemma blocks_spaced:
  assumes "blocks h N"
  shows "spaced N"
  unfolding spaced_def apart_def
proof (intro conjI ballI impI)
  fix p assume p: "p \<in> N"
  then show "unat p + 4 \<le> 65536" using blocksD(5) [OF assms p] by simp
  fix q assume q: "q \<in> N" "p \<noteq> q"
  show "unat p + 4 \<le> unat q \<or> unat q + 4 \<le> unat p"
    using blocks_disjoint [OF assms p q] blocksD(1) [OF assms p] blocksD(1) [OF assms q(1)] by linarith
qed

text \<open>The end of a block, computed in sixteen bits, does not wrap.\<close>

lemma scaled: "unat p + 4 * unat n < 65536 \<Longrightarrow> unat (p + 4 * n :: u16) = unat p + 4 * unat n"
  by (simp add: unat_word_ariths)

lemma block_end:
  assumes "blocks h N" "p \<in> N" "p \<noteq> h_head h"
  shows "unat (p + 4 * f_size (h_mem h) p) = unat p + extent h p"
proof -
  have "unat p + extent h p < 65536" using blocksD(3) [OF assms(1,2)] unat_u16_lt [of "h_memry h"] by linarith
  then show ?thesis using scaled [of p "f_size (h_mem h) p"] assms(3) by (simp add: extent_def)
qed

text \<open>A block that is in use is not touched.\<close>

lemma used_kept:
  assumes "blocks h (set C \<union> A)" "set C \<inter> A = {}" "a \<in> A" "inside h a x"
  shows "x \<notin> free_space h C"
proof -
  have a: "a \<in> set C \<union> A" using assms(3) by simp
  have "\<not> inside h p x" if "p \<in> set C" for p
  proof -
    have "a \<noteq> p" using that assms(2,3) by blast
    then show ?thesis using blocks_disjoint [OF assms(1) a, of p] that assms(4) by (auto simp: inside_def)
  qed
  then show ?thesis using blocksD(3) [OF assms(1) a] assms(4) by (auto simp: free_space_def inside_def)
qed

lemma evolves_used:
  assumes "blocks h (set C \<union> A)" "set C \<inter> A = {}" "evolves h C h' C'" "a \<in> A" "h_head h \<in> set C"
  shows "f_size (h_mem h') a = f_size (h_mem h) a" "f_chain (h_mem h') a = f_chain (h_mem h) a"
    "extent h' a = extent h a"
proof -
  have a: "a \<in> set C \<union> A" using assms(4) by simp
  have b: "unat a + 4 \<le> 65536" using blocksD(5) [OF assms(1) a] by simp
  have keep: "h_mem h' x = h_mem h x" if "unat a \<le> unat x" "unat x < unat a + 4" for x
  proof -
    have "inside h a x" using that blocksD(1) [OF assms(1) a] by (simp add: inside_def)
    then show ?thesis using used_kept [OF assms(1,2,4)] assms(3) by (simp add: evolves_def)
  qed
  then have "f_size (h_mem h') a = f_size (h_mem h) a \<and> f_chain (h_mem h') a = f_chain (h_mem h) a"
    by (intro header_bytes keep) (use header_offsets [OF b] in simp_all)
  moreover have "h_head h' = h_head h" using assms(3) by (simp add: evolves_def)
  ultimately show "f_size (h_mem h') a = f_size (h_mem h) a" "f_chain (h_mem h') a = f_chain (h_mem h) a"
    "extent h' a = extent h a" by (auto simp: extent_def)
qed

section \<open>Free\<close>

definition stops :: "(u16 \<Rightarrow> u16) \<Rightarrow> u16 \<Rightarrow> u16 \<Rightarrow> bool" where
  "stops c hole t \<longleftrightarrow> \<not> (t > hole \<or> hole > c t) \<or> (t \<ge> c t \<and> (hole > t \<or> hole < c t))"

lemma path_all: "path c x xs z \<Longrightarrow> P x \<Longrightarrow> (\<And>y. y \<in> set xs \<Longrightarrow> P y \<Longrightarrow> P (c y)) \<Longrightarrow> y \<in> set xs \<Longrightarrow> P y"
  by (induction xs arbitrary: x) auto

lemma some_stop:
  assumes "cyc c C" "hole \<notin> set C" "b \<in> set C" "b < hole"
  shows "\<exists>t \<in> set C. stops c hole t"
proof (rule ccontr)
  assume n: "\<not> ?thesis"
  obtain ys where ys: "cyc c (b # ys)" "set (b # ys) = set C" using cyc_starts [OF assms(1,3)] by blast
  have below: "c t < hole" if "t \<in> set C" "t < hole" for t
  proof -
    have "c t \<noteq> hole" using cyc_closed [OF assms(1) that(1)] assms(2) by blast
    then show ?thesis using n that unfolding stops_def by (metis linorder_neqE order.asym)
  qed
  have "path c b (b # ys) b" using ys(1) by (simp add: cyc_def)
  then have all: "t < hole" if "t \<in> set C" for t
    using path_all [of c b "b # ys" b "\<lambda>t. t < hole" t] assms(4) below that unfolding ys(2) by blast
  have ne: "set C \<noteq> {}" using assms(3) by auto
  define t where "t = Max (set C)"
  have t: "t \<in> set C" "\<And>q. q \<in> set C \<Longrightarrow> q \<le> t" using ne by (auto simp: t_def)
  have "stops c hole t" using t(2) [OF cyc_closed [OF assms(1) t(1)]] all [OF t(1)] by (auto simp: stops_def)
  then show False using n t(1) by blast
qed

lemma free_find_stops:
  "path (f_chain m) tp xs z \<Longrightarrow> \<exists>t \<in> set xs. stops (f_chain m) hole t \<Longrightarrow> \<exists>t \<in> set xs. free_find m hole tp = Some t \<and> stops (f_chain m) hole t"
proof (induction xs arbitrary: tp)
  case (Cons x xs)
  show ?case
  proof (cases "stops (f_chain m) hole x")
    case True
    then have "free_find m hole x = Some x" unfolding stops_def by (subst free_find.simps) argo
    then show ?thesis using Cons.prems(1) True by simp
  next
    case False
    then have "free_find m hole x = free_find m hole (f_chain m x)"
      unfolding stops_def by (subst free_find.simps) argo
    moreover have "\<exists>t \<in> set xs. stops (f_chain m) hole t" using Cons.prems(2) False by auto
    ultimately show ?thesis using Cons.IH [of "f_chain m x"] Cons.prems(1) by auto
  qed
qed simp

lemma blocks_sizes:
  assumes "blocks h N" "\<And>p. p \<in> N \<Longrightarrow> f_size (h_mem h') p = f_size (h_mem h) p"
    "h_memry h' = h_memry h" "h_head h' = h_head h"
  shows "blocks h' N" "\<And>p. p \<in> N \<Longrightarrow> extent h' p = extent h p"
proof -
  show e: "extent h' p = extent h p" if "p \<in> N" for p using assms that by (simp add: extent_def)
  have "h_head h \<in> N" using assms(1) by (simp add: blocks_def)
  then show "blocks h' N" using assms e unfolding blocks_def by auto
qed

text \<open>A header that is changed inside a free block does not change anything outside.\<close>

lemma header_inside:
  assumes "blocks h N" "p \<in> N" "\<not> inside h p x"
  shows "set_size p v m x = m x" "set_chain p v m x = m x"
  using set_outside [of p x v m] blocksD(1,5) [OF assms(1,2)] assms(3) by (auto simp: inside_def not_less)

lemma free_space_extents:
  "set C' = set C \<Longrightarrow> (\<And>p. p \<in> set C \<Longrightarrow> extent h' p = extent h p) \<Longrightarrow> h_memry h' = h_memry h \<Longrightarrow>
   free_space h' C' = free_space h C"
  by (auto simp: free_space_def inside_def)

lemma free_ok:
  assumes inv: "heap_inv h C A" and a: "a \<in> A"
  shows "\<exists>h' t rest. free (a + 4) h = Some (0, h') \<and> heap_inv h' (t # a # rest) (A - {a}) \<and>
    evolves h (a # C) h' (t # a # rest) \<and> set (t # rest) = set C \<and> h_last h' = t \<and> h_memry h' = h_memry h \<and>
    f_size (h_mem h') a = f_size (h_mem h) a \<and>
    (\<forall>x. h_mem h' x \<noteq> h_mem h x \<longrightarrow> in_headers (set (a # C)) x) \<and>
    cyc (f_chain (h_mem h)) (t # rest) \<and> stops (f_chain (h_mem h)) a t"
proof -
  define N where "N = set C \<union> A"
  define m where "m = h_mem h"
  have b: "blocks h N" "spaced N" "cyc (f_chain m) C" "h_last h \<in> set C" "set C \<inter> A = {}" "h_head h \<in> set C"
    using inv blocks_spaced by (auto simp: heap_inv_def N_def m_def)
  have aN: "a \<in> N" "a \<notin> set C" "f_chain m a = 0" using a inv by (auto simp: N_def m_def heap_inv_def)
  have "h_head h < a"
    using blocksD(2) [OF b(1) aN(1)] aN(2) b(6) by (metis le_less word_le_nat_alt)
  then obtain t0 where "t0 \<in> set C" "stops (f_chain m) a t0" using some_stop [OF b(3) aN(2) b(6)] by blast
  moreover obtain ys where "cyc (f_chain m) (h_last h # ys)" "set (h_last h # ys) = set C" using cyc_starts [OF b(3,4)] by blast
  ultimately obtain t where t: "t \<in> set C" "free_find m a (h_last h) = Some t" "stops (f_chain m) a t"
    using free_find_stops [of m "h_last h" "h_last h # ys" "h_last h" a] by (auto simp: cyc_def)
  obtain rest where r: "cyc (f_chain m) (t # rest)" "set (t # rest) = set C" using cyc_starts [OF b(3) t(1)] by blast
  define m' where "m' = set_chain t a (set_chain a (f_chain m t) m)"
  define h' where "h' = h\<lparr>h_mem := m', h_last := t\<rparr>"
  have tN: "t \<in> N" "a \<noteq> t" using t(1) aN(2) by (auto simp: N_def)
  have sz: "f_size m' q = f_size m q" if "q \<in> N" for q using headers(3) [OF b(2)] tN aN that by (simp add: m'_def)
  have ch: "f_chain m' q = ((f_chain m)(a := f_chain m t, t := a)) q" if "q \<in> N" for q
    using headers(2) [OF b(2)] tN aN that by (simp add: m'_def)
  have N: "set (t # a # rest) \<union> (A - {a}) = N" using r(2) a by (auto simp: N_def)
  have bl: "blocks h' N" "\<And>p. p \<in> N \<Longrightarrow> extent h' p = extent h p"
    using blocks_sizes [OF b(1), of h'] sz by (simp_all add: h'_def m_def)
  have "cyc (f_chain m') (t # a # rest)"
  proof -
    have "cyc ((f_chain m)(a := f_chain m t, t := a)) (t # a # rest)"
      by (rule cyc_insert [OF r(1)]) (use aN(2) r(2) in blast)
    moreover have "f_chain m' q = ((f_chain m)(a := f_chain m t, t := a)) q" if "q \<in> set (t # a # rest)" for q
      by (rule ch) (use that N in auto)
    ultimately show ?thesis using cyc_cong by blast
  qed
  moreover have "f_chain m' q = 0" if "q \<in> A - {a}" for q
  proof -
    have "q \<noteq> t" using that t(1) b(5) by blast
    then show ?thesis using ch [of q] that inv by (auto simp: heap_inv_def N_def m_def)
  qed
  ultimately have inv': "heap_inv h' (t # a # rest) (A - {a})"
    unfolding heap_inv_def N using bl(1) r(2) b(5,6) aN(2) by (auto simp: h'_def)
  have "m' x = m x" if "x \<notin> free_space h (a # C)" for x
    using that t(1) header_inside(2) [OF b(1)] tN(1) aN(1) by (simp add: m'_def free_space_def)
  moreover have "free_space h' (t # a # rest) = free_space h (a # C)"
    by (rule free_space_extents) (use bl(2) r(2) aN(1) in \<open>auto simp: N_def h'_def\<close>)
  ultimately have "evolves h (a # C) h' (t # a # rest)" by (simp add: evolves_def h'_def m_def)
  moreover have "free (a + 4) h = Some (0, h')"
    using t(2) aN(3) by (simp add: free_def h'_def m'_def m_def)
  moreover have "in_headers (set (a # C)) x" if "m' x \<noteq> m x" for x
  proof -
    have "set_chain a (f_chain m t) m x \<noteq> m x \<or> m' x \<noteq> set_chain a (f_chain m t) m x" using that by metis
    then show ?thesis
      using set_changes [of a _ m x] set_changes [of t _ "set_chain a (f_chain m t) m" x] blocksD(5) [OF b(1)] aN(1) tN(1) t(1)
      unfolding m'_def in_headers_def by fastforce
  qed
  ultimately show ?thesis using inv' r sz aN(1) t(3)
    by (intro exI [of _ h'] exI [of _ t] exI [of _ rest]) (simp add: h'_def m_def)
qed

text \<open>A second \<open>free\<close> of the same block is refused.\<close>

lemma free_again:
  assumes "heap_inv h C A" "p \<in> set C"
  shows "free (p + 4) h = Some (0xFFFF, h)"
proof -
  have "f_chain (h_mem h) p \<in> set C" using assms cyc_closed by (auto simp: heap_inv_def)
  then have "f_chain (h_mem h) p \<noteq> 0" using blocksD(4) [of h "set C \<union> A"] assms(1) by (auto simp: heap_inv_def)
  then show ?thesis by (simp add: free_def)
qed

section \<open>Joining neighbours\<close>

lemma inv_start:
  assumes "heap_inv h (tp # rest) A" "units > 0" "f_size (h_mem h) tp \<ge> units"
  shows "tp \<noteq> h_head h" "rest \<noteq> []" "last (tp # rest) = last rest"
proof -
  show *: "tp \<noteq> h_head h" using assms by (auto simp: heap_inv_def blocks_def)
  then show "rest \<noteq> []" using assms(1) by (auto simp: heap_inv_def)
  then show "last (tp # rest) = last rest" by simp
qed

lemma adjacent:
  assumes inv: "heap_inv h (tp # nx # rest) A" and adj: "tp + 4 * f_size (h_mem h) tp = nx"
  shows "tp \<noteq> h_head h" "nx \<noteq> h_head h" "unat nx = unat tp + extent h tp" "rest \<noteq> []"
    "unat (f_size (h_mem h) tp + f_size (h_mem h) nx) = unat (f_size (h_mem h) tp) + unat (f_size (h_mem h) nx)"
proof -
  define N where "N = set (tp # nx # rest) \<union> A"
  have b: "blocks h N" "tp \<in> N" "nx \<in> N" "tp \<noteq> nx" using inv by (auto simp: heap_inv_def N_def cyc_def)
  show n1: "tp \<noteq> h_head h" using adj b by (auto simp: blocks_def)
  show e: "unat nx = unat tp + extent h tp" using block_end [OF b(1,2) n1] adj by simp
  show n2: "nx \<noteq> h_head h" using e blocksD(1,2) [OF b(1,2)] by auto
  show "rest \<noteq> []" using inv n1 n2 by (auto simp: heap_inv_def)
  have "unat tp + 4 * unat (f_size (h_mem h) tp) + 4 * unat (f_size (h_mem h) nx) \<le> unat (h_memry h)"
    using e blocksD(3) [OF b(1,3)] n1 n2 by (simp add: extent_def)
  also have "\<dots> < 65536" by (rule unat_u16_lt)
  finally show "unat (f_size (h_mem h) tp + f_size (h_mem h) nx) = unat (f_size (h_mem h) tp) + unat (f_size (h_mem h) nx)"
    by (simp add: unat_word_ariths)
qed

lemma merge_ok:
  assumes inv: "heap_inv h (tp # nx # rest) A" and adj: "tp + 4 * f_size (h_mem h) tp = nx"
  shows "heap_inv (merge tp h) (tp # rest) A" "evolves h (tp # nx # rest) (merge tp h) (tp # rest)"
    "h_last (merge tp h) = (if h_last h = nx then hd (rest @ [tp]) else h_last h)" "h_memry (merge tp h) = h_memry h"
proof -
  define N where "N = set (tp # nx # rest) \<union> A"
  define m where "m = h_mem h"
  define m' where "m' = h_mem (merge tp h)"
  have cy: "cyc (f_chain m) (tp # nx # rest)" using inv by (simp add: heap_inv_def m_def)
  have b: "blocks h N" "spaced N" "tp \<in> N" "nx \<in> N" "tp \<noteq> nx" "cyc (f_chain m) (tp # nx # rest)"
    "f_chain m tp = nx" "f_chain m nx = hd (rest @ [tp])"
    using inv blocks_spaced [of h N] cy cyc_second [OF cy] by (auto simp: heap_inv_def N_def cyc_def)
  note ad = adjacent [OF inv adj]
  have c0: "f_chain (set_size tp v m) q = f_chain m q" if "q \<in> N" for v q
    using headers(4) [OF b(2,3) that] .
  have m': "m' = set_chain tp (f_chain m nx) (set_size tp (f_size m tp + f_size m nx) m)"
    using c0 [OF b(3)] c0 [OF b(4)] b(7) by (simp add: m'_def merge_def Let_def m_def)
  have sz: "f_size m' q = (if q = tp then f_size m tp + f_size m nx else f_size m q)" if "q \<in> N" for q
    using headers(1,3) [OF b(2,3) that] by (simp add: m')
  have ch: "f_chain m' q = ((f_chain m)(tp := f_chain m nx)) q" if "q \<in> N" for q
    using headers(2,4) [OF b(2,3) that] by (simp add: m')
  have hd': "h_head (merge tp h) = h_head h" "h_sbot (merge tp h) = h_sbot h"
    by (simp_all add: merge_def Let_def)
  show mr: "h_memry (merge tp h) = h_memry h" by (simp add: merge_def Let_def)
  show la: "h_last (merge tp h) = (if h_last h = nx then hd (rest @ [tp]) else h_last h)"
    using b(7,8) by (simp add: merge_def Let_def m_def)
  have ex: "extent (merge tp h) q = (if q = tp then extent h tp + extent h nx else extent h q)" if "q \<in> N" for q
    using sz [OF that] ad(1,2,5) hd' by (auto simp: extent_def m'_def m_def)
  have hN: "h_head h \<in> set (tp # rest)" using inv ad(2) by (auto simp: heap_inv_def)
  have N': "set (tp # rest) \<union> A = N - {nx}"
    using b(6) inv by (auto simp: N_def cyc_def heap_inv_def)
  have bl: "blocks (merge tp h) (N - {nx})"
    unfolding blocks_def hd' mr
  proof (intro conjI ballI impI)
    show "h_head h \<in> N - {nx}" using hN N' by blast
    show "0 < unat (h_head h)" using b(1) by (simp add: blocks_def)
    show "f_size (h_mem (merge tp h)) (h_head h) = 0"
      using sz [of "h_head h"] ad(1) b(1) by (auto simp: blocks_def m'_def m_def)
    fix p assume p: "p \<in> N - {nx}"
    then have pN: "p \<in> N" by simp
    show "4 \<le> extent (merge tp h) p" using ex [OF pN] blocksD(1) [OF b(1) pN] by auto
    show "unat (h_head h) \<le> unat p" using blocksD(2) [OF b(1) pN] .
    show "unat p + extent (merge tp h) p \<le> unat (h_memry h)"
      using ex [OF pN] blocksD(3) [OF b(1) pN] blocksD(3) [OF b(1,4)] ad(3) by auto
    fix q assume q: "q \<in> N - {nx}" "p \<noteq> q"
    then have qN: "q \<in> N" by simp
    show "unat p + extent (merge tp h) p \<le> unat q \<or> unat q + extent (merge tp h) q \<le> unat p"
      using ex [OF pN] ex [OF qN] ad(3) p q blocks_disjoint [OF b(1) pN qN] blocks_disjoint [OF b(1) pN b(4)]
        blocks_disjoint [OF b(1) qN b(4)] blocksD(1) [OF b(1) pN] blocksD(1) [OF b(1) qN]
      by (auto split: if_splits)
  qed
  have "cyc (f_chain m') (tp # rest)"
  proof -
    have "cyc ((f_chain m)(tp := f_chain m nx)) (tp # rest)" using cyc_merge [OF b(6)] .
    moreover have "f_chain m' q = ((f_chain m)(tp := f_chain m nx)) q" if "q \<in> set (tp # rest)" for q
      by (rule ch) (use that in \<open>auto simp: N_def\<close>)
    ultimately show ?thesis using cyc_cong by blast
  qed
  moreover have "f_chain m' q = 0" if "q \<in> A" for q
    using ch [of q] that inv by (auto simp: heap_inv_def N_def m_def)
  moreover have "h_last (merge tp h) \<in> set (tp # rest)"
    using la inv ad(4) by (auto simp: heap_inv_def split: if_splits)
  ultimately show "heap_inv (merge tp h) (tp # rest) A"
    unfolding heap_inv_def N' hd' using bl inv hN by (auto simp: heap_inv_def m'_def)
  have "m' x = m x" if "x \<notin> free_space h (tp # nx # rest)" for x
    using that header_inside [OF b(1,3)] by (simp add: m' free_space_def)
  moreover have "free_space (merge tp h) (tp # rest) \<subseteq> free_space h (tp # nx # rest)"
  proof
    fix x assume x: "x \<in> free_space (merge tp h) (tp # rest)"
    show "x \<in> free_space h (tp # nx # rest)"
    proof (cases "unat (h_memry h) \<le> unat x")
      case False
      then obtain p where p: "p \<in> set (tp # rest)" "inside (merge tp h) p x" using x mr by (auto simp: free_space_def)
      then have pN: "p \<in> N" by (auto simp: N_def)
      have "inside h p x \<or> inside h nx x" using p(2) ex [OF pN] ad(3) by (auto simp: inside_def split: if_splits)
      then show ?thesis using p(1) by (auto simp: free_space_def)
    qed (simp add: free_space_def)
  qed
  ultimately show "evolves h (tp # nx # rest) (merge tp h) (tp # rest)"
    by (simp add: evolves_def hd' mr m'_def m_def)
qed

lemma coalesce_ok:
  assumes "heap_inv h (tp # rest) A" "(tp # rest) ! i = h_last h" "i < length (tp # rest)"
  shows "\<exists>h' rest' i'. coalesce tp h = Some h' \<and> heap_inv h' (tp # rest') A \<and> evolves h (tp # rest) h' (tp # rest') \<and>
    (tp # rest') ! i' = h_last h' \<and> i' < length (tp # rest') \<and> i' \<le> i \<and> last (tp # rest') = last (tp # rest) \<and>
    h_memry h' = h_memry h \<and> f_size (h_mem h) tp \<le> f_size (h_mem h') tp \<and> set rest' \<subseteq> set rest \<and>
    (\<forall>x. h_mem h' x \<noteq> h_mem h x \<longrightarrow> in_headers {tp} x)"
  using assms
proof (induction "length rest" arbitrary: h rest i)
  case 0
  then have "f_chain (h_mem h) tp = tp" using cyc_next [of "f_chain (h_mem h)" tp "[]"] by (simp add: heap_inv_def)
  then have "coalesce tp h = Some h" by (subst coalesce.simps) simp
  then show ?case using 0 by (intro exI [of _ h] exI [of _ rest] exI [of _ i]) auto
next
  case (Suc n)
  obtain nx r where r: "rest = nx # r" using Suc(2) by (cases rest) auto
  have nx: "f_chain (h_mem h) tp = nx" "tp \<noteq> nx" "distinct (tp # nx # r)"
    using cyc_next [of "f_chain (h_mem h)" tp "nx # r"] Suc.prems(1) r by (auto simp: heap_inv_def cyc_def)
  show ?case
  proof (cases "tp + 4 * f_size (h_mem h) tp = nx")
    case True
    note mg = merge_ok [OF Suc.prems(1) [unfolded r] True] and ad = adjacent [OF Suc.prems(1) [unfolded r] True]
    define j where "j = (if i = 0 then 0 else if i = 1 then 1 else i - 1)"
    have "(tp # r) ! j = h_last (merge tp h) \<and> j < length (tp # r) \<and> j \<le> i"
    proof -
      consider "i = 0" | "i = 1" | k where "i = Suc (Suc k)" by (metis One_nat_def not0_implies_Suc)
      then show ?thesis
      proof cases
        case 1
        then show ?thesis using Suc.prems(2) mg(3) nx(2) by (simp add: j_def)
      next
        case 2
        then show ?thesis using Suc.prems(2) mg(3) r ad(4) by (cases r) (simp_all add: j_def)
      next
        case (3 k)
        then have "h_last h = r ! k" "k < length r" using Suc.prems(2,3) r by auto
        then have "h_last h \<noteq> nx" using nx(3) by (metis distinct.simps(2) nth_mem)
        then show ?thesis using 3 mg(3) \<open>h_last h = r ! k\<close> \<open>k < length r\<close> by (simp add: j_def)
      qed
    qed
    then obtain h' rest' i' where ih: "coalesce tp (merge tp h) = Some h'" "heap_inv h' (tp # rest') A"
      "evolves (merge tp h) (tp # r) h' (tp # rest')" "(tp # rest') ! i' = h_last h'" "i' < length (tp # rest')" "i' \<le> j"
      "last (tp # rest') = last (tp # r)" "h_memry h' = h_memry (merge tp h)" "f_size (h_mem (merge tp h)) tp \<le> f_size (h_mem h') tp"
      "set rest' \<subseteq> set r" "\<And>x. h_mem h' x \<noteq> h_mem (merge tp h) x \<Longrightarrow> in_headers {tp} x"
      using Suc.hyps(1) [of r "merge tp h" j] Suc(2) r mg(1) by auto
    have tpN: "unat tp + 4 \<le> 65536"
      using blocksD(5) [of h "set (tp # rest) \<union> A" tp] Suc.prems(1) by (simp add: heap_inv_def)
    have "f_size (h_mem (merge tp h)) tp = f_size (h_mem h) tp + f_size (h_mem h) nx"
      using header_same [OF tpN] nx(1) by (simp add: merge_def Let_def)
    then have "f_size (h_mem h) tp \<le> f_size (h_mem (merge tp h)) tp"
      using ad(5) by (simp add: word_le_nat_alt)
    moreover have "in_headers {tp} x" if "h_mem h' x \<noteq> h_mem h x" for x
    proof (cases "h_mem h' x = h_mem (merge tp h) x")
      case True
      then have "\<not> (unat x < unat tp \<or> unat tp + 4 \<le> unat x)"
        using that set_outside [OF tpN, of x] by (auto simp: merge_def Let_def)
      then show ?thesis by (simp add: in_headers_def not_less not_le)
    qed (rule ih(11))
    moreover have "coalesce tp h = Some h'" using ih(1) nx True by (subst coalesce.simps) simp
    moreover have "j \<le> i" by (auto simp: j_def)
    ultimately show ?thesis using ih evolves_trans [OF mg(2) ih(3)] mg(4) r ad(4)
      by (intro exI [of _ h'] exI [of _ rest'] exI [of _ i']) auto
  next
    case False
    then have "coalesce tp h = Some h" using nx by (subst coalesce.simps) simp
    then show ?thesis using Suc.prems by (intro exI [of _ h] exI [of _ rest] exI [of _ i]) auto
  qed
qed

section \<open>Taking a block\<close>

lemma take_exact:
  assumes inv: "heap_inv h (tp # rest) A" and u: "units > 0" "f_size (h_mem h) tp = units"
  shows "\<exists>h'. take_block units (last rest) tp h = (tp + 4, h') \<and> heap_inv h' rest (insert tp A) \<and>
    evolves h (tp # rest) h' rest \<and> f_size (h_mem h') tp = units \<and> h_memry h' = h_memry h \<and>
    h_last h' = last rest \<and> (\<forall>x. unat tp + 4 \<le> unat x \<and> unat x < unat tp + extent h' tp \<longrightarrow> h_mem h' x = h_mem h x) \<and>
    (\<forall>x. h_mem h' x \<noteq> h_mem h x \<longrightarrow> in_headers (insert (tp + 4 * units) (set (tp # rest))) x)"
proof -
  define N where "N = set (tp # rest) \<union> A"
  define m where "m = h_mem h"
  have b: "blocks h N" "spaced N" "tp \<in> N" "tp \<notin> set rest" "tp \<notin> A" "cyc (f_chain m) (tp # rest)"
    using inv blocks_spaced [of h N] by (auto simp: heap_inv_def N_def m_def cyc_def)
  have st: "tp \<noteq> h_head h" "rest \<noteq> []" using inv_start [OF inv u(1)] u(2) by simp_all
  have pv: "last rest \<in> set rest" "last rest \<in> N" "last rest \<noteq> tp" using st(2) b(4) by (auto simp: N_def)
  define m' where "m' = set_chain tp 0 (set_chain (last rest) (f_chain m tp) m)"
  define h' where "h' = h\<lparr>h_mem := m', h_last := last rest\<rparr>"
  have sz: "f_size m' q = f_size m q" if "q \<in> N" for q using headers(3) [OF b(2)] pv(2) b(3) that by (simp add: m'_def)
  have ch: "f_chain m' q = ((f_chain m)(last rest := f_chain m tp, tp := 0)) q" if "q \<in> N" for q
    using headers(2) [OF b(2)] pv(2) b(3) that by (simp add: m'_def)
  have N: "set rest \<union> insert tp A = N" by (auto simp: N_def)
  have bl: "blocks h' N" "\<And>p. p \<in> N \<Longrightarrow> extent h' p = extent h p"
    using blocks_sizes [OF b(1), of h'] sz by (simp_all add: h'_def m_def)
  have "cyc (f_chain m') rest"
  proof -
    have "cyc ((f_chain m)(last rest := f_chain m tp)) rest" using cyc_remove [OF b(6) st(2)] .
    moreover have "f_chain m' q = ((f_chain m)(last rest := f_chain m tp)) q" if "q \<in> set rest" for q
      using ch [of q] that b(4) by (auto simp: N_def)
    ultimately show ?thesis using cyc_cong by blast
  qed
  moreover have "f_chain m' q = 0" if "q \<in> insert tp A" for q
    using ch [of q] that inv pv(1) by (auto simp: heap_inv_def N_def m_def)
  ultimately have inv': "heap_inv h' rest (insert tp A)"
    unfolding heap_inv_def N using bl(1) inv b(4) st pv(1) by (auto simp: heap_inv_def h'_def)
  have "m' x = m x" if "x \<notin> free_space h (tp # rest)" for x
    using that header_inside(2) [OF b(1)] pv(1,2) b(3) by (simp add: m'_def free_space_def)
  moreover have "free_space h' rest \<subseteq> free_space h (tp # rest)"
    using bl(2) by (auto simp: free_space_def inside_def N_def h'_def)
  ultimately have "evolves h (tp # rest) h' rest" by (simp add: evolves_def h'_def m_def)
  moreover have "m' x = m x" if x: "unat tp + 4 \<le> unat x" "unat x < unat tp + extent h' tp" for x
  proof -
    have "\<not> inside h (last rest) x"
      using blocks_disjoint [OF b(1) pv(2) b(3) pv(3)] x bl(2) [OF b(3)] by (auto simp: inside_def)
    then show ?thesis
      using header_inside(2) [OF b(1) pv(2)] set_outside(2) [of tp x] x(1) blocksD(5) [OF b(1,3)] by (simp add: m'_def)
  qed
  moreover have "take_block units (last rest) tp h = (tp + 4, h')"
    using u(2) by (simp add: take_block_def Let_def h'_def m'_def m_def)
  moreover have "in_headers (set (tp # rest)) x" if "m' x \<noteq> m x" for x
  proof (rule ccontr)
    assume n: "\<not> in_headers (set (tp # rest)) x"
    have "m' x = m x"
      using set_outside(2) [of tp x] set_outside(2) [of "last rest" x] outside_headers [OF n, of tp]
        outside_headers [OF n, of "last rest"] blocksD(5) [OF b(1,3)] blocksD(5) [OF b(1) pv(2)] pv(1) by (simp add: m'_def)
    then show False using that by simp
  qed
  then have "in_headers (insert (tp + 4 * units) (set (tp # rest))) x" if "m' x \<noteq> m x" for x
    using that by (auto simp: in_headers_def)
  ultimately show ?thesis using inv' sz [OF b(3)] u(2) by (intro exI [of _ h']) (simp add: h'_def m_def)
qed

text \<open>Cutting a block in two.\<close>

lemma blocks_cut:
  assumes b: "blocks h N" "tp \<in> N" "tp \<noteq> h_head h" and u: "0 < units" "units < f_size (h_mem h) tp"
    and l: "l = tp + 4 * units"
    and h': "h_memry h' = h_memry h" "h_head h' = h_head h"
    and sz: "\<And>q. q \<in> insert l N \<Longrightarrow> f_size (h_mem h') q =
      (if q = l then f_size (h_mem h) tp - units else if q = tp then units else f_size (h_mem h) q)"
  shows "blocks h' (insert l N)" "\<And>q. q \<in> N \<Longrightarrow> q \<noteq> tp \<Longrightarrow> extent h' q = extent h q"
    "extent h' tp + extent h' l = extent h tp" "unat l = unat tp + extent h' tp"
proof -
  have u': "0 < unat units" "unat units < unat (f_size (h_mem h) tp)"
    using u by (simp_all add: word_less_nat_alt unat_gt_0)
  have bd: "unat tp + 4 * unat (f_size (h_mem h) tp) \<le> unat (h_memry h)"
    using blocksD(3) [OF b(1,2)] b(3) by (simp add: extent_def)
  have ul: "unat l = unat tp + 4 * unat units"
    unfolding l by (rule scaled) (use bd u' unat_u16_lt [of "h_memry h"] in linarith)
  have lN: "q \<noteq> l" if "q \<in> N" for q
    using blocks_disjoint [OF b(1,2) that] blocksD(1) [OF b(1) that] ul u' b(3) by (cases "q = tp") (auto simp: extent_def)
  have lh: "l \<noteq> h_head h" using blocksD(2) [OF b(1,2)] ul u' by auto
  have us: "unat (f_size (h_mem h) tp - units) = unat (f_size (h_mem h) tp) - unat units"
    using u(2) by (simp add: unat_sub order_less_imp_le)
  have et: "extent h' tp = 4 * unat units" using sz [of tp] b(2,3) lN [OF b(2)] h' by (simp add: extent_def)
  have el: "extent h' l = extent h tp - 4 * unat units" using sz [of l] lh us b(3) h' by (simp add: extent_def)
  show ek: "extent h' q = extent h q" if "q \<in> N" "q \<noteq> tp" for q
    using sz [of q] that lN h' by (simp add: extent_def)
  show sum: "extent h' tp + extent h' l = extent h tp" using et el u' b(3) by (simp add: extent_def)
  show ul': "unat l = unat tp + extent h' tp" using ul et by simp
  have ge: "4 \<le> extent h' tp" "4 \<le> extent h' l" using et el u' b(3) by (auto simp: extent_def)
  show "blocks h' (insert l N)"
    unfolding blocks_def h'
  proof (intro conjI ballI impI)
    show "h_head h \<in> insert l N" using b(1) by (simp add: blocks_def)
    show "0 < unat (h_head h)" using b(1) by (simp add: blocks_def)
    show "f_size (h_mem h') (h_head h) = 0" using sz [of "h_head h"] b lh by (auto simp: blocks_def)
    fix p assume p: "p \<in> insert l N"
    show "4 \<le> extent h' p" using p ge ek blocksD(1) [OF b(1)] by (cases "p = l"; cases "p = tp") auto
    show "unat (h_head h) \<le> unat p" using p ul blocksD(2) [OF b(1)] b(2) by fastforce
    show "unat p + extent h' p \<le> unat (h_memry h)"
      using p ul' sum ek blocksD(3) [OF b(1,2)] blocksD(3) [OF b(1), of p] by (cases "p = l"; cases "p = tp") auto
    fix q assume q: "q \<in> insert l N" "p \<noteq> q"
    have away: "unat q + extent h' q \<le> unat l \<or> unat l + extent h' l \<le> unat q" if "q \<in> N" for q
      using blocks_disjoint [OF b(1,2) that] ek that ul' sum by (cases "q = tp") auto
    have both: "unat p + extent h' p \<le> unat q \<or> unat q + extent h' q \<le> unat p" if "p \<in> N" "q \<in> N"
      using blocks_disjoint [OF b(1) that q(2)] ek that sum q(2) by (cases "p = tp"; cases "q = tp") auto
    show "unat p + extent h' p \<le> unat q \<or> unat q + extent h' q \<le> unat p"
      using p q away [of p] away [of q] both by blast
  qed
qed

lemma take_split:
  assumes inv: "heap_inv h (tp # rest) A" and u: "units > 0" "units < f_size (h_mem h) tp"
  shows "\<exists>h' l. l = tp + 4 * units \<and> take_block units (last rest) tp h = (tp + 4, h') \<and>
    heap_inv h' (l # rest) (insert tp A) \<and>
    evolves h (tp # rest) h' (l # rest) \<and> f_size (h_mem h') tp = units \<and> h_memry h' = h_memry h \<and>
    h_last h' = last rest \<and> (\<forall>x. unat tp + 4 \<le> unat x \<and> unat x < unat tp + extent h' tp \<longrightarrow> h_mem h' x = h_mem h x) \<and>
    (\<forall>x. h_mem h' x \<noteq> h_mem h x \<longrightarrow> in_headers (insert (tp + 4 * units) (set (tp # rest))) x)"
proof -
  define N where "N = set (tp # rest) \<union> A"
  define m where "m = h_mem h"
  define l where "l = tp + 4 * units"
  have b: "blocks h N" "spaced N" "tp \<in> N" "tp \<notin> set rest" "tp \<notin> A" "cyc (f_chain m) (tp # rest)"
    using inv blocks_spaced [of h N] by (auto simp: heap_inv_def N_def m_def cyc_def)
  have st: "tp \<noteq> h_head h" "rest \<noteq> []" using inv_start [OF inv u(1)] u(2) by simp_all
  have pv: "last rest \<in> set rest" "last rest \<in> N" "last rest \<noteq> tp" using st(2) b(4) by (auto simp: N_def)
  have u': "0 < unat units" "unat units < unat (f_size m tp)"
    using u by (simp_all add: word_less_nat_alt m_def unat_gt_0)
  have bd: "unat tp + 4 * unat (f_size m tp) \<le> unat (h_memry h)"
    using blocksD(3) [OF b(1,3)] st(1) by (simp add: extent_def m_def)
  have ul: "unat l = unat tp + 4 * unat units"
    unfolding l_def by (rule scaled) (use bd u' unat_u16_lt [of "h_memry h"] in linarith)
  have lin: "unat l + 4 \<le> unat tp + extent h tp" "unat tp + 4 \<le> unat l" "unat l + 4 \<le> 65536"
    using ul u' st(1) bd unat_u16_lt [of "h_memry h"] by (simp_all only: extent_def m_def if_False)
  have ap: "apart l q" if "q \<in> N" for q
    using blocks_disjoint [OF b(1,3) that] blocksD(1) [OF b(1) that] lin by (cases "q = tp") (auto simp: apart_def)
  have lN: "l \<notin> N" using ap [of l] by (auto simp: apart_def)
  have sp: "spaced (insert l N)" using b(2) ap lin(3) by (auto simp: spaced_def apart_def)
  define m' where "m' = set_chain tp 0 (set_size tp units (set_size l (f_size m tp - units)
    (set_chain l (f_chain m tp) (set_chain (last rest) l m))))"
  define h' where "h' = h\<lparr>h_mem := m', h_last := last rest\<rparr>"
  have I: "tp \<in> insert l N" "l \<in> insert l N" "last rest \<in> insert l N" using b(3) pv(2) by simp_all
  have sz: "f_size m' q = (if q = l then f_size m tp - units else if q = tp then units else f_size m q)"
    if "q \<in> insert l N" for q
    using headers(1,3) [OF sp I(1) that] headers(1,3) [OF sp I(2) that] headers(3) [OF sp I(3) that] lN b(3)
    by (auto simp: m'_def)
  have ch: "f_chain m' q = ((f_chain m)(last rest := l, l := f_chain m tp, tp := 0)) q" if "q \<in> insert l N" for q
    using headers(2,4) [OF sp I(1) that] headers(2,4) [OF sp I(2) that] headers(2) [OF sp I(3) that] lN b(3) pv(2)
    by (auto simp: m'_def)
  have N: "set (l # rest) \<union> insert tp A = insert l N" by (auto simp: N_def)
  have cut: "blocks h' (insert l N)" "\<And>q. q \<in> N \<Longrightarrow> q \<noteq> tp \<Longrightarrow> extent h' q = extent h q"
    "extent h' tp + extent h' l = extent h tp" "unat l = unat tp + extent h' tp"
    using blocks_cut [OF b(1,3) st(1) u l_def, of h'] sz by (simp_all add: h'_def m_def)
  have "cyc (f_chain m') (l # rest)"
  proof -
    have "cyc ((f_chain m)(last rest := l, l := f_chain m tp)) (l # rest)"
      by (rule cyc_replace [OF b(6) st(2)]) (use lN in \<open>auto simp: N_def\<close>)
    moreover have "f_chain m' q = ((f_chain m)(last rest := l, l := f_chain m tp)) q" if "q \<in> set (l # rest)" for q
    proof -
      have "q \<noteq> tp" using that b(3,4) lN by auto
      then show ?thesis using ch [of q] that by (auto simp: N_def)
    qed
    ultimately show ?thesis using cyc_cong by blast
  qed
  moreover have "f_chain m' q = 0" if "q \<in> insert tp A" for q
  proof -
    have "q = tp \<or> q \<noteq> last rest \<and> q \<noteq> l \<and> f_chain m q = 0"
      using that pv(1) lN inv by (auto simp: heap_inv_def N_def m_def)
    then show ?thesis using ch [of q] that by (auto simp: N_def)
  qed
  moreover have "set (l # rest) \<inter> insert tp A = {}" using inv b(4) lN by (auto simp: heap_inv_def N_def)
  ultimately have inv': "heap_inv h' (l # rest) (insert tp A)"
    unfolding heap_inv_def N using cut(1) inv st pv(1) by (auto simp: heap_inv_def h'_def)
  have hl: "set_size l v n x = n x" "set_chain l v n x = n x" if "\<not> inside h tp x" for v n x
    using set_outside [OF lin(3), of x] that lin by (auto simp: inside_def)
  have "m' x = m x" if "x \<notin> free_space h (tp # rest)" for x
    using that header_inside [OF b(1)] pv(1,2) b(3) hl by (simp add: m'_def free_space_def)
  moreover have "free_space h' (l # rest) \<subseteq> free_space h (tp # rest)"
  proof
    fix x assume "x \<in> free_space h' (l # rest)"
    moreover have "inside h' q x \<Longrightarrow> inside h q x" if "q \<in> set rest" for q
    proof -
      have "q \<noteq> tp" "q \<in> N" using that b(4) by (auto simp: N_def)
      then show "inside h' q x \<Longrightarrow> inside h q x" using cut(2) by (simp add: inside_def)
    qed
    moreover have "inside h' l x \<Longrightarrow> inside h tp x" using cut(3,4) by (auto simp: inside_def)
    ultimately show "x \<in> free_space h (tp # rest)" by (auto simp: free_space_def h'_def)
  qed
  ultimately have "evolves h (tp # rest) h' (l # rest)" by (simp add: evolves_def h'_def m_def)
  moreover have "m' x = m x" if x: "unat tp + 4 \<le> unat x" "unat x < unat tp + extent h' tp" for x
  proof -
    have "\<not> inside h (last rest) x"
      using blocks_disjoint [OF b(1) pv(2) b(3) pv(3)] x cut(3) by (auto simp: inside_def)
    then show ?thesis
      using header_inside [OF b(1) pv(2)] set_outside [of tp x] set_outside [OF lin(3), of x] x cut(4) blocksD(5) [OF b(1,3)]
      by (simp add: m'_def)
  qed
  moreover have "take_block units (last rest) tp h = (tp + 4, h')"
  proof -
    have "f_chain (set_chain (last rest) l m) tp = f_chain m tp"
      "f_size (set_chain l (f_chain m tp) (set_chain (last rest) l m)) tp = f_size m tp"
      using headers(2,3) [OF sp I(3,1)] headers(3) [OF sp I(2,1)] pv(3) by simp_all
    then show ?thesis using u(2) by (simp add: take_block_def Let_def l_def [symmetric] m_def [symmetric] m'_def h'_def)
  qed
  moreover have "in_headers (insert l (set (tp # rest))) x" if "m' x \<noteq> m x" for x
  proof (rule ccontr)
    assume n: "\<not> in_headers (insert l (set (tp # rest))) x"
    have "unat x < unat q \<or> unat q + 4 \<le> unat x" if "q \<in> {l, tp, last rest}" for q
      using outside_headers [OF n, of q] that pv(1) by auto
    then have "m' x = m x"
      using set_outside [of tp x] set_outside [of l x] set_outside [of "last rest" x] lin(3)
        blocksD(5) [OF b(1,3)] blocksD(5) [OF b(1) pv(2)] by (simp add: m'_def)
    then show False using that by simp
  qed
  ultimately show ?thesis using inv' sz [OF I(1)] lN b(3) l_def
    by (intro exI [of _ h'] exI [of _ l]) (auto simp: h'_def m_def)
qed

lemma take_ok:
  assumes "heap_inv h (tp # rest) A" "units > 0" "units \<le> f_size (h_mem h) tp" "prev = last (tp # rest)"
  shows "\<exists>h' C'. take_block units prev tp h = (tp + 4, h') \<and> heap_inv h' C' (insert tp A) \<and>
    evolves h (tp # rest) h' C' \<and> f_size (h_mem h') tp = units \<and> h_memry h' = h_memry h \<and> h_last h' = prev \<and>
    (\<forall>x. unat tp + 4 \<le> unat x \<and> unat x < unat tp + extent h' tp \<longrightarrow> h_mem h' x = h_mem h x) \<and>
    (\<forall>x. h_mem h' x \<noteq> h_mem h x \<longrightarrow> in_headers (insert (tp + 4 * units) (set (tp # rest))) x)"
proof -
  have p: "prev = last rest" using inv_start(3) [OF assms(1-3)] assms(4) by simp
  show ?thesis
  proof (cases "units = f_size (h_mem h) tp")
    case True
    show ?thesis using take_exact [OF assms(1,2) True [symmetric]] unfolding p by blast
  next
    case False
    then have "units < f_size (h_mem h) tp" using assms(3) by simp
    from take_split [OF assms(1,2) this] show ?thesis unfolding p by blast
  qed
qed

section \<open>Malloc\<close>

lemma blocks_add:
  assumes b: "blocks h N" and r: "unat (h_memry h) \<le> unat r" "4 \<le> extent h' r" "unat r + extent h' r \<le> unat (h_memry h')"
    and h': "h_head h' = h_head h" "unat (h_memry h) \<le> unat (h_memry h')"
    and sz: "\<And>q. q \<in> N \<Longrightarrow> f_size (h_mem h') q = f_size (h_mem h) q"
  shows "blocks h' (insert r N)" "\<And>q. q \<in> N \<Longrightarrow> extent h' q = extent h q"
proof -
  show e: "extent h' q = extent h q" if "q \<in> N" for q using sz [OF that] h'(1) by (simp add: extent_def)
  have hN: "h_head h \<in> N" using b by (simp add: blocks_def)
  have below: "unat q + extent h' q \<le> unat r" if "q \<in> N" for q
    using blocksD(3) [OF b that] e [OF that] r(1) by linarith
  show "blocks h' (insert r N)"
    unfolding blocks_def h'(1)
  proof (intro conjI ballI impI)
    show "h_head h \<in> insert r N" using hN by simp
    show "0 < unat (h_head h)" "f_size (h_mem h') (h_head h) = 0" using b sz hN by (auto simp: blocks_def)
    fix p assume p: "p \<in> insert r N"
    show "4 \<le> extent h' p" using p r(2) e blocksD(1) [OF b] by (cases "p = r") auto
    show "unat (h_head h) \<le> unat p" using p blocksD(2) [OF b] blocksD(3) [OF b hN] r(1) by (cases "p = r") auto
    show "unat p + extent h' p \<le> unat (h_memry h')"
      using p r(3) e blocksD(3) [OF b, of p] h'(2) by (cases "p = r") auto
    fix q assume q: "q \<in> insert r N" "p \<noteq> q"
    have both: "unat p + extent h' p \<le> unat q \<or> unat q + extent h' q \<le> unat p" if "p \<in> N" "q \<in> N"
      using blocks_disjoint [OF b that q(2)] e [OF that(1)] e [OF that(2)] by simp
    show "unat p + extent h' p \<le> unat q \<or> unat q + extent h' q \<le> unat p"
      using p q below [of p] below [of q] both by blast
  qed
qed

text \<open>More memory from the system becomes a block in use, which is then given to the free list.\<close>

lemma grow_ok:
  assumes inv: "heap_inv h C A" and s: "sbrk 1024 h = (r, h2)" "r \<noteq> 0xFFFF"
    and h': "h' = h2\<lparr>h_mem := set_chain r 0 (set_size r 256 (h_mem h2))\<rparr>"
  shows "heap_inv h' C (insert r A)" "evolves h C h' (r # C)" "unat (h_memry h') = unat (h_memry h) + 1024" "r \<notin> A"
    "r = h_memry h" "\<And>x. h_mem h' x \<noteq> h_mem h x \<Longrightarrow> unat (h_memry h) \<le> unat x"
proof -
  define N where "N = set C \<union> A"
  have b: "blocks h N" using inv by (simp add: heap_inv_def N_def)
  have bd: "unat (h_memry h) + 1024 < 65536" and r: "r = h_memry h" and h2: "h2 = h\<lparr>h_memry := h_memry h + 1024\<rparr>"
    using s by (auto simp: sbrk_def Let_def split: if_splits)
  have mr: "unat (h_memry h') = unat (h_memry h) + 1024" unfolding h' h2 using word_offset [OF bd] by simp
  then show "unat (h_memry h') = unat (h_memry h) + 1024" .
  have hd': "h_head h' = h_head h" "h_sbot h' = h_sbot h" "h_last h' = h_last h" by (simp_all add: h' h2)
  have r4: "unat r + 4 \<le> 65536" using bd r by simp
  have ap: "apart r q" "unat q + 4 \<le> 65536" if "q \<in> N" for q
    using blocksD(1,3,5) [OF b that] r by (auto simp: apart_def)
  have rN: "r \<notin> N" using ap by (force simp: apart_def)
  then show "r \<notin> A" by (simp add: N_def)
  have sz: "f_size (h_mem h') q = f_size (h_mem h) q" and ch: "f_chain (h_mem h') q = f_chain (h_mem h) q" if "q \<in> N" for q
    using header_apart [OF r4 ap(2) ap(1)] that by (simp_all add: h' h2)
  have hr: "f_size (h_mem h') r = 256" "f_chain (h_mem h') r = 0" using header_same [OF r4] by (simp_all add: h')
  have rh: "r \<noteq> h_head h" using rN b by (auto simp: blocks_def)
  have ex: "extent h' r = 1024" using hr(1) rh hd' by (simp add: extent_def)
  have rb: "unat (h_memry h) \<le> unat r" "4 \<le> extent h' r" "unat r + extent h' r \<le> unat (h_memry h')"
    "unat (h_memry h) \<le> unat (h_memry h')" using ex mr arg_cong [OF r, of unat] by linarith+
  note bl = blocks_add [OF b rb(1-3) hd'(1) rb(4) sz]
  have "cyc (f_chain (h_mem h')) C = cyc (f_chain (h_mem h)) C" by (rule cyc_cong) (use ch in \<open>simp add: N_def\<close>)
  moreover have "set C \<union> insert r A = insert r N" by (simp add: N_def)
  ultimately show "heap_inv h' C (insert r A)"
    using inv bl(1) ch hr(2) hd' rN unfolding heap_inv_def by (auto simp: N_def)
  have "h_mem h' x = h_mem h x" if "x \<notin> free_space h C" for x
    using set_outside [OF r4, of x] that r by (simp add: h' h2 free_space_def)
  moreover have "free_space h' (r # C) \<subseteq> free_space h C"
    using bl(2) mr r by (auto simp: free_space_def inside_def N_def)
  ultimately show "evolves h C h' (r # C)" using hd' mr by (simp add: evolves_def)
  show "r = h_memry h" by fact
  show "unat (h_memry h) \<le> unat x" if "h_mem h' x \<noteq> h_mem h x" for x
  proof (rule ccontr)
    assume "\<not> ?thesis"
    then have "unat x < unat r" using r by simp
    then show False using that set_outside [OF r4, of x] by (simp add: h' h2)
  qed
qed

definition malloc_post :: "u16 \<Rightarrow> heap \<Rightarrow> u16 list \<Rightarrow> u16 set \<Rightarrow> u16 \<times> heap \<Rightarrow> bool" where
  "malloc_post units h C A = (\<lambda>(r, h'). \<exists>C'. evolves h C h' C' \<and>
     (\<forall>x. h_mem h' x \<noteq> h_mem h x \<longrightarrow> in_headers (set C) x \<or> unat (h_memry h) \<le> unat x \<or>
        r \<noteq> 0 \<and> in_headers {r - 4 + 4 * units} x) \<and>
     (r = 0 \<and> heap_inv h' C' A \<and> unat (h_sbot h') < unat (h_memry h') + 1024 \<or>
      (\<exists>p. r = p + 4 \<and> p \<notin> A \<and> heap_inv h' C' (insert p A) \<and> f_size (h_mem h') p = units)))"

lemma malloc_post_trans:
  assumes "evolves h C h1 C1" "quiet h C h1 C1" "malloc_post units h1 C1 A q"
  shows "malloc_post units h C A q"
proof -
  obtain r h' where q: "q = (r, h')" by fastforce
  obtain C' where p: "evolves h1 C1 h' C'"
    "\<And>x. h_mem h' x \<noteq> h_mem h1 x \<Longrightarrow> in_headers (set C1) x \<or> unat (h_memry h1) \<le> unat x \<or>
       r \<noteq> 0 \<and> in_headers {r - 4 + 4 * units} x"
    "r = 0 \<and> heap_inv h' C' A \<and> unat (h_sbot h') < unat (h_memry h') + 1024 \<or>
      (\<exists>p. r = p + 4 \<and> p \<notin> A \<and> heap_inv h' C' (insert p A) \<and> f_size (h_mem h') p = units)"
    using assms(3) unfolding q malloc_post_def by blast
  have "in_headers (set C) x \<or> unat (h_memry h) \<le> unat x \<or> r \<noteq> 0 \<and> in_headers {r - 4 + 4 * units} x"
    if "h_mem h' x \<noteq> h_mem h x" for x
  proof (cases "h_mem h' x = h_mem h1 x")
    case True
    then show ?thesis using assms(2) that by (auto simp: quiet_def)
  next
    case False
    from p(2) [OF this] show ?thesis using quiet_headers [OF assms(2), of x] by blast
  qed
  then show ?thesis using evolves_trans [OF assms(1) p(1)] p(3) unfolding q malloc_post_def by blast
qed

lemma malloc_loop_ok:
  assumes "units > 0" "heap_inv h (tp # rest) A" "prev = last (tp # rest)"
  shows "\<exists>q. malloc_loop units prev tp h = Some q \<and> malloc_post units h (tp # rest) A q"
  using assms(2,3)
proof (induction "65536 - unat (h_memry h)" arbitrary: h tp rest prev rule: less_induct)
  case less
  have lap: "\<exists>q. malloc_loop units prev tp g = Some q \<and> malloc_post units g (tp # rest) A q"
    if "heap_inv g (tp # rest) A" "prev = last (tp # rest)" "(tp # rest) ! i = h_last g" "i < length (tp # rest)"
      "h_memry g = h_memry h" for i g tp rest prev
    using that
  proof (induction i arbitrary: g tp rest prev rule: less_induct)
    case L: (less i)
    obtain g1 r1 i1 where c: "coalesce tp g = Some g1" "heap_inv g1 (tp # r1) A" "evolves g (tp # rest) g1 (tp # r1)"
      "(tp # r1) ! i1 = h_last g1" "i1 < length (tp # r1)" "i1 \<le> i" "last (tp # r1) = last (tp # rest)"
      "h_memry g1 = h_memry g" "set r1 \<subseteq> set rest" "\<And>x. h_mem g1 x \<noteq> h_mem g x \<Longrightarrow> in_headers {tp} x"
      using coalesce_ok [OF L.prems(1,3,4)] by blast
    have qu: "quiet g (tp # rest) g1 (tp # r1)" using c(8-10) by (auto simp: quiet_def in_headers_def)
    consider (fits) "units \<le> f_size (h_mem g1) tp" | (grow) "\<not> units \<le> f_size (h_mem g1) tp" "tp = h_last g1"
      | (step) "\<not> units \<le> f_size (h_mem g1) tp" "tp \<noteq> h_last g1" by blast
    then show ?case
    proof cases
      case fits
      have pv: "prev = last (tp # r1)" using c(7) L.prems(2) by simp
      obtain h' C' where t: "take_block units prev tp g1 = (tp + 4, h')" "heap_inv h' C' (insert tp A)"
        "evolves g1 (tp # r1) h' C'" "f_size (h_mem h') tp = units"
        "\<And>x. h_mem h' x \<noteq> h_mem g1 x \<Longrightarrow> in_headers (insert (tp + 4 * units) (set (tp # r1))) x"
        using take_ok [OF c(2) assms(1) fits pv] by blast
      have "malloc_loop units prev tp g = Some (take_block units prev tp g1)"
        using c(1) fits by (subst malloc_loop.simps) simp
      moreover have nz: "tp + 4 \<noteq> 0"
      proof -
        have "blocks g1 (set (tp # r1) \<union> A)" using c(2) by (simp add: heap_inv_def)
        then have "unat (tp + 4) = unat tp + 4" using word_offset [of tp 4] blocksD(5) [of g1 "set (tp # r1) \<union> A" tp] by simp
        then show ?thesis by auto
      qed
      moreover have "tp \<notin> A" using c(2) by (auto simp: heap_inv_def)
      then have "malloc_post units g1 (tp # r1) A (take_block units prev tp g1)"
        using t nz unfolding malloc_post_def in_headers_def by auto
      ultimately show ?thesis using malloc_post_trans [OF c(3) qu] by blast
    next
      case step
      then obtain k where k: "i1 = Suc k" using c(4) by (cases i1) auto
      obtain y ys where r1: "r1 = y # ys" using c(5) k by (cases r1) auto
      have nx: "f_chain (h_mem g1) tp = y" using c(2) cyc_next [of "f_chain (h_mem g1)" tp r1] r1 by (simp add: heap_inv_def)
      have iv: "heap_inv g1 (y # ys @ [tp]) A" using heap_inv_rotate [of g1 "[tp]" "y # ys"] c(2) r1 by simp
      have "(y # ys @ [tp]) ! k = h_last g1" using c(4,5) k r1 by (simp add: nth_append nth_Cons split: nat.splits)
      then obtain q where q: "malloc_loop units tp y g1 = Some q" "malloc_post units g1 (y # ys @ [tp]) A q"
        using L.IH [of k g1 y "ys @ [tp]" tp] iv k c(5,6,8) r1 L.prems(5) by auto
      have "malloc_loop units prev tp g = Some q" using c(1) step nx q(1) by (subst malloc_loop.simps) simp
      moreover have "evolves g (tp # rest) g1 (y # ys @ [tp])" by (rule evolves_rotate [OF c(3)]) (auto simp: r1)
      moreover have "quiet g (tp # rest) g1 (y # ys @ [tp])" by (rule quiet_rotate [OF qu]) (auto simp: r1)
      ultimately show ?thesis using malloc_post_trans q(2) by blast
    next
      case grow
      obtain r h2 where s: "sbrk 1024 g1 = (r, h2)" by fastforce
      define g2 where "g2 = h2\<lparr>h_mem := set_chain r 0 (set_size r 256 (h_mem h2))\<rparr>"
      have un: "malloc_loop units prev tp g = (if r = 0xFFFF then Some (0, h2) else
          Option.bind (free (r + 4) g2) (\<lambda>q. malloc_loop units (h_last (snd q)) (f_chain (h_mem (snd q)) (h_last (snd q))) (snd q)))"
        using c(1) grow s by (subst malloc_loop.simps) (simp add: g2_def Let_def)
      show ?thesis
      proof (cases "r = 0xFFFF")
        case True
        have "h2 = g1 \<and> unat (h_sbot g1) < unat (h_memry g1) + 1024"
        proof -
          have lt: "unat (h_sbot g1) < 65536" by (rule unat_u16_lt)
          have "65536 \<le> unat (h_memry g1) + 1024 \<or> unat (h_sbot g1) < unat (h_memry g1) + 1024" "h2 = g1"
            using s True by (auto simp: sbrk_def Let_def split: if_splits)
          then show ?thesis using lt by linarith
        qed
        then have "malloc_post units g1 (tp # r1) A (0, h2)"
          using c(2) unfolding malloc_post_def by (auto intro: exI [of _ "tp # r1"])
        then show ?thesis using un True malloc_post_trans [OF c(3) qu] by auto
      next
        case False
        note gr = grow_ok [OF c(2) s False g2_def]
        obtain h3 t rs where f: "free (r + 4) g2 = Some (0, h3)" "heap_inv h3 (t # r # rs) (insert r A - {r})"
          "evolves g2 (r # tp # r1) h3 (t # r # rs)" "h_last h3 = t" "h_memry h3 = h_memry g2" "set (t # rs) = set (tp # r1)"
          "\<And>x. h_mem h3 x \<noteq> h_mem g2 x \<Longrightarrow> in_headers (set (r # tp # r1)) x"
          using free_ok [OF gr(1), of r] by blast
        have iA: "insert r A - {r} = A" using gr(4) by blast
        have nx: "f_chain (h_mem h3) t = r" using f(2) cyc_next [of "f_chain (h_mem h3)" t "r # rs"] by (simp add: heap_inv_def)
        have iv: "heap_inv h3 (r # rs @ [t]) A" using heap_inv_rotate [of h3 "[t]" "r # rs"] f(2) iA by simp
        have "65536 - unat (h_memry h3) < 65536 - unat (h_memry h)"
          using gr(3) unat_u16_lt [of "h_memry g2"] unfolding f(5) c(8) L.prems(5) by linarith
        then obtain q where q: "malloc_loop units t r h3 = Some q" "malloc_post units h3 (r # rs @ [t]) A q"
          using less.hyps [OF _ iv, of t] by auto
        have "evolves g (tp # rest) h3 (r # rs @ [t])"
          by (rule evolves_rotate [OF evolves_trans [OF c(3) evolves_trans [OF gr(2) f(3)]]]) auto
        moreover have "quiet g1 (tp # r1) h3 (r # rs @ [t])"
          unfolding quiet_def
        proof (intro conjI ballI allI impI)
          show "unat (h_memry g1) \<le> unat (h_memry h3)" using gr(3) f(5) by simp
          show "p \<in> set (tp # r1) \<or> unat (h_memry g1) \<le> unat p" if "p \<in> set (r # rs @ [t])" for p
            using that f(6) gr(5) by auto
          fix x assume x: "h_mem h3 x \<noteq> h_mem g1 x"
          show "in_headers (set (tp # r1)) x \<or> unat (h_memry g1) \<le> unat x"
            using f(7) [of x] gr(6) [of x] gr(5) x by (cases "h_mem h3 x = h_mem g2 x") (auto simp: in_headers_def)
        qed
        ultimately show ?thesis using un False f(1,4) nx q malloc_post_trans [OF _ quiet_trans [OF qu]] by auto
      qed
    qed
  qed
  obtain i where "i < length (tp # rest)" "(tp # rest) ! i = h_last h"
    using less.prems(1) unfolding heap_inv_def by (metis in_set_conv_nth)
  then show ?case using lap [OF less.prems] by blast
qed

end
