(* ===== verification/Aztec_Heap_Spec.thy ===== *)
theory Aztec_Heap_Spec
  imports Aztec_Heap
begin

text \<open>
  What the allocator promises to its callers: a locale for allocators, in which every sequence of calls
  is shown to behave like a store of separate arrays, its interpretation by \<open>malloc\<close> and \<open>free\<close>, and the
  functions built on them.
\<close>

section \<open>Malloc\<close>

definition units_of :: "u16 \<Rightarrow> u16" where
  "units_of sz = (sz + 3) div 4 + 1"

lemma unat_units_of: "unat (units_of sz) = (unat sz + 3) mod 65536 div 4 + 1"
proof -
  have "unat ((sz + 3) div 4) = (unat sz + 3) mod 65536 div 4"
    by (simp add: unat_div_distrib unat_word_ariths)
  moreover have "(unat sz + 3) mod 65536 div 4 < 16384" by (simp add: less_mult_imp_div_less)
  ultimately show ?thesis unfolding units_of_def by (simp add: unat_word_ariths)
qed

lemma units_of_pos: "units_of sz > 0"
  using unat_units_of [of sz] by (metis add_gr_0 less_one unat_gt_0 word_neq_0_conv)

lemma units_enough: "unat sz \<le> 65532 \<Longrightarrow> unat sz + 4 \<le> 4 * unat (units_of sz)"
  unfolding unat_units_of by simp

text \<open>Before the first call the list is not set up yet.\<close>

definition fresh :: "heap \<Rightarrow> bool" where
  "fresh h \<longleftrightarrow> h_last h = 0 \<and> blocks h {h_head h}"

definition heap_ok :: "heap \<Rightarrow> u16 list \<Rightarrow> u16 set \<Rightarrow> bool" where
  "heap_ok h C A \<longleftrightarrow> heap_inv h C A \<or> fresh h \<and> C = [h_head h] \<and> A = {}"

lemma malloc_inv:
  assumes inv: "heap_inv h C A"
  shows "\<exists>q. malloc sz h = Some q \<and> malloc_post (units_of sz) h C A q"
proof -
  define c where "c = f_chain (h_mem h)"
  have b: "blocks h (set C \<union> A)" "h_last h \<in> set C" "cyc c C" using inv by (auto simp: heap_inv_def c_def)
  have n0: "h_last h \<noteq> 0" using blocksD(4) [OF b(1)] b(2) by blast
  obtain ys where ys: "cyc c (h_last h # ys)" "set (h_last h # ys) = set C" using cyc_starts [OF b(3,2)] by blast
  obtain tp rest where tp: "ys @ [h_last h] = tp # rest" by (cases ys) auto
  have s: "set (tp # rest) = set C" "last (tp # rest) = h_last h" "c (h_last h) = tp"
    using ys(2) cyc_next [OF ys(1)] unfolding tp [symmetric] by auto (metis tp list.sel(1))
  have "cyc c (tp # rest)" using cyc_rotate [of c "[h_last h]" ys] ys(1) tp by simp
  then have "heap_inv h (tp # rest) A" using inv s(1) unfolding heap_inv_def c_def by simp
  from malloc_loop_ok [OF units_of_pos this] s(2)
  obtain q where q: "malloc_loop (units_of sz) (h_last h) tp h = Some q" "malloc_post (units_of sz) h (tp # rest) A q"
    by fastforce
  have "malloc sz h = Some q" using q(1) n0 s(3) by (simp add: malloc_def Let_def units_of_def c_def)
  moreover have "malloc_post (units_of sz) h C A q"
    using q(2) unfolding malloc_post_def evolves_def free_space_cong [OF s(1), of h] s(1) .
  ultimately show ?thesis by blast
qed

lemma malloc_ok:
  assumes "heap_ok h C A"
  shows "\<exists>q. malloc sz h = Some q \<and> malloc_post (units_of sz) h C A q"
  using assms unfolding heap_ok_def
proof
  assume f: "fresh h \<and> C = [h_head h] \<and> A = {}"
  define h1 where "h1 = h\<lparr>h_mem := set_chain (h_head h) (h_head h) (h_mem h), h_last := h_head h\<rparr>"
  have b: "blocks h {h_head h}" using f by (simp add: fresh_def)
  have b4: "unat (h_head h) + 4 \<le> 65536" using blocksD(5) [OF b] by simp
  have bl: "blocks h1 {h_head h}" "extent h1 (h_head h) = extent h (h_head h)"
    using blocks_sizes [OF b, of h1] header_same(3) [OF b4] by (simp_all add: h1_def)
  have inv: "heap_inv h1 [h_head h] {}"
    unfolding heap_inv_def using bl(1) header_same(2) [OF b4] by (simp add: h1_def cyc_def)
  have ev: "evolves h [h_head h] h1 [h_head h]"
    using header_inside(2) [OF b, of "h_head h"] bl(2)
    by (auto simp: evolves_def h1_def free_space_def inside_def)
  have "in_headers {h_head h} x" if "h_mem h1 x \<noteq> h_mem h x" for x
    using that set_changes [OF b4, of "h_head h" "h_mem h" x] by (simp add: h1_def in_headers_def)
  then have qu: "quiet h [h_head h] h1 [h_head h]" by (simp add: quiet_def h1_def)
  have "malloc sz h = malloc sz h1"
    using f blocksD(4) [OF b, of "h_head h"] by (simp add: malloc_def fresh_def h1_def Let_def)
  moreover obtain q where "malloc sz h1 = Some q" "malloc_post (units_of sz) h1 [h_head h] {} q"
    using malloc_inv [OF inv] by blast
  ultimately show ?thesis using malloc_post_trans [OF ev qu] f by metis
qed (rule malloc_inv)

section \<open>Allocators\<close>

datatype call = Malloc u16 | Free u16 | Store u16 nat u8

fun perform ::
  "(u16 \<Rightarrow> 's \<Rightarrow> (u16 \<times> 's) option) \<Rightarrow> (u16 \<Rightarrow> 's \<Rightarrow> (u16 \<times> 's) option) \<Rightarrow> (u16 \<Rightarrow> u8 \<Rightarrow> 's \<Rightarrow> 's) \<Rightarrow>
   call \<Rightarrow> 's \<Rightarrow> (u16 \<times> 's) option" where
  "perform alloc release put (Malloc n) s = alloc n s"
| "perform alloc release put (Free p) s = release p s"
| "perform alloc release put (Store p i b) s = Some (0, put (p + of_nat i) b s)"

text \<open>The specification: a store of arrays under addresses; a new array has any contents.\<close>

inductive spec_step :: "(u16 \<rightharpoonup> bytes) \<Rightarrow> call \<Rightarrow> u16 \<Rightarrow> (u16 \<rightharpoonup> bytes) \<Rightarrow> bool" where
  no_room: "spec_step M (Malloc n) 0 M"
| got: "r \<noteq> 0 \<Longrightarrow> r \<notin> dom M \<Longrightarrow> length bs = unat n \<Longrightarrow> spec_step M (Malloc n) r (M(r \<mapsto> bs))"
| dropped: "p \<in> dom M \<Longrightarrow> spec_step M (Free p) 0 (M(p := None))"
| stored: "M p = Some bs \<Longrightarrow> i < length bs \<Longrightarrow> spec_step M (Store p i b) 0 (M(p \<mapsto> bs[i := b]))"

text \<open>Calls a program may make: requests below the wrap-around, addresses and indices of its arrays.\<close>

fun legal :: "(u16 \<rightharpoonup> bytes) \<Rightarrow> call \<Rightarrow> bool" where
  "legal M (Malloc n) \<longleftrightarrow> unat n \<le> 65532"
| "legal M (Free p) \<longleftrightarrow> p \<in> dom M"
| "legal M (Store p i b) \<longleftrightarrow> (case M p of None \<Rightarrow> False | Some bs \<Rightarrow> i < length bs)"

text \<open>A state holds the arrays of such a store.\<close>

definition represents ::
  "('s \<Rightarrow> u16 set \<Rightarrow> bool) \<Rightarrow> ('s \<Rightarrow> u16 \<Rightarrow> nat) \<Rightarrow> ('s \<Rightarrow> u16 \<Rightarrow> u8) \<Rightarrow> 's \<Rightarrow> (u16 \<rightharpoonup> bytes) \<Rightarrow> bool" where
  "represents good cap byte s M \<longleftrightarrow> good s (dom M) \<and>
     (\<forall>p bs. M p = Some bs \<longrightarrow> length bs \<le> cap s p \<and> (\<forall>i < length bs. byte s (p + of_nat i) = bs ! i))"

locale allocator =
  fixes good :: "'s \<Rightarrow> u16 set \<Rightarrow> bool"
    and cap :: "'s \<Rightarrow> u16 \<Rightarrow> nat"
    and byte :: "'s \<Rightarrow> u16 \<Rightarrow> u8"
    and alloc :: "u16 \<Rightarrow> 's \<Rightarrow> (u16 \<times> 's) option"
    and release :: "u16 \<Rightarrow> 's \<Rightarrow> (u16 \<times> 's) option"
    and put :: "u16 \<Rightarrow> u8 \<Rightarrow> 's \<Rightarrow> 's"
  assumes region: "good s P \<Longrightarrow> p \<in> P \<Longrightarrow> p \<noteq> 0 \<and> unat p + cap s p \<le> 65536"
    and separate: "good s P \<Longrightarrow> p \<in> P \<Longrightarrow> q \<in> P \<Longrightarrow> p \<noteq> q \<Longrightarrow>
      unat p + cap s p \<le> unat q \<or> unat q + cap s q \<le> unat p"
    and alloc_law: "good s P \<Longrightarrow> \<exists>r s'. alloc n s = Some (r, s') \<and>
      (r = 0 \<and> good s' P \<or> r \<notin> P \<and> good s' (insert r P) \<and> (unat n \<le> 65532 \<longrightarrow> unat n \<le> cap s' r)) \<and>
      (\<forall>p \<in> P. cap s' p = cap s p \<and> (\<forall>i < cap s p. byte s' (p + of_nat i) = byte s (p + of_nat i)))"
    and release_law: "good s P \<Longrightarrow> p \<in> P \<Longrightarrow> \<exists>s'. release p s = Some (0, s') \<and> good s' (P - {p}) \<and>
      (\<forall>q \<in> P - {p}. cap s' q = cap s q \<and> (\<forall>i < cap s q. byte s' (q + of_nat i) = byte s (q + of_nat i)))"
    and put_law: "good s P \<Longrightarrow> p \<in> P \<Longrightarrow> i < cap s p \<Longrightarrow> good (put (p + of_nat i) b s) P \<and>
      (\<forall>q \<in> P. cap (put (p + of_nat i) b s) q = cap s q) \<and>
      byte (put (p + of_nat i) b s) = (byte s)(p + of_nat i := b)"
begin

lemma representsD:
  "represents good cap byte s M \<Longrightarrow> good s (dom M)"
  "represents good cap byte s M \<Longrightarrow> M p = Some bs \<Longrightarrow> length bs \<le> cap s p"
  "represents good cap byte s M \<Longrightarrow> M p = Some bs \<Longrightarrow> i < length bs \<Longrightarrow> byte s (p + of_nat i) = bs ! i"
  by (simp_all add: represents_def)

lemma address: "good s P \<Longrightarrow> p \<in> P \<Longrightarrow> i < cap s p \<Longrightarrow> unat (p + of_nat i) = unat p + i"
  using region [of s P p] word_offset [of p i] by simp

lemma represents_kept:
  assumes "represents good cap byte s M" "good s' (dom M')"
    and "\<And>p. p \<in> dom M \<inter> dom M' \<Longrightarrow> cap s' p = cap s p \<and> (\<forall>i < cap s p. byte s' (p + of_nat i) = byte s (p + of_nat i))"
    and "\<And>p bs. M' p = Some bs \<Longrightarrow> M p = Some bs \<or>
      length bs \<le> cap s' p \<and> (\<forall>i < length bs. byte s' (p + of_nat i) = bs ! i)"
  shows "represents good cap byte s' M'"
  unfolding represents_def
proof (intro conjI allI impI)
  show "good s' (dom M')" by fact
  fix p bs assume p: "M' p = Some bs"
  have "length bs \<le> cap s' p \<and> (\<forall>i < length bs. byte s' (p + of_nat i) = bs ! i)"
  proof (cases "M p = Some bs")
    case True
    then have "p \<in> dom M \<inter> dom M'" using p by auto
    from assms(3) [OF this] show ?thesis using representsD(2,3) [OF assms(1) True] by simp
  qed (use assms(4) [OF p] in blast)
  then show "length bs \<le> cap s' p" "\<And>i. i < length bs \<Longrightarrow> byte s' (p + of_nat i) = bs ! i" by auto
qed

lemma stored_represents:
  assumes r: "represents good cap byte s M" and p: "M p = Some bs" "i < length bs"
  shows "represents good cap byte (put (p + of_nat i) b s) (M(p \<mapsto> bs[i := b]))"
proof -
  define s' where "s' = put (p + of_nat i) b s"
  have g: "good s (dom M)" "p \<in> dom M" "i < cap s p" using representsD(1,2) [OF r] p by fastforce+
  have pl: "good s' (dom M)" "\<And>q. q \<in> dom M \<Longrightarrow> cap s' q = cap s q" "byte s' = (byte s)(p + of_nat i := b)"
    using put_law [OF g, of b] by (auto simp: s'_def)
  have bytes: "byte s' (q + of_nat j) = (if q = p \<and> j = i then b else byte s (q + of_nat j))"
    if "q \<in> dom M" "j < cap s q" for q j
  proof -
    have "q + of_nat j = p + of_nat i \<longleftrightarrow> q = p \<and> j = i"
    proof
      assume "q + of_nat j = p + of_nat i"
      then have e: "unat q + j = unat p + i" using address [OF g] address [OF g(1) that] by metis
      show "q = p \<and> j = i"
      proof (cases "q = p")
        case False
        then show ?thesis using separate [OF g(1) that(1) g(2)] e that(2) g(3) by auto
      qed (use e in simp)
    qed simp
    then show ?thesis using pl(3) by auto
  qed
  show ?thesis unfolding s'_def [symmetric] represents_def
  proof (intro conjI allI impI)
    have "dom (M(p \<mapsto> bs[i := b])) = dom M" using g(2) by auto
    then show "good s' (dom (M(p \<mapsto> bs[i := b])))" using pl(1) by simp
    fix q cs assume q: "(M(p \<mapsto> bs[i := b])) q = Some cs"
    then have qM: "q \<in> dom M" using g(2) by (auto split: if_splits)
    show l: "length cs \<le> cap s' q" using q pl(2) [OF qM] representsD(2) [OF r] p by (auto split: if_splits)
    fix j assume j: "j < length cs"
    then have jc: "j < cap s q" using l pl(2) [OF qM] by simp
    show "byte s' (q + of_nat j) = cs ! j"
      using bytes [OF qM jc] q j representsD(3) [OF r] p by (auto simp: nth_list_update split: if_splits)
  qed
qed

lemma step_refines:
  assumes r: "represents good cap byte s M" and l: "legal M c"
  shows "\<exists>v s' M'. perform alloc release put c s = Some (v, s') \<and> spec_step M c v M' \<and> represents good cap byte s' M'"
proof (cases c)
  case (Malloc n)
  have g: "good s (dom M)" using r by (simp add: represents_def)
  obtain v s' where a: "alloc n s = Some (v, s')"
    "v = 0 \<and> good s' (dom M) \<or> v \<notin> dom M \<and> good s' (insert v (dom M)) \<and> unat n \<le> cap s' v"
    "\<And>p. p \<in> dom M \<Longrightarrow> cap s' p = cap s p \<and> (\<forall>i < cap s p. byte s' (p + of_nat i) = byte s (p + of_nat i))"
  proof -
    obtain v s' where "alloc n s = Some (v, s') \<and>
      (v = 0 \<and> good s' (dom M) \<or> v \<notin> dom M \<and> good s' (insert v (dom M)) \<and> (unat n \<le> 65532 \<longrightarrow> unat n \<le> cap s' v)) \<and>
      (\<forall>p \<in> dom M. cap s' p = cap s p \<and> (\<forall>i < cap s p. byte s' (p + of_nat i) = byte s (p + of_nat i)))"
      using alloc_law [OF g, of n] by (elim exE)
    moreover have "unat n \<le> 65532" using l Malloc by simp
    ultimately show thesis using that by blast
  qed
  show ?thesis
  proof (cases "v = 0 \<and> good s' (dom M)")
    case True
    have "represents good cap byte s' M" by (rule represents_kept [OF r]) (use True a(3) in auto)
    then show ?thesis using a(1) True Malloc spec_step.no_room by auto
  next
    case False
    then have v: "v \<notin> dom M" "good s' (insert v (dom M))" "unat n \<le> cap s' v" using a(2) by auto
    define bs where "bs = map (\<lambda>i. byte s' (v + of_nat i)) [0..<unat n]"
    have "represents good cap byte s' (M(v \<mapsto> bs))"
      by (rule represents_kept [OF r]) (use v a(3) in \<open>auto simp: bs_def split: if_splits\<close>)
    moreover have "v \<noteq> 0" using region [OF v(2)] by blast
    then have "spec_step M c v (M(v \<mapsto> bs))" using v(1) Malloc spec_step.got by (simp add: bs_def)
    ultimately show ?thesis using a(1) Malloc by auto
  qed
next
  case (Free p)
  then have p: "good s (dom M)" "p \<in> dom M" using representsD(1) [OF r] l by simp_all
  obtain s' where f: "release p s = Some (0, s')" "good s' (dom M - {p})"
    "\<And>q. q \<in> dom M - {p} \<Longrightarrow> cap s' q = cap s q \<and> (\<forall>i < cap s q. byte s' (q + of_nat i) = byte s (q + of_nat i))"
    using release_law [OF p] by blast
  have "represents good cap byte s' (M(p := None))"
    by (rule represents_kept [OF r]) (use f in \<open>auto split: if_splits\<close>)
  then show ?thesis using f(1) Free spec_step.dropped [OF p(2)] by auto
next
  case (Store p i b)
  then obtain bs where "M p = Some bs" "i < length bs" using l by (auto split: option.splits)
  then show ?thesis using stored_represents [OF r] Store spec_step.stored by fastforce
qed

end

section \<open>The allocator of the library\<close>

definition heap_good :: "heap \<Rightarrow> u16 set \<Rightarrow> bool" where
  "heap_good h P \<longleftrightarrow> (\<exists>C. heap_ok h C ((\<lambda>p. p - 4) ` P))"

definition heap_cap :: "heap \<Rightarrow> u16 \<Rightarrow> nat" where
  "heap_cap h p = extent h (p - 4) - 4"

definition heap_put :: "u16 \<Rightarrow> u8 \<Rightarrow> heap \<Rightarrow> heap" where
  "heap_put a b h = h\<lparr>h_mem := (h_mem h)(a := b)\<rparr>"

text \<open>Changes of the data of blocks in use do not matter to the allocator.\<close>

lemma heap_inv_data:
  assumes inv: "heap_inv h C A"
    and d: "\<And>x. h_mem h' x \<noteq> h_mem h x \<Longrightarrow> \<exists>a \<in> A. unat a + 4 \<le> unat x \<and> unat x < unat a + extent h a"
    and h': "h_memry h' = h_memry h" "h_head h' = h_head h" "h_last h' = h_last h"
  shows "heap_inv h' C A" "\<And>q. q \<in> set C \<union> A \<Longrightarrow> extent h' q = extent h q"
    "\<And>q. q \<in> set C \<union> A \<Longrightarrow> f_size (h_mem h') q = f_size (h_mem h) q"
proof -
  define N where "N = set C \<union> A"
  have b: "blocks h N" using inv by (simp add: heap_inv_def N_def)
  have keep: "h_mem h' x = h_mem h x" if "q \<in> N" "unat q \<le> unat x" "unat x < unat q + 4" for q x
  proof (rule ccontr)
    assume "h_mem h' x \<noteq> h_mem h x"
    then obtain a where a: "a \<in> A" "unat a + 4 \<le> unat x" "unat x < unat a + extent h a" using d by blast
    have "a \<in> N" "a \<noteq> q" using a(1,2) that(3) by (auto simp: N_def)
    then show False using blocks_disjoint [OF b that(1)] blocksD(1) [OF b that(1)] a that(2,3) by fastforce
  qed
  have hd: "f_size (h_mem h') q = f_size (h_mem h) q \<and> f_chain (h_mem h') q = f_chain (h_mem h) q" if "q \<in> N" for q
  proof -
    have "unat q + 4 \<le> 65536" using blocksD(5) [OF b that] by simp
    then show ?thesis by (intro header_bytes keep [OF that]) (use header_offsets [of q] in simp_all)
  qed
  then show "\<And>q. q \<in> set C \<union> A \<Longrightarrow> f_size (h_mem h') q = f_size (h_mem h) q" by (simp add: N_def)
  have bl: "blocks h' N" "\<And>q. q \<in> N \<Longrightarrow> extent h' q = extent h q"
    using blocks_sizes [OF b, of h'] hd h' by simp_all
  then show "\<And>q. q \<in> set C \<union> A \<Longrightarrow> extent h' q = extent h q" by (simp add: N_def)
  have "cyc (f_chain (h_mem h')) C = cyc (f_chain (h_mem h)) C" by (rule cyc_cong) (use hd in \<open>simp add: N_def\<close>)
  then show "heap_inv h' C A" using inv bl(1) hd h' unfolding heap_inv_def N_def by auto
qed

lemma used_block:
  assumes "heap_ok h C A" "a \<in> A"
  shows "heap_inv h C A" "a \<noteq> h_head h" "unat (a + 4) = unat a + 4" "unat a + extent h a \<le> 65535" "4 \<le> extent h a"
    "extent h a = 4 * unat (f_size (h_mem h) a)"
proof -
  show inv: "heap_inv h C A" using assms by (auto simp: heap_ok_def)
  then have b: "blocks h (set C \<union> A)" "a \<in> set C \<union> A" using assms(2) by (auto simp: heap_inv_def)
  show n: "a \<noteq> h_head h" using inv assms(2) by (auto simp: heap_inv_def)
  then show "extent h a = 4 * unat (f_size (h_mem h) a)" by (simp add: extent_def)
  show "unat a + extent h a \<le> 65535" using blocksD(3) [OF b] unat_u16_lt [of "h_memry h"] by linarith
  show "4 \<le> extent h a" using blocksD(1) [OF b] .
  show "unat (a + 4) = unat a + 4" using word_offset [of a 4] blocksD(5) [OF b] by simp
qed

text \<open>The data bytes of a block that stays in use are kept.\<close>

lemma evolves_data:
  assumes b: "blocks h (set C \<union> A)" "set C \<inter> A = {}" "h_head h \<in> set C" and e: "evolves h C h' C'" and a: "a \<in> A"
  shows "extent h' a = extent h a" "i < extent h a - 4 \<Longrightarrow> h_mem h' (a + 4 + of_nat i) = h_mem h (a + 4 + of_nat i)"
proof -
  show "extent h' a = extent h a" using evolves_used(3) [OF b(1,2) e a b(3)] .
  have aN: "a \<in> set C \<union> A" using a by simp
  have lt: "unat a + extent h a < 65536" using blocksD(3) [OF b(1) aN] unat_u16_lt [of "h_memry h"] by linarith
  assume i: "i < extent h a - 4"
  have "unat (a + of_nat (4 + i)) = unat a + (4 + i)" by (rule word_offset) (use i lt in linarith)
  then have "inside h a (a + of_nat (4 + i))" using i by (simp add: inside_def)
  then have "a + of_nat (4 + i) \<notin> free_space h C" using used_kept [OF b(1,2) a] by blast
  then show "h_mem h' (a + 4 + of_nat i) = h_mem h (a + 4 + of_nat i)" using e by (simp add: evolves_def add.assoc)
qed

lemma heap_ok_blocks:
  "heap_ok h C A \<Longrightarrow> blocks h (set C \<union> A)" "heap_ok h C A \<Longrightarrow> set C \<inter> A = {}" "heap_ok h C A \<Longrightarrow> h_head h \<in> set C"
  by (auto simp: heap_ok_def heap_inv_def fresh_def)

abbreviation (input) headers_of :: "u16 set \<Rightarrow> u16 set" where
  "headers_of P \<equiv> (\<lambda>p. p - 4) ` P"

lemma heap_kept:
  assumes "blocks h (set C \<union> headers_of P)" "set C \<inter> headers_of P = {}" "h_head h \<in> set C" "evolves h C h' C'"
  shows "\<forall>p \<in> P. heap_cap h' p = heap_cap h p \<and>
    (\<forall>i < heap_cap h p. h_mem h' (p + of_nat i) = h_mem h (p + of_nat i))"
proof
  fix p assume "p \<in> P"
  then have "p - 4 \<in> headers_of P" by simp
  from evolves_data [OF assms this]
  show "heap_cap h' p = heap_cap h p \<and> (\<forall>i < heap_cap h p. h_mem h' (p + of_nat i) = h_mem h (p + of_nat i))"
    by (simp add: heap_cap_def)
qed

lemma heap_region:
  assumes "heap_good h P" "p \<in> P"
  shows "p \<noteq> 0 \<and> unat p + heap_cap h p \<le> 65536" "unat p = unat (p - 4) + 4" "4 \<le> extent h (p - 4)"
proof -
  obtain C where ok: "heap_ok h C (headers_of P)" using assms by (auto simp: heap_good_def)
  have pA: "p - 4 \<in> headers_of P" using assms(2) by simp
  note u = used_block [OF ok pA]
  show "unat p = unat (p - 4) + 4" "4 \<le> extent h (p - 4)" using u(3,5) by simp_all
  then show "p \<noteq> 0 \<and> unat p + heap_cap h p \<le> 65536" using u(4) by (auto simp: heap_cap_def)
qed

lemma heap_separate:
  assumes g: "heap_good h P" and pq: "p \<in> P" "q \<in> P" "p \<noteq> q"
  shows "unat p + heap_cap h p \<le> unat q \<or> unat q + heap_cap h q \<le> unat p"
proof -
  obtain C where ok: "heap_ok h C (headers_of P)" using g by (auto simp: heap_good_def)
  have "p - 4 \<in> set C \<union> headers_of P" "q - 4 \<in> set C \<union> headers_of P" "p - 4 \<noteq> q - 4" using pq by auto
  from blocks_disjoint [OF heap_ok_blocks(1) [OF ok] this] show ?thesis
    using heap_region(2,3) [OF g pq(1)] heap_region(2,3) [OF g pq(2)] by (auto simp: heap_cap_def)
qed

lemma heap_alloc:
  assumes g: "heap_good h P"
  shows "\<exists>r h'. malloc n h = Some (r, h') \<and>
    (r = 0 \<and> heap_good h' P \<or> r \<notin> P \<and> heap_good h' (insert r P) \<and> (unat n \<le> 65532 \<longrightarrow> unat n \<le> heap_cap h' r)) \<and>
    (\<forall>p \<in> P. heap_cap h' p = heap_cap h p \<and> (\<forall>i < heap_cap h p. h_mem h' (p + of_nat i) = h_mem h (p + of_nat i)))"
proof -
  obtain C where ok: "heap_ok h C (headers_of P)" using g by (auto simp: heap_good_def)
  obtain r h' C' where m: "malloc n h = Some (r, h')" "evolves h C h' C'"
    "r = 0 \<and> heap_inv h' C' (headers_of P) \<or>
      (\<exists>p. r = p + 4 \<and> p \<notin> headers_of P \<and> heap_inv h' C' (insert p (headers_of P)) \<and> f_size (h_mem h') p = units_of n)"
    using malloc_ok [OF ok, of n] unfolding malloc_post_def by blast
  have "r = 0 \<and> heap_good h' P \<or> r \<notin> P \<and> heap_good h' (insert r P) \<and> (unat n \<le> 65532 \<longrightarrow> unat n \<le> heap_cap h' r)"
    using m(3)
  proof (elim disjE exE conjE)
    fix p assume p: "r = p + 4" "p \<notin> headers_of P" "heap_inv h' C' (insert p (headers_of P))" "f_size (h_mem h') p = units_of n"
    have "heap_good h' (insert r P)" using p(1,3) by (auto simp: heap_good_def heap_ok_def)
    moreover have "p \<noteq> h_head h'" using p(3) by (auto simp: heap_inv_def)
    then have "unat n \<le> 65532 \<longrightarrow> unat n \<le> heap_cap h' r"
      using units_enough [of n] p(1,4) by (auto simp: heap_cap_def extent_def)
    moreover have "r \<notin> P" using p(1,2) by force
    ultimately show ?thesis by blast
  qed (auto simp: heap_good_def heap_ok_def)
  then show ?thesis using m(1) heap_kept [OF heap_ok_blocks [OF ok] m(2)] by blast
qed

lemma heap_release:
  assumes g: "heap_good h P" and p: "p \<in> P"
  shows "\<exists>h'. free p h = Some (0, h') \<and> heap_good h' (P - {p}) \<and>
    (\<forall>q \<in> P - {p}. heap_cap h' q = heap_cap h q \<and> (\<forall>i < heap_cap h q. h_mem h' (q + of_nat i) = h_mem h (q + of_nat i)))"
proof -
  obtain C where ok: "heap_ok h C (headers_of P)" using g by (auto simp: heap_good_def)
  have pA: "p - 4 \<in> headers_of P" using p by simp
  obtain h' t rest where f: "free (p - 4 + 4) h = Some (0, h')" "heap_inv h' (t # (p - 4) # rest) (headers_of P - {p - 4})"
    "evolves h ((p - 4) # C) h' (t # (p - 4) # rest)"
    using free_ok [OF used_block(1) [OF ok pA] pA] by blast
  have e: "headers_of (P - {p}) = headers_of P - {p - 4}" by auto
  have "set ((p - 4) # C) \<union> headers_of (P - {p}) = set C \<union> headers_of P" using pA unfolding e by auto
  then have "blocks h (set ((p - 4) # C) \<union> headers_of (P - {p}))" "set ((p - 4) # C) \<inter> headers_of (P - {p}) = {}"
    "h_head h \<in> set ((p - 4) # C)"
    using heap_ok_blocks [OF ok] unfolding e by auto
  from heap_kept [OF this f(3)] show ?thesis using f(1,2) e by (auto simp: heap_good_def heap_ok_def)
qed

lemma heap_put_kept:
  assumes ok: "heap_ok h C (headers_of P)" and p: "p \<in> P" "i < heap_cap h p"
    and h'_def: "h' = heap_put (p + of_nat i) b h"
  shows "heap_inv h' C (headers_of P)" "\<And>q. q \<in> headers_of P \<Longrightarrow> extent h' q = extent h q"
proof -
  have g: "heap_good h P" using ok by (auto simp: heap_good_def)
  have pA: "p - 4 \<in> headers_of P" using p(1) by simp
  have r: "unat p = unat (p - 4) + 4" "4 \<le> extent h (p - 4)" "unat p + heap_cap h p \<le> 65536"
    using heap_region [OF g p(1)] by auto
  have "unat (p + of_nat i) = unat p + i" by (rule word_offset) (use r(3) p(2) in linarith)
  then have at: "unat (p - 4) + 4 \<le> unat (p + of_nat i)" "unat (p + of_nat i) < unat (p - 4) + extent h (p - 4)"
    using r p(2) by (auto simp: heap_cap_def)
  have d: "\<exists>a \<in> headers_of P. unat a + 4 \<le> unat x \<and> unat x < unat a + extent h a" if "h_mem h' x \<noteq> h_mem h x" for x
    using that at pA unfolding h'_def heap_put_def by (intro bexI [OF _ pA]) (auto split: if_splits)
  have sm: "h_memry h' = h_memry h" "h_head h' = h_head h" "h_last h' = h_last h"
    by (simp_all add: h'_def heap_put_def)
  note k = heap_inv_data [OF used_block(1) [OF ok pA] d sm]
  show "heap_inv h' C (headers_of P)" by (rule k(1))
  show "extent h' q = extent h q" if "q \<in> headers_of P" for q using k(2) [of q] that by simp
qed

lemma heap_put_law:
  assumes g: "heap_good h P" and p: "p \<in> P" "i < heap_cap h p"
  shows "heap_good (heap_put (p + of_nat i) b h) P \<and> (\<forall>q \<in> P. heap_cap (heap_put (p + of_nat i) b h) q = heap_cap h q) \<and>
    h_mem (heap_put (p + of_nat i) b h) = (h_mem h)(p + of_nat i := b)"
proof -
  obtain C where ok: "heap_ok h C (headers_of P)" using g by (auto simp: heap_good_def)
  note k = heap_put_kept [where b = b, OF ok p refl]
  have "heap_good (heap_put (p + of_nat i) b h) P" using k(1) unfolding heap_good_def heap_ok_def by blast
  moreover have "heap_cap (heap_put (p + of_nat i) b h) q = heap_cap h q" if "q \<in> P" for q
    using k(2) [of "q - 4"] that by (simp add: heap_cap_def)
  ultimately show ?thesis by (simp add: heap_put_def)
qed

interpretation library_heap: allocator heap_good heap_cap h_mem malloc free heap_put
  by unfold_locales (fact heap_region(1) heap_separate heap_alloc heap_release heap_put_law)+

end
