(* ===== verification/Aztec_Realloc.thy ===== *)
theory Aztec_Realloc
  imports Aztec_Heap_Spec
begin

text \<open>
  The functions built on the allocator: moving and filling memory, \<open>realloc\<close> and \<open>calloc\<close>.
\<close>

section \<open>Moving and filling\<close>

definition within :: "u16 \<Rightarrow> nat \<Rightarrow> u16 \<Rightarrow> bool" where
  "within p n x \<longleftrightarrow> unat p \<le> unat x \<and> unat x < unat p + n"

lemma within_split: "unat p + Suc n \<le> 65536 \<Longrightarrow> within p (Suc n) x \<longleftrightarrow> x = p \<or> (0 < n \<and> within (p + 1) n x)"
  using word_offset [of p 1] unat_u16_lt [of x]
  by (cases "n = 0") (auto simp: within_def le_less word_unat_eq_iff)

lemma after_first: "unat p + Suc n \<le> 65536 \<Longrightarrow> n = 0 \<or> unat (p + 1 :: u16) + n \<le> 65536"
  using word_offset [of p 1] by (cases n) auto

lemma setmem_loop_at:
  "unat p + n \<le> 65536 \<Longrightarrow> setmem_loop n p v m x = (if within p n x then v else m x)"
proof (induction n arbitrary: p m)
  case (Suc n)
  define m1 where "m1 = m(p := v)"
  have ih: "setmem_loop n (p + 1) v m1 x = (if within (p + 1) n x then v else m1 x)" if "0 < n"
    by (rule Suc.IH) (use after_first [OF Suc.prems] that in simp)
  show ?case
  proof (cases "n = 0")
    case True
    then show ?thesis using within_split [OF Suc.prems, of x] by simp
  next
    case False
    then show ?thesis using ih within_split [OF Suc.prems, of x] unfolding setmem_loop.simps m1_def [symmetric]
      by (simp add: m1_def)
  qed
qed (auto simp: within_def)

lemma downloop_outside:
  "unat dst + n \<le> 65536 \<Longrightarrow> \<not> within dst n x \<Longrightarrow> downloop n src dst m x = m x"
proof (induction n arbitrary: src dst m)
  case (Suc n)
  define m1 where "m1 = m(dst := m src)"
  have ih: "downloop n (src + 1) (dst + 1) m1 x = m1 x" if "0 < n"
    by (rule Suc.IH) (use after_first [OF Suc.prems(1)] within_split [OF Suc.prems(1)] Suc.prems(2) that in auto)
  have "x \<noteq> dst" using Suc.prems(2) within_split [OF Suc.prems(1), of x] by simp
  then show ?case using ih unfolding downloop.simps m1_def [symmetric] by (cases "n = 0") (simp_all add: m1_def)
qed simp

lemma downloop_copies:
  assumes "unat src + n \<le> 65536" "unat dst + n \<le> 65536" "unat src + n \<le> unat dst \<or> unat dst + n \<le> unat src" "i < n"
  shows "downloop n src dst m (dst + of_nat i) = m (src + of_nat i)"
  using assms
proof (induction n arbitrary: src dst m i)
  case (Suc n)
  define m1 where "m1 = m(dst := m src)"
  show ?case
  proof (cases i)
    case 0
    have "downloop n (src + 1) (dst + 1) m1 dst = m1 dst"
    proof (cases n)
      case (Suc k)
      have "unat (dst + 1) = unat dst + 1" using word_offset [of dst 1] Suc.prems(2) Suc by simp
      then show ?thesis using downloop_outside [of "dst + 1" n dst] Suc.prems(2) by (simp add: within_def)
    qed simp
    then show ?thesis using 0 unfolding downloop.simps m1_def [symmetric] by (simp add: m1_def)
  next
    case (Suc j)
    have j: "j < n" using Suc.prems(4) Suc by simp
    have u: "unat (src + 1) = unat src + 1" "unat (dst + 1) = unat dst + 1"
      using word_offset [of src 1] word_offset [of dst 1] Suc.prems(1,2) j by auto
    have "unat (src + of_nat i) = unat src + i" by (rule word_offset) (use Suc.prems(1,4) in linarith)
    then have ne: "src + of_nat i \<noteq> dst" using Suc.prems(3,4) by auto
    have "downloop n (src + 1) (dst + 1) m1 (dst + 1 + of_nat j) = m1 (src + 1 + of_nat j)"
      by (rule Suc.IH) (use u j Suc.prems in linarith)+
    then show ?thesis using ne Suc unfolding downloop.simps m1_def [symmetric] by (simp add: m1_def add.assoc)
  qed
qed simp

lemma uploop_outside:
  "unat dst + n \<le> 65536 \<Longrightarrow> \<not> within dst n x \<Longrightarrow> uploop n src (dst + of_nat n) m x = m x"
proof (induction n arbitrary: src m)
  case (Suc n)
  have "unat (dst + of_nat n) = unat dst + n" by (rule word_offset) (use Suc.prems(1) in linarith)
  then have x: "x \<noteq> dst + of_nat n" "\<not> within dst n x" using Suc.prems(2) by (auto simp: within_def)
  define m1 where "m1 = m(dst + of_nat n := m (src - 1))"
  have st: "uploop (Suc n) src (dst + of_nat (Suc n)) m = uploop n (src - 1) (dst + of_nat n) m1"
    by (simp add: m1_def add.commute [of 1])
  have "uploop n (src - 1) (dst + of_nat n) m1 x = m1 x" by (rule Suc.IH) (use Suc.prems(1) x(2) in simp_all)
  then show ?case unfolding st using x(1) by (simp add: m1_def)
qed simp

lemma uploop_copies:
  assumes "unat src + n \<le> 65536" "unat dst + n \<le> 65536" "unat src + n \<le> unat dst \<or> unat dst + n \<le> unat src" "i < n"
  shows "uploop n (src + of_nat n) (dst + of_nat n) m (dst + of_nat i) = m (src + of_nat i)"
  using assms
proof (induction n arbitrary: m)
  case (Suc n)
  define m1 where "m1 = m(dst + of_nat n := m (src + of_nat n))"
  have st: "uploop (Suc n) (src + of_nat (Suc n)) (dst + of_nat (Suc n)) m = uploop n (src + of_nat n) (dst + of_nat n) m1"
    by (simp add: m1_def add.commute [of 1])
  have u: "unat (dst + of_nat n) = unat dst + n" "unat (src + of_nat i) = unat src + i"
    by (rule word_offset; use Suc.prems in linarith)+
  show ?case
  proof (cases "i = n")
    case True
    have "\<not> within dst n (dst + of_nat n)" using u by (simp add: within_def)
    then have "uploop n (src + of_nat n) (dst + of_nat n) m1 (dst + of_nat n) = m1 (dst + of_nat n)"
      using uploop_outside [of dst n "dst + of_nat n"] Suc.prems(2) by simp
    then show ?thesis unfolding st True by (simp add: m1_def)
  next
    case False
    have "uploop n (src + of_nat n) (dst + of_nat n) m1 (dst + of_nat i) = m1 (src + of_nat i)"
      by (rule Suc.IH) (use False Suc.prems in linarith)+
    moreover have "src + of_nat i \<noteq> dst + of_nat n" using u Suc.prems(3,4) by auto
    ultimately show ?thesis unfolding st by (simp add: m1_def)
  qed
qed simp

lemma movmem_outside:
  assumes "0 < unat len" "unat dst + unat len \<le> 65536" "\<not> within dst (unat len) x"
  shows "movmem src dst len m x = m x"
  using assms downloop_outside [of dst "unat len" x src m] uploop_outside [of dst "unat len" x "src + len" m]
  by (auto simp: movmem_def)

lemma movmem_copies:
  assumes "0 < unat len" "unat src + unat len \<le> 65536" "unat dst + unat len \<le> 65536"
    "unat src + unat len \<le> unat dst \<or> unat dst + unat len \<le> unat src" "i < unat len"
  shows "movmem src dst len m (dst + of_nat i) = m (src + of_nat i)"
  using assms downloop_copies [OF assms(2-5)] uploop_copies [OF assms(2-5)]
  by (auto simp: movmem_def)

text \<open>
  Ranges that overlap are copied from the wrong end: the distance \<open>d\<close> between them becomes a period of
  the result.
\<close>

lemma uploop_smears:
  assumes "unat dst + d + n \<le> 65536" "0 < d" "i < n"
  shows "uploop n (dst + of_nat d + of_nat n) (dst + of_nat n) m (dst + of_nat i) =
    (if i + d < n then uploop n (dst + of_nat d + of_nat n) (dst + of_nat n) m (dst + of_nat (i + d))
     else m (dst + of_nat (i + d)))"
  using assms(1,3)
proof (induction n arbitrary: m)
  case (Suc n)
  define m1 where "m1 = m(dst + of_nat n := m (dst + of_nat (n + d)))"
  have st: "uploop (Suc n) (dst + of_nat d + of_nat (Suc n)) (dst + of_nat (Suc n)) m =
      uploop n (dst + of_nat d + of_nat n) (dst + of_nat n) m1"
    by (simp add: m1_def add.commute add.left_commute)
  have u: "unat (dst + of_nat j) = unat dst + j" if "j \<le> n + d" for j
    by (rule word_offset) (use that Suc.prems(1) in linarith)
  have top: "uploop n (dst + of_nat d + of_nat n) (dst + of_nat n) m1 (dst + of_nat n) = m (dst + of_nat (n + d))"
  proof -
    have "\<not> within dst n (dst + of_nat n)" using u [of n] by (simp add: within_def)
    then show ?thesis using uploop_outside [of dst n "dst + of_nat n"] Suc.prems(1) by (simp add: m1_def)
  qed
  show ?case
  proof (cases "i = n")
    case True
    then show ?thesis using top assms(2) unfolding st by simp
  next
    case False
    have ih: "uploop n (dst + of_nat d + of_nat n) (dst + of_nat n) m1 (dst + of_nat i) =
      (if i + d < n then uploop n (dst + of_nat d + of_nat n) (dst + of_nat n) m1 (dst + of_nat (i + d))
       else m1 (dst + of_nat (i + d)))"
      by (rule Suc.IH) (use False Suc.prems in linarith)+
    consider "i + d < n" | "i + d = n" | "n < i + d" by linarith
    then show ?thesis
    proof cases
      case 1
      then show ?thesis unfolding st ih by simp
    next
      case 2
      then show ?thesis unfolding st ih using top by (simp add: m1_def)
    next
      case 3
      then have "dst + of_nat (i + d) \<noteq> dst + of_nat n" using u [of "i + d"] u [of n] False Suc.prems(2) by fastforce
      then show ?thesis using 3 unfolding st ih by (simp add: m1_def del: of_nat_add)
    qed
  qed
qed simp

lemma movmem_smears:
  assumes "unat dst + d + unat len \<le> 65536" "0 < d" "i + d < unat len" "src = dst + of_nat d"
  shows "movmem src dst len m (dst + of_nat i) = movmem src dst len m (dst + of_nat (i + d))"
proof -
  have "unat src = unat dst + d" unfolding assms(4) by (rule word_offset) (use assms(1,3) in linarith)
  then have "\<not> src < dst" "src \<noteq> dst" using assms(2) by (auto simp: word_less_nat_alt)
  moreover have "len \<noteq> 0" using assms(3) by auto
  ultimately have "movmem src dst len m = uploop (unat len) (src + of_nat (unat len)) (dst + of_nat (unat len)) m"
    by (simp add: movmem_def)
  then show ?thesis using uploop_smears [OF assms(1,2), of i m] assms(3) unfolding assms(4) by simp
qed

section \<open>Data of a block\<close>

lemma heap_data:
  assumes g: "heap_good h P" and p: "p \<in> P" "n \<le> heap_cap h p"
    and d: "\<And>x. \<not> within p n x \<Longrightarrow> h_mem h' x = h_mem h x"
    and h': "h_memry h' = h_memry h" "h_head h' = h_head h" "h_last h' = h_last h"
  shows "heap_good h' P" "\<And>q. q \<in> P \<Longrightarrow> heap_cap h' q = heap_cap h q"
    "\<And>q i. q \<in> P - {p} \<Longrightarrow> i < heap_cap h q \<Longrightarrow> h_mem h' (q + of_nat i) = h_mem h (q + of_nat i)"
proof -
  obtain C where ok: "heap_ok h C (headers_of P)" using g by (auto simp: heap_good_def)
  have pA: "p - 4 \<in> headers_of P" using p(1) by simp
  have r: "unat p = unat (p - 4) + 4" "4 \<le> extent h (p - 4)" using heap_region [OF g p(1)] by auto
  have "\<exists>a \<in> headers_of P. unat a + 4 \<le> unat x \<and> unat x < unat a + extent h a" if "h_mem h' x \<noteq> h_mem h x" for x
  proof (intro bexI [OF _ pA])
    have "within p n x" using that d by blast
    then show "unat (p - 4) + 4 \<le> unat x \<and> unat x < unat (p - 4) + extent h (p - 4)"
      using r p(2) by (auto simp: within_def heap_cap_def)
  qed
  note k = heap_inv_data [OF used_block(1) [OF ok pA] this h']
  show "heap_good h' P" using k(1) unfolding heap_good_def heap_ok_def by blast
  show "heap_cap h' q = heap_cap h q" if "q \<in> P" for q using k(2) [of "q - 4"] that by (simp add: heap_cap_def)
  fix q i assume q: "q \<in> P - {p}" "i < heap_cap h q"
  have "unat (q + of_nat i) = unat q + i" using library_heap.address [OF g _ q(2)] q(1) by blast
  then have "\<not> within p n (q + of_nat i)"
    using heap_separate [OF g p(1), of q] q p(2) by (auto simp: within_def)
  then show "h_mem h' (q + of_nat i) = h_mem h (q + of_nat i)" by (rule d)
qed

section \<open>Calloc\<close>

lemma calloc_ok:
  assumes g: "heap_good h P" and n: "unat nelem * unat sz \<le> 65532"
  shows "\<exists>r h'. calloc nelem sz h = Some (r, h') \<and>
    (r = 0 \<and> heap_good h' P \<or> r \<notin> P \<and> heap_good h' (insert r P) \<and> unat nelem * unat sz \<le> heap_cap h' r \<and>
       (\<forall>i < unat nelem * unat sz. h_mem h' (r + of_nat i) = 0)) \<and>
    (\<forall>p \<in> P. heap_cap h' p = heap_cap h p \<and> (\<forall>i < heap_cap h p. h_mem h' (p + of_nat i) = h_mem h (p + of_nat i)))"
proof -
  have un: "unat (nelem * sz) = unat nelem * unat sz" using n by (simp add: unat_word_ariths)
  define k where "k = unat (nelem * sz)"
  obtain r h1 where m: "malloc (nelem * sz) h = Some (r, h1)"
    "r = 0 \<and> heap_good h1 P \<or> r \<notin> P \<and> heap_good h1 (insert r P) \<and> k \<le> heap_cap h1 r"
    "\<And>p. p \<in> P \<Longrightarrow> heap_cap h1 p = heap_cap h p \<and> (\<forall>i < heap_cap h p. h_mem h1 (p + of_nat i) = h_mem h (p + of_nat i))"
  proof -
    obtain r h1 where "malloc (nelem * sz) h = Some (r, h1) \<and> (r = 0 \<and> heap_good h1 P \<or> r \<notin> P \<and> heap_good h1 (insert r P) \<and>
        (k \<le> 65532 \<longrightarrow> k \<le> heap_cap h1 r)) \<and>
      (\<forall>p \<in> P. heap_cap h1 p = heap_cap h p \<and> (\<forall>i < heap_cap h p. h_mem h1 (p + of_nat i) = h_mem h (p + of_nat i)))"
      using heap_alloc [OF g, of "nelem * sz"] unfolding k_def by (elim exE)
    moreover have "k \<le> 65532" using n un by (simp add: k_def)
    ultimately show thesis using that by blast
  qed
  show ?thesis
  proof (cases "r = 0")
    case True
    then have "heap_good h1 P" using m(2) heap_region(1) [of h1 "insert r P" r] by blast
    then show ?thesis using m(1,3) True by (auto simp: calloc_def)
  next
    case False
    then have r: "r \<notin> P" "heap_good h1 (insert r P)" "k \<le> heap_cap h1 r" using m(2) by auto
    define h' where "h' = h1\<lparr>h_mem := setmem r (nelem * sz) 0 (h_mem h1)\<rparr>"
    have rg: "unat r + heap_cap h1 r \<le> 65536" using heap_region(1) [OF r(2)] by simp
    have at: "h_mem h' x = (if within r k x then 0 else h_mem h1 x)" for x
      using setmem_loop_at [of r k 0 "h_mem h1" x] rg r(3) by (simp add: h'_def setmem_def k_def)
    have out: "\<And>x. \<not> within r k x \<Longrightarrow> h_mem h' x = h_mem h1 x" by (simp add: at)
    have "h_memry h' = h_memry h1" "h_head h' = h_head h1" "h_last h' = h_last h1" by (simp_all add: h'_def)
    note keep = heap_data [OF r(2) insertI1 r(3) out this]
    have zero: "h_mem h' (r + of_nat i) = 0" if "i < k" for i
      using at [of "r + of_nat i"] library_heap.address [OF r(2) insertI1, of i] that r(3) by (simp add: within_def)
    have others: "heap_cap h' p = heap_cap h p \<and> (\<forall>i < heap_cap h p. h_mem h' (p + of_nat i) = h_mem h (p + of_nat i))"
      if "p \<in> P" for p
    proof -
      have "p \<in> insert r P - {r}" using that r(1) by blast
      then show ?thesis using m(3) [OF that] keep(2) [of p] keep(3) [of p] by simp
    qed
    have "calloc nelem sz h = Some (r, h')" using m(1) False by (simp add: calloc_def h'_def)
    then show ?thesis using keep(1) keep(2) [of r] r(1,3) zero others unfolding un [symmetric] k_def [symmetric] by auto
  qed
qed

section \<open>Realloc\<close>

text \<open>A freed block, and what becomes of its data.\<close>

lemma free_data:
  assumes g: "heap_good h P" and p: "p \<in> P"
  shows "\<exists>h1 t rest. free p h = Some (0, h1) \<and> h_last h1 = t \<and>
    heap_inv h1 (t # (p - 4) # rest) (headers_of (P - {p})) \<and> f_size (h_mem h1) (p - 4) = f_size (h_mem h) (p - 4) \<and>
    h_memry h1 = h_memry h \<and> extent h1 (p - 4) = extent h (p - 4) \<and>
    (\<forall>q \<in> P - {p}. heap_cap h1 q = heap_cap h q \<and> (\<forall>i < heap_cap h q. h_mem h1 (q + of_nat i) = h_mem h (q + of_nat i))) \<and>
    (\<forall>i < heap_cap h p. h_mem h1 (p + of_nat i) = h_mem h (p + of_nat i))"
proof -
  obtain C where ok: "heap_ok h C (headers_of P)" using g by (auto simp: heap_good_def)
  have pA: "p - 4 \<in> headers_of P" using p by simp
  note u = used_block [OF ok pA]
  obtain h1 t rest where f: "free (p - 4 + 4) h = Some (0, h1)" "heap_inv h1 (t # (p - 4) # rest) (headers_of P - {p - 4})"
    "h_last h1 = t" "h_memry h1 = h_memry h" "f_size (h_mem h1) (p - 4) = f_size (h_mem h) (p - 4)"
    "evolves h ((p - 4) # C) h1 (t # (p - 4) # rest)"
    "\<And>x. h_mem h1 x \<noteq> h_mem h x \<Longrightarrow> in_headers (set ((p - 4) # C)) x"
    using free_ok [OF u(1) pA] by blast
  have e: "headers_of (P - {p}) = headers_of P - {p - 4}" by auto
  have ex: "extent h1 (p - 4) = extent h (p - 4)"
    using f(5,6) by (simp add: extent_def evolves_def)
  obtain h2 where r: "free p h = Some (0, h2)"
    "\<forall>q \<in> P - {p}. heap_cap h2 q = heap_cap h q \<and> (\<forall>i < heap_cap h q. h_mem h2 (q + of_nat i) = h_mem h (q + of_nat i))"
    using heap_release [OF g p] by blast
  have h2: "h2 = h1" using r(1) f(1) by simp
  have "h_mem h1 (p + of_nat i) = h_mem h (p + of_nat i)" if i: "i < heap_cap h p" for i
  proof (rule ccontr)
    assume "\<not> ?thesis"
    from f(7) [OF this] obtain q where q: "q \<in> set ((p - 4) # C)" "unat q \<le> unat (p + of_nat i)"
      "unat (p + of_nat i) < unat q + 4" by (auto simp: in_headers_def)
    have a: "unat (p + of_nat i) = unat p + i" "unat p = unat (p - 4) + 4"
      using library_heap.address [OF g p i] heap_region(2) [OF g p] by simp_all
    have qp: "q \<noteq> p - 4" using q(3) a by auto
    have b: "blocks h (set C \<union> headers_of P)" using heap_ok_blocks(1) [OF ok] .
    have "q \<in> set C \<union> headers_of P" "p - 4 \<in> set C \<union> headers_of P" using q(1) qp pA by auto
    from blocks_disjoint [OF b this qp] blocksD(1) [OF b this(1)] show False
      using q(2,3) a i by (auto simp: heap_cap_def)
  qed
  then show ?thesis using f(2-5) r ex unfolding h2 e by blast
qed

lemma units_fit: "unat n + 4 \<le> 4 * unat s \<Longrightarrow> units_of n \<le> s" for s :: u16
proof -
  assume a: "unat n + 4 \<le> 4 * unat s"
  have "(unat n + 3) mod 65536 \<le> unat n + 3" by simp
  then have "unat (units_of n) \<le> unat s" using a unfolding unat_units_of by linarith
  then show ?thesis by (simp add: word_le_nat_alt)
qed

text \<open>Where the block is large enough, it is found first and stays where it is.\<close>

lemma realloc_in_place:
  assumes g: "heap_good h P" and p: "p \<in> P" and n: "unat n \<le> heap_cap h p"
  shows "\<exists>h'. realloc p n h = Some (p, h') \<and> heap_good h' P \<and> unat n \<le> heap_cap h' p \<and>
    (\<forall>i < unat n. h_mem h' (p + of_nat i) = h_mem h (p + of_nat i)) \<and>
    (\<forall>q \<in> P - {p}. heap_cap h' q = heap_cap h q \<and> (\<forall>i < heap_cap h q. h_mem h' (q + of_nat i) = h_mem h (q + of_nat i)))"
proof -
  define a where "a = p - 4"
  obtain h1 t rest where f: "free p h = Some (0, h1)" "h_last h1 = t" "heap_inv h1 (t # a # rest) (headers_of (P - {p}))"
    "f_size (h_mem h1) a = f_size (h_mem h) a" "extent h1 a = extent h a"
    "\<forall>q \<in> P - {p}. heap_cap h1 q = heap_cap h q \<and> (\<forall>i < heap_cap h q. h_mem h1 (q + of_nat i) = h_mem h (q + of_nat i))"
    "\<forall>i < heap_cap h p. h_mem h1 (p + of_nat i) = h_mem h (p + of_nat i)"
    using free_data [OF g p] unfolding a_def by blast
  obtain C where ok: "heap_ok h C (headers_of P)" using g by (auto simp: heap_good_def)
  have pA: "a \<in> headers_of P" using p by (simp add: a_def)
  note u = used_block [OF ok pA]
  have nx: "f_chain (h_mem h1) t = a" "t \<noteq> 0"
    using f(3) cyc_next [of "f_chain (h_mem h1)" t "a # rest"] blocksD(4) [of h1 _ t] by (auto simp: heap_inv_def)
  have inv: "heap_inv h1 (a # rest @ [t]) (headers_of (P - {p}))" using heap_inv_rotate [of h1 "[t]" "a # rest"] f(3) by simp
  have "(a # rest @ [t]) ! Suc (length rest) = h_last h1" using f(2) by (simp add: nth_append)
  then obtain h2 r2 where c: "coalesce a h1 = Some h2" "heap_inv h2 (a # r2) (headers_of (P - {p}))"
    "evolves h1 (a # rest @ [t]) h2 (a # r2)" "last (a # r2) = t" "f_size (h_mem h1) a \<le> f_size (h_mem h2) a"
    "\<And>x. h_mem h2 x \<noteq> h_mem h1 x \<Longrightarrow> in_headers {a} x"
    using coalesce_ok [OF inv, of "Suc (length rest)"] by auto
  have "units_of n \<le> f_size (h_mem h) a"
    by (rule units_fit) (use n u(5,6) in \<open>simp add: heap_cap_def a_def\<close>)
  then have fits: "units_of n \<le> f_size (h_mem h2) a" using c(5) f(4) by simp
  obtain h' C' where t: "take_block (units_of n) t a h2 = (a + 4, h')" "heap_inv h' C' (insert a (headers_of (P - {p})))"
    "evolves h2 (a # r2) h' C'" "f_size (h_mem h') a = units_of n"
    "\<And>x. unat a + 4 \<le> unat x \<Longrightarrow> unat x < unat a + extent h' a \<Longrightarrow> h_mem h' x = h_mem h2 x"
    using take_ok [OF c(2) units_of_pos fits c(4) [symmetric]] by blast
  have "malloc n h1 = malloc_loop (units_of n) t a h1" using nx f(2) by (simp add: malloc_def Let_def units_of_def)
  also have "\<dots> = Some (p, h')" using c(1) fits t(1) by (subst malloc_loop.simps) (simp add: a_def)
  finally have re: "realloc p n h = Some (p, h')" using f(1) by (simp add: realloc_def)
  have hA: "insert a (headers_of (P - {p})) = headers_of P" using p by (auto simp: a_def)
  have good: "heap_good h' P" using t(2) unfolding hA heap_good_def heap_ok_def by blast
  have ah: "a \<noteq> h_head h'" using t(2) by (auto simp: heap_inv_def)
  have n3: "unat n \<le> 65532" using n u(4,5) by (simp add: heap_cap_def a_def)
  have cap: "unat n \<le> heap_cap h' p" using units_enough [OF n3] t(4) ah by (simp add: heap_cap_def extent_def a_def)
  have dat: "h_mem h' (p + of_nat i) = h_mem h (p + of_nat i)" if i: "i < unat n" for i
  proof -
    have x: "unat (p + of_nat i) = unat a + 4 + i"
      using library_heap.address [OF g p, of i] i n u(3) by (simp add: a_def)
    have "h_mem h' (p + of_nat i) = h_mem h2 (p + of_nat i)"
      by (rule t(5)) (use x i cap heap_region(3) [OF good p] in \<open>auto simp: heap_cap_def a_def\<close>)
    also have "\<dots> = h_mem h1 (p + of_nat i)" using c(6) [of "p + of_nat i"] x by (auto simp: in_headers_def)
    also have "\<dots> = h_mem h (p + of_nat i)" using f(7) i n by simp
    finally show ?thesis .
  qed
  have b1: "blocks h1 (set (a # rest @ [t]) \<union> headers_of (P - {p}))" "set (a # rest @ [t]) \<inter> headers_of (P - {p}) = {}"
    "h_head h1 \<in> set (a # rest @ [t])" using inv unfolding heap_inv_def by blast+
  have "\<forall>q \<in> P - {p}. heap_cap h' q = heap_cap h1 q \<and> (\<forall>i < heap_cap h1 q. h_mem h' (q + of_nat i) = h_mem h1 (q + of_nat i))"
    using heap_kept [OF b1 evolves_trans [OF c(3) t(3)]] .
  then show ?thesis using re good cap dat f(6) by auto
qed

text \<open>
  Otherwise the data are copied; this is right where the new block does not overlap the old one, or
  starts at the same place.
\<close>

lemma free_malloc:
  assumes g: "heap_good h P" and p: "p \<in> P" and n: "unat n \<le> 65532" "heap_cap h p < unat n"
  shows "\<exists>h1 r h2. free p h = Some (0, h1) \<and> malloc n h1 = Some (r, h2) \<and>
    (\<forall>q \<in> P - {p}. heap_cap h2 q = heap_cap h q \<and> (\<forall>i < heap_cap h q. h_mem h2 (q + of_nat i) = h_mem h (q + of_nat i))) \<and>
    (r = 0 \<and> heap_good h2 (P - {p}) \<or> r \<notin> P - {p} \<and> heap_good h2 (insert r (P - {p})) \<and> unat n \<le> heap_cap h2 r \<and>
     (r = p \<or> unat r + heap_cap h2 r \<le> unat (p - 4) \<or> unat p + heap_cap h p \<le> unat (r - 4) \<longrightarrow>
        (\<forall>i < heap_cap h p. h_mem h2 (p + of_nat i) = h_mem h (p + of_nat i))))"
proof -
  define a where "a = p - 4"
  define A where "A = headers_of (P - {p})"
  obtain h1 t rest where f: "free p h = Some (0, h1)" "heap_inv h1 (t # a # rest) A" "h_memry h1 = h_memry h" "extent h1 a = extent h a"
    "\<forall>q \<in> P - {p}. heap_cap h1 q = heap_cap h q \<and> (\<forall>i < heap_cap h q. h_mem h1 (q + of_nat i) = h_mem h (q + of_nat i))"
    "\<forall>i < heap_cap h p. h_mem h1 (p + of_nat i) = h_mem h (p + of_nat i)"
    using free_data [OF g p] unfolding a_def A_def by blast
  define C where "C = t # a # rest"
  have inv: "heap_inv h1 C A" using f(2) by (simp add: C_def)
  obtain r h2 C2 where m: "malloc n h1 = Some (r, h2)" "evolves h1 C h2 C2"
    "\<And>x. h_mem h2 x \<noteq> h_mem h1 x \<Longrightarrow> in_headers (set C) x \<or> unat (h_memry h1) \<le> unat x \<or>
       r \<noteq> 0 \<and> in_headers {r - 4 + 4 * units_of n} x"
    "r = 0 \<and> heap_inv h2 C2 A \<or>
      (\<exists>q. r = q + 4 \<and> q \<notin> A \<and> heap_inv h2 C2 (insert q A) \<and> f_size (h_mem h2) q = units_of n)"
    using malloc_inv [OF inv, of n] unfolding malloc_post_def by blast
  have b1: "blocks h1 (set C \<union> A)" "set C \<inter> A = {}" "h_head h1 \<in> set C" using inv by (auto simp: heap_inv_def)
  have others: "\<forall>q \<in> P - {p}. heap_cap h2 q = heap_cap h q \<and> (\<forall>i < heap_cap h q. h_mem h2 (q + of_nat i) = h_mem h (q + of_nat i))"
    using heap_kept [OF b1 [unfolded A_def] m(2)] f(5) by auto
  have res: "r = 0 \<and> heap_good h2 (P - {p}) \<or> r \<notin> P - {p} \<and> heap_good h2 (insert r (P - {p})) \<and> unat n \<le> heap_cap h2 r \<and>
     (r = p \<or> unat r + heap_cap h2 r \<le> unat (p - 4) \<or> unat p + heap_cap h p \<le> unat (r - 4) \<longrightarrow>
        (\<forall>i < heap_cap h p. h_mem h2 (p + of_nat i) = h_mem h (p + of_nat i)))"
    using m(4)
  proof (elim disjE exE conjE)
    fix q assume q: "r = q + 4" "q \<notin> A" "heap_inv h2 C2 (insert q A)" "f_size (h_mem h2) q = units_of n"
    have gd: "heap_good h2 (insert r (P - {p}))" using q(1,3) by (auto simp: heap_good_def heap_ok_def A_def)
    have qh: "q \<noteq> h_head h2" using q(3) by (auto simp: heap_inv_def)
    have rP: "r \<notin> P - {p}" using q(1,2) by (force simp: A_def)
    have cap: "unat n \<le> heap_cap h2 r" using units_enough [OF n(1)] q(1,4) qh by (simp add: heap_cap_def extent_def)
    have ce: "unat (r - 4 + 4 * units_of n) = unat r + heap_cap h2 r"
    proof -
      have bq: "blocks h2 (set C2 \<union> insert q A)" using q(3) by (simp add: heap_inv_def)
      then show ?thesis using block_end [OF bq _ qh] q(1,4) heap_region(2,3) [OF gd, of r] by (simp add: heap_cap_def)
    qed
    have "h_mem h2 (p + of_nat i) = h_mem h (p + of_nat i)"
      if d: "r = p \<or> unat r + heap_cap h2 r \<le> unat (p - 4) \<or> unat p + heap_cap h p \<le> unat (r - 4)" and i: "i < heap_cap h p" for i
    proof -
      have x: "unat (p + of_nat i) = unat p + i" "unat p = unat a + 4" "4 \<le> extent h a"
        using library_heap.address [OF g p i] heap_region(2,3) [OF g p] by (simp_all add: a_def)
      have aC: "a \<in> set C \<union> A" by (simp add: C_def)
      have "\<not> in_headers (set C) (p + of_nat i)"
      proof
        assume "in_headers (set C) (p + of_nat i)"
        then obtain c where c: "c \<in> set C" "unat c \<le> unat (p + of_nat i)" "unat (p + of_nat i) < unat c + 4"
          by (auto simp: in_headers_def)
        have ca: "c \<noteq> a" using c(3) x by auto
        have "c \<in> set C \<union> A" using c(1) by simp
        from blocks_disjoint [OF b1(1) this aC ca] blocksD(1) [OF b1(1) this] show False
          using c(2,3) x i f(4) by (auto simp: heap_cap_def a_def)
      qed
      moreover have "\<not> unat (h_memry h1) \<le> unat (p + of_nat i)"
        using blocksD(3) [OF b1(1) aC] x i f(4) by (simp add: heap_cap_def a_def)
      moreover have "\<not> in_headers {r - 4 + 4 * units_of n} (p + of_nat i)"
        using d ce x(1,2) i cap n(2) heap_region(2) [OF gd, of r] by (auto simp: in_headers_def a_def)
      ultimately have "h_mem h2 (p + of_nat i) = h_mem h1 (p + of_nat i)" using m(3) by blast
      then show ?thesis using f(6) i by simp
    qed
    then show ?thesis using gd rP cap by blast
  qed (auto simp: heap_good_def heap_ok_def A_def)
  show ?thesis using f(1) m(1) others res by blast
qed

lemma realloc_grows:
  assumes g: "heap_good h P" and p: "p \<in> P" and n: "unat n \<le> 65532" "heap_cap h p < unat n" "0 < heap_cap h p"
  shows "\<exists>r h'. realloc p n h = Some (r, h') \<and>
    (\<forall>q \<in> P - {p}. heap_cap h' q = heap_cap h q \<and> (\<forall>i < heap_cap h q. h_mem h' (q + of_nat i) = h_mem h (q + of_nat i))) \<and>
    (r = 0 \<and> heap_good h' (P - {p}) \<or> r \<notin> P - {p} \<and> heap_good h' (insert r (P - {p})) \<and> unat n \<le> heap_cap h' r \<and>
     (r = p \<or> unat r + heap_cap h' r \<le> unat (p - 4) \<or> unat p + heap_cap h p \<le> unat (r - 4) \<longrightarrow>
        (\<forall>i < heap_cap h p. h_mem h' (r + of_nat i) = h_mem h (p + of_nat i))))"
proof -
  obtain C where ok: "heap_ok h C (headers_of P)" using g by (auto simp: heap_good_def)
  have pA: "p - 4 \<in> headers_of P" using p by simp
  note u = used_block [OF ok pA]
  define osize where "osize = (f_size (h_mem h) (p - 4) - 1) * 4"
  have osz: "unat osize = heap_cap h p"
  proof -
    have s: "0 < unat (f_size (h_mem h) (p - 4))" "4 * unat (f_size (h_mem h) (p - 4)) < 65536" using u(4,5,6) by linarith+
    have one: "1 \<le> f_size (h_mem h) (p - 4)" using s(1) by (simp add: word_le_nat_alt)
    define k where "k = f_size (h_mem h) (p - 4) - 1"
    have k: "unat k = unat (f_size (h_mem h) (p - 4)) - 1" using unat_sub [OF one] by (simp add: k_def)
    have "unat (k * 4) = unat k * 4" using k s by (simp add: unat_word_ariths)
    then show ?thesis using k u(6) unfolding osize_def k_def [symmetric] by (simp add: heap_cap_def)
  qed
  have len: "(if n > osize then osize else n) = osize" using n(2) osz by (simp add: word_less_nat_alt)
  obtain h1 r h2 where m: "free p h = Some (0, h1)" "malloc n h1 = Some (r, h2)"
    "\<And>q. q \<in> P - {p} \<Longrightarrow> heap_cap h2 q = heap_cap h q \<and> (\<forall>i < heap_cap h q. h_mem h2 (q + of_nat i) = h_mem h (q + of_nat i))"
    "r = 0 \<and> heap_good h2 (P - {p}) \<or> r \<notin> P - {p} \<and> heap_good h2 (insert r (P - {p})) \<and> unat n \<le> heap_cap h2 r \<and>
     (r = p \<or> unat r + heap_cap h2 r \<le> unat (p - 4) \<or> unat p + heap_cap h p \<le> unat (r - 4) \<longrightarrow>
        (\<forall>i < heap_cap h p. h_mem h2 (p + of_nat i) = h_mem h (p + of_nat i)))"
    using free_malloc [OF g p n(1,2)] by blast
  define h' where "h' = (if r \<noteq> 0 \<and> r \<noteq> p then h2\<lparr>h_mem := movmem p r osize (h_mem h2)\<rparr> else h2)"
  have re: "realloc p n h = Some (r, h')"
    unfolding realloc_def Let_def osize_def [symmetric] len using m(1,2) by (simp add: h'_def)
  show ?thesis
  proof (cases "r = 0 \<or> r = p")
    case True
    then have h2: "h' = h2" by (auto simp: h'_def)
    have "r = 0 \<Longrightarrow> heap_good h2 (P - {p})" using m(4) heap_region(1) [of h2 "insert r (P - {p})" r] by blast
    moreover have "p \<noteq> 0" using heap_region(1) [OF g p] by blast
    ultimately show ?thesis using re m(3,4) True unfolding h2 by blast
  next
    case False
    have r0: "r \<noteq> 0" "r \<noteq> p" using False by auto
    then have r: "r \<notin> P - {p}" "heap_good h2 (insert r (P - {p}))" "unat n \<le> heap_cap h2 r" using m(4) by auto
    have rg: "unat r + heap_cap h2 r \<le> 65536" "unat r = unat (r - 4) + 4" using heap_region [OF r(2)] by auto
    have hm: "h_mem h' = movmem p r osize (h_mem h2)" using r0 by (simp add: h'_def)
    have out: "h_mem h' x = h_mem h2 x" if "\<not> within r (heap_cap h p) x" for x
      unfolding hm by (rule movmem_outside) (use that osz n r(3) rg(1) in simp_all)
    have le: "heap_cap h p \<le> heap_cap h2 r" using n(2) r(3) by simp
    have "h_memry h' = h_memry h2" "h_head h' = h_head h2" "h_last h' = h_last h2" by (simp_all add: h'_def)
    note k = heap_data [OF r(2) insertI1 le out this]
    have others: "heap_cap h' q = heap_cap h q \<and> (\<forall>i < heap_cap h q. h_mem h' (q + of_nat i) = h_mem h (q + of_nat i))"
      if "q \<in> P - {p}" for q
    proof -
      have "q \<in> insert r (P - {p}) - {r}" using that r(1) by blast
      then show ?thesis using m(3) [OF that] k(2) [of q] k(3) [of q] by simp
    qed
    have copied: "h_mem h' (r + of_nat i) = h_mem h (p + of_nat i)"
      if d: "unat r + heap_cap h' r \<le> unat (p - 4) \<or> unat p + heap_cap h p \<le> unat (r - 4)" and i: "i < heap_cap h p" for i
    proof -
      have d2: "unat r + heap_cap h2 r \<le> unat (p - 4) \<or> unat p + heap_cap h p \<le> unat (r - 4)" using d k(2) [of r] by simp
      have "h_mem h' (r + of_nat i) = h_mem h2 (p + of_nat i)"
        unfolding hm
        by (rule movmem_copies) (use osz n i le rg heap_region [OF g p] d2 in auto)
      also have "\<dots> = h_mem h (p + of_nat i)" using m(4) r0 d2 i by blast
      finally show ?thesis .
    qed
    show ?thesis using re k(1) k(2) [of r] r(1,3) others copied r0 by auto
  qed
qed

end
