(* ===== verification/Aztec_Heap_Run.thy ===== *)
theory Aztec_Heap_Run
  imports Aztec_Heap_Spec
begin

text \<open>
  Completeness of the allocator: as long as free blocks that lie side by side have room for a request
  together, \<open>malloc\<close> satisfies it without asking the system for memory.
\<close>

section \<open>Runs of free blocks\<close>

text \<open>Free blocks that follow each other on the list and in memory, and the units they have together.\<close>

definition free_run :: "heap \<Rightarrow> u16 list \<Rightarrow> u16 list \<Rightarrow> bool" where
  "free_run h C xs \<longleftrightarrow> xs \<noteq> [] \<and> distinct xs \<and> set xs \<subseteq> set C \<and>
     successively (\<lambda>x y. f_chain (h_mem h) x = y \<and> x + 4 * f_size (h_mem h) x = y) xs"

definition run_units :: "heap \<Rightarrow> u16 list \<Rightarrow> nat" where
  "run_units h xs = sum_list (map (\<lambda>x. unat (f_size (h_mem h) x)) xs)"

lemma run_link:
  assumes inv: "heap_inv h C A" and x: "x \<in> set C" "y \<in> set C" "x \<noteq> y" and e: "x + 4 * f_size (h_mem h) x = y"
  shows "unat y = unat x + extent h x" "unat x < unat y"
proof -
  have b: "blocks h (set C \<union> A)" using inv by (simp add: heap_inv_def)
  have "x \<noteq> h_head h" using b x(3) e by (auto simp: blocks_def)
  then show "unat y = unat x + extent h x" using block_end [OF b, of x] x(1) e by auto
  then show "unat x < unat y" using blocksD(1) [OF b, of x] x(1) by simp
qed

lemma run_sorted:
  assumes "heap_inv h C A" and "free_run h C xs"
  shows "sorted_wrt (\<lambda>x y. unat x < unat y) xs"
proof -
  have "successively (\<lambda>x y. unat x < unat y) xs"
  proof (rule successively_mono)
    show "successively (\<lambda>x y. x \<noteq> y \<and> f_chain (h_mem h) x = y \<and> x + 4 * f_size (h_mem h) x = y) xs"
      using assms(2) unfolding free_run_def by (induction xs rule: induct_list012) auto
    fix x y assume "x \<in> set xs" "y \<in> set xs"
      "x \<noteq> y \<and> f_chain (h_mem h) x = y \<and> x + 4 * f_size (h_mem h) x = y"
    then show "unat x < unat y" using run_link(2) [OF assms(1), of x y] assms(2) unfolding free_run_def by blast
  qed
  moreover have "transp (\<lambda>x y. unat x < unat (y :: u16))" by (rule transpI) (rule less_trans)
  ultimately show ?thesis using successively_conv_sorted_wrt by blast
qed

text \<open>Two free blocks that end at the same place are the same.\<close>

lemma same_end:
  assumes inv: "heap_inv h C A" and x: "x \<in> set C" "x' \<in> set C" "y \<in> set C" "x \<noteq> y" "x' \<noteq> y"
    and e: "x + 4 * f_size (h_mem h) x = y" "x' + 4 * f_size (h_mem h) x' = y"
  shows "x = x'"
proof (rule ccontr)
  assume "x \<noteq> x'"
  then show False
    using run_link [OF inv x(1,3,4) e(1)] run_link [OF inv x(2,3,5) e(2)]
      blocks_disjoint [of h "set C \<union> A" x x'] inv x(1,2) by (auto simp: heap_inv_def)
qed

section \<open>Joining keeps a run\<close>

lemma merge_headers:
  assumes "heap_inv h (tp # nx # rest) A" and "q \<in> set (tp # nx # rest)"
  shows "f_size (h_mem (merge tp h)) q =
      (if q = tp then f_size (h_mem h) tp + f_size (h_mem h) nx else f_size (h_mem h) q)"
    and "f_chain (h_mem (merge tp h)) q = (if q = tp then f_chain (h_mem h) nx else f_chain (h_mem h) q)"
proof -
  define N where "N = set (tp # nx # rest) \<union> A"
  have "blocks h N" "tp \<in> N" "nx \<in> N" "q \<in> N" using assms by (auto simp: heap_inv_def N_def)
  note s = headers [OF blocks_spaced [OF this(1)] this(2)] and N = this(2-4)
  have nx: "f_chain (h_mem h) tp = nx"
    using cyc_next [of "f_chain (h_mem h)" tp "nx # rest"] assms(1) by (simp add: heap_inv_def)
  have m: "h_mem (merge tp h) =
      set_chain tp (f_chain (h_mem h) nx) (set_size tp (f_size (h_mem h) tp + f_size (h_mem h) nx) (h_mem h))"
    using s(4) [OF N(1)] s(4) [OF N(2)] nx by (simp add: merge_def Let_def)
  show "f_size (h_mem (merge tp h)) q =
      (if q = tp then f_size (h_mem h) tp + f_size (h_mem h) nx else f_size (h_mem h) q)"
    using s(1,3) [OF N(3)] by (simp add: m)
  show "f_chain (h_mem (merge tp h)) q = (if q = tp then f_chain (h_mem h) nx else f_chain (h_mem h) q)"
    using s(2,4) [OF N(3)] by (simp add: m)
qed

text \<open>The links of blocks other than the one joined stay.\<close>

lemma links_kept:
  assumes "heap_inv h (tp # nx # rest) A" and "set xs \<subseteq> set (tp # nx # rest)" and "tp \<notin> set (butlast xs)"
    and "successively (\<lambda>x y. f_chain (h_mem h) x = y \<and> x + 4 * f_size (h_mem h) x = y) xs"
  shows "successively (\<lambda>x y. f_chain (h_mem (merge tp h)) x = y \<and> x + 4 * f_size (h_mem (merge tp h)) x = y) xs"
  using assms(2-4)
proof (induction xs rule: induct_list012)
  case (3 x y zs)
  then show ?case using merge_headers [OF assms(1), of x] by auto
qed simp_all

lemma units_kept:
  assumes "heap_inv h (tp # nx # rest) A" and "set xs \<subseteq> set (tp # nx # rest)" and "tp \<notin> set xs"
  shows "run_units (merge tp h) xs = run_units h xs"
  using assms(2,3) merge_headers(1) [OF assms(1)] unfolding run_units_def
  by (induction xs) auto

lemma merge_run:
  assumes inv: "heap_inv h (tp # nx # rest) A" and adj: "tp + 4 * f_size (h_mem h) tp = nx"
    and run: "free_run h (tp # nx # rest) xs"
  shows "\<exists>xs'. free_run (merge tp h) (tp # rest) xs' \<and> run_units h xs \<le> run_units (merge tp h) xs' \<and>
    hd xs' = (if hd xs = nx then tp else hd xs)"
proof -
  let ?C = "tp # nx # rest" and ?h = "merge tp h"
  note mh = merge_headers [OF inv] and ad = adjacent [OF inv adj]
  have nx: "f_chain (h_mem h) tp = nx" "tp \<noteq> nx"
    using cyc_next [of "f_chain (h_mem h)" tp "nx # rest"] inv by (auto simp: heap_inv_def cyc_def)
  have sub: "set xs \<subseteq> set ?C" "distinct xs" "xs \<noteq> []" using run by (auto simp: free_run_def)
  have ln: "successively (\<lambda>x y. f_chain (h_mem h) x = y \<and> x + 4 * f_size (h_mem h) x = y) xs"
    using run by (simp add: free_run_def)
  have new: "f_chain (h_mem ?h) tp = f_chain (h_mem h) nx"
    "tp + 4 * f_size (h_mem ?h) tp = nx + 4 * f_size (h_mem h) nx"
    "unat (f_size (h_mem ?h) tp) = unat (f_size (h_mem h) tp) + unat (f_size (h_mem h) nx)"
    using mh [of tp] ad(5) adj by (auto simp: algebra_simps)
  have srt: "sorted_wrt (\<lambda>x y. unat x < unat y) xs" by (rule run_sorted [OF inv run])
  have up: "unat tp < unat nx" using run_link(2) [OF inv _ _ nx(2) adj] by simp
  show ?thesis
  proof (cases "nx \<in> set xs")
    case False
    have last: "tp \<notin> set (butlast xs)"
    proof
      assume "tp \<in> set (butlast xs)"
      then obtain us vs where "butlast xs = us @ tp # vs" by (auto simp: in_set_conv_decomp)
      then have "xs = us @ tp # vs @ [last xs]" using append_butlast_last_id [OF sub(3)] by simp
      then obtain ys where "xs = us @ tp # ys" "ys \<noteq> []" by blast
      then have "f_chain (h_mem h) tp \<in> set xs"
        using ln by (simp add: successively_append_iff successively_Cons)
      then show False using False nx(1) by simp
    qed
    have "run_units h ys \<le> run_units ?h ys" if "set ys \<subseteq> set ?C" for ys
      using that mh(1) new(3) unfolding run_units_def by (induction ys) (auto intro: add_mono)
    then have "run_units h xs \<le> run_units ?h xs" using sub(1) .
    moreover have "free_run ?h (tp # rest) xs"
      using sub False links_kept [OF inv sub(1) last ln] by (auto simp: free_run_def)
    moreover have "hd xs \<noteq> nx" using False sub(3) by (metis list.set_sel(1))
    ultimately show ?thesis by auto
  next
    case True
    then obtain us vs where xs: "xs = us @ nx # vs" by (auto simp: in_set_conv_decomp)
    have tv: "tp \<notin> set vs" using srt up by (auto simp: xs sorted_wrt_append)
    have nv: "nx \<notin> set vs" "nx \<notin> set us" using sub(2) by (auto simp: xs)
    have vs: "successively (\<lambda>x y. f_chain (h_mem ?h) x = y \<and> x + 4 * f_size (h_mem ?h) x = y) vs"
      using links_kept [OF inv, of vs] ln sub(1) tv
      by (auto simp: xs successively_append_iff successively_Cons dest: in_set_butlastD)
    have link: "vs = [] \<or> f_chain (h_mem ?h) tp = hd vs \<and> tp + 4 * f_size (h_mem ?h) tp = hd vs"
      using ln new(1,2) by (auto simp: xs successively_append_iff successively_Cons)
    have tvs: "successively (\<lambda>x y. f_chain (h_mem ?h) x = y \<and> x + 4 * f_size (h_mem ?h) x = y) (tp # vs)"
      using vs link by (simp add: successively_Cons)
    have uv: "run_units ?h vs = run_units h vs" using units_kept [OF inv _ tv] sub(1) xs by auto
    show ?thesis
    proof (cases us rule: rev_cases)
      case Nil
      have "free_run ?h (tp # rest) (tp # vs)"
        using sub nv tv tvs by (auto simp: free_run_def xs Nil)
      moreover have "run_units h xs \<le> run_units ?h (tp # vs)"
        using uv new(3) by (simp add: xs Nil run_units_def)
      ultimately show ?thesis by (intro exI [of _ "tp # vs"]) (simp add: xs Nil)
    next
      case (snoc ws u)
      have u: "u \<in> set ?C" "u + 4 * f_size (h_mem h) u = nx" "u \<noteq> nx"
        using ln sub nv by (auto simp: xs snoc successively_append_iff)
      have utp: "u = tp" by (rule same_end [OF inv u(1) _ _ u(3) nx(2) u(2) adj]) simp_all
      have tw: "tp \<notin> set ws" using sub(2) by (auto simp: xs snoc utp)
      have "successively (\<lambda>x y. f_chain (h_mem ?h) x = y \<and> x + 4 * f_size (h_mem ?h) x = y) (ws @ [tp])"
        using links_kept [OF inv, of "ws @ [tp]"] ln sub(1) tw by (auto simp: xs snoc utp successively_append_iff)
      then have "free_run ?h (tp # rest) (ws @ tp # vs)"
        using sub nv tv tw tvs by (auto simp: free_run_def xs snoc utp successively_append_iff)
      moreover have "run_units h xs \<le> run_units ?h (ws @ tp # vs)"
        using uv new(3) units_kept [OF inv _ tw] sub(1) by (auto simp: xs snoc utp run_units_def)
      moreover have "hd (ws @ tp # vs) = hd xs" "hd xs \<noteq> nx"
        using nx(2) nv(2) by (cases ws; auto simp: xs snoc utp)+
      ultimately show ?thesis by (intro exI [of _ "ws @ tp # vs"]) simp
    qed
  qed
qed

section \<open>The search\<close>

text \<open>
  Joining at the current block: the run survives, and if it starts there it has become a single block.
  \<open>a\<close> is the place of its first block on the list, \<open>i\<close> that of the block the search ends with.
\<close>

lemma coalesce_run:
  assumes "heap_inv h (tp # rest) A" "(tp # rest) ! i = h_last h" "i < length (tp # rest)"
    "free_run h (tp # rest) xs" "hd xs = (tp # rest) ! a" "a \<le> i"
  shows "\<exists>h' rest' i' a' xs'. coalesce tp h = Some h' \<and> heap_inv h' (tp # rest') A \<and>
    (tp # rest') ! i' = h_last h' \<and> i' < length (tp # rest') \<and> i' \<le> i \<and> last (tp # rest') = last (tp # rest) \<and>
    h_memry h' = h_memry h \<and> free_run h' (tp # rest') xs' \<and> run_units h xs \<le> run_units h' xs' \<and>
    hd xs' = (tp # rest') ! a' \<and> a' \<le> i' \<and> (a' = 0 \<longrightarrow> xs' = [tp])"
  using assms
proof (induction "length rest" arbitrary: h rest i a xs)
  case 0
  then have "f_chain (h_mem h) tp = tp" using cyc_next [of "f_chain (h_mem h)" tp "[]"] by (simp add: heap_inv_def)
  then have "coalesce tp h = Some h" by (subst coalesce.simps) simp
  moreover have "xs = [tp]"
  proof -
    have "set xs \<subseteq> {tp}" "xs \<noteq> []" "distinct xs" using 0 by (auto simp: free_run_def)
    then show ?thesis by (cases xs; cases "tl xs") auto
  qed
  ultimately show ?case using 0 by (intro exI [of _ h] exI [of _ rest] exI [of _ i] exI [of _ a] exI [of _ xs]) auto
next
  case (Suc n)
  obtain nx r where r: "rest = nx # r" using Suc(2) by (cases rest) auto
  have nx: "f_chain (h_mem h) tp = nx" "tp \<noteq> nx" "distinct (tp # nx # r)"
    using cyc_next [of "f_chain (h_mem h)" tp "nx # r"] Suc.prems(1) r by (auto simp: heap_inv_def cyc_def)
  show ?case
  proof (cases "tp + 4 * f_size (h_mem h) tp = nx")
    case True
    note mg = merge_ok [OF Suc.prems(1) [unfolded r] True] and ad = adjacent [OF Suc.prems(1) [unfolded r] True]
    obtain ys where ys: "free_run (merge tp h) (tp # r) ys" "run_units h xs \<le> run_units (merge tp h) ys"
      "hd ys = (if hd xs = nx then tp else hd xs)"
      using merge_run [OF Suc.prems(1) [unfolded r] True Suc.prems(4) [unfolded r]] by blast
    define j where "j = (if i = 0 then 0 else if i = 1 then 1 else i - 1)"
    define b where "b = (if a \<le> 1 then 0 else a - 1)"
    have bj: "b \<le> j" using Suc.prems(6) by (auto simp: b_def j_def)
    have j: "(tp # r) ! j = h_last (merge tp h) \<and> j < length (tp # r) \<and> j \<le> i"
    proof -
      consider "i = 0" | "i = 1" | k where "i = Suc (Suc k)" by (metis One_nat_def not0_implies_Suc)
      then show ?thesis
      proof cases
        case 1
        then show ?thesis using Suc.prems(2) mg(3) nx(2) by (simp add: j_def)
      next
        case 2
        then show ?thesis using Suc.prems(2) mg(3) r ad(4) by (cases r) (simp_all add: j_def)
      next
        case (3 k)
        then have "h_last h = r ! k" "k < length r" using Suc.prems(2,3) r by auto
        then have "h_last h \<noteq> nx" using nx(3) by (metis distinct.simps(2) nth_mem)
        then show ?thesis using 3 mg(3) \<open>h_last h = r ! k\<close> \<open>k < length r\<close> by (simp add: j_def)
      qed
    qed
    have b: "hd ys = (tp # r) ! b"
    proof -
      consider "a = 0" | "a = 1" | k where "a = Suc (Suc k)" by (metis One_nat_def not0_implies_Suc)
      then show ?thesis
      proof cases
        case 3
        then have "hd xs = r ! k" "k < length r" using Suc.prems(3,5,6) r by auto
        then have "hd xs \<noteq> nx" using nx(3) by (metis distinct.simps(2) nth_mem)
        then show ?thesis using 3 ys(3) \<open>hd xs = r ! k\<close> by (simp add: b_def)
      qed (use ys(3) Suc.prems(5) nx(2) r in \<open>simp_all add: b_def\<close>)
    qed
    have lr: "n = length r" using Suc(2) r by simp
    obtain h' rest' i' a' xs' where ih: "coalesce tp (merge tp h) = Some h'" "heap_inv h' (tp # rest') A"
      "(tp # rest') ! i' = h_last h'" "i' < length (tp # rest')" "i' \<le> j"
      "last (tp # rest') = last (tp # r)" "h_memry h' = h_memry (merge tp h)" "free_run h' (tp # rest') xs'"
      "run_units (merge tp h) ys \<le> run_units h' xs'" "hd xs' = (tp # rest') ! a'" "a' \<le> i'" "a' = 0 \<longrightarrow> xs' = [tp]"
      using Suc.hyps(1) [OF lr mg(1) conjunct1 [OF j] conjunct1 [OF conjunct2 [OF j]] ys(1) b bj] by blast
    have "coalesce tp h = Some h'" using ih(1) nx True by (subst coalesce.simps) simp
    moreover have "last (tp # r) = last (tp # rest)" using r ad(4) by simp
    moreover have "i' \<le> i" "run_units h xs \<le> run_units h' xs'" using ih(5,9) j ys(2) by linarith+
    ultimately show ?thesis using ih mg(4)
      by (intro exI [of _ h'] exI [of _ rest'] exI [of _ i'] exI [of _ a'] exI [of _ xs']) simp
  next
    case False
    then have "coalesce tp h = Some h" using nx by (subst coalesce.simps) simp
    moreover have "xs = [tp]" if "a = 0"
    proof -
      have "hd xs = tp" "xs \<noteq> []" using Suc.prems(4,5) that by (auto simp: free_run_def)
      then show ?thesis using Suc.prems(4) False nx(1)
        by (cases xs; cases "tl xs") (auto simp: free_run_def)
    qed
    ultimately show ?thesis using Suc.prems
      by (intro exI [of _ h] exI [of _ rest] exI [of _ i] exI [of _ a] exI [of _ xs]) auto
  qed
qed

lemma malloc_loop_run:
  assumes "units > 0" "heap_inv h (tp # rest) A" "prev = last (tp # rest)"
    "(tp # rest) ! i = h_last h" "i < length (tp # rest)"
    "free_run h (tp # rest) xs" "hd xs = (tp # rest) ! a" "a \<le> i" "unat units \<le> run_units h xs"
  shows "\<exists>r h'. malloc_loop units prev tp h = Some (r, h') \<and> r \<noteq> 0 \<and> h_memry h' = h_memry h"
  using assms(2-)
proof (induction i arbitrary: h tp rest prev xs a rule: less_induct)
  case (less i)
  obtain h1 r1 i1 a1 ys where c: "coalesce tp h = Some h1" "heap_inv h1 (tp # r1) A" "(tp # r1) ! i1 = h_last h1"
    "i1 < length (tp # r1)" "i1 \<le> i" "last (tp # r1) = last (tp # rest)" "h_memry h1 = h_memry h"
    "free_run h1 (tp # r1) ys" "run_units h xs \<le> run_units h1 ys" "hd ys = (tp # r1) ! a1" "a1 \<le> i1"
    "a1 = 0 \<longrightarrow> ys = [tp]"
    using coalesce_run [OF less.prems(1,3,4,5,6,7)] by blast
  show ?case
  proof (cases "units \<le> f_size (h_mem h1) tp")
    case True
    have pv: "prev = last (tp # r1)" using c(6) less.prems(2) by simp
    obtain h' where t: "take_block units prev tp h1 = (tp + 4, h')" "h_memry h' = h_memry h1"
      using take_ok [OF c(2) assms(1) True pv] by blast
    have "blocks h1 (set (tp # r1) \<union> A)" using c(2) by (simp add: heap_inv_def)
    then have "unat (tp + 4) = unat tp + 4"
      using word_offset [of tp 4] blocksD(5) [of h1 "set (tp # r1) \<union> A" tp] by simp
    then have "tp + 4 \<noteq> 0" by auto
    moreover have "malloc_loop units prev tp h = Some (tp + 4, h')"
      using c(1) True t(1) by (subst malloc_loop.simps) simp
    ultimately show ?thesis using t(2) c(7) by simp
  next
    case False
    have "a1 \<noteq> 0"
    proof
      assume "a1 = 0"
      then have "unat units \<le> unat (f_size (h_mem h1) tp)" using c(9,12) less.prems(8) by (simp add: run_units_def)
      then show False using False by (simp add: word_le_nat_alt)
    qed
    then obtain b k where k: "a1 = Suc b" "i1 = Suc k" "b \<le> k" using c(11) by (cases a1; cases i1) auto
    obtain y zs where r1: "r1 = y # zs" using c(4) k(2) by (cases r1) auto
    have dist: "distinct (tp # r1)" and nx: "f_chain (h_mem h1) tp = y"
      using c(2) cyc_next [of "f_chain (h_mem h1)" tp r1] r1 by (auto simp: heap_inv_def cyc_def)
    have "h_last h1 \<noteq> tp" using c(3,4) k(2) dist by (metis distinct.simps(2) length_Cons nth_Cons_Suc nth_mem Suc_less_eq)
    have iv: "heap_inv h1 (y # zs @ [tp]) A" using heap_inv_rotate [of h1 "[tp]" "y # zs"] c(2) r1 by simp
    have kl: "k < length (y # zs)" "b < length (y # zs)" using c(4) k r1 by auto
    have at: "(y # zs @ [tp]) ! k = h_last h1" "hd ys = (y # zs @ [tp]) ! b"
      using c(3,10) k kl r1 nth_append [of "y # zs" "[tp]" k] nth_append [of "y # zs" "[tp]" b] by simp_all
    have rn: "free_run h1 (y # zs @ [tp]) ys" using c(8) r1 by (auto simp: free_run_def)
    have "unat units \<le> run_units h1 ys" using c(9) less.prems(8) by simp
    from less.IH [of k h1 y "zs @ [tp]" tp ys b] iv at rn kl this k c(5)
    obtain r h' where "malloc_loop units tp y h1 = Some (r, h')" "r \<noteq> 0" "h_memry h' = h_memry h1" by auto
    moreover have "malloc_loop units prev tp h = malloc_loop units tp y h1"
      using c(1) False \<open>h_last h1 \<noteq> tp\<close> nx by (subst malloc_loop.simps) simp
    ultimately show ?thesis using c(7) by simp
  qed
qed

lemma malloc_run:
  assumes "heap_inv h C A" and "free_run h C xs" and "unat (units_of sz) \<le> run_units h xs"
  shows "\<exists>r h'. malloc sz h = Some (r, h') \<and> r \<noteq> 0 \<and> h_memry h' = h_memry h"
proof -
  define c where "c = f_chain (h_mem h)"
  have b: "blocks h (set C \<union> A)" "h_last h \<in> set C" "cyc c C" using assms(1) by (auto simp: heap_inv_def c_def)
  have n0: "h_last h \<noteq> 0" using blocksD(4) [OF b(1)] b(2) by blast
  obtain ys where ys: "cyc c (h_last h # ys)" "set (h_last h # ys) = set C" using cyc_starts [OF b(3,2)] by blast
  obtain tp rest where tp: "ys @ [h_last h] = tp # rest" by (cases ys) auto
  have s: "set (tp # rest) = set C" "last (tp # rest) = h_last h" "c (h_last h) = tp"
    using ys(2) cyc_next [OF ys(1)] unfolding tp [symmetric] by auto (metis tp list.sel(1))
  have "cyc c (tp # rest)" using cyc_rotate [of c "[h_last h]" ys] ys(1) tp by simp
  then have inv: "heap_inv h (tp # rest) A" using assms(1) s(1) unfolding heap_inv_def c_def by simp
  have run: "free_run h (tp # rest) xs" using assms(2) s(1) by (simp add: free_run_def)
  then have "hd xs \<in> set (tp # rest)" unfolding free_run_def by (meson hd_in_set subsetD)
  then obtain a where a: "a < length (tp # rest)" "hd xs = (tp # rest) ! a" by (metis in_set_conv_nth)
  have i: "(tp # rest) ! length rest = h_last h" using s(2) last_conv_nth [of "tp # rest"] by simp
  obtain r h' where "malloc_loop (units_of sz) (h_last h) tp h = Some (r, h')" "r \<noteq> 0" "h_memry h' = h_memry h"
    using malloc_loop_run [OF units_of_pos inv s(2) [symmetric] i _ run a(2) _ assms(3)] a(1) by auto
  then show ?thesis using n0 s(3) by (simp add: malloc_def Let_def units_of_def c_def)
qed

section \<open>The free list is in the order of addresses\<close>

definition ring :: "u16 list \<Rightarrow> bool" where
  "ring C \<longleftrightarrow> (\<exists>n. sorted_wrt (<) (rotate n C))"

lemma ringI: "sorted_wrt (<) (ys @ xs) \<Longrightarrow> ring (xs @ ys)"
  unfolding ring_def by (rule exI [of _ "length xs"]) (simp add: rotate_append)

lemma ringE:
  assumes "ring C"
  obtains xs ys where "C = xs @ ys" "sorted_wrt (<) (ys @ xs)"
proof -
  obtain n where "sorted_wrt (<) (rotate n C)" using assms by (auto simp: ring_def)
  then have "sorted_wrt (<) (drop (n mod length C) C @ take (n mod length C) C)" by (simp add: rotate_drop_take)
  then show thesis by (intro that [of "take (n mod length C) C" "drop (n mod length C) C"]) simp_all
qed

lemma ring_rotate: "ring (xs @ ys) \<Longrightarrow> ring (ys @ xs)"
proof -
  assume "ring (xs @ ys)"
  then obtain n where "sorted_wrt (<) (rotate n (xs @ ys))" by (auto simp: ring_def)
  moreover have "rotate n (xs @ ys) = rotate (n + length ys) (ys @ xs)"
    by (simp add: rotate_rotate [symmetric] rotate_append)
  ultimately show "ring (ys @ xs)" unfolding ring_def by (metis (no_types))
qed

lemma ring_filter: "ring C \<Longrightarrow> ring (filter P C)"
  by (elim ringE) (auto intro!: ringI simp: sorted_wrt_append sorted_wrt_filter)

lemma ring_remove: "ring (xs @ y # ys) \<Longrightarrow> distinct (xs @ y # ys) \<Longrightarrow> ring (xs @ ys)"
proof -
  assume "ring (xs @ y # ys)" "distinct (xs @ y # ys)"
  then have "filter (\<lambda>x. x \<noteq> y) xs = xs" "filter (\<lambda>x. x \<noteq> y) ys = ys" by (auto simp: filter_id_conv)
  with ring_filter [OF \<open>ring (xs @ y # ys)\<close>, of "\<lambda>x. x \<noteq> y"] show "ring (xs @ ys)" by simp
qed

lemma ring_map:
  assumes "ring C" and "\<And>x y. x \<in> set C \<Longrightarrow> y \<in> set C \<Longrightarrow> x < y \<Longrightarrow> f x < f y"
  shows "ring (map f C)"
proof -
  obtain xs ys where C: "C = xs @ ys" "sorted_wrt (<) (ys @ xs)" by (rule ringE [OF assms(1)])
  have "sorted_wrt (\<lambda>x y. f x < f y) (ys @ xs)"
    by (rule sorted_wrt_mono_rel [OF _ C(2)]) (use assms(2) C(1) in auto)
  then have "sorted_wrt (<) (map f ys @ map f xs)" by (simp add: sorted_wrt_map flip: map_append)
  then show ?thesis using C(1) by (simp add: ringI)
qed

text \<open>The successor of a block on a ordered ring is the next one in memory, or the first behind the last.\<close>

lemma ring_next:
  assumes "ring (x # ys)" "y \<in> set ys" "x < y"
  shows "x < hd ys" "hd ys \<le> y"
proof -
  obtain p q where pq: "x # ys = p @ q" "sorted_wrt (<) (q @ p)" by (rule ringE [OF assms(1)])
  have "\<exists>zs. sorted_wrt (<) (x # zs) \<and> y \<in> set zs \<and> hd zs = hd ys"
  proof (cases p)
    case Nil
    then show ?thesis using pq assms(2) by (intro exI [of _ ys]) auto
  next
    case (Cons a p')
    then have "y \<in> set p'" using pq assms(2,3) by (auto simp: sorted_wrt_append)
    then show ?thesis using pq Cons by (intro exI [of _ p']) (auto simp: sorted_wrt_append hd_append)
  qed
  then obtain zs where "sorted_wrt (<) (x # zs)" "y \<in> set zs" "hd zs = hd ys" by blast
  then show "x < hd ys" "hd ys \<le> y" by (cases zs; auto)+
qed

lemma ring_insert:
  assumes r: "ring (t # rest)" and a: "a \<notin> set (t # rest)" and c: "c t = hd (rest @ [t])" and s: "stops c a t"
  shows "ring (t # a # rest)"
proof -
  obtain p q where pq: "t # rest = p @ q" "sorted_wrt (<) (q @ p)" by (rule ringE [OF r])
  have nt: "a \<noteq> t" using a by auto
  consider (single) "rest = []" | (front) "p = []" "rest \<noteq> []" | (mid) u p' where "p = t # u # p'" "rest = u # p' @ q"
    | (rear) "p = [t]" "rest = q" "q \<noteq> []"
    using pq(1) by (cases p; cases "tl p") auto
  then show ?thesis
  proof cases
    case single
    then show ?thesis using nt ringI [of "[a]" "[t]"] ringI [of "[t, a]" "[]"] by (cases "t < a") auto
  next
    case front
    then obtain u us where u: "rest = u # us" "t < u" using pq by (cases rest) auto
    then have "t < a" "a < u" using s c a by (auto simp: stops_def)
    then have "sorted_wrt (<) (t # a # rest)" using pq front u(1) by (auto intro: less_trans [of a u])
    then show ?thesis using ringI [of "t # a # rest" "[]"] by simp
  next
    case mid
    then have "t < u" using pq(2) by (auto simp: sorted_wrt_append)
    then have "t < a" "a < u" using s c a mid by (auto simp: stops_def)
    then have "sorted_wrt (<) (q @ t # a # u # p')" using pq(2) mid by (auto simp: sorted_wrt_append)
    then show ?thesis using ringI [of q "t # a # u # p'"] mid by simp
  next
    case rear
    then have m: "hd q < t" "\<forall>x \<in> set q. x < t \<and> hd q \<le> x" "sorted_wrt (<) q"
      using pq(2) by (cases q; auto simp: sorted_wrt_append)+
    have "c t = hd q" using c rear by simp
    then have "a > t \<or> a < hd q" using s m(1) nt by (auto simp: stops_def)
    then show ?thesis
    proof
      assume "a > t"
      then have "sorted_wrt (<) (q @ [t, a])" using m by (auto simp: sorted_wrt_append)
      then show ?thesis using ringI [of q "[t, a]"] rear by simp
    next
      assume "a < hd q"
      then have "sorted_wrt (<) ((a # q) @ [t])" using m nt by (auto simp: sorted_wrt_append)
      then show ?thesis using ringI [of "a # q" "[t]"] rear by simp
    qed
  qed
qed

text \<open>Lists of the same ring are rotations of each other.\<close>

lemma path_unique: "path c w ys x \<Longrightarrow> path c w zs x \<Longrightarrow> x \<notin> set ys \<Longrightarrow> x \<notin> set zs \<Longrightarrow> ys = zs"
proof (induction ys arbitrary: w zs)
  case Nil
  then show ?case by (cases zs) auto
next
  case (Cons y ys)
  then show ?case by (cases zs) auto
qed

lemma cyc_rotated:
  assumes "cyc c C" "x \<in> set C"
  obtains us vs where "C = us @ x # vs" "cyc c (x # vs @ us)"
  using assms cyc_rotate [of c _ "x # _"] by (auto simp: in_set_conv_decomp)

lemma ring_unique:
  assumes "cyc c C" "cyc c D" "x \<in> set C" "x \<in> set D" "ring C"
  shows "ring D"
proof -
  obtain us vs where C: "C = us @ x # vs" "cyc c (x # vs @ us)" by (rule cyc_rotated [OF assms(1,3)])
  obtain ps qs where D: "D = ps @ x # qs" "cyc c (x # qs @ ps)" by (rule cyc_rotated [OF assms(2,4)])
  have "vs @ us = qs @ ps" using path_unique [of c "c x" "vs @ us" x "qs @ ps"] C(2) D(2) by (auto simp: cyc_path)
  then have "ring (x # qs @ ps)" using ring_rotate [of us "x # vs"] assms(5) C(1) by simp
  then show ?thesis using ring_rotate [of "x # qs" ps] D(1) by simp
qed

lemma neighbours_linked:
  assumes inv: "heap_inv h C A" and rg: "ring C" and x: "x \<in> set C" "y \<in> set C" "x \<noteq> y"
    and e: "x + 4 * f_size (h_mem h) x = y"
  shows "f_chain (h_mem h) x = y"
proof -
  have b: "blocks h (set C \<union> A)" and cy: "cyc (f_chain (h_mem h)) C" using inv by (auto simp: heap_inv_def)
  obtain us vs where C: "C = us @ x # vs" "cyc (f_chain (h_mem h)) (x # vs @ us)" by (rule cyc_rotated [OF cy x(1)])
  let ?ys = "vs @ us"
  have rg': "ring (x # ?ys)" using ring_rotate [of us "x # vs"] rg C(1) by simp
  have y: "y \<in> set ?ys" "?ys \<noteq> []" using x(2,3) C(1) by auto
  note l = run_link [OF inv x e]
  have xy: "x < y" using l(2) by (simp add: word_less_nat_alt)
  have n: "x < hd ?ys" "hd ?ys \<le> y" using ring_next [OF rg' y(1) xy] by auto
  have hC: "hd ?ys \<in> set C" using hd_in_set [OF y(2)] C(1) by auto
  have "unat x + extent h x \<le> unat (hd ?ys)"
    using blocks_disjoint [OF b, of x "hd ?ys"] hC x(1) n(1) blocksD(1) [OF b, of "hd ?ys"] by (auto simp: word_less_nat_alt)
  then have "y \<le> hd ?ys" using l(1) by (simp add: word_le_nat_alt)
  then have "hd ?ys = y" using n(2) by simp
  moreover have "f_chain (h_mem h) x = hd ?ys" using cyc_next [OF C(2)] y(2) by (simp add: hd_append)
  ultimately show ?thesis by simp
qed

section \<open>Every call keeps the order\<close>

lemma coalesce_ring:
  "heap_inv h (tp # rest) A \<Longrightarrow> ring (tp # rest) \<Longrightarrow>
   \<exists>h' rest'. coalesce tp h = Some h' \<and> heap_inv h' (tp # rest') A \<and> ring (tp # rest') \<and>
     last (tp # rest') = last (tp # rest)"
proof (induction "length rest" arbitrary: h rest)
  case 0
  then have "f_chain (h_mem h) tp = tp" using cyc_next [of "f_chain (h_mem h)" tp "[]"] by (simp add: heap_inv_def)
  then have "coalesce tp h = Some h" by (subst coalesce.simps) simp
  then show ?case using 0 by blast
next
  case (Suc n)
  obtain nx r where r: "rest = nx # r" using Suc(2) by (cases rest) auto
  have nx: "f_chain (h_mem h) tp = nx" "tp \<noteq> nx" "distinct (tp # nx # r)"
    using cyc_next [of "f_chain (h_mem h)" tp "nx # r"] Suc.prems(1) r by (auto simp: heap_inv_def cyc_def)
  show ?case
  proof (cases "tp + 4 * f_size (h_mem h) tp = nx")
    case True
    have "ring (tp # r)" using ring_remove [of "[tp]" nx r] Suc.prems(2) nx(3) r by simp
    moreover have "n = length r" using Suc(2) r by simp
    ultimately obtain h' rest' where "coalesce tp (merge tp h) = Some h'" "heap_inv h' (tp # rest') A" "ring (tp # rest')"
      "last (tp # rest') = last (tp # r)"
      using Suc.hyps(1) [OF _ merge_ok(1) [OF Suc.prems(1) [unfolded r] True]] by blast
    moreover have "coalesce tp h = coalesce tp (merge tp h)" using nx True by (subst coalesce.simps) simp
    moreover have "r \<noteq> []" using adjacent(4) [OF Suc.prems(1) [unfolded r] True] .
    ultimately show ?thesis using r by (intro exI [of _ h'] exI [of _ rest']) simp
  next
    case False
    then have "coalesce tp h = Some h" using nx by (subst coalesce.simps) simp
    then show ?thesis using Suc.prems by blast
  qed
qed

lemma take_ring:
  assumes inv: "heap_inv h (tp # rest) A" and u: "units > 0" "units \<le> f_size (h_mem h) tp"
    and pv: "prev = last (tp # rest)" and rg: "ring (tp # rest)"
  shows "\<exists>h' C'. take_block units prev tp h = (tp + 4, h') \<and> heap_inv h' C' (insert tp A) \<and> ring C'"
proof -
  have p: "prev = last rest" using inv_start(3) [OF inv u] pv by simp
  have b: "blocks h (set (tp # rest) \<union> A)" "distinct (tp # rest)" using inv by (auto simp: heap_inv_def cyc_def)
  show ?thesis
  proof (cases "f_size (h_mem h) tp = units")
    case True
    moreover have "ring rest" using ring_remove [of "[]" tp rest] rg b(2) by simp
    ultimately show ?thesis using take_exact [OF inv u(1) True] unfolding p by blast
  next
    case False
    then have lt: "units < f_size (h_mem h) tp" using u(2) by simp
    define l where "l = tp + 4 * units"
    have nh: "tp \<noteq> h_head h" using inv_start(1) [OF inv u] .
    have e: "extent h tp = 4 * unat (f_size (h_mem h) tp)" using nh by (simp add: extent_def)
    have u': "0 < unat units" "unat units < unat (f_size (h_mem h) tp)"
      using u(1) lt by (simp_all add: word_less_nat_alt unat_gt_0)
    have "unat tp + extent h tp \<le> unat (h_memry h)" using blocksD(3) [OF b(1), of tp] by simp
    then have ul: "unat l = unat tp + 4 * unat units"
      unfolding l_def by (intro scaled) (use u' e unat_u16_lt [of "h_memry h"] in linarith)
    have "ring (map (\<lambda>x. if x = tp then l else x) (tp # rest))"
    proof (rule ring_map [OF rg])
      fix x y assume xy: "x \<in> set (tp # rest)" "y \<in> set (tp # rest)" "x < y"
      have "l < y" if "x = tp"
      proof -
        have "unat tp < unat y" using xy(3) that by (simp add: word_less_nat_alt)
        then have "unat tp + extent h tp \<le> unat y"
          using blocks_disjoint [OF b(1), of tp y] xy(2) blocksD(1) [OF b(1), of y] by auto
        then show ?thesis using ul u' e by (simp add: word_less_nat_alt)
      qed
      moreover have "x < l" if "y = tp" using xy(3) that ul by (simp add: word_less_nat_alt)
      ultimately show "(if x = tp then l else x) < (if y = tp then l else y)" using xy(3) by auto
    qed
    moreover have "map (\<lambda>x. if x = tp then l else x) (tp # rest) = l # rest"
      using b(2) by (auto intro: map_idI)
    ultimately have "ring (l # rest)" by simp
    then show ?thesis using take_split [OF inv u(1) lt] unfolding p l_def by blast
  qed
qed

lemma free_ring:
  assumes inv: "heap_inv h C A" and a: "a \<in> A" and rg: "ring C"
  shows "\<exists>h' t rest. free (a + 4) h = Some (0, h') \<and> heap_inv h' (t # a # rest) (A - {a}) \<and> h_last h' = t \<and>
    ring (t # a # rest)"
proof -
  obtain h' t rest where f: "free (a + 4) h = Some (0, h')" "heap_inv h' (t # a # rest) (A - {a})" "set (t # rest) = set C"
    "h_last h' = t" "cyc (f_chain (h_mem h)) (t # rest)" "stops (f_chain (h_mem h)) a t"
    using free_ok [OF inv a] by blast
  have "cyc (f_chain (h_mem h)) C" "a \<notin> set C" using inv a by (auto simp: heap_inv_def)
  then have "ring (t # rest)" using ring_unique [OF _ f(5), of C t] f(3) rg by auto
  moreover have "a \<notin> set (t # rest)" using \<open>a \<notin> set C\<close> f(3) by simp
  ultimately have "ring (t # a # rest)" using ring_insert [OF _ _ cyc_next [OF f(5)] f(6)] by simp
  then show ?thesis using f by blast
qed

lemma grow_units: "(1024 :: u16) div 4 = 256"
  by code_simp

definition ring_post :: "u16 set \<Rightarrow> u16 \<times> heap \<Rightarrow> bool" where
  "ring_post A = (\<lambda>(r, h'). \<exists>C'. ring C' \<and>
     (r = 0 \<and> heap_inv h' C' A \<or> (\<exists>p. r = p + 4 \<and> heap_inv h' C' (insert p A))))"

lemma malloc_loop_ring:
  assumes "malloc_loop units prev tp h = Some z"
  shows "\<forall>rest A. units > 0 \<longrightarrow> heap_inv h (tp # rest) A \<longrightarrow> prev = last (tp # rest) \<longrightarrow> ring (tp # rest) \<longrightarrow> ring_post A z"
proof (rule malloc_loop.raw_induct [where P = "\<lambda>units prev tp h z. \<forall>rest A. units > 0 \<longrightarrow>
      heap_inv h (tp # rest) A \<longrightarrow> prev = last (tp # rest) \<longrightarrow> ring (tp # rest) \<longrightarrow> ring_post A z", OF _ assms], goal_cases)
  case (1 ml units prev tp h z)
  show ?case
  proof (intro allI impI)
    fix rest A assume a: "units > 0" "heap_inv h (tp # rest) A" "prev = last (tp # rest)" "ring (tp # rest)"
    obtain h1 r1 where c: "coalesce tp h = Some h1" "heap_inv h1 (tp # r1) A" "ring (tp # r1)" "prev = last (tp # r1)"
      using coalesce_ring [OF a(2,4)] a(3) by auto
    consider (fits) "units \<le> f_size (h_mem h1) tp" | (grow) "\<not> units \<le> f_size (h_mem h1) tp" "tp = h_last h1"
      | (step) "\<not> units \<le> f_size (h_mem h1) tp" "tp \<noteq> h_last h1" by blast
    then show "ring_post A z"
    proof cases
      case fits
      then have "z = take_block units prev tp h1" using 1(2) c(1) by simp
      then show ?thesis using take_ring [OF c(2) a(1) fits c(4,3)] by (auto simp: ring_post_def)
    next
      case step
      then have z: "ml units tp (f_chain (h_mem h1) tp) h1 = Some z" using 1(2) c(1) by simp
      obtain y ys where r1: "r1 = y # ys" using step(2) c(2) by (cases r1) (auto simp: heap_inv_def)
      have nx: "f_chain (h_mem h1) tp = y" using c(2) cyc_next [of "f_chain (h_mem h1)" tp r1] r1 by (simp add: heap_inv_def)
      have "heap_inv h1 (y # ys @ [tp]) A" using heap_inv_rotate [of h1 "[tp]" "y # ys"] c(2) r1 by simp
      moreover have "ring (y # ys @ [tp])" using ring_rotate [of "[tp]" "y # ys"] c(3) r1 by simp
      moreover have "ml units tp y h1 = Some z" using z nx by simp
      ultimately show ?thesis using 1(1) [of units tp y h1 z, rule_format, of "ys @ [tp]" A] a(1) by simp
    next
      case grow
      obtain r h2 where s: "sbrk 1024 h1 = (r, h2)" by fastforce
      define g2 where "g2 = h2\<lparr>h_mem := set_chain r 0 (set_size r 256 (h_mem h2))\<rparr>"
      have un: "(if r = 0xFFFF then Some (0, h2) else
          Option.bind (free (r + 4) g2) (\<lambda>q. ml units (h_last (snd q)) (f_chain (h_mem (snd q)) (h_last (snd q))) (snd q))) = Some z"
        using 1(2) c(1) grow s grow_units by (simp add: g2_def Let_def cong: if_cong)
      show ?thesis
      proof (cases "r = 0xFFFF")
        case True
        then have "h2 = h1" using s by (auto simp: sbrk_def Let_def split: if_splits)
        then show ?thesis using un True c(2,3) by (auto simp: ring_post_def)
      next
        case False
        note gr = grow_ok [OF c(2) s False g2_def]
        obtain h3 t rs where f: "free (r + 4) g2 = Some (0, h3)" "heap_inv h3 (t # r # rs) (insert r A - {r})"
          "h_last h3 = t" "ring (t # r # rs)"
          using free_ring [OF gr(1) _ c(3), of r] by blast
        have iA: "insert r A - {r} = A" using gr(4) by blast
        have nx: "f_chain (h_mem h3) t = r" using f(2) cyc_next [of "f_chain (h_mem h3)" t "r # rs"] by (simp add: heap_inv_def)
        have "heap_inv h3 (r # rs @ [t]) A" using heap_inv_rotate [of h3 "[t]" "r # rs"] f(2) iA by simp
        moreover have "ring (r # rs @ [t])" using ring_rotate [of "[t]" "r # rs"] f(4) by simp
        moreover have "ml units t r h3 = Some z" using un False f(1,3) nx by simp
        ultimately show ?thesis using 1(1) [of units t r h3 z, rule_format, of "rs @ [t]" A] a(1) by simp
      qed
    qed
  qed
qed

lemma malloc_inv_ring:
  assumes inv: "heap_inv h C A" and rg: "ring C" and z: "malloc n h = Some z"
  shows "ring_post A z"
proof -
  have cy: "cyc (f_chain (h_mem h)) C" "h_last h \<in> set C" "blocks h (set C \<union> A)" using inv by (auto simp: heap_inv_def)
  obtain us vs where C: "C = us @ h_last h # vs" "cyc (f_chain (h_mem h)) (h_last h # vs @ us)"
    by (rule cyc_rotated [OF cy(1,2)])
  obtain tp rest where tp: "vs @ us @ [h_last h] = tp # rest" by (cases vs; cases us) auto
  have "heap_inv h (tp # rest) A" using heap_inv_rotate [of h "us @ [h_last h]" vs] inv C(1) tp by simp
  moreover have "ring (tp # rest)" using ring_rotate [of "us @ [h_last h]" vs] rg C(1) tp by simp
  moreover have "last (tp # rest) = h_last h" unfolding tp [symmetric] by simp
  moreover have "f_chain (h_mem h) (h_last h) = tp"
  proof -
    have "hd ((vs @ us) @ [h_last h]) = tp" using tp by simp
    then show ?thesis using cyc_next [OF C(2)] by simp
  qed
  moreover have "h_last h \<noteq> 0" using blocksD(4) [OF cy(3)] cy(2) by blast
  ultimately have i: "heap_inv h (tp # rest) A" "ring (tp # rest)" "h_last h = last (tp # rest)"
    and "malloc_loop (units_of n) (h_last h) tp h = Some z"
    using z by (simp_all add: malloc_def Let_def units_of_def)
  then show ?thesis using malloc_loop_ring [of "units_of n" "h_last h" tp h z] units_of_pos by blast
qed

section \<open>Heaps of a program\<close>

text \<open>What a program makes of a fresh heap: requests, releases of its blocks, stores into them.\<close>

inductive heap_run :: "heap \<Rightarrow> u16 set \<Rightarrow> bool" where
  start: "fresh h \<Longrightarrow> heap_run h {}"
| request: "heap_run h P \<Longrightarrow> malloc n h = Some (r, h') \<Longrightarrow> heap_run h' (if r = 0 then P else insert r P)"
| release: "heap_run h P \<Longrightarrow> p \<in> P \<Longrightarrow> free p h = Some (v, h') \<Longrightarrow> heap_run h' (P - {p})"
| put: "heap_run h P \<Longrightarrow> p \<in> P \<Longrightarrow> i < heap_cap h p \<Longrightarrow> heap_run (heap_put (p + of_nat i) b h) P"

lemma heap_run_ordered: "heap_run h P \<Longrightarrow> \<exists>C. heap_ok h C (headers_of P) \<and> ring C"
proof (induction rule: heap_run.induct)
  case (start h)
  then show ?case using ringI [of "[h_head h]" "[]"] by (auto simp: heap_ok_def)
next
  case (request h P n r h')
  then obtain C where ok: "heap_ok h C (headers_of P)" "ring C" by blast
  have post: "ring_post (headers_of P) (r, h')"
  proof (cases "heap_inv h C (headers_of P)")
    case True
    then show ?thesis using malloc_inv_ring ok(2) request.hyps(2) by blast
  next
    case False
    then have f: "fresh h" "C = [h_head h]" "headers_of P = {}" using ok(1) by (auto simp: heap_ok_def)
    define h1 where "h1 = h\<lparr>h_mem := set_chain (h_head h) (h_head h) (h_mem h), h_last := h_head h\<rparr>"
    have b: "blocks h {h_head h}" using f by (simp add: fresh_def)
    have b4: "unat (h_head h) + 4 \<le> 65536" using blocksD(5) [OF b] by simp
    have "blocks h1 {h_head h}" using blocks_sizes [OF b, of h1] header_same(3) [OF b4] by (simp add: h1_def)
    then have "heap_inv h1 [h_head h] {}"
      unfolding heap_inv_def using header_same(2) [OF b4] by (simp add: h1_def cyc_def)
    moreover have "malloc n h1 = Some (r, h')"
      using request.hyps(2) f(1) blocksD(4) [OF b, of "h_head h"] by (simp add: malloc_def fresh_def h1_def Let_def)
    ultimately show ?thesis using malloc_inv_ring [of h1 "[h_head h]" "{}"] ok(2) f by simp
  qed
  then obtain C' where C': "ring C'" "r = 0 \<and> heap_inv h' C' (headers_of P) \<or>
      (\<exists>p. r = p + 4 \<and> heap_inv h' C' (insert p (headers_of P)))" by (auto simp: ring_post_def)
  then show ?case
  proof (elim disjE conjE exE)
    fix p assume p: "r = p + 4" "heap_inv h' C' (insert p (headers_of P))"
    then have bl: "blocks h' (set C' \<union> insert p (headers_of P))" by (simp add: heap_inv_def)
    then have "unat (p + 4) = unat p + 4" using word_offset [of p 4] blocksD(5) [OF bl, of p] by simp
    then have "r \<noteq> 0" using p(1) by auto
    then show ?thesis using p C'(1) by (auto simp: heap_ok_def)
  qed (auto simp: heap_ok_def)
next
  case (release h P p v h')
  then obtain C where ok: "heap_ok h C (headers_of P)" "ring C" by blast
  have pA: "p - 4 \<in> headers_of P" using release.hyps(2) by simp
  have e: "headers_of (P - {p}) = headers_of P - {p - 4}" by auto
  obtain h2 C' where "free (p - 4 + 4) h = Some (0, h2)" "heap_inv h2 C' (headers_of P - {p - 4})" "ring C'"
    using free_ring [OF used_block(1) [OF ok(1) pA] pA ok(2)] by blast
  then show ?case using release.hyps(3) e by (auto simp: heap_ok_def)
next
  case (put h P p i b)
  then obtain C where ok: "heap_ok h C (headers_of P)" "ring C" by blast
  have pA: "p - 4 \<in> headers_of P" using put.hyps(2) by simp
  then show ?case using heap_put_kept(1) [OF ok(1) put.hyps(2,3) refl] ok(2) by (auto simp: heap_ok_def)
qed

text \<open>
  On a heap of a program, free blocks that lie side by side in memory are a run, and \<open>malloc\<close> uses them.
\<close>

lemma malloc_complete:
  assumes "heap_run h P" and inv: "heap_inv h C (headers_of P)" and xs: "xs \<noteq> []" "set xs \<subseteq> set C"
    and adj: "successively (\<lambda>x y. x \<noteq> y \<and> x + 4 * f_size (h_mem h) x = y) xs"
    and units: "unat (units_of n) \<le> run_units h xs"
  shows "\<exists>r h'. malloc n h = Some (r, h') \<and> r \<noteq> 0 \<and> h_memry h' = h_memry h"
proof -
  obtain D where D: "heap_ok h D (headers_of P)" "ring D" using heap_run_ordered [OF assms(1)] by blast
  have "ring C"
  proof (cases "heap_inv h D (headers_of P)")
    case True
    then show ?thesis using ring_unique [of "f_chain (h_mem h)" D C "h_head h"] inv D(2) by (auto simp: heap_inv_def)
  next
    case False
    then have "h_last h = 0" using D(1) by (auto simp: heap_ok_def fresh_def)
    then show ?thesis using inv blocksD(4) [of h "set C \<union> headers_of P" "h_last h"] by (auto simp: heap_inv_def)
  qed
  have less: "successively (\<lambda>x y. unat x < unat y) xs"
    by (rule successively_mono [OF adj]) (use run_link(2) [OF inv] xs(2) in blast)
  have "transp (\<lambda>x y. unat x < unat (y :: u16))" by (rule transpI) (rule less_trans)
  then have "sorted_wrt (\<lambda>x y. unat x < unat y) xs" using less successively_conv_sorted_wrt by blast
  then have "distinct xs" by (induction xs) auto
  moreover have "successively (\<lambda>x y. f_chain (h_mem h) x = y \<and> x + 4 * f_size (h_mem h) x = y) xs"
    by (rule successively_mono [OF adj]) (use neighbours_linked [OF inv \<open>ring C\<close>] xs(2) in blast)
  ultimately have "free_run h C xs" using xs by (simp add: free_run_def)
  from malloc_run [OF inv this units] show ?thesis .
qed

end
