(* ===== verification/Stream_Properties.thy ===== *)
theory Stream_Properties
  imports Library_Properties Aztec_Stream_Files Aztec_Realloc Aztec_Heap_Run
begin

text \<open>
  The properties of the storage allocator and of the buffered streams of the C library, which take
  their buffers from this allocator.
\<close>

section \<open>The allocator\<close>

text \<open>A program start: an empty heap behind the data, with the stack far above.\<close>

definition start_heap :: heap where
  "start_heap = \<lparr>h_mem = (\<lambda>a. 0), h_memry = 0x4000, h_sbot = 0xE000, h_head = 0x3000, h_last = 0\<rparr>"

lemma start_heap_good: "heap_good start_heap {}"
  unfolding heap_good_def heap_ok_def
  by (intro exI [of _ "[0x3000]"] disjI2) (simp add: fresh_def blocks_def extent_def start_heap_def f_size_def peek16_def)

lemma start_heap_empty: "represents heap_good heap_cap h_mem start_heap Map.empty"
  using start_heap_good by (simp add: represents_def)

text \<open>
  C13. The allocator implements a store of separate arrays: from every state that holds such a store,
  every call a program may make (a request below 65533 bytes, the release of an array, a store inside
  an array) returns, has a result the specification allows, and leads to a state that holds the
  store after the call. A new array never overlaps another, and no call of \<open>malloc\<close> or \<open>free\<close> changes a
  byte of an array in use.
\<close>

theorem heap_refines:
  assumes "represents heap_good heap_cap h_mem h M" and "legal M c"
  shows "\<exists>v h' M'. perform malloc free heap_put c h = Some (v, h') \<and> spec_step M c v M' \<and>
    represents heap_good heap_cap h_mem h' M'"
  using library_heap.step_refines [OF assms] .

theorem heap_refines_witness:
  "\<exists>v h' M'. perform malloc free heap_put (Malloc 100) start_heap = Some (v, h') \<and>
     spec_step Map.empty (Malloc 100) v M' \<and> represents heap_good heap_cap h_mem h' M'"
  by (rule heap_refines [OF start_heap_empty]) simp

text \<open>
  C14. \<open>malloc\<close> always returns, although its search goes around a circular list, joins blocks on the
  way and asks the system for more memory: with a new block of the size asked for that lies apart
  from all others, or with 0, and then less than 1024 bytes are left below the stack.
\<close>

theorem malloc_returns:
  assumes "heap_ok h C A"
  shows "\<exists>r h' C'. malloc n h = Some (r, h') \<and>
    (r = 0 \<and> heap_inv h' C' A \<and> unat (h_sbot h') < unat (h_memry h') + 1024 \<or>
     (\<exists>p. r = p + 4 \<and> p \<notin> A \<and> heap_inv h' C' (insert p A) \<and> f_size (h_mem h') p = (n + 3) div 4 + 1))"
  using malloc_ok [OF assms, of n] unfolding malloc_post_def units_of_def by blast

theorem malloc_returns_witness:
  "\<exists>r h' C'. malloc 60000 start_heap = Some (r, h') \<and>
    (r = 0 \<and> heap_inv h' C' {} \<and> unat (h_sbot h') < unat (h_memry h') + 1024 \<or>
     (\<exists>p. r = p + 4 \<and> p \<notin> {} \<and> heap_inv h' C' (insert p {}) \<and> f_size (h_mem h') p = (60000 + 3) div 4 + 1))"
proof (rule malloc_returns)
  show "heap_ok start_heap [0x3000] {}"
    by (simp add: heap_ok_def fresh_def blocks_def extent_def start_heap_def f_size_def peek16_def)
qed

text \<open>
  C35. \<open>malloc\<close> does not ask for memory it does not need: on every heap that requests, releases and stores
  of a program make of a fresh one, when free blocks that lie side by side in memory have room for the
  request together, it succeeds and the top of the heap stays where it was. No free block is lost and none
  stays apart from its neighbour.
\<close>

theorem malloc_reuses:
  assumes "heap_run h P" and "heap_inv h C (headers_of P)" and "xs \<noteq> []" and "set xs \<subseteq> set C"
    and "successively (\<lambda>x y. x \<noteq> y \<and> x + 4 * f_size (h_mem h) x = y) xs"
    and "unat ((n + 3) div 4 + 1) \<le> run_units h xs"
  shows "\<exists>r h'. malloc n h = Some (r, h') \<and> r \<noteq> 0 \<and> h_memry h' = h_memry h"
  by (rule malloc_complete [OF assms(1-5)]) (use assms(6) in \<open>simp add: units_of_def\<close>)

text \<open>A block requested of the fresh heap and given back: 26 units beside the 230 that were left of the growth.\<close>

definition run_heap :: heap where
  "run_heap = snd (the (Option.bind (malloc 100 start_heap) (\<lambda>(r, h). free r h)))"

lemma run_heap_run: "heap_run run_heap {}"
proof -
  have "map_option fst (malloc 100 start_heap) = Some 0x4004" by code_simp
  then obtain h where h: "malloc 100 start_heap = Some (0x4004, h)" by auto
  have "map_option fst (Option.bind (malloc 100 start_heap) (\<lambda>(r, h). free r h)) = Some 0" by code_simp
  then obtain h' where h': "free 0x4004 h = Some (0, h')" using h by auto
  have "heap_run start_heap {}"
    by (rule heap_run.start) (simp add: fresh_def blocks_def extent_def start_heap_def f_size_def peek16_def)
  from heap_run.request [OF this h] have "heap_run h {0x4004}" by simp
  from heap_run.release [OF this _ h'] show ?thesis using h h' by (simp add: run_heap_def)
qed

lemma run_heap_fields:
  "h_memry run_heap = 0x4400" "h_head run_heap = 0x3000" "h_last run_heap = 0x3000" "f_size (h_mem run_heap) 0x3000 = 0"
  "f_size (h_mem run_heap) 0x4000 = 26" "f_size (h_mem run_heap) 0x4068 = 230" "f_chain (h_mem run_heap) 0x3000 = 0x4000"
  "f_chain (h_mem run_heap) 0x4000 = 0x4068" "f_chain (h_mem run_heap) 0x4068 = 0x3000" "h_sbot run_heap = 0xE000"
proof -
  let ?r = "Option.bind (malloc 100 start_heap) (\<lambda>(r, h). free r h)"
  have "map_option (\<lambda>(_, h). (h_memry h, h_head h, h_last h, map (f_size (h_mem h)) [0x3000, 0x4000, 0x4068],
      map (f_chain (h_mem h)) [0x3000, 0x4000, 0x4068], h_sbot h)) ?r =
    Some (0x4400, 0x3000, 0x3000, [0, 26, 230], [0x4000, 0x4068, 0x3000], 0xE000)" by code_simp
  moreover from this obtain v where "?r = Some (v, run_heap)" by (auto simp: run_heap_def)
  ultimately show
    "h_memry run_heap = 0x4400" "h_head run_heap = 0x3000" "h_last run_heap = 0x3000" "f_size (h_mem run_heap) 0x3000 = 0"
    "f_size (h_mem run_heap) 0x4000 = 26" "f_size (h_mem run_heap) 0x4068 = 230" "f_chain (h_mem run_heap) 0x3000 = 0x4000"
    "f_chain (h_mem run_heap) 0x4000 = 0x4068" "f_chain (h_mem run_heap) 0x4068 = 0x3000" "h_sbot run_heap = 0xE000"
    by simp_all
qed

theorem malloc_reuses_witness: "\<exists>r h'. malloc 1000 run_heap = Some (r, h') \<and> r \<noteq> 0 \<and> h_memry h' = h_memry run_heap"
proof (rule malloc_reuses [OF run_heap_run])
  show "heap_inv run_heap [0x3000, 0x4000, 0x4068] (headers_of {})"
    by (simp add: heap_inv_def blocks_def extent_def cyc_def run_heap_fields)
  show "unat ((1000 + 3) div 4 + 1 :: u16) \<le> run_units run_heap [0x4000, 0x4068]"
    by (simp add: run_units_def run_heap_fields)
qed (simp_all add: run_heap_fields)

text \<open>A heap with one block of 100 bytes in use.\<close>

definition demo_heap :: heap where
  "demo_heap = \<lparr>h_mem = (\<lambda>a. 0)(0x3002 := 0, 0x3003 := 0x30, 0x4000 := 26), h_memry = 0x4068, h_sbot = 0xE000,
     h_head = 0x3000, h_last = 0x3000\<rparr>"

lemma demo_heap_good: "heap_good demo_heap {0x4004}" "heap_cap demo_heap 0x4004 = 100"
proof -
  have "le16 26 0 = 26" "le16 0 48 = 0x3000" by (simp_all add: le16_def)
  then have "heap_inv demo_heap [0x3000] {0x4000}"
    by (simp add: heap_inv_def blocks_def extent_def cyc_def demo_heap_def f_size_def f_chain_def peek16_def)
  then show "heap_good demo_heap {0x4004}" unfolding heap_good_def heap_ok_def by auto
  show "heap_cap demo_heap 0x4004 = 100"
    using \<open>le16 26 0 = 26\<close> by (simp add: heap_cap_def extent_def demo_heap_def f_size_def peek16_def)
qed

text \<open>
  \<open>realloc\<close> to a size the block already has room for returns the same block, keeps the data up to
  the new size and touches no other block.
\<close>

theorem realloc_shrinks:
  assumes "heap_good h P" and "p \<in> P" and "unat n \<le> heap_cap h p"
  shows "\<exists>h'. realloc p n h = Some (p, h') \<and> heap_good h' P \<and> unat n \<le> heap_cap h' p \<and>
    (\<forall>i < unat n. h_mem h' (p + of_nat i) = h_mem h (p + of_nat i)) \<and>
    (\<forall>q \<in> P - {p}. heap_cap h' q = heap_cap h q \<and> (\<forall>i < heap_cap h q. h_mem h' (q + of_nat i) = h_mem h (q + of_nat i)))"
  using realloc_in_place [OF assms] .

theorem realloc_shrinks_witness:
  "\<exists>h'. realloc 0x4004 50 demo_heap = Some (0x4004, h') \<and> heap_good h' {0x4004} \<and> 50 \<le> heap_cap h' 0x4004 \<and>
     (\<forall>i < 50. h_mem h' (0x4004 + of_nat i) = h_mem demo_heap (0x4004 + of_nat i))"
  using realloc_shrinks [OF demo_heap_good(1), of "0x4004" 50] demo_heap_good(2) by auto



text \<open>
  The proviso is needed: \<open>movmem\<close> moves a range to an overlapping lower place from its upper end
  downwards, so that the distance \<open>d\<close> becomes a period of the result and the data are lost; disjoint
  ranges are copied.
\<close>

theorem movmem_overlap:
  assumes "unat dst + d + unat len \<le> 65536" and "0 < d" and "0 < unat len" and "i < unat len"
  shows "movmem (dst + of_nat d) dst len m (dst + of_nat i) =
    (if i + d < unat len then movmem (dst + of_nat d) dst len m (dst + of_nat (i + d)) else m (dst + of_nat d + of_nat i))"
proof -
  have "unat (dst + of_nat d) = unat dst + d" by (rule word_offset) (use assms in linarith)
  then have "\<not> dst + of_nat d < dst" "dst + of_nat d \<noteq> dst" using assms(2) by (auto simp: word_less_nat_alt)
  moreover have "len \<noteq> 0" using assms(3) by auto
  ultimately have "movmem (dst + of_nat d) dst len m =
      uploop (unat len) (dst + of_nat d + of_nat (unat len)) (dst + of_nat (unat len)) m"
    by (simp add: movmem_def)
  then show ?thesis using uploop_smears [OF assms(1,2,4), of m] by (simp add: add.assoc add.commute [of "of_nat d"])
qed

theorem movmem_overlap_witness:
  "movmem (0x100 + of_nat 1) 0x100 2 (\<lambda>a. lo8 a) (0x100 + of_nat 0) =
   movmem (0x100 + of_nat 1) 0x100 2 (\<lambda>a. lo8 a) (0x100 + of_nat (0 + 1))"
  using movmem_overlap [of "0x100" 1 2 0 "\<lambda>a. lo8 a"] by simp

text \<open>
  \<open>calloc\<close> returns a new block of zeros and keeps all other blocks, as long as the product of its
  arguments does not wrap.
\<close>

theorem calloc_zeros:
  assumes "heap_good h P" and "unat nelem * unat sz \<le> 65532"
  shows "\<exists>r h'. calloc nelem sz h = Some (r, h') \<and>
    (r = 0 \<and> heap_good h' P \<or> r \<notin> P \<and> heap_good h' (insert r P) \<and> unat nelem * unat sz \<le> heap_cap h' r \<and>
       (\<forall>i < unat nelem * unat sz. h_mem h' (r + of_nat i) = 0)) \<and>
    (\<forall>p \<in> P. heap_cap h' p = heap_cap h p \<and> (\<forall>i < heap_cap h p. h_mem h' (p + of_nat i) = h_mem h (p + of_nat i)))"
  using calloc_ok [OF assms] .

theorem calloc_zeros_witness:
  "\<exists>r h'. calloc 10 20 demo_heap = Some (r, h') \<and>
     (r = 0 \<and> heap_good h' {0x4004} \<or> (\<forall>i < 200. h_mem h' (r + of_nat i) = 0))"
  using calloc_zeros [OF demo_heap_good(1), of 10 20] by auto

section \<open>Streams\<close>

text \<open>
  The buffers of the streams come from the allocator. A call that would not return is taken as one that
  fails; \<open>malloc\<close> returns on every heap.
\<close>

definition stream_malloc :: "nat \<Rightarrow> heap \<Rightarrow> (u16 \<times> bytes) option \<times> heap" where
  "stream_malloc n h =
     (case malloc (of_nat n) h of
        None \<Rightarrow> (None, h)
      | Some (r, h') \<Rightarrow> if r = 0 then (None, h') else (Some (r, map (\<lambda>i. h_mem h' (r + of_nat i)) [0..<n]), h'))"

definition stream_free :: "u16 \<Rightarrow> heap \<Rightarrow> heap" where
  "stream_free a h = (case free a h of None \<Rightarrow> h | Some (v, h') \<Rightarrow> h')"

lemma stream_malloc_good: "good_malloc stream_malloc"
  by (auto simp: good_malloc_def stream_malloc_def split: option.splits if_splits)

interpretation library_file: open_file store_bdos store_recs stream_malloc stream_free fd i m 0 for fd i m
  by unfold_locales (use store_files stream_malloc_good in auto)







end
