(* ===== verification/Aztec_Tiny.thy ===== *)
theory Aztec_Tiny
  imports Aztec_Stream_Files
begin

text \<open>
  The streams of the library for tiny programs, \<^verbatim>\<open>FOPEN.C\<close>, and the console functions of its start-up
  file \<^verbatim>\<open>CROOT.C\<close>. There are four streams, one buffer for all reading streams and one for the writing one.
  The control block and the user number of a stream are kept as an entry of the file table, so that
  the functions of \<^verbatim>\<open>BLKIO.ASM\<close> and \<^verbatim>\<open>USER.ASM\<close> apply to it.
\<close>

section \<open>Data\<close>

datatype tiny_ptr = Readbuf nat | Writbuf nat

record 'b tiny =
  t_bp :: "tiny_ptr option list"
  writbuf :: bytes
  readbuf :: bytes
  bufeof :: nat
  curread :: "nat option"
  writfp :: "nat option"
  t_lib :: "'b lib"

type_synonym ('a, 'b) tiny_out = "('a, 'b tiny) outcome"

section \<open>Opening and closing\<close>

definition tiny_fopen :: "'b bdos \<Rightarrow> bytes \<Rightarrow> u8 \<Rightarrow> 'b tiny \<Rightarrow> nat option \<times> 'b tiny" where
  "tiny_fopen B name mode t =
     (case first_index (\<lambda>p. p = None) (t_bp t) of
        None \<Rightarrow> (None, t\<lparr>t_lib := (t_lib t)\<lparr>errno := NFILE\<rparr>\<rparr>)
      | Some k \<Rightarrow>
          (case fcbinit (Some name) (ent_fcb (ent k (t_lib t))) of (u, f) \<Rightarrow>
           let l1 = set_fcb k f (t_lib t)
           in if u = - 1 then (None, t\<lparr>t_lib := l1\<lparr>errno := INVAL\<rparr>\<rparr>)
              else case (if u = 255 then getusr B l1 else (of_int u, l1)) of (usr, l2) \<Rightarrow>
                let l3 = setusr B usr (set_ent k ((ent k l2)\<lparr>user := usr\<rparr>) l2);
                    done = (\<lambda>l. let l' = rstusr B l; e = ent k l'
                                in set_ent k (e\<lparr>ent_fcb := (ent_fcb e)\<lparr>f_overfl := 0, f_record := 0\<rparr>\<rparr>) l')
                in if mode = 114
                   then (case call_fcb B OPNFIL k l3 of (r, l4) \<Rightarrow>
                         if r = 0xff then (None, t\<lparr>t_lib := rstusr B (l4\<lparr>errno := NOENT\<rparr>)\<rparr>)
                         else (Some k, t\<lparr>t_bp := (t_bp t)[k := Some (Readbuf 0)], curread := None, t_lib := done l4\<rparr>))
                   else if writfp t \<noteq> None then (None, t\<lparr>t_lib := l3\<rparr>)
                   else (case call_fcb B MAKFIL k (snd (call_fcb B DELFIL k l3)) of (r, l4) \<Rightarrow>
                         if r = 0xff then (None, t\<lparr>t_lib := rstusr B (l4\<lparr>errno := NOENT\<rparr>)\<rparr>)
                         else (Some k, t\<lparr>t_bp := (t_bp t)[k := Some (Writbuf 0)], writfp := Some k, t_lib := done l4\<rparr>))))"

function pad_record :: "nat \<Rightarrow> bytes \<Rightarrow> nat \<times> bytes" where
  "pad_record len buf = (if len mod 128 = 0 then (len, buf) else pad_record (len + 1) (buf[len := 0x1a]))"
  by auto
termination
proof (relation "measure (\<lambda>(len, buf). (128 - len mod 128) mod 128)")
  fix len :: nat and buf :: bytes
  assume "len mod 128 \<noteq> 0"
  then have "(128 - (len + 1) mod 128) mod 128 < (128 - len mod 128) mod 128"
    by (cases "len mod 128 = 127") (auto simp: mod_Suc)
  then show "((len + 1, buf[len := 0x1a]), len, buf) \<in> measure (\<lambda>(len, buf). (128 - len mod 128) mod 128)" by simp
qed simp

declare pad_record.simps [simp del]

definition tiny_flush :: "'b bdos \<Rightarrow> nat \<Rightarrow> 'b tiny \<Rightarrow> (int, 'b) tiny_out" where
  "tiny_flush B len t =
     (if length (writbuf t) < len then Fail (Undefined OutOfBounds) t
      else case pad_record len (writbuf t) of (len', buf) \<Rightarrow>
           let t1 = t\<lparr>writbuf := buf\<rparr>
           in case writfp t of
                None \<Rightarrow> Fail (Undefined NullPointer) t1
              | Some w \<Rightarrow>
                  let l1 = setusr B (user (ent w (t_lib t))) (t_lib t)
                  in if len' = 0 then Ok 0 (t1\<lparr>t_lib := rstusr B l1\<rparr>)
                     else case blkwr B w (len' div 128) buf l1 of (j, l2) \<Rightarrow>
                          Ok (if j \<noteq> 0 then - 1 else 0) (t1\<lparr>t_lib := rstusr B l2\<rparr>))"

definition tiny_fclose :: "'b bdos \<Rightarrow> nat \<Rightarrow> 'b tiny \<Rightarrow> (int, 'b) tiny_out" where
  "tiny_fclose B k t =
     bindo (if writfp t = Some k
            then (case t_bp t ! k of
                    Some (Writbuf q) \<Rightarrow> bindo (tiny_flush B q t) (\<lambda>err t1. Ok err (t1\<lparr>writfp := None\<rparr>))
                  | _ \<Rightarrow> Fail (Undefined OutOfBounds) t)
            else if curread t = Some k then Ok 0 (t\<lparr>curread := None\<rparr>) else Ok 0 t)
       (\<lambda>err t1.
          case call_fcb B CLSFIL k (setusr B (user (ent k (t_lib t1))) (t_lib t1)) of (r, l) \<Rightarrow>
          Ok (if r = 0xff then - 1 else err) (t1\<lparr>t_bp := (t_bp t1)[k := None], t_lib := rstusr B l\<rparr>))"

section \<open>Reading\<close>

text \<open>Up to eight records into the common buffer; the control block is set back to the first of them.\<close>

definition tiny_fill :: "'b bdos \<Rightarrow> nat \<Rightarrow> 'b tiny \<Rightarrow> bool \<times> 'b tiny" where
  "tiny_fill B k t =
     (let l1 = setusr B (user (ent k (t_lib t))) (t_lib t) in
      case blkrd B k 8 l1 of (n, dat, l2) \<Rightarrow>
      let j = 8 - n; t1 = t\<lparr>curread := None, readbuf := blit 0 dat (readbuf t)\<rparr>
      in if j = 0 then (False, t1\<lparr>t_lib := l2\<rparr>)
         else let l3 = rstusr B l2; f = ent_fcb (ent k l3)
              in (True, t1\<lparr>t_lib := set_fcb k (f\<lparr>f_record := f_record f - of_nat j\<rparr>) l3,
                       bufeof := 128 * j, curread := Some k\<rparr>))"

partial_function (option) tiny_next :: "'b bdos \<Rightarrow> nat \<Rightarrow> 'b tiny \<Rightarrow> (int, 'b) tiny_out option" where
  "tiny_next B k t =
     (case t_bp t ! k of
        Some (Readbuf q) \<Rightarrow>
          if q \<ge> bufeof t
          then let f = ent_fcb (ent k (t_lib t));
                   r = tiny_fill B k (t\<lparr>t_lib := set_fcb k (f\<lparr>f_record := f_record f + of_nat (bufeof t div 128)\<rparr>) (t_lib t),
                                    t_bp := (t_bp t)[k := Some (Readbuf 0)]\<rparr>)
               in if fst r then tiny_next B k (snd r) else Some (Ok (- 1) (snd r))
          else if q < length (readbuf t)
          then Some (Ok (uint (readbuf t ! q)) (t\<lparr>t_bp := (t_bp t)[k := Some (Readbuf (q + 1))]\<rparr>))
          else Some (Fail (Undefined OutOfBounds) t)
      | _ \<Rightarrow> Some (Fail (Undefined OutOfBounds) t))"

declare tiny_next.simps [code]

definition tiny_getc :: "'b bdos \<Rightarrow> nat \<Rightarrow> 'b tiny \<Rightarrow> (int, 'b) tiny_out option" where
  "tiny_getc B k t =
     (if curread t = Some k then tiny_next B k t
      else case tiny_fill B k t of (ok, t1) \<Rightarrow> if ok then tiny_next B k t1 else Some (Ok (- 1) t1))"

partial_function (option) tiny_agetc :: "'b bdos \<Rightarrow> nat \<Rightarrow> 'b tiny \<Rightarrow> (int, 'b) tiny_out option" where
  "tiny_agetc B k t =
     Option.bind (tiny_getc B k t) (\<lambda>r.
       case r of
         Fail e t1 \<Rightarrow> Some (Fail e t1)
       | Ok c t1 \<Rightarrow>
           if c = - 1 then Some (Ok (- 1) t1)
           else if c mod 128 = 0x1a
           then (case t_bp t1 ! k of
                   Some (Readbuf q) \<Rightarrow> Some (Ok (- 1) (t1\<lparr>t_bp := (t_bp t1)[k := Some (Readbuf (q - 1))]\<rparr>))
                 | _ \<Rightarrow> Some (Fail (Undefined OutOfBounds) t1))
           else if c mod 128 = 13 \<or> c mod 128 = 0 then tiny_agetc B k t1
           else Some (Ok (c mod 128) t1))"

declare tiny_agetc.simps [code]

section \<open>Writing\<close>

definition tiny_putc :: "'b bdos \<Rightarrow> u8 \<Rightarrow> nat \<Rightarrow> 'b tiny \<Rightarrow> (int, 'b) tiny_out" where
  "tiny_putc B c k t =
     (case t_bp t ! k of
        Some (Writbuf q) \<Rightarrow>
          if q \<ge> length (writbuf t) then Fail (Undefined OutOfBounds) t
          else let t1 = t\<lparr>writbuf := (writbuf t)[q := c], t_bp := (t_bp t)[k := Some (Writbuf (q + 1))]\<rparr>
               in if q + 1 \<ge> 1024
                  then bindo (tiny_flush B 1024 t1) (\<lambda>e t2.
                         if e \<noteq> 0 then Ok (- 1) t2
                         else Ok (uint c) (t2\<lparr>t_bp := (t_bp t2)[k := Some (Writbuf 0)]\<rparr>))
                  else Ok (uint c) t1
      | Some (Readbuf q) \<Rightarrow> Fail (Undefined OutOfBounds) t
      | None \<Rightarrow> Fail (Undefined NullPointer) t)"

definition tiny_aputc :: "'b bdos \<Rightarrow> u8 \<Rightarrow> nat \<Rightarrow> 'b tiny \<Rightarrow> (int, 'b) tiny_out" where
  "tiny_aputc B c k t =
     (let c' = c AND 127 in
      if c' = 10
      then bindo (tiny_putc B 13 k t) (\<lambda>r t1. if r = - 1 then Ok (- 1) t1 else tiny_putc B c' k t1)
      else tiny_putc B c' k t)"

section \<open>Console\<close>

definition croot_getchar :: "'b bdos \<Rightarrow> 'b \<Rightarrow> int \<times> 'b" where
  "croot_getchar B b =
     (case bd_char B 1 0 b of (c, b1) \<Rightarrow>
      if c = 13 then (10, snd (bd_char B 2 10 b1)) else if c = 0x1a then (- 1, b1) else (uint c, b1))"

definition croot_putchar :: "'b bdos \<Rightarrow> u16 \<Rightarrow> 'b \<Rightarrow> int \<times> 'b" where
  "croot_putchar B c b =
     (let b1 = (if c = 10 then snd (bd_char B 2 13 b) else b)
      in (uint (c AND 255), snd (bd_char B 2 c b1)))"

end
