(* ===== verification/Aztec_Tiny_Spec.thy ===== *)
theory Aztec_Tiny_Spec
  imports Aztec_Tiny
begin

text \<open>
  What the streams for tiny programs promise: the reading streams share one buffer and still deliver
  each its own file; the writing stream stores its bytes, padded to whole records.
\<close>

section \<open>Reading records\<close>

lemma blkrd_window:
  assumes B: "bdos_files B recs" and v: "file_at recs k l m x 0" and x: "unat x + 8 < 65536"
  shows "\<exists>j l'. j \<le> 8 \<and> blkrd B k 8 l = (8 - j, bytes_at m (128 * unat x) (128 * j), l') \<and>
    file_at recs k l' m (x + of_nat j) 0 \<and> present m (128 * unat x) (128 * j) \<and> (j < 8 \<longrightarrow> m (x + of_nat j) = None)"
proof -
  define Q where "Q = (\<lambda>t. t = 8 \<or> m (x + of_nat t) = None)"
  define j where "j = (LEAST t. Q t)"
  have q8: "Q 8" by (simp add: Q_def)
  have j: "Q j" "j \<le> 8" "\<And>t. t < j \<Longrightarrow> \<not> Q t"
    unfolding j_def by (rule LeastI [of Q, OF q8], rule Least_le [of Q, OF q8], rule not_less_Least)
  have here: "m (x + of_nat t) \<noteq> None" if "t < j" for t using j(3) [OF that] by (simp add: Q_def)
  have pr: "present m (128 * unat x) (128 * j)"
    unfolding present_def
  proof
    fix i assume "i \<in> set [0..<128 * j]"
    then have i: "i div 128 < j" "i div 128 < 8" using j(2) by auto
    have "(128 * unat x + i) div 128 = unat x + i div 128" by simp
    moreover have "of_nat (unat x + i div 128) = x + of_nat (i div 128)" by simp
    ultimately show "byte_at m (128 * unat x + i) \<noteq> None" using here [OF i(1)] by (simp add: byte_at_def del: of_nat_add)
  qed
  show ?thesis
  proof (cases "j = 8")
    case True
    have "present m (place x 0) (8 * 128)" using pr True by (simp add: place_def)
    from blkrd_bytes [OF B v x this] show ?thesis
      using True pr by (intro exI [of _ 8]) (auto simp: place_def)
  next
    case False
    then have lt: "j < 8" and miss: "m (x + of_nat j) = None" using j(1,2) by (auto simp: Q_def)
    have "present m (place x 0) (j * 128)" using pr by (simp add: place_def mult.commute)
    from blkrd_bytes_short [OF B v _ lt this miss] x lt obtain l' where
      "blkrd B k 8 l = (8 - j, bytes_at m (place x 0) (j * 128), l')" "file_at recs k l' m (x + of_nat j) 0" by auto
    then show ?thesis using lt miss pr by (intro exI [of _ j] exI [of _ l']) (auto simp: place_def mult.commute)
  qed
qed

text \<open>A read changes no file, and only the entry it is for.\<close>

definition quiet_reads :: "'b bdos \<Rightarrow> (fcb \<Rightarrow> 'b \<Rightarrow> u16 \<Rightarrow> bytes option) \<Rightarrow> bool" where
  "quiet_reads B recs \<longleftrightarrow> (\<forall>f b g. recs g (snd (snd (snd (bd_readrn B f b)))) = recs g b)"

definition same_files :: "(fcb \<Rightarrow> 'b \<Rightarrow> u16 \<Rightarrow> bytes option) \<Rightarrow> nat \<Rightarrow> 'b lib \<Rightarrow> 'b lib \<Rightarrow> bool" where
  "same_files recs k l l' \<longleftrightarrow>
     (\<forall>g. recs g (sys l') = recs g (sys l)) \<and> (\<forall>i. i \<noteq> k \<longrightarrow> ent i l' = ent i l) \<and>
     length (fcbtab l') = length (fcbtab l) \<and> Wrkbuf l' = Wrkbuf l \<and> Wfp l' = Wfp l \<and> Wsct l' = Wsct l"

lemma same_files_refl [simp]: "same_files recs k l l"
  by (simp add: same_files_def)

lemma same_files_trans: "same_files recs k l l1 \<Longrightarrow> same_files recs k l1 l2 \<Longrightarrow> same_files recs k l l2"
  by (simp add: same_files_def)

lemma same_files_at: "same_files recs k l l' \<Longrightarrow> i \<noteq> k \<Longrightarrow> file_at recs i l m x off \<Longrightarrow> file_at recs i l' m x off"
  by (simp add: same_files_def file_at_def)

lemma ent_set_other: "i \<noteq> k \<Longrightarrow> ent i (set_fcb k f l) = ent i l" "i \<noteq> k \<Longrightarrow> ent i (set_ent k e l) = ent i l"
  by (simp_all add: ent_def set_fcb_def set_ent_def)

lemma same_files_fcb: "same_files recs k l (set_fcb k f l)"
  by (simp add: same_files_def ent_set_other file_simps)

lemma same_files_user:
  assumes "bdos_files B recs"
  shows "same_files recs k l (setusr B u l)" "same_files recs k l (rstusr B l)"
proof -
  obtain old b where b: "bd_user B 255 (sys l) = (old, b)" by fastforce
  have "recs g b = recs g (sys l)" for g using bdos_filesD(3) [OF assms, of g 255 "sys l"] b by simp
  then show "same_files recs k l (setusr B u l)"
    using b bdos_filesD(3) [OF assms] by (simp add: same_files_def setusr_def Let_def ent_def)
  show "same_files recs k l (rstusr B l)" using bdos_filesD(3) [OF assms] by (simp add: same_files_def rstusr_def ent_def)
qed

lemma same_files_blkrd:
  assumes "quiet_reads B recs"
  shows "same_files recs k l (snd (snd (blkrd B k n l)))"
proof (induction n arbitrary: l)
  case (Suc n)
  obtain r d f b where r: "bd_readrn B (ent_fcb (ent k l)) (sys l) = (r, d, f, b)" by (metis prod_cases4)
  define l1 where "l1 = (set_fcb k f l)\<lparr>sys := b\<rparr>"
  have "recs g b = recs g (sys l)" for g using assms r unfolding quiet_reads_def by (metis snd_conv)
  then have s1: "same_files recs k l l1" by (simp add: same_files_def l1_def ent_set_other file_simps)
  have "same_files recs k l1 (next_record k l1)" by (simp add: next_record_def Let_def same_files_fcb)
  then have "same_files recs k l (snd (snd (blkrd B k n (next_record k l1))))"
    using same_files_trans [OF s1] same_files_trans Suc.IH by blast
  moreover have "same_files recs k l (l1\<lparr>errno := e\<rparr>)" for e
    using s1 by (simp add: same_files_def ent_def)
  moreover obtain j ds l2 where "blkrd B k n (next_record k l1) = (j, ds, l2)" by (metis prod_cases3)
  ultimately show ?case using r s1 by (simp add: l1_def [symmetric] Let_def)
qed simp

section \<open>Reading streams\<close>

definition tiny_reader ::
  "(fcb \<Rightarrow> 'b \<Rightarrow> u16 \<Rightarrow> bytes option) \<Rightarrow> nat \<Rightarrow> 'b tiny \<Rightarrow> (u16 \<Rightarrow> bytes option) \<Rightarrow> nat \<Rightarrow> bool" where
  "tiny_reader recs k t m pos \<longleftrightarrow> k < length (t_bp t) \<and> length (readbuf t) = 1024 \<and>
     (\<exists>x q. t_bp t ! k = Some (Readbuf q) \<and> file_at recs k (t_lib t) m x 0 \<and> pos = 128 * unat x + q \<and>
        q \<le> 1024 \<and> present m (128 * unat x) q \<and>
        (curread t = Some k \<longrightarrow> (\<exists>j. 0 < j \<and> j \<le> 8 \<and> bufeof t = 128 * j \<and> q \<le> 128 * j \<and>
           present m (128 * unat x) (128 * j) \<and> take (128 * j) (readbuf t) = bytes_at m (128 * unat x) (128 * j))))"

definition others_kept :: "(fcb \<Rightarrow> 'b \<Rightarrow> u16 \<Rightarrow> bytes option) \<Rightarrow> nat \<Rightarrow> 'b tiny \<Rightarrow> 'b tiny \<Rightarrow> bool" where
  "others_kept recs k t t' \<longleftrightarrow>
     same_files recs k (t_lib t) (t_lib t') \<and> length (t_bp t') = length (t_bp t) \<and>
     length (readbuf t') = length (readbuf t) \<and> (\<forall>i. i \<noteq> k \<longrightarrow> t_bp t' ! i = t_bp t ! i \<and> curread t' \<noteq> Some i)"

lemma others_kept_reader:
  "others_kept recs k t t' \<Longrightarrow> i \<noteq> k \<Longrightarrow> tiny_reader recs i t m pos \<Longrightarrow> tiny_reader recs i t' m pos"
  unfolding tiny_reader_def others_kept_def by (metis same_files_at)

lemma others_kept_trans: "others_kept recs k t t1 \<Longrightarrow> others_kept recs k t1 t2 \<Longrightarrow> others_kept recs k t t2"
  unfolding others_kept_def using same_files_trans by (metis (no_types, lifting))

lemma file_at_fcb:
  assumes "bdos_files B recs" "file_at recs k l m x 0"
  shows "file_at recs k (set_fcb k ((ent_fcb (ent k l))\<lparr>f_record := y\<rparr>) l) m y 0"
  using assms bdos_filesD(1) [OF assms(1)] by (auto simp: file_at_def file_simps)

lemma tiny_fill_ok:
  assumes B: "bdos_files B recs" and Q: "quiet_reads B recs"
    and t: "k < length (t_bp t)" "length (readbuf t) = 1024" "t_bp t ! k = Some (Readbuf q)"
    and v: "file_at recs k (t_lib t) m x 0" and x: "unat x + 8 < 65536" and q: "q \<le> 1024" "present m (128 * unat x) q"
  shows "if m x = None then \<exists>t'. tiny_fill B k t = (False, t') \<and> tiny_reader recs k t' m (128 * unat x + q) \<and> others_kept recs k t t'
    else \<exists>t'. tiny_fill B k t = (True, t') \<and> tiny_reader recs k t' m (128 * unat x + q) \<and> others_kept recs k t t' \<and>
           curread t' = Some k \<and> t_bp t' = t_bp t"
proof -
  define l1 where "l1 = setusr B (user (ent k (t_lib t))) (t_lib t)"
  have v1: "file_at recs k l1 m x 0" using file_at_user(1) [OF B v] by (simp add: l1_def)
  obtain j l2 where r: "j \<le> 8" "blkrd B k 8 l1 = (8 - j, bytes_at m (128 * unat x) (128 * j), l2)"
    "file_at recs k l2 m (x + of_nat j) 0" "present m (128 * unat x) (128 * j)" "j < 8 \<longrightarrow> m (x + of_nat j) = None"
    using blkrd_window [OF B v1 x] by blast
  have s2: "same_files recs k (t_lib t) l2"
    using same_files_trans [OF same_files_user(1) [OF B, of k "t_lib t" "user (ent k (t_lib t))", folded l1_def]
      same_files_blkrd [OF Q, of k l1 8]] r(2) by simp
  define rb where "rb = blit 0 (bytes_at m (128 * unat x) (128 * j)) (readbuf t)"
  have rb: "length rb = 1024" "take (128 * j) rb = bytes_at m (128 * unat x) (128 * j)"
    using t(2) r(1) by (simp_all add: rb_def blit_def)
  have j0: "m x = None \<longleftrightarrow> j = 0"
  proof
    assume "m x = None"
    show "j = 0"
    proof (rule ccontr)
      assume "j \<noteq> 0"
      then have "0 \<in> set [0..<128 * j]" by auto
      then have "byte_at m (128 * unat x + 0) \<noteq> None" using r(4) unfolding present_def by blast
      then show False using \<open>m x = None\<close> by (simp add: byte_at_def)
    qed
  qed (use r(5) in simp)
  have qj: "q \<le> 128 * j"
  proof (rule ccontr)
    assume "\<not> q \<le> 128 * j"
    then have "byte_at m (128 * unat x + 128 * j) \<noteq> None" "j < 8" using q unfolding present_def by auto
    moreover have "(128 * unat x + 128 * j) div 128 = unat x + j" by simp
    moreover have "of_nat (unat x + j) = x + of_nat j" by simp
    ultimately show False using r(5) by (simp add: byte_at_def del: of_nat_add)
  qed
  show ?thesis
  proof (cases "j = 0")
    case True
    define t' where "t' = t\<lparr>curread := None, readbuf := rb, t_lib := l2\<rparr>"
    have "tiny_fill B k t = (False, t')" using r(2) True by (simp add: tiny_fill_def l1_def Let_def t'_def rb_def)
    moreover have "tiny_reader recs k t' m (128 * unat x + q)"
      using t r(3) True q rb(1) unfolding tiny_reader_def t'_def by auto
    moreover have "others_kept recs k t t'" using s2 t(2) rb(1) by (simp add: others_kept_def t'_def)
    ultimately show ?thesis using j0 True by auto
  next
    case False
    define l3 where "l3 = rstusr B l2"
    define f where "f = ent_fcb (ent k l3)"
    define l4 where "l4 = set_fcb k (f\<lparr>f_record := f_record f - of_nat j\<rparr>) l3"
    define t' where "t' = t\<lparr>curread := Some k, readbuf := rb, t_lib := l4, bufeof := 128 * j\<rparr>"
    have v3: "file_at recs k l3 m (x + of_nat j) 0" using file_at_user(2) [OF B r(3)] by (simp add: l3_def)
    have "f_record f = x + of_nat j" using v3 by (simp add: file_at_def f_def)
    then have v4: "file_at recs k l4 m x 0" using file_at_fcb [OF B v3, of x] by (simp add: l4_def f_def)
    have j8: "8 - (8 - j) = j" using r(1) by simp
    have "tiny_fill B k t = (True, t')"
      unfolding tiny_fill_def Let_def l1_def [symmetric] r(2) prod.case j8
      using False by (simp add: t'_def rb_def l4_def f_def l3_def)
    moreover have "tiny_reader recs k t' m (128 * unat x + q)"
      unfolding tiny_reader_def using t v4 q rb qj r(1,4) False
      by (intro conjI exI [of _ x] exI [of _ q]) (auto simp: t'_def intro!: exI [of _ j])
    moreover have "others_kept recs k t t'"
      using same_files_trans [OF s2 same_files_trans [OF same_files_user(2) [OF B] same_files_fcb]] t(2) rb(1)
      by (simp add: others_kept_def t'_def l4_def l3_def f_def)
    ultimately show ?thesis using j0 False by (auto simp: t'_def)
  qed
qed

lemma bytes_at_nth: "i < n \<Longrightarrow> present m p n \<Longrightarrow> byte_at m (p + i) = Some (bytes_at m p n ! i)"
  by (auto simp: present_def bytes_at_def)

lemma byte_at_start: "byte_at m (128 * unat x) = None \<longleftrightarrow> m x = None"
  by (simp add: byte_at_def)

text \<open>The byte at the position, or the end of the file, from the position on.\<close>

definition tiny_gives ::
  "'b bdos \<Rightarrow> (fcb \<Rightarrow> 'b \<Rightarrow> u16 \<Rightarrow> bytes option) \<Rightarrow> nat \<Rightarrow> 'b tiny \<Rightarrow> (u16 \<Rightarrow> bytes option) \<Rightarrow> nat \<Rightarrow>
   (int, 'b) tiny_out option \<Rightarrow> bool" where
  "tiny_gives B recs k t m pos res \<longleftrightarrow>
     (case byte_at m pos of
        None \<Rightarrow> \<exists>t'. res = Some (Ok (- 1) t') \<and> tiny_reader recs k t' m pos \<and> others_kept recs k t t'
      | Some c \<Rightarrow> \<exists>t'. res = Some (Ok (uint c) t') \<and> tiny_reader recs k t' m (pos + 1) \<and> others_kept recs k t t')"

lemma tiny_gives_trans:
  "others_kept recs k t t1 \<Longrightarrow> tiny_gives B recs k t1 m pos res \<Longrightarrow> tiny_gives B recs k t m pos res"
  unfolding tiny_gives_def using others_kept_trans by (auto split: option.splits) blast+

lemma tiny_take_ok:
  assumes r: "tiny_reader recs k t m pos" "curread t = Some k" and q: "t_bp t ! k = Some (Readbuf q)" "q < bufeof t"
  shows "tiny_gives B recs k t m pos (tiny_next B k t)"
proof -
  obtain x j where v: "file_at recs k (t_lib t) m x 0" "pos = 128 * unat x + q" "j \<le> 8" "0 < j" "bufeof t = 128 * j"
    "present m (128 * unat x) (128 * j)" "take (128 * j) (readbuf t) = bytes_at m (128 * unat x) (128 * j)"
    "k < length (t_bp t)" "length (readbuf t) = 1024"
    using r q(1) unfolding tiny_reader_def by auto
  have qj: "q < 128 * j" "q < 1024" using q(2) v(3,5) by auto
  have "readbuf t ! q = bytes_at m (128 * unat x) (128 * j) ! q" using v(7) nth_take [OF qj(1), of "readbuf t"] by simp
  then have bt: "byte_at m pos = Some (readbuf t ! q)" using bytes_at_nth [OF qj(1) v(6)] v(2) by simp
  define t' where "t' = t\<lparr>t_bp := (t_bp t)[k := Some (Readbuf (q + 1))]\<rparr>"
  have "tiny_next B k t = Some (Ok (uint (readbuf t ! q)) t')"
    using q qj(2) v(9) by (subst tiny_next.simps) (simp add: t'_def)
  moreover have "present m (128 * unat x) (q + 1)" using v(6) qj(1) by (auto simp: present_def)
  then have "tiny_reader recs k t' m (pos + 1)"
    unfolding tiny_reader_def t'_def using v qj r(2) by (auto intro!: exI [of _ x] exI [of _ "q + 1"] exI [of _ j])
  moreover have "others_kept recs k t t'" using r(2) by (simp add: others_kept_def t'_def)
  ultimately show ?thesis using bt by (simp add: tiny_gives_def)
qed

lemma tiny_next_ok:
  assumes B: "bdos_files B recs" "quiet_reads B recs" and r: "tiny_reader recs k t m pos" "curread t = Some k"
    and b: "pos + 1024 < 8388480"
  shows "tiny_gives B recs k t m pos (tiny_next B k t)"
proof -
  obtain x q j where v: "t_bp t ! k = Some (Readbuf q)" "file_at recs k (t_lib t) m x 0" "pos = 128 * unat x + q"
    "j \<le> 8" "0 < j" "bufeof t = 128 * j" "q \<le> 128 * j" "k < length (t_bp t)" "length (readbuf t) = 1024"
    using r unfolding tiny_reader_def by auto
  show ?thesis
  proof (cases "q < bufeof t")
    case True
    then show ?thesis using tiny_take_ok [OF r v(1)] by blast
  next
    case False
    then have qj: "q = 128 * j" using v(6,7) by simp
    define f where "f = ent_fcb (ent k (t_lib t))"
    define t0 where "t0 = t\<lparr>t_lib := set_fcb k (f\<lparr>f_record := f_record f + of_nat (bufeof t div 128)\<rparr>) (t_lib t),
        t_bp := (t_bp t)[k := Some (Readbuf 0)]\<rparr>"
    have ux: "unat (x + of_nat j) = unat x + j" using b v(3,4) qj by (simp add: unat_succ)
    have "f_record f + of_nat (bufeof t div 128) = x + of_nat j" using v(2,6) by (simp add: f_def file_at_def)
    then have v0: "file_at recs k (t_lib t0) m (x + of_nat j) 0"
      using file_at_fcb [OF B(1) v(2), of "x + of_nat j"] by (simp add: t0_def f_def)
    have o0: "others_kept recs k t t0" using same_files_fcb r(2) by (auto simp: others_kept_def t0_def)
    have b0: "t_bp t0 ! k = Some (Readbuf 0)" "k < length (t_bp t0)" "length (readbuf t0) = 1024"
      using v(8,9) by (simp_all add: t0_def)
    have pos: "pos = 128 * unat (x + of_nat j) + 0" using v(3) qj ux by simp
    have st: "tiny_next B k t = (if fst (tiny_fill B k t0) then tiny_next B k (snd (tiny_fill B k t0))
        else Some (Ok (- 1) (snd (tiny_fill B k t0))))"
      using v(1) False by (subst tiny_next.simps) (simp add: t0_def f_def Let_def)
    have x8: "unat (x + of_nat j) + 8 < 65536" using pos b by simp
    note fl = tiny_fill_ok [OF B b0(2,3,1) v0 x8, of, unfolded present_def, simplified, folded present_def]
    show ?thesis
    proof (cases "m (x + of_nat j) = None")
      case True
      then obtain t1 where t1: "tiny_fill B k t0 = (False, t1)" "tiny_reader recs k t1 m pos" "others_kept recs k t0 t1"
        using fl pos by auto
      have "byte_at m pos = None" using True pos byte_at_start [of m "x + of_nat j"] by simp
      then show ?thesis using t1 st others_kept_trans [OF o0 t1(3)] by (simp add: tiny_gives_def)
    next
      case False
      then obtain t1 where t1: "tiny_fill B k t0 = (True, t1)" "tiny_reader recs k t1 m pos" "others_kept recs k t0 t1"
        "curread t1 = Some k" "t_bp t1 = t_bp t0"
        using fl pos by auto
      have "0 < bufeof t1" using t1(2,4) by (auto simp: tiny_reader_def)
      then have "tiny_gives B recs k t1 m pos (tiny_next B k t1)"
        using tiny_take_ok [OF t1(2,4), of 0] b0(1) t1(5) by simp
      then show ?thesis using st t1(1) tiny_gives_trans [OF others_kept_trans [OF o0 t1(3)]] by simp
    qed
  qed
qed

lemma tiny_getc_ok:
  assumes B: "bdos_files B recs" "quiet_reads B recs" and r: "tiny_reader recs k t m pos" and b: "pos + 1024 < 8388480"
  shows "tiny_gives B recs k t m pos (tiny_getc B k t)"
proof (cases "curread t = Some k")
  case True
  then show ?thesis using tiny_next_ok [OF B r True b] by (simp add: tiny_getc_def)
next
  case False
  obtain x q where v: "t_bp t ! k = Some (Readbuf q)" "file_at recs k (t_lib t) m x 0" "pos = 128 * unat x + q"
    "q \<le> 1024" "present m (128 * unat x) q" "k < length (t_bp t)" "length (readbuf t) = 1024"
    using r unfolding tiny_reader_def by auto
  have x8: "unat x + 8 < 65536" using b v(3) by simp
  note fl = tiny_fill_ok [OF B v(6,7,1,2) x8 v(4,5), folded v(3)]
  show ?thesis
  proof (cases "m x = None")
    case True
    then obtain t1 where t1: "tiny_fill B k t = (False, t1)" "tiny_reader recs k t1 m pos" "others_kept recs k t t1"
      using fl by auto
    have "q = 0"
    proof (rule ccontr)
      assume "q \<noteq> 0"
      then have "0 \<in> set [0..<q]" by auto
      then have "byte_at m (128 * unat x + 0) \<noteq> None" using v(5) unfolding present_def by blast
      then show False using True byte_at_start [of m x] by simp
    qed
    then have "byte_at m pos = None" using True v(3) byte_at_start [of m x] by simp
    then show ?thesis using False t1 by (simp add: tiny_getc_def tiny_gives_def)
  next
    case x: False
    then obtain t1 where t1: "tiny_fill B k t = (True, t1)" "tiny_reader recs k t1 m pos" "others_kept recs k t t1"
      "curread t1 = Some k" using fl by auto
    then show ?thesis using False tiny_gives_trans [OF t1(3) tiny_next_ok [OF B t1(2,4) b]] by (simp add: tiny_getc_def)
  qed
qed

section \<open>Several readers\<close>

text \<open>A program reads characters of several streams in any order.\<close>

fun tiny_run :: "'b bdos \<Rightarrow> nat list \<Rightarrow> 'b tiny \<Rightarrow> (int list \<times> 'b tiny) option" where
  "tiny_run B [] t = Some ([], t)"
| "tiny_run B (k # ks) t =
     (case tiny_getc B k t of
        Some (Ok c t1) \<Rightarrow> map_option (apfst ((#) c)) (tiny_run B ks t1)
      | _ \<Rightarrow> None)"

text \<open>What each stream should deliver: the bytes of its own file from its own position on.\<close>

fun spec_run :: "(nat \<Rightarrow> u16 \<Rightarrow> bytes option) \<Rightarrow> (nat \<Rightarrow> nat) \<Rightarrow> nat list \<Rightarrow> int list" where
  "spec_run M P [] = []"
| "spec_run M P (k # ks) =
     (case byte_at (M k) (P k) of
        None \<Rightarrow> - 1 # spec_run M P ks
      | Some c \<Rightarrow> uint c # spec_run M (P(k := P k + 1)) ks)"

lemma tiny_run_spec:
  assumes B: "bdos_files B recs" "quiet_reads B recs"
  shows "\<forall>k \<in> S. tiny_reader recs k t (M k) (P k) \<and> P k + length ks + 1024 < 8388480 \<Longrightarrow> set ks \<subseteq> S \<Longrightarrow>
    \<exists>t'. tiny_run B ks t = Some (spec_run M P ks, t')"
proof (induction ks arbitrary: t P)
  case (Cons k ks)
  have k: "k \<in> S" "tiny_reader recs k t (M k) (P k)" "P k + 1024 < 8388480" using Cons.prems by auto
  have gv: "tiny_gives B recs k t (M k) (P k) (tiny_getc B k t)" by (rule tiny_getc_ok [OF B k(2,3)])
  show ?case
  proof (cases "byte_at (M k) (P k)")
    case None
    then obtain t' where t': "tiny_getc B k t = Some (Ok (- 1) t')" "tiny_reader recs k t' (M k) (P k)" "others_kept recs k t t'"
      using gv by (auto simp: tiny_gives_def)
    have "\<forall>i \<in> S. tiny_reader recs i t' (M i) (P i) \<and> P i + length ks + 1024 < 8388480"
    proof
      fix i assume "i \<in> S"
      then show "tiny_reader recs i t' (M i) (P i) \<and> P i + length ks + 1024 < 8388480"
        using Cons.prems(1) t'(2) others_kept_reader [OF t'(3)] by (cases "i = k") auto
    qed
    then show ?thesis using Cons.IH [of t' P] Cons.prems(2) t'(1) None by auto
  next
    case (Some c)
    then obtain t' where t': "tiny_getc B k t = Some (Ok (uint c) t')" "tiny_reader recs k t' (M k) (P k + 1)"
      "others_kept recs k t t'"
      using gv by (auto simp: tiny_gives_def)
    define P' where "P' = P(k := P k + 1)"
    have "\<forall>i \<in> S. tiny_reader recs i t' (M i) (P' i) \<and> P' i + length ks + 1024 < 8388480"
    proof
      fix i assume "i \<in> S"
      then show "tiny_reader recs i t' (M i) (P' i) \<and> P' i + length ks + 1024 < 8388480"
        using Cons.prems(1) t'(2) others_kept_reader [OF t'(3)] by (cases "i = k") (auto simp: P'_def)
    qed
    then obtain t2 where "tiny_run B ks t' = Some (spec_run M P' ks, t2)" using Cons.IH Cons.prems(2) by force
    then show ?thesis using t'(1) Some unfolding spec_run.simps Some option.case P'_def [symmetric] by simp
  qed
qed simp

section \<open>Writing\<close>

definition tiny_writer ::
  "(fcb \<Rightarrow> 'b \<Rightarrow> u16 \<Rightarrow> bytes option) \<Rightarrow> nat \<Rightarrow> 'b tiny \<Rightarrow> (u16 \<Rightarrow> bytes option) \<Rightarrow> nat \<Rightarrow> bytes \<Rightarrow> bool" where
  "tiny_writer recs k t m p bs \<longleftrightarrow>
     k < length (t_bp t) \<and> length (writbuf t) = 1024 \<and> writfp t = Some k \<and>
     (\<exists>x q m'. t_bp t ! k = Some (Writbuf q) \<and> q < 1024 \<and> q \<le> length bs \<and> Wfp (t_lib t) = None \<and>
        file_at recs k (t_lib t) m' x 0 \<and> wrote m p (take (length bs - q) bs) m' \<and>
        128 * unat x = p + (length bs - q) \<and> take q (writbuf t) = drop (length bs - q) bs)"

definition round_up :: "nat \<Rightarrow> nat" where
  "round_up n = (n + 127) div 128 * 128"

lemma round_up_bounds: "n \<le> round_up n" "round_up n < n + 128" "round_up n mod 128 = 0"
  unfolding round_up_def by auto

lemma pad_record_eq:
  "round_up len \<le> length buf \<Longrightarrow>
   pad_record len buf = (round_up len, take len buf @ replicate (round_up len - len) 0x1a @ drop (round_up len) buf)"
proof (induction len buf rule: pad_record.induct)
  case (1 len buf)
  show ?case
  proof (cases "len mod 128 = 0")
    case True
    then have "round_up len = len" by (auto simp: round_up_def)
    then show ?thesis using True by (subst pad_record.simps) simp
  next
    case False
    then have r: "round_up (len + 1) = round_up len" "len < round_up len"
    proof -
      show "len < round_up len" using round_up_bounds(1,3) [of len] False by (metis le_neq_implies_less)
      then show "round_up (len + 1) = round_up len" using round_up_bounds [of len] unfolding round_up_def by auto
    qed
    have "pad_record len buf = pad_record (len + 1) (buf[len := 0x1a])" using False by (subst pad_record.simps) simp
    also have "\<dots> = (round_up len, take (len + 1) (buf[len := 0x1a]) @ replicate (round_up len - (len + 1)) 0x1a @
        drop (round_up len) (buf[len := 0x1a]))"
      using "1.IH" [OF False] "1.prems" r by simp
    also have "take (len + 1) (buf[len := 0x1a]) = take len buf @ [0x1a]"
      using r(2) "1.prems" by (simp add: take_Suc_conv_app_nth)
    also have "drop (round_up len) (buf[len := 0x1a]) = drop (round_up len) buf" using r(2) by simp
    also have "(take len buf @ [0x1a]) @ replicate (round_up len - (len + 1)) 0x1a @ drop (round_up len) buf =
        take len buf @ replicate (round_up len - len) 0x1a @ drop (round_up len) buf"
      using r(2) by (cases "round_up len - len") (simp_all add: Suc_diff_Suc)
    finally show ?thesis .
  qed
qed

lemma tiny_flush_ok:
  assumes B: "bdos_files B recs" and t: "writfp t = Some k" "length (writbuf t) = 1024" "Wfp (t_lib t) = None" "n \<le> 1024"
    and v: "file_at recs k (t_lib t) m x 0" and b: "128 * unat x + 1024 < 8388480"
  shows "\<exists>l' m' x'. tiny_flush B n t = Ok 0 (t\<lparr>writbuf := take n (writbuf t) @ replicate (round_up n - n) 0x1a @ drop (round_up n) (writbuf t),
      t_lib := l'\<rparr>) \<and> Wfp l' = None \<and> file_at recs k l' m' x' 0 \<and> 128 * unat x' = 128 * unat x + round_up n \<and>
    wrote m (128 * unat x) (take n (writbuf t) @ replicate (round_up n - n) 0x1a) m'"
proof -
  have ru: "n \<le> round_up n" "round_up n \<le> 1024" "round_up n mod 128 = 0"
    using round_up_bounds [of n] t(4) unfolding round_up_def by auto
  define buf where "buf = take n (writbuf t) @ replicate (round_up n - n) 0x1a @ drop (round_up n) (writbuf t)"
  have pd: "pad_record n (writbuf t) = (round_up n, buf)" using pad_record_eq [of n "writbuf t"] ru t(2) by (simp add: buf_def)
  have tk: "take (round_up n) buf = take n (writbuf t) @ replicate (round_up n - n) 0x1a" "length buf = 1024"
    using ru t(2,4) by (simp_all add: buf_def)
  define l1 where "l1 = setusr B (user (ent k (t_lib t))) (t_lib t)"
  have v1: "file_at recs k l1 m x 0" "Wfp l1 = None" using file_at_user(1,3) [OF B v] t(3) by (simp_all add: l1_def)
  show ?thesis
  proof (cases "round_up n = 0")
    case True
    then have "n = 0" using ru by simp
    then have "tiny_flush B n t = Ok 0 (t\<lparr>writbuf := buf, t_lib := rstusr B l1\<rparr>)"
      using t pd True by (simp add: tiny_flush_def Let_def l1_def)
    moreover have "file_at recs k (rstusr B l1) m x 0" "Wfp (rstusr B l1) = None"
      using file_at_user(2) [OF B v1(1)] v1(2) by (simp_all add: rstusr_def)
    ultimately show ?thesis using True \<open>n = 0\<close> wrote_Nil unfolding buf_def [symmetric]
      by (intro exI [of _ "rstusr B l1"] exI [of _ m] exI [of _ x]) simp
  next
    case False
    define w where "w = round_up n div 128"
    have w: "w * 128 = round_up n" using ru(3) unfolding w_def by (metis add.right_neutral div_mult_mod_eq)
    have ux: "unat x + w < 65536" using b ru(2) w by linarith
    obtain l2 m' where r: "blkwr B k w buf l1 = (0, l2)" "file_at recs k l2 m' (x + of_nat w) 0"
      "wrote m (place x 0) (take (w * 128) buf) m'" "Wfp l2 = Wfp l1"
      using write_blocks [OF B v1(1), of w buf] ux w tk(2) ru(2) v1(2) by auto
    have "tiny_flush B n t = Ok 0 (t\<lparr>writbuf := buf, t_lib := rstusr B l2\<rparr>)"
      using t pd False r(1) by (simp add: tiny_flush_def Let_def l1_def [symmetric] w_def)
    moreover have "file_at recs k (rstusr B l2) m' (x + of_nat w) 0" "Wfp (rstusr B l2) = None"
      using file_at_user(2) [OF B r(2)] r(4) v1(2) by (simp_all add: rstusr_def)
    moreover have "128 * unat (x + of_nat w) = 128 * unat x + round_up n" using unat_succ [OF ux] w by simp
    ultimately show ?thesis using r(3) w tk(1) unfolding buf_def [symmetric]
      by (intro exI [of _ "rstusr B l2"] exI [of _ m'] exI [of _ "x + of_nat w"]) (simp add: place_def)
  qed
qed

lemma tiny_putc_ok:
  assumes B: "bdos_files B recs" and w: "tiny_writer recs k t m p bs" and b: "p + length bs + 2048 < 8388480"
  shows "\<exists>t'. tiny_putc B c k t = Ok (uint c) t' \<and> tiny_writer recs k t' m p (bs @ [c])"
proof -
  obtain x q m' where v: "k < length (t_bp t)" "length (writbuf t) = 1024" "writfp t = Some k" "t_bp t ! k = Some (Writbuf q)"
    "q < 1024" "q \<le> length bs" "Wfp (t_lib t) = None" "file_at recs k (t_lib t) m' x 0" "wrote m p (take (length bs - q) bs) m'"
    "128 * unat x = p + (length bs - q)" "take q (writbuf t) = drop (length bs - q) bs"
    using w unfolding tiny_writer_def by blast
  define t1 where "t1 = t\<lparr>writbuf := (writbuf t)[q := c], t_bp := (t_bp t)[k := Some (Writbuf (q + 1))]\<rparr>"
  have d: "take (q + 1) (writbuf t1) = drop (length bs - q) (bs @ [c])"
    using v(2,5,6,11) by (simp add: t1_def take_Suc_conv_app_nth)
  show ?thesis
  proof (cases "q + 1 < 1024")
    case True
    have "tiny_putc B c k t = Ok (uint c) t1" using v True by (simp add: tiny_putc_def t1_def)
    moreover have "tiny_writer recs k t1 m p (bs @ [c])"
      unfolding tiny_writer_def using v d True
      by (intro conjI exI [of _ x] exI [of _ "q + 1"] exI [of _ m']) (auto simp: t1_def)
    ultimately show ?thesis by blast
  next
    case False
    then have q: "q + 1 = 1024" using v(5) by simp
    have l1: "writfp t1 = Some k" "length (writbuf t1) = 1024" "Wfp (t_lib t1) = None" "file_at recs k (t_lib t1) m' x 0"
      using v by (simp_all add: t1_def)
    have ru: "round_up 1024 = 1024" by (simp add: round_up_def)
    obtain l' m2 x' where f: "tiny_flush B 1024 t1 = Ok 0 (t1\<lparr>writbuf := writbuf t1, t_lib := l'\<rparr>)" "Wfp l' = None"
      "file_at recs k l' m2 x' 0" "128 * unat x' = 128 * unat x + 1024" "wrote m' (128 * unat x) (writbuf t1) m2"
    proof -
      have "128 * unat x + 1024 < 8388480" using v(10) b by linarith
      from tiny_flush_ok [OF B l1(1,2,3) _ l1(4) this, of 1024] show thesis using that ru l1(2) by auto
    qed
    define t2 where "t2 = t1\<lparr>t_lib := l', t_bp := (t_bp t1)[k := Some (Writbuf 0)]\<rparr>"
    have q': "q = 1023" using q by simp
    have t1': "t\<lparr>writbuf := (writbuf t)[1023 := c], t_bp := (t_bp t)[k := Some (Writbuf 1024)]\<rparr> = t1"
      by (simp add: t1_def q')
    have "tiny_putc B c k t = Ok (uint c) t2"
      using v(2,4) f(1) by (simp add: tiny_putc_def q' t1' t2_def Let_def)
    moreover have "wrote m p (bs @ [c]) m2"
    proof -
      have wb: "writbuf t1 = drop (length bs - q) (bs @ [c])" using d q l1(2) by (simp add: take_all)
      have sp: "take (length bs - q) bs @ writbuf t1 = bs @ [c]"
        unfolding wb using append_take_drop_id [of "length bs - q" "bs @ [c]"] by simp
      have "wrote m p (take (length bs - q) bs @ writbuf t1) m2"
        by (rule wrote_trans [OF v(9)]) (use f(5) v(10) b l1(2) v(6) in auto)
      then show ?thesis using sp by simp
    qed
    moreover have "128 * unat x' = p + length (bs @ [c])" using f(4) v(6,10) q by simp
    ultimately have "tiny_writer recs k t2 m p (bs @ [c])"
      unfolding tiny_writer_def using v f(2,3)
      by (intro conjI exI [of _ x'] exI [of _ 0] exI [of _ m2]) (auto simp: t2_def t1_def)
    then show ?thesis using \<open>tiny_putc B c k t = Ok (uint c) t2\<close> by blast
  qed
qed

fun tiny_puts :: "'b bdos \<Rightarrow> bytes \<Rightarrow> nat \<Rightarrow> 'b tiny \<Rightarrow> (unit, 'b) tiny_out" where
  "tiny_puts B [] k t = Ok () t"
| "tiny_puts B (c # cs) k t = bindo (tiny_putc B c k t) (\<lambda>r t1. tiny_puts B cs k t1)"

lemma tiny_puts_ok:
  assumes B: "bdos_files B recs"
  shows "tiny_writer recs k t m p bs \<Longrightarrow> p + length bs + length cs + 2048 < 8388480 \<Longrightarrow>
    \<exists>t'. tiny_puts B cs k t = Ok () t' \<and> tiny_writer recs k t' m p (bs @ cs)"
proof (induction cs arbitrary: t bs)
  case (Cons c cs)
  obtain t1 where "tiny_putc B c k t = Ok (uint c) t1" "tiny_writer recs k t1 m p (bs @ [c])"
    using tiny_putc_ok [OF B Cons.prems(1)] Cons.prems(2) by auto
  then show ?case using Cons.IH [of t1 "bs @ [c]"] Cons.prems(2) by auto
qed simp

text \<open>The flush at the end, as \<open>fclose\<close> makes it, completes the last record.\<close>

lemma tiny_last_flush:
  assumes B: "bdos_files B recs" and w: "tiny_writer recs k t m p bs" and b: "p + length bs + 2048 < 8388480"
  shows "\<exists>q t' m' x. t_bp t ! k = Some (Writbuf q) \<and> tiny_flush B q t = Ok 0 t' \<and> file_at recs k (t_lib t') m' x 0 \<and>
    wrote m p (bs @ replicate (round_up q - q) 0x1a) m' \<and> (p + length bs + (round_up q - q)) mod 128 = 0"
proof -
  obtain x q m1 where v: "length (writbuf t) = 1024" "writfp t = Some k" "t_bp t ! k = Some (Writbuf q)"
    "q < 1024" "q \<le> length bs" "Wfp (t_lib t) = None" "file_at recs k (t_lib t) m1 x 0" "wrote m p (take (length bs - q) bs) m1"
    "128 * unat x = p + (length bs - q)" "take q (writbuf t) = drop (length bs - q) bs"
    using w unfolding tiny_writer_def by blast
  obtain l' m' x' where f: "\<exists>t'. tiny_flush B q t = Ok 0 t' \<and> t_lib t' = l'"
    "file_at recs k l' m' x' 0" "128 * unat x' = 128 * unat x + round_up q"
    "wrote m1 (128 * unat x) (take q (writbuf t) @ replicate (round_up q - q) 0x1a) m'"
    using tiny_flush_ok [OF B v(2,1,6) _ v(7), of q] v(4,9) b by force
  have "wrote m p (take (length bs - q) bs @ take q (writbuf t) @ replicate (round_up q - q) 0x1a) m'"
    by (rule wrote_trans [OF v(8)]) (use f(4) v(1,4,5,9) b round_up_bounds(2) [of q] in auto)
  then have "wrote m p (bs @ replicate (round_up q - q) 0x1a) m'"
    unfolding v(10) append_assoc [symmetric] append_take_drop_id .
  moreover have "p + length bs + (round_up q - q) = 128 * unat x'" using f(3) v(5,9) round_up_bounds(1) [of q] by simp
  ultimately show ?thesis using v(3) f(1,2) by (metis mod_mult_self1_is_0)
qed

end
