(* ===== verification/Aztec_Start.thy ===== *)
theory Aztec_Start
  imports Aztec_Descriptors Aztec_Malloc "HOL-Library.Signed_Division"
begin

text \<open>
  Program start and program loading in the C library: the command line in \<^verbatim>\<open>CROOT.C\<close>, \<open>execvp\<close> in \<^verbatim>\<open>EXEC.C\<close>
  and \<^verbatim>\<open>EXECL.C\<close>, the overlay loader \<^verbatim>\<open>OVLOADER.C\<close>, the runner \<^verbatim>\<open>R.C\<close>, and the random numbers of \<^verbatim>\<open>RANDOM.C\<close>.
\<close>

section \<open>The command line\<close>

definition blank :: "u8 \<Rightarrow> bool" where
  "blank c \<longleftrightarrow> c = 32 \<or> c = 9"

text \<open>
  \<open>cp\<close> is an index into the 128 bytes of \<open>Argbuf\<close>; an index behind them shows that the code has read
  outside of the buffer.
\<close>

function skip_white :: "bytes \<Rightarrow> nat \<Rightarrow> nat" where
  "skip_white buf cp = (if cp < length buf \<and> blank (buf ! cp) then skip_white buf (cp + 1) else cp)"
  by auto
termination by (relation "measure (\<lambda>(buf, cp). length buf - cp)") auto

function word_end :: "bytes \<Rightarrow> nat \<Rightarrow> bytes \<times> nat" where
  "word_end buf cp =
     (let c = cp + 1
      in if c \<ge> length buf \<or> buf ! c = 0 then (buf, c)
         else if blank (buf ! c) then (buf[c := 0], c + 1)
         else word_end buf c)"
  by auto
termination by (relation "measure (\<lambda>(buf, cp). length buf - cp)") auto

declare skip_white.simps [simp del] word_end.simps [simp del]

text \<open>\<open>argv\<close> holds the start of every argument behind the first, which is the empty program name.\<close>

function args_loop :: "bytes \<Rightarrow> nat list \<Rightarrow> nat \<Rightarrow> (nat list \<times> bytes) option" where
  "args_loop buf argv cp =
     (if length argv + 1 < 30
      then let cp1 = skip_white buf cp
           in if cp1 \<ge> length buf then None
              else if buf ! cp1 = 0 then Some (argv, buf)
              else case word_end buf cp1 of (buf1, cp2) \<Rightarrow> args_loop buf1 (argv @ [cp1]) cp2
      else Some (argv, buf))"
  by auto
termination by (relation "measure (\<lambda>(buf, argv, cp). 30 - length argv)") auto

declare args_loop.simps [simp del]

definition Croot :: "u8 \<Rightarrow> bytes \<Rightarrow> (nat list \<times> bytes) option" where
  "Croot len tail =
     (let buf = (take 127 tail @ [0])[unat (len AND 0x7f) := 0] in args_loop buf [] 0)"

section \<open>Executing a program\<close>

text \<open>
  The command tail is stored from \<open>0x81\<close> on, \<open>cp\<close> is \<open>0x81\<close> plus the number of bytes stored. A character
  is stored only below \<open>0x100\<close>, a blank without such a test.
\<close>

fun tail_chars :: "bytes \<Rightarrow> bytes \<Rightarrow> bool \<times> bytes" where
  "tail_chars [] acc = (True, acc)"
| "tail_chars (c # xp) acc =
     (if c = 0 then (True, acc)
      else if 0x81 + length acc > 0xff then (False, acc)
      else tail_chars xp (acc @ [c]))"

fun tail_args :: "bytes list \<Rightarrow> bytes \<Rightarrow> bytes" where
  "tail_args [] acc = acc"
| "tail_args (xp # argv) acc =
     (case tail_chars xp (acc @ [32]) of (go, acc1) \<Rightarrow> if go then tail_args argv acc1 else acc1)"

record image =
  i_prog :: fcb
  i_fcb1 :: fcb
  i_fcb2 :: fcb
  i_tail :: bytes
  i_count :: u8
  i_user :: u8

definition exec_type :: "fcb \<Rightarrow> fcb" where
  "exec_type f = (if f_type f ! 0 = 32 then f\<lparr>f_type := [67, 79, 77], f_rest := (f_rest f)[0 := 0]\<rparr> else f)"

text \<open>
  \<open>argv\<close> without its end mark; \<open>f0\<close> is the local control block before it is set, \<open>d1\<close> and \<open>d2\<close> the two at
  \<open>0x5c\<close> and \<open>0x6c\<close>; the result is what the loader gets, or \<open>None\<close> for -1.
\<close>

definition execvp :: "'b bdos \<Rightarrow> bytes \<Rightarrow> bytes list \<Rightarrow> fcb \<Rightarrow> fcb \<Rightarrow> fcb \<Rightarrow> 'b lib \<Rightarrow> image option \<times> 'b lib" where
  "execvp B path argv f0 d1 d2 l =
     (case fcbinit (Some path) f0 of (u, f) \<Rightarrow>
      if u = - 1 then (None, l\<lparr>errno := INVAL\<rparr>)
      else let f1 = exec_type f in
           case bd_user B 255 (sys l) of (ouser, b1) \<Rightarrow>
           case bd_user B (of_int u) b1 of (_, b2) \<Rightarrow>
           case bd_fcb B OPNFIL f1 b2 of (r, f2, b3) \<Rightarrow>
           if r = 255 then (None, l\<lparr>errno := NOENT, sys := b3\<rparr>)
           else let f3 = f2\<lparr>f_rest := (f_rest f2)[20 := 0]\<rparr>;
                    b1 = snd (fcbinit None d1); b2 = snd (fcbinit None d2);
                    args = drop 1 argv;
                    fcb1 = (case args of [] \<Rightarrow> b1 | x # _ \<Rightarrow> snd (fcbinit (Some x) b1));
                    fcb2 = (case args of x # y # _ \<Rightarrow> snd (fcbinit (Some y) b2) | _ \<Rightarrow> b2);
                    tl = tail_args args []
                in (Some \<lparr>i_prog = f3, i_fcb1 = fcb1, i_fcb2 = fcb2, i_tail = tl, i_count = of_nat (length tl),
                     i_user = ouser\<rparr>, l\<lparr>sys := b3\<rparr>))"

definition execlp :: "'b bdos \<Rightarrow> bytes \<Rightarrow> bytes list \<Rightarrow> fcb \<Rightarrow> fcb \<Rightarrow> fcb \<Rightarrow> 'b lib \<Rightarrow> image option \<times> 'b lib" where
  "execlp B path args f0 d1 d2 l = execvp B path args f0 d1 d2 l"

definition execl :: "'b bdos \<Rightarrow> bytes \<Rightarrow> bytes list \<Rightarrow> fcb \<Rightarrow> fcb \<Rightarrow> fcb \<Rightarrow> 'b lib \<Rightarrow> image option \<times> 'b lib" where
  "execl B path args f0 d1 d2 l = execvp B path args f0 d1 d2 l"

definition execv :: "'b bdos \<Rightarrow> bytes \<Rightarrow> bytes list \<Rightarrow> fcb \<Rightarrow> fcb \<Rightarrow> fcb \<Rightarrow> 'b lib \<Rightarrow> image option \<times> 'b lib" where
  "execv B path argv f0 d1 d2 l = execvp B path argv f0 d1 d2 l"

section \<open>Overlays\<close>

record header =
  magic :: u16
  ovaddr :: u16
  ovsize :: u16
  ovbss :: u16
  ovbgn :: u16

definition header_of :: "bytes \<Rightarrow> header" where
  "header_of d = \<lparr>magic = le16 (d ! 0) (d ! 1), ovaddr = le16 (d ! 2) (d ! 3), ovsize = le16 (d ! 4) (d ! 5),
     ovbss = le16 (d ! 6) (d ! 7), ovbgn = le16 (d ! 8) (d ! 9)\<rparr>"

abbreviation (input) OVMAGIC :: u16 where "OVMAGIC \<equiv> 0xf1"

definition store_bytes :: "u16 \<Rightarrow> bytes \<Rightarrow> memory \<Rightarrow> memory" where
  "store_bytes a d m = (\<lambda>x. if unat (x - a) < length d then d ! unat (x - a) else m x)"

datatype load = Loaded u16 | Aborted nat

text \<open>The result of \<open>read\<close>, a signed number, compared as the unsigned number it is in the code.\<close>

definition short_read :: "int \<Rightarrow> u16 \<Rightarrow> bool" where
  "short_read r n \<longleftrightarrow> (of_int r :: u16) < n"

text \<open>The name is built in an array of 64 bytes, the second time with the drive in front.\<close>

definition open_overlay :: "'b bdos \<Rightarrow> bytes \<Rightarrow> 'b lib \<Rightarrow> (int, 'b lib) outcome" where
  "open_overlay B ovname l =
     (if length ovname + 5 > 64 then Fail (Undefined OutOfBounds) l
      else case open_fd B (ovname @ cstr ''.ovr'') 0 l of (fd, l1) \<Rightarrow>
        if fd \<ge> 0 then Ok fd l1
        else if length ovname + 7 > 64 then Fail (Undefined OutOfBounds) l1
        else case open_fd B (map char_byte ''a:'' @ ovname @ cstr ''.ovr'') 0 l1 of (fd, l2) \<Rightarrow> Ok fd l2)"

definition ovld :: "'b bdos \<Rightarrow> bytes \<Rightarrow> u16 \<Rightarrow> memory \<Rightarrow> 'b lib \<Rightarrow> (load \<times> memory, 'b lib) outcome option" where
  "ovld B ovname mbot m l =
     (case open_overlay B ovname l of
        Fail e l1 \<Rightarrow> Some (Fail e l1)
      | Ok fd l1 \<Rightarrow>
        if fd < 0 then Some (Ok (Aborted 10, m) l1)
        else Option.bind (read_fd B fd 10 l1) (\<lambda>r.
          case r of
            Fail e l2 \<Rightarrow> Some (Fail e l2)
          | Ok (n, d) l2 \<Rightarrow>
              if n \<noteq> 10 then Some (Ok (Aborted 20, m) l2)
              else let hdr = header_of d
                   in if magic hdr \<noteq> OVMAGIC then Some (Ok (Aborted 30, m) l2)
                      else if mbot < ovaddr hdr + ovsize hdr + ovbss hdr then Some (Ok (Aborted 40, m) l2)
                      else Option.bind (read_fd B fd (ovsize hdr) l2) (\<lambda>r.
                        case r of
                          Fail e l3 \<Rightarrow> Some (Fail e l3)
                        | Ok (n, d) l3 \<Rightarrow>
                            let m1 = store_bytes (ovaddr hdr) d m
                            in if short_read n (ovsize hdr) then Some (Ok (Aborted 50, m1) l3)
                               else Some (case close_fd B fd l3 of
                                            Fail e l4 \<Rightarrow> Fail e l4
                                          | Ok _ l4 \<Rightarrow> Ok (Loaded (ovbgn hdr), m1) l4))))"

section \<open>The runner\<close>

definition prgload :: "'b bdos \<Rightarrow> bytes \<Rightarrow> heap \<Rightarrow> 'b lib \<Rightarrow> (u16 \<times> heap, 'b lib) outcome option" where
  "prgload B argv0 h l =
     (if length argv0 + 5 > 20 then Some (Fail (Undefined OutOfBounds) l)
      else case open_fd B (argv0 @ cstr ''.ovr'') 0 l of (fd, l1) \<Rightarrow>
        if fd < 0 then Some (Ok (0, h) l1)
        else Option.bind (read_fd B fd 10 l1) (\<lambda>r.
          case r of
            Fail e l2 \<Rightarrow> Some (Fail e l2)
          | Ok (n, d) l2 \<Rightarrow>
              if n < 0 then Some (Ok (0, h) l2)
              else if length d < 10 then Some (Fail (Undefined Uninitialised) l2)
              else let hdr = header_of d
                   in if magic hdr \<noteq> OVMAGIC \<or> ovsize hdr = 0 then Some (Ok (0, h) l2)
                      else let topmem = fst (sbrk 0 h);
                               ovend = ovaddr hdr + ovsize hdr + ovbss hdr;
                               s = (if topmem < ovend then sbrk (ovend - topmem) h else (0, h))
                           in if fst s = 0xFFFF then Some (Ok (0, snd s) l2)
                              else Option.bind (read_fd B fd (ovsize hdr) l2) (\<lambda>r.
                                case r of
                                  Fail e l3 \<Rightarrow> Some (Fail e l3)
                                | Ok (n, d) l3 \<Rightarrow>
                                    let h1 = (snd s)\<lparr>h_mem := store_bytes (ovaddr hdr) d (h_mem (snd s))\<rparr>
                                    in if short_read n (ovsize hdr) then Some (Ok (0, h1) l3)
                                       else Some (case close_fd B fd l3 of
                                                    Fail e l4 \<Rightarrow> Fail e l4
                                                  | Ok _ l4 \<Rightarrow> Ok (ovbgn hdr, h1) l4))))"

datatype run_result = Usage | Cannot_load | Run u16 "bytes list"

definition run_main :: "'b bdos \<Rightarrow> bytes list \<Rightarrow> heap \<Rightarrow> 'b lib \<Rightarrow> (run_result \<times> heap, 'b lib) outcome option" where
  "run_main B argv h l =
     (if length argv < 2 then Some (Ok (Usage, h) l)
      else Option.bind (prgload B (argv ! 1) h l) (\<lambda>r.
        case r of
          Fail e l1 \<Rightarrow> Some (Fail e l1)
        | Ok (func, h1) l1 \<Rightarrow> Some (Ok (if func = 0 then Cannot_load else Run func (drop 1 argv), h1) l1)))"

section \<open>Random numbers\<close>

definition ran :: "('d \<Rightarrow> 'd \<Rightarrow> 'd) \<Rightarrow> (int \<Rightarrow> 'd) \<Rightarrow> u32 \<Rightarrow> 'd \<times> u32" where
  "ran fdiv of_long iy =
     (let i1 = iy * 125; i2 = i1 - of_int (sint i1 sdiv 2796203) * 2796203
      in (fdiv (of_long (sint i2)) (of_long 2796203), i2))"

definition randl :: "('d \<Rightarrow> 'd \<Rightarrow> 'd) \<Rightarrow> (int \<Rightarrow> 'd) \<Rightarrow> ('d \<Rightarrow> 'd \<Rightarrow> 'd) \<Rightarrow> ('d \<Rightarrow> 'd) \<Rightarrow> 'd \<Rightarrow> u32 \<Rightarrow> 'd \<times> u32" where
  "randl fdiv of_long fmul fexp x iy = (case ran fdiv of_long iy of (r, iy') \<Rightarrow> (fexp (fmul x r), iy'))"

section \<open>Words of a command line\<close>

function words_of :: "bytes \<Rightarrow> bytes list" where
  "words_of s =
     (case dropWhile blank s of
        [] \<Rightarrow> []
      | c # cs \<Rightarrow> (c # takeWhile (\<lambda>c. \<not> blank c) cs) # words_of (dropWhile (\<lambda>c. \<not> blank c) cs))"
  by auto
termination
proof (relation "measure length")
  fix s c cs assume "dropWhile blank s = c # cs"
  then have "length (c # cs) \<le> length s" by (metis length_dropWhile_le)
  then show "(dropWhile (\<lambda>c. \<not> blank c) cs, s) \<in> measure length"
    using length_dropWhile_le [of "\<lambda>c. \<not> blank c" cs] by simp
qed simp

declare words_of.simps [simp del]

definition arg_at :: "bytes \<Rightarrow> nat \<Rightarrow> bytes" where
  "arg_at buf p = takeWhile (\<lambda>c. c \<noteq> 0) (drop p buf)"

lemma drop_Cons_at: "drop p buf = c # r \<Longrightarrow> p < length buf \<and> buf ! p = c \<and> drop (p + 1) buf = r"
  by (metis Suc_eq_plus1 drop_Suc drop_eq_Nil2 linorder_not_le list.distinct(1) list.sel(3) nth_via_drop tl_drop)

lemma skip_white_eq:
  "drop cp buf = line @ 0 # junk \<Longrightarrow> skip_white buf cp = cp + length (takeWhile blank line)"
proof (induction line arbitrary: cp)
  case Nil
  then show ?case using drop_Cons_at [of cp buf 0 junk] by (subst skip_white.simps) (simp add: blank_def)
next
  case (Cons c line)
  note c = drop_Cons_at [of cp buf c "line @ 0 # junk"]
  show ?case using Cons.IH [of "cp + 1"] Cons.prems c by (subst skip_white.simps) simp
qed

lemma word_end_zero:
  "drop cp buf = c # w @ 0 # junk \<Longrightarrow> list_all (\<lambda>c. c \<noteq> 0 \<and> \<not> blank c) w \<Longrightarrow> word_end buf cp = (buf, cp + 1 + length w)"
proof (induction w arbitrary: cp c)
  case Nil
  then have "drop (cp + 1) buf = 0 # junk" using drop_Cons_at by force
  from drop_Cons_at [OF this] show ?case by (subst word_end.simps) simp
next
  case (Cons d w)
  then have "drop (cp + 1) buf = d # w @ 0 # junk" using drop_Cons_at by force
  from drop_Cons_at [OF this] Cons.IH [OF this] Cons.prems(2) show ?case by (subst word_end.simps) simp
qed

lemma word_end_blank:
  "drop cp buf = c # w @ b # rst \<Longrightarrow> blank b \<Longrightarrow> list_all (\<lambda>c. c \<noteq> 0 \<and> \<not> blank c) w \<Longrightarrow>
   word_end buf cp = (buf[cp + 1 + length w := 0], cp + 2 + length w)"
proof (induction w arbitrary: cp c)
  case Nil
  then have "drop (cp + 1) buf = b # rst" using drop_Cons_at by force
  moreover have "b \<noteq> 0" using Nil(2) by (auto simp: blank_def)
  ultimately show ?case using drop_Cons_at [of "cp + 1" buf b rst] Nil(2) by (subst word_end.simps) simp
next
  case (Cons d w)
  then have "drop (cp + 1) buf = d # w @ b # rst" using drop_Cons_at by force
  from drop_Cons_at [OF this] Cons.IH [OF this] Cons.prems(2,3) show ?case by (subst word_end.simps) simp
qed

lemma arg_at_word:
  "drop p buf = w @ 0 # r \<Longrightarrow> 0 \<notin> set w \<Longrightarrow> arg_at buf p = w"
  by (auto simp: arg_at_def takeWhile_append)

text \<open>An argument that ends at or before \<open>cp\<close> does not change when bytes behind \<open>cp\<close> do.\<close>

definition ended :: "bytes \<Rightarrow> nat \<Rightarrow> nat \<Rightarrow> bool" where
  "ended buf p cp \<longleftrightarrow> (\<exists>e. p \<le> e \<and> e \<le> cp \<and> e < length buf \<and> buf ! e = 0)"

lemma arg_at_update: "ended buf p cp \<Longrightarrow> cp < c \<Longrightarrow> arg_at (buf[c := v]) p = arg_at buf p \<and> ended (buf[c := v]) p cp"
proof -
  assume a: "ended buf p cp" "cp < c"
  then obtain e where e: "p \<le> e" "e \<le> cp" "e < length buf" "buf ! e = 0" by (auto simp: ended_def)
  define a where "a = take (e - p) (drop p buf)"
  have split: "drop p b = take (e - p) (drop p b) @ b ! e # drop (Suc e) b" if "length b = length buf" for b :: bytes
    using id_take_nth_drop [of "e - p" "drop p b"] e that by simp
  have "drop p buf = a @ 0 # drop (Suc e) buf" using split [of buf] e by (simp add: a_def)
  moreover have "drop p (buf[c := v]) = a @ 0 # drop (Suc e) (buf[c := v])"
    using split [of "buf[c := v]"] e a(2) by (simp add: a_def drop_update_swap)
  ultimately have "arg_at (buf[c := v]) p = arg_at buf p"
    unfolding arg_at_def by (auto simp: takeWhile_append)
  moreover have "ended (buf[c := v]) p cp" using e a(2) unfolding ended_def by auto
  ultimately show ?thesis by simp
qed

lemma words_of_Nil: "words_of [] = []"
  by (subst words_of.simps) simp

lemma word_split:
  assumes "dropWhile blank line = c # cs" "0 \<notin> set line"
  shows "list_all (\<lambda>c. c \<noteq> 0 \<and> \<not> blank c) (takeWhile (\<lambda>c. \<not> blank c) cs)" "c \<noteq> 0" "\<not> blank c"
    "0 \<notin> set (dropWhile (\<lambda>c. \<not> blank c) cs)"
proof -
  have s: "set (c # cs) \<subseteq> set line" using assms(1) by (metis set_dropWhileD subsetI)
  then show "c \<noteq> 0" "0 \<notin> set (dropWhile (\<lambda>c. \<not> blank c) cs)" using assms(2) by (auto dest: set_dropWhileD)
  show "\<not> blank c" using assms(1) hd_dropWhile [of blank line] by simp
  show "list_all (\<lambda>c. c \<noteq> 0 \<and> \<not> blank c) (takeWhile (\<lambda>c. \<not> blank c) cs)"
    unfolding list_all_iff using s assms(2) by (auto dest: set_takeWhileD)
qed

lemma args_loop_spec:
  assumes "drop cp buf = line @ 0 # junk" "0 \<notin> set line" "\<forall>p \<in> set argv. ended buf p cp" "length argv \<le> 29"
  shows "\<exists>ps buf'. args_loop buf argv cp = Some (argv @ ps, buf') \<and>
    map (arg_at buf') (argv @ ps) = map (arg_at buf) argv @ take (29 - length argv) (words_of line)"
  using assms
proof (induction "29 - length argv" arbitrary: buf argv cp line)
  case 0
  then show ?case by (subst args_loop.simps) auto
next
  case (Suc n)
  have less: "length argv + 1 < 30" using Suc.hyps(2) by simp
  define cp1 where "cp1 = cp + length (takeWhile blank line)"
  have sk: "skip_white buf cp = cp1" using skip_white_eq [OF Suc.prems(1)] by (simp add: cp1_def)
  have d1: "drop cp1 buf = dropWhile blank line @ 0 # junk"
    using Suc.prems(1) unfolding cp1_def by (metis add.commute append_assoc append_eq_conv_conj drop_drop takeWhile_dropWhile_id)
  show ?case
  proof (cases "dropWhile blank line")
    case Nil
    then have at: "cp1 < length buf" "buf ! cp1 = 0" using drop_Cons_at [of cp1 buf 0 junk] d1 by auto
    have "words_of line = []" unfolding words_of.simps [of line] Nil by simp
    then show ?thesis using less sk at by (subst args_loop.simps) auto
  next
    case (Cons c cs)
    note sp = word_split [OF Cons Suc.prems(2)]
    define w where "w = takeWhile (\<lambda>c. \<not> blank c) cs"
    define r where "r = dropWhile (\<lambda>c. \<not> blank c) cs"
    have wr: "cs = w @ r" by (simp add: w_def r_def)
    have wd: "words_of line = (c # w) # words_of r" using Cons by (subst words_of.simps) (simp add: w_def r_def)
    have dd: "drop cp1 buf = c # w @ r @ 0 # junk" using d1 Cons wr by simp
    have at: "cp1 < length buf" "buf ! cp1 = c" using drop_Cons_at [OF dd] by auto
    have st: "args_loop buf argv cp = (case word_end buf cp1 of (buf1, cp2) \<Rightarrow> args_loop buf1 (argv @ [cp1]) cp2)"
      using less sk at sp(2) by (subst args_loop.simps) simp
    have len: "length (argv @ [cp1]) \<le> 29" "n = 29 - length (argv @ [cp1])" using Suc.hyps(2) by simp_all
    have nz: "0 \<notin> set (c # w)" using sp(1,2) by (auto simp: w_def list_all_iff)
    obtain buf1 cp2 rest where we: "word_end buf cp1 = (buf1, cp2)" "drop cp2 buf1 = rest @ 0 # junk"
      "words_of rest = words_of r" "0 \<notin> set rest" "\<forall>p \<in> set (argv @ [cp1]). ended buf1 p cp2"
      "map (arg_at buf1) (argv @ [cp1]) = map (arg_at buf) argv @ [c # w]"
    proof (cases r)
      case Nil
      have e: "word_end buf cp1 = (buf, cp1 + 1 + length w)" using word_end_zero [of cp1 buf c w junk] dd Nil sp(1) by (simp add: w_def)
      define e0 where "e0 = cp1 + 1 + length w"
      have "drop e0 buf = 0 # junk"
      proof -
        have "drop e0 buf = drop (Suc (length w)) (drop cp1 buf)" by (simp add: e0_def add.commute)
        then show ?thesis unfolding dd Nil by simp
      qed
      moreover note drop_Cons_at [OF this]
      moreover have "ended buf p e0" if "p \<in> set argv" for p
        using Suc.prems(3) that unfolding ended_def e0_def cp1_def by fastforce
      moreover have "ended buf cp1 e0" using calculation(2) unfolding ended_def by (intro exI [of _ e0]) (simp add: e0_def)
      moreover have "arg_at buf cp1 = c # w" using arg_at_word [of cp1 buf "c # w" junk] dd Nil nz by simp
      ultimately show thesis using that [of buf e0 "[]"] e Nil by (auto simp: e0_def)
    next
      case r: (Cons b rs)
      have b: "blank b" using hd_dropWhile [of "\<lambda>c. \<not> blank c" cs] r unfolding r_def by (metis list.distinct(1) list.sel(1))
      define e0 where "e0 = cp1 + 1 + length w"
      have e: "word_end buf cp1 = (buf[e0 := 0], e0 + 1)"
        using word_end_blank [of cp1 buf c w b "rs @ 0 # junk"] dd r b sp(1) by (simp add: w_def e0_def)
      have "drop e0 buf = drop (Suc (length w)) (drop cp1 buf)" by (simp add: e0_def add.commute)
      then have d0: "drop e0 buf = b # rs @ 0 # junk" unfolding dd r by simp
      note d0' = drop_Cons_at [OF d0]
      have d2: "drop (e0 + 1) (buf[e0 := 0]) = rs @ 0 # junk" using d0' by simp
      have upd: "arg_at (buf[e0 := 0]) p = arg_at buf p \<and> ended (buf[e0 := 0]) p (e0 + 1)" if "p \<in> set argv" for p
      proof -
        have "ended buf p cp" using Suc.prems(3) that by blast
        from arg_at_update [OF this, of e0 0] show ?thesis unfolding ended_def e0_def cp1_def by fastforce
      qed
      have "ended (buf[e0 := 0]) cp1 (e0 + 1)" using d0' unfolding ended_def by (intro exI [of _ e0]) (simp add: e0_def)
      moreover have "arg_at (buf[e0 := 0]) cp1 = c # w"
      proof (rule arg_at_word [of _ _ _ "rs @ 0 # junk"])
        have "drop cp1 (buf[e0 := 0]) = (drop cp1 buf)[Suc (length w) := 0]" by (simp add: drop_update_swap e0_def)
        then show "drop cp1 (buf[e0 := 0]) = (c # w) @ 0 # rs @ 0 # junk" unfolding dd r by (simp add: list_update_append)
      qed (rule nz)
      moreover have "words_of rs = words_of r" using b unfolding r by (subst (1 2) words_of.simps) simp
      moreover have "0 \<notin> set rs" using sp(4) r by (simp add: r_def)
      ultimately show thesis using that [OF e d2] upd by auto
    qed
    obtain ps buf' where ih: "args_loop buf1 (argv @ [cp1]) cp2 = Some ((argv @ [cp1]) @ ps, buf')"
      "map (arg_at buf') ((argv @ [cp1]) @ ps) = map (arg_at buf1) (argv @ [cp1]) @ take (29 - length (argv @ [cp1])) (words_of rest)"
      using Suc.hyps(1) [OF len(2) we(2,4,5) len(1)] by blast
    have tk: "take (29 - length argv) ((c # w) # words_of r) = (c # w) # take (29 - length (argv @ [cp1])) (words_of r)"
      using less by (simp add: take_Cons')
    show ?thesis using ih st we(1,3,6) wd tk
      by (intro exI [of _ "cp1 # ps"] exI [of _ buf']) (simp del: take_Suc_Cons)
  qed
qed

text \<open>The arguments of a program are the words of its command tail, at most 29 of them.\<close>

lemma Croot_words:
  assumes "127 \<le> length tail"
  shows "\<exists>argv buf. Croot len tail = Some (argv, buf) \<and>
    map (arg_at buf) argv = take 29 (words_of (takeWhile (\<lambda>c. c \<noteq> 0) (take (unat (len AND 0x7f)) tail)))"
proof -
  define k where "k = unat (len AND 0x7f)"
  have k: "k < 128" unfolding k_def using word_and_le2 [of len "0x7f"] word_and_le1 [of len "0x7f"] by (simp add: word_le_nat_alt)
  define buf where "buf = (take 127 tail @ [0])[k := 0]"
  have lb: "length buf = 128" using assms by (simp add: buf_def)
  define s where "s = take k tail"
  have bs: "buf = s @ 0 # drop (Suc k) buf"
  proof -
    have "take k buf = s" using k assms by (simp add: buf_def s_def take_append)
    moreover have "buf ! k = 0" using k lb by (simp add: buf_def)
    ultimately show ?thesis using id_take_nth_drop [of k buf] k lb by simp
  qed
  define line where "line = takeWhile (\<lambda>c. c \<noteq> 0) s"
  have "\<exists>junk. buf = line @ 0 # junk"
  proof (cases "0 \<in> set s")
    case True
    then have "dropWhile (\<lambda>c. c \<noteq> 0) s \<noteq> []" by (simp add: dropWhile_eq_Nil_conv)
    then obtain r where r: "dropWhile (\<lambda>c. c \<noteq> 0) s = 0 # r"
      using hd_dropWhile [of "\<lambda>c. c \<noteq> 0" s] by (cases "dropWhile (\<lambda>c. c \<noteq> 0) s") auto
    have "s = line @ 0 # r" using takeWhile_dropWhile_id [of "\<lambda>c. c \<noteq> 0" s] r by (simp add: line_def)
    then show ?thesis using bs by (metis append_assoc append_Cons)
  next
    case False
    then have "line = s" unfolding line_def by (auto simp: takeWhile_eq_all_conv)
    then show ?thesis using bs by blast
  qed
  then obtain junk where j: "drop 0 buf = line @ 0 # junk" by auto
  have "0 \<notin> set line" unfolding line_def by (auto dest: set_takeWhileD)
  from args_loop_spec [OF j this, of "[]"] show ?thesis
    unfolding Croot_def Let_def k_def [symmetric] buf_def [symmetric] s_def [symmetric] line_def [symmetric] by auto
qed

section \<open>Command tails\<close>

definition joined :: "bytes list \<Rightarrow> bytes" where
  "joined ws = concat (map (\<lambda>w. 32 # w) ws)"

lemma tail_chars_fits:
  "0 \<notin> set w \<Longrightarrow> length acc + length w \<le> 127 \<Longrightarrow> tail_chars (w @ [0]) acc = (True, acc @ w)"
proof (induction w arbitrary: acc)
  case (Cons c w)
  then show ?case using Cons.IH [of "acc @ [c]"] by simp
qed simp

lemma tail_args_fits:
  "\<forall>w \<in> set ws. 0 \<notin> set w \<Longrightarrow> length acc + length (joined ws) \<le> 127 \<Longrightarrow>
   tail_args (map (\<lambda>w. w @ [0]) ws) acc = acc @ joined ws"
proof (induction ws arbitrary: acc)
  case (Cons w ws)
  have len: "length (acc @ [32]) + length w \<le> 127" "length ((acc @ [32]) @ w) + length (joined ws) \<le> 127"
    using Cons.prems(2) by (simp_all add: joined_def)
  show ?case using tail_chars_fits [OF _ len(1)] Cons.IH [OF _ len(2)] Cons.prems(1) by (simp add: joined_def)
qed (simp add: joined_def)

lemma words_of_joined:
  "\<forall>w \<in> set ws. w \<noteq> [] \<and> (\<forall>c \<in> set w. \<not> blank c) \<Longrightarrow> words_of (joined ws) = ws"
proof (induction ws)
  case Nil
  then show ?case by (simp add: joined_def words_of_Nil)
next
  case (Cons w ws)
  obtain c cs where w: "w = c # cs" using Cons.prems by (cases w) auto
  have nb: "\<not> blank c" "\<forall>c \<in> set cs. \<not> blank c" using Cons.prems w by auto
  have b32: "blank 32" by (simp add: blank_def)
  have d: "dropWhile blank (joined (w # ws)) = c # cs @ joined ws" using w nb b32 by (simp add: joined_def)
  have e: "takeWhile (\<lambda>c. \<not> blank c) (cs @ joined ws) = cs" "dropWhile (\<lambda>c. \<not> blank c) (cs @ joined ws) = joined ws"
    using nb(2) b32 by (cases ws; simp add: joined_def)+
  show ?case unfolding words_of.simps [of "joined (w # ws)"] d list.case e using Cons w by simp
qed

text \<open>A tail of 127 characters is full, and one more argument makes the count wrap in \<open>Croot\<close>.\<close>

lemma tail_args_full:
  assumes "\<forall>w \<in> set ws. 0 \<notin> set w" "length (joined ws) = 127" "x = c # cs" "c \<noteq> 0"
  shows "tail_args (map (\<lambda>w. w @ [0]) ws @ [x @ [0]]) [] = joined ws @ [32]"
proof -
  have "tail_args (map (\<lambda>w. w @ [0]) ws @ more) acc = tail_args more (acc @ joined ws)"
    if "\<forall>w \<in> set ws. 0 \<notin> set w" "length acc + length (joined ws) \<le> 127" for ws acc and more :: "bytes list"
    using that
  proof (induction ws arbitrary: acc)
    case (Cons w ws)
    have len: "length (acc @ [32]) + length w \<le> 127" "length ((acc @ [32]) @ w) + length (joined ws) \<le> 127"
      using Cons.prems(2) by (simp_all add: joined_def)
    show ?case using tail_chars_fits [OF _ len(1)] Cons.IH [OF _ len(2)] Cons.prems(1) by (simp add: joined_def)
  qed (simp add: joined_def)
  from this [OF assms(1), of "[]" "[x @ [0]]"] show ?thesis using assms(2-4) by simp
qed

section \<open>Random numbers\<close>

lemma ran_step:
  assumes "0 < sint iy" "sint iy < 2796203"
  shows "sint (snd (ran fdiv of_long iy)) = 125 * sint iy mod 2796203"
proof -
  define i1 where "i1 = iy * 125"
  have p: "0 \<le> sint iy * 125" "sint iy * 125 < 2 ^ 31" using assms by auto
  have s1: "sint i1 = sint iy * 125"
  proof -
    have "sint i1 = signed_take_bit 31 (sint iy * 125)" unfolding i1_def by (simp add: sint_word_ariths)
    also have "\<dots> = sint iy * 125" by (rule signed_take_bit_int_eq_self) (use p in auto)
    finally show ?thesis .
  qed
  have q: "sint i1 sdiv 2796203 = sint i1 div 2796203" using assms s1 by (simp add: signed_divide_int_def)
  have "sint (i1 - of_int (sint i1 div 2796203) * 2796203) = signed_take_bit 31 (sint i1 - (sint i1 div 2796203) * 2796203)"
  proof -
    have "i1 - of_int (sint i1 div 2796203) * 2796203 = of_int (sint i1 - (sint i1 div 2796203) * 2796203)"
      by simp
    then show ?thesis by (simp only: sint_sbintrunc') simp
  qed
  also have "\<dots> = sint i1 mod 2796203"
  proof -
    have "sint i1 - (sint i1 div 2796203) * 2796203 = sint i1 mod 2796203" by (simp add: minus_div_mult_eq_mod)
    moreover have "0 \<le> sint i1 mod 2796203" "sint i1 mod 2796203 < 2796203" by simp_all
    ultimately show ?thesis by (simp add: signed_take_bit_int_eq_self)
  qed
  finally show ?thesis using q s1 unfolding ran_def Let_def i1_def [symmetric] by (simp add: mult.commute)
qed

lemma ran_range:
  assumes "0 < sint iy" "sint iy < 2796203"
  shows "0 < sint (snd (ran fdiv of_long iy))" "sint (snd (ran fdiv of_long iy)) < 2796203"
proof -
  have e: "sint (snd (ran fdiv of_long iy)) = 125 * sint iy mod 2796203" by (rule ran_step [OF assms])
  then show "sint (snd (ran fdiv of_long iy)) < 2796203" by simp
  have "coprime (2796203 :: int) 125" by code_simp
  then have "\<not> 2796203 dvd 125 * sint iy"
    using assms zdvd_not_zless [OF assms] by (simp add: coprime_dvd_mult_right_iff)
  then have "125 * sint iy mod 2796203 \<noteq> 0" by (simp add: dvd_eq_mod_eq_0)
  moreover have "0 \<le> 125 * sint iy mod 2796203" by simp
  ultimately show "0 < sint (snd (ran fdiv of_long iy))" using e by linarith
qed

end
