(* ===== verification/Aztec_Start_Spec.thy ===== *)
theory Aztec_Start_Spec
  imports Aztec_Start Aztec_Stream_Files
begin

text \<open>
  Program loading end to end: the arguments given to \<open>execvp\<close> are the ones the new program finds, and the
  overlay loader stores the body of an overlay file at its address.
\<close>

section \<open>Arguments of an executed program\<close>

definition plain_word :: "bytes \<Rightarrow> bool" where
  "plain_word w \<longleftrightarrow> w \<noteq> [] \<and> list_all (\<lambda>c. c \<noteq> 0 \<and> \<not> blank c) w"

definition c_strings :: "bytes list \<Rightarrow> bytes list" where
  "c_strings ws = map (\<lambda>w. w @ [0]) ws"

lemma execvp_tail:
  assumes "execvp B path argv f0 d1 d2 l = (Some im, l')"
  shows "i_tail im = tail_args (drop 1 argv) []" "i_count im = of_nat (length (i_tail im))"
  using assms by (auto simp: execvp_def Let_def split: prod.splits if_splits)

lemma plain_words:
  assumes "list_all plain_word ws"
  shows "\<forall>w \<in> set ws. 0 \<notin> set w" "\<forall>w \<in> set ws. w \<noteq> [] \<and> (\<forall>c \<in> set w. \<not> blank c)" "0 \<notin> set (joined ws)"
  using assms by (auto simp: plain_word_def list_all_iff joined_def)

lemma count_mask: "n < 128 \<Longrightarrow> unat ((of_nat n :: u8) AND 0x7f) = n"
proof -
  assume n: "n < 128"
  have "(of_nat n :: u8) AND 0x7f = take_bit 7 (of_nat n)" by (simp add: take_bit_eq_mask mask_eq_exp_minus_1)
  then have "unat ((of_nat n :: u8) AND 0x7f) = take_bit 7 (unat (of_nat n :: u8))" by (simp only: unsigned_take_bit_eq)
  also have "\<dots> = n" using n by (simp add: unat_of_nat take_bit_nat_eq_self)
  finally show ?thesis .
qed

lemma exec_arguments:
  assumes ws: "list_all plain_word ws" "length ws \<le> 29" "length (joined ws) \<le> 127"
    and ex: "execvp B name (prog # c_strings ws) f0 d1 d2 l = (Some im, l')"
    and mem: "127 \<le> length (i_tail im @ rest)"
  shows "\<exists>argv buf. Croot (i_count im) (i_tail im @ rest) = Some (argv, buf) \<and> map (arg_at buf) argv = ws"
proof -
  have t: "i_tail im = joined ws"
    using execvp_tail(1) [OF ex] tail_args_fits [OF plain_words(1) [OF ws(1)], of "[]"] ws(3) by (simp add: c_strings_def)
  have k: "unat (i_count im AND 0x7f) = length (joined ws)"
    using execvp_tail(2) [OF ex] t count_mask [of "length (joined ws)"] ws(3) by simp
  have tw: "takeWhile (\<lambda>c. c \<noteq> 0) (take (length (joined ws)) (joined ws @ rest)) = joined ws"
    using plain_words(3) [OF ws(1)] by (auto simp: takeWhile_eq_all_conv)
  have "take 29 (words_of (takeWhile (\<lambda>c. c \<noteq> 0) (take (unat (i_count im AND 0x7f)) (i_tail im @ rest)))) = ws"
    unfolding k t tw using words_of_joined [OF plain_words(2) [OF ws(1)]] ws(2) by simp
  then show ?thesis using Croot_words [OF mem, of "i_count im"] by simp
qed

text \<open>A tail of 127 characters and one more argument: the count is 128, of which \<open>Croot\<close> keeps no bit.\<close>

lemma exec_arguments_lost:
  assumes ws: "list_all plain_word ws" "length (joined ws) = 127" "plain_word x"
    and ex: "execvp B name (prog # c_strings (ws @ [x])) f0 d1 d2 l = (Some im, l')"
  shows "length (i_tail im) = 128 \<and> (\<exists>buf. Croot (i_count im) (i_tail im @ rest) = Some ([], buf))"
proof -
  obtain c cs where x: "x = c # cs" "c \<noteq> 0" using ws(3) by (cases x) (auto simp: plain_word_def)
  have t: "i_tail im = joined ws @ [32]"
    using execvp_tail(1) [OF ex] tail_args_full [OF plain_words(1) [OF ws(1)] ws(2) x] by (simp add: c_strings_def)
  then have "i_count im = 128" using execvp_tail(2) [OF ex] ws(2) by simp
  then have k: "unat (i_count im AND 0x7f) = 0" by simp
  have mem: "127 \<le> length (i_tail im @ rest)" using t ws(2) by simp
  have "words_of [] = []" by (rule words_of_Nil)
  then show ?thesis using Croot_words [OF mem, of "i_count im"] k t ws(2) by simp
qed

section \<open>Overlays\<close>

definition read_chan :: "nat \<Rightarrow> nat \<Rightarrow> 'b lib \<Rightarrow> bool" where
  "read_chan fd i l \<longleftrightarrow> fd < length (chantab l) \<and> c_read (chantab l ! fd) = 1 \<and> c_arg (chantab l ! fd) = Ent i"

lemma read_chan_fd:
  "read_chan fd i l \<Longrightarrow>
   read_fd B (int fd) len l = (case filerd B i (unat len) l of (n, d, l') \<Rightarrow> Some (Ok (int n, d) l'))"
  by (simp add: read_chan_def read_fd_def chan_at_def Let_def)

lemma read_chan_bytes:
  assumes B: "bdos_files B recs" and l: "read_chan fd i l" "chans_ok l" "file_at recs i l m x off"
    and n: "place x off + unat n < 8388480" "0 < unat n" "present m (place x off) (unat n)"
  shows "\<exists>l' x' off'. read_fd B (int fd) n l = Some (Ok (int (unat n), bytes_at m (place x off) (unat n)) l') \<and>
    read_chan fd i l' \<and> chans_ok l' \<and> file_at recs i l' m x' off' \<and> place x' off' = place x off + unat n"
proof -
  obtain l' x' off' where r: "filerd B i (unat n) l = (unat n, bytes_at m (place x off) (unat n), l')"
    "file_at recs i l' m x' off'" "place x' off' = place x off + unat n"
    using filerd_bytes [OF B l(3) n] by blast
  have "chantab l' = chantab l" using chantab_filerd [of B i "unat n" l] r(1) by simp
  then have "read_chan fd i l'" "chans_ok l'" using l(1,2) by (simp_all add: read_chan_def chans_ok_def)
  then show ?thesis using r read_chan_fd [OF l(1)] by auto
qed

lemma ovld_loads:
  assumes B: "bdos_files B recs" and o: "open_overlay B ovname l = Ok (int fd) l1"
    and l: "read_chan fd i l1" "chans_ok l1" "file_at recs i l1 m 0 0"
    and h: "hdr = header_of (bytes_at m 0 10)" "magic hdr = 0xf1" "ovaddr hdr + ovsize hdr + ovbss hdr \<le> mbot"
    and s: "0 < unat (ovsize hdr)" "present m 0 (10 + unat (ovsize hdr))"
  shows "\<exists>l'. ovld B ovname mbot mem l =
    Some (Ok (Loaded (ovbgn hdr), store_bytes (ovaddr hdr) (bytes_at m 10 (unat (ovsize hdr))) mem) l')"
proof -
  have p0: "place 0 0 = 0" by (simp add: place_def)
  have fd: "fd < MAXCHAN" using l(1,2) by (simp add: read_chan_def chans_ok_def)
  have pr: "present m 0 10" "present m 10 (unat (ovsize hdr))"
    using s(2) by (auto simp: present_def)
  have big: "unat (ovsize hdr) < 65536" by (rule unat_u16_lt)
  obtain l2 x2 o2 where r1: "read_fd B (int fd) 10 l1 = Some (Ok (10, bytes_at m 0 10) l2)"
    "read_chan fd i l2" "chans_ok l2" "file_at recs i l2 m x2 o2" "place x2 o2 = 10"
    using read_chan_bytes [OF B l, of 10] pr(1) p0 by auto
  obtain l3 where r2: "read_fd B (int fd) (ovsize hdr) l2 =
      Some (Ok (int (unat (ovsize hdr)), bytes_at m 10 (unat (ovsize hdr))) l3)" "chans_ok l3"
    using read_chan_bytes [OF B r1(2-4), of "ovsize hdr"] r1(5) s(1) pr(2) big by fastforce
  obtain r l4 where c: "close_fd B (int fd) l3 = Ok r l4" using close_fd_chans [OF r2(2) fd] by blast
  have sr: "\<not> short_read (int (unat (ovsize hdr))) (ovsize hdr)" by (simp add: short_read_def)
  have le: "\<not> mbot < ovaddr hdr + ovsize hdr + ovbss hdr" using h(3) by simp
  show ?thesis
    using o r1(1) r2(1) c sr le h(2) by (simp add: ovld_def Let_def h(1) [symmetric])
qed

lemma store_bytes_at:
  assumes "unat a + length d \<le> 65536"
  shows "store_bytes a d m x =
    (if unat a \<le> unat x \<and> unat x < unat a + length d then d ! (unat x - unat a) else m x)"
proof (cases "unat a \<le> unat x")
  case True
  then have "unat (x - a) = unat x - unat a" by (simp add: unat_sub word_le_nat_alt)
  then show ?thesis using True by (auto simp: store_bytes_def)
next
  case False
  have "unat (x - a) = 65536 + unat x - unat a"
    using False unat_sub_if_size [of x a] by (simp add: word_size)
  then show ?thesis using False assms unat_u16_lt [of a] by (auto simp: store_bytes_def)
qed

end
