(* ===== verification/Aztec_Math.thy ===== *)
theory Aztec_Math
  imports Complex_Main CPM_Prelude
begin

text \<open>
  The mathematical functions of the C library in \<^verbatim>\<open>disks/I/2\<close>: \<^verbatim>\<open>SQRT.C\<close>, \<^verbatim>\<open>EXP.C\<close>, \<^verbatim>\<open>LOG.C\<close>, \<^verbatim>\<open>POW.C\<close>, \<^verbatim>\<open>SIN.C\<close>,
  \<^verbatim>\<open>TAN.C\<close>, \<^verbatim>\<open>ASIN.C\<close>, \<^verbatim>\<open>ATAN.C\<close>, \<^verbatim>\<open>SINH.C\<close>, \<^verbatim>\<open>TANH.C\<close> and \<^verbatim>\<open>FLOOR.C\<close>. The arithmetic on \<open>double\<close> (the assembler
  package of the compiler) is an argument: addition, subtraction, multiplication, division and
  negation, comparisons, the value of a decimal constant \<open>n * 10 ^ e\<close>, \<open>fabs\<close>, \<open>ldexp\<close>, \<open>frexp\<close>, \<open>modf\<close> (fraction
  and integral part), the conversions from and to \<open>int\<close>, and the fault of a division.
  Every function takes \<open>errno\<close> and returns it with its result.
\<close>

section \<open>Arithmetic\<close>

record 'd fp =
  fl_add :: "'d \<Rightarrow> 'd \<Rightarrow> 'd"
  fl_sub :: "'d \<Rightarrow> 'd \<Rightarrow> 'd"
  fl_mul :: "'d \<Rightarrow> 'd \<Rightarrow> 'd"
  fl_div :: "'d \<Rightarrow> 'd \<Rightarrow> 'd"
  fl_neg :: "'d \<Rightarrow> 'd"
  fl_lt :: "'d \<Rightarrow> 'd \<Rightarrow> bool"
  fl_eq :: "'d \<Rightarrow> 'd \<Rightarrow> bool"
  fl_dec :: "int \<Rightarrow> int \<Rightarrow> 'd"
  fl_abs :: "'d \<Rightarrow> 'd"
  fl_ldexp :: "'d \<Rightarrow> int \<Rightarrow> 'd"
  fl_frexp :: "'d \<Rightarrow> 'd \<times> int"
  fl_modf :: "'d \<Rightarrow> 'd \<times> 'd"
  fl_of_int :: "int \<Rightarrow> 'd"
  fl_to_int :: "'d \<Rightarrow> int"
  fl_fault :: "'d \<Rightarrow> 'd \<Rightarrow> nat"

abbreviation (input) ERANGE :: int where "ERANGE \<equiv> - 20"
abbreviation (input) EDOM :: int where "EDOM \<equiv> - 21"

definition fl_le :: "'d fp \<Rightarrow> 'd \<Rightarrow> 'd \<Rightarrow> bool" where
  "fl_le F x y \<longleftrightarrow> fl_lt F x y \<or> fl_eq F x y"

definition HUGE_d :: "'d fp \<Rightarrow> 'd" where "HUGE_d F = fl_dec F 52 150"
definition LOGHUGE :: "'d fp \<Rightarrow> 'd" where "LOGHUGE F = fl_dec F 3493 (- 1)"
definition LOGTINY :: "'d fp \<Rightarrow> 'd" where "LOGTINY F = fl_dec F (- 3548) (- 1)"

text \<open>
  The polynomial macros: a start value, then for each coefficient one multiplication by the argument and
  one addition, or subtraction where the coefficient is written with a minus sign.
\<close>

definition add_coeff :: "'d fp \<Rightarrow> 'd \<Rightarrow> int \<times> int \<Rightarrow> 'd" where
  "add_coeff F a = (\<lambda>(n, e). if n < 0 then fl_sub F a (fl_dec F (- n) e) else fl_add F a (fl_dec F n e))"

definition horner :: "'d fp \<Rightarrow> 'd \<Rightarrow> 'd \<Rightarrow> (int \<times> int) list \<Rightarrow> 'd" where
  "horner F g a cs = foldl (\<lambda>a c. add_coeff F (fl_mul F a g) c) a cs"

section \<open>Square root\<close>

definition fp_sqrt :: "'d fp \<Rightarrow> 'd \<Rightarrow> int \<Rightarrow> 'd \<times> int" where
  "fp_sqrt F x err =
     (if fl_eq F x (fl_dec F 0 0) then (x, err)
      else if fl_lt F x (fl_dec F 0 0) then (fl_dec F 0 0, EDOM)
      else case fl_frexp F x of (f, n) \<Rightarrow>
           let y0 = fl_add F (fl_dec F 41731 (- 5)) (fl_mul F (fl_dec F 59016 (- 5)) f);
               y1 = fl_add F y0 (fl_div F f y0);
               y2 = fl_add F (fl_mul F (fl_dec F 25 (- 2)) y1) (fl_div F f y1);
               y3 = fl_mul F (fl_dec F 5 (- 1)) (fl_add F y2 (fl_div F f y2));
               y4 = fl_add F y3 (fl_mul F (fl_dec F 5 (- 1)) (fl_sub F (fl_div F f y3) y3))
           in if odd n
              then (fl_ldexp F (fl_mul F y4 (fl_dec F 70710678118654752440 (- 20))) ((n + 1) div 2), err)
              else (fl_ldexp F y4 (n div 2), err))"

section \<open>Exponential, logarithm and power\<close>

definition fp_exp :: "'d fp \<Rightarrow> 'd \<Rightarrow> int \<Rightarrow> 'd \<times> int" where
  "fp_exp F x err =
     (if fl_lt F (LOGHUGE F) x then (HUGE_d F, ERANGE)
      else if fl_lt F x (LOGTINY F) then (fl_dec F 0 0, ERANGE)
      else if fl_lt F (fl_abs F x) (fl_dec F 2710505 (- 26)) then (fl_dec F 1 0, err)
      else let (z0, xn0) = fl_modf F (fl_mul F x (fl_dec F 14426950408889634074 (- 19)));
               xn = (if fl_le F (fl_dec F 5 (- 1)) z0 then fl_add F xn0 (fl_dec F 1 0) else xn0);
               n = fl_to_int F xn;
               (z1, xi) = fl_modf F x;
               g = fl_add F (fl_add F (fl_sub F xi (fl_mul F xn (fl_dec F 693359375 (- 9)))) z1)
                     (fl_mul F xn (fl_dec F 21219444005469058277 (- 23)));
               z = fl_mul F g g;
               p = horner F z (fl_dec F 165203300268279130 (- 22)) [(694360001511792852, - 20), (249999999999999993, - 18)];
               q = horner F z (fl_dec F 495862884905441294 (- 21)) [(555538666969001188, - 19), (500000000000000000, - 18)];
               r = fl_mul F p g;
               r1 = fl_add F (fl_dec F 5 (- 1)) (fl_div F r (fl_sub F q r))
           in (fl_ldexp F r1 (n + 1), err))"

definition fp_log :: "'d fp \<Rightarrow> 'd \<Rightarrow> int \<Rightarrow> 'd \<times> int" where
  "fp_log F x err =
     (if fl_le F x (fl_dec F 0 0) then (fl_neg F (HUGE_d F), EDOM)
      else case fl_frexp F x of (f, n0) \<Rightarrow>
           let half = fl_dec F 5 (- 1);
               (n, znum, zden) =
                 (if fl_lt F (fl_dec F 70710678118654752440 (- 20)) f
                  then (n0, fl_sub F (fl_sub F f half) half, fl_add F (fl_mul F f half) half)
                  else let znum = fl_sub F f half in (n0 - 1, znum, fl_add F (fl_mul F znum half) half));
               z = fl_div F znum zden;
               w = fl_mul F z z;
               a = horner F w (fl_dec F (- 78956112887491257267) (- 20)) [(16383943563021534222, - 18), (- 64124943423745581147, - 18)];
               b = horner F w (add_coeff F w (- 35667977739034646171, - 18))
                     [(31203222091924532844, - 17), (- 76949932108494879777, - 17)];
               Rz = fl_add F z (fl_mul F z (fl_div F (fl_mul F w a) b));
               xn = fl_of_int F n
           in (fl_add F (fl_add F (fl_mul F xn (fl_dec F (- 2121944400546905827679) (- 25))) Rz)
                 (fl_mul F xn (fl_dec F 693359375 (- 9))), err))"

definition fp_log10 :: "'d fp \<Rightarrow> 'd \<Rightarrow> int \<Rightarrow> 'd \<times> int" where
  "fp_log10 F x err = apfst (\<lambda>l. fl_mul F l (fl_dec F 43429448190325182765 (- 20))) (fp_log F x err)"

definition fp_pow :: "'d fp \<Rightarrow> 'd \<Rightarrow> 'd \<Rightarrow> int \<Rightarrow> 'd \<times> int" where
  "fp_pow F a b err =
     (let zero = fl_dec F 0 0 in
      if fl_le F a zero
      then if fl_lt F a zero \<or> fl_eq F a zero \<and> fl_le F b zero then (fl_neg F (HUGE_d F), EDOM) else (zero, err)
      else case fp_log F a err of (l, err1) \<Rightarrow>
           let loga = fl_mul F l b
           in if fl_lt F (LOGHUGE F) loga then (HUGE_d F, ERANGE)
              else if fl_lt F loga (LOGTINY F) then (zero, ERANGE)
              else fp_exp F loga err1)"

section \<open>Sine and tangent\<close>

definition sincos :: "'d fp \<Rightarrow> 'd \<Rightarrow> 'd \<Rightarrow> bool \<Rightarrow> int \<Rightarrow> 'd \<times> int" where
  "sincos F x y neg err =
     (if fl_le F (fl_dec F 67465 5) y then (fl_dec F 0 0, ERANGE)
      else let (fr, xn0) = fl_modf F (fl_mul F y (fl_dec F 31830988618379067154 (- 20)));
               xn1 = (if fl_le F (fl_dec F 5 (- 1)) fr then fl_add F xn0 (fl_dec F 1 0) else xn0);
               neg1 = (if odd (fl_to_int F xn1) then \<not> neg else neg);
               xn = (if fl_eq F (fl_abs F x) y then xn1 else fl_sub F xn1 (fl_dec F 5 (- 1)));
               (g0, xi) = fl_modf F (fl_abs F x);
               f = fl_add F (fl_add F (fl_sub F xi (fl_mul F xn (fl_dec F 31416015625 (- 10)))) g0)
                     (fl_mul F xn (fl_dec F 89089102067615373566 (- 25)));
               f1 = (if fl_lt F (fl_dec F 23283 (- 14)) (fl_abs F f)
                     then let g = fl_mul F f f;
                              r = fl_mul F (horner F g (fl_dec F 27204790957888846175 (- 34))
                                    [(- 76429178068910467734, - 32), (16058936490371589114, - 29), (- 25052106798274584544, - 27),
                                     (27557319210152756119, - 25), (- 19841269841201840457, - 23), (83333333333331650314, - 22),
                                     (- 16666666666666665052, - 20)]) g
                          in fl_add F f (fl_mul F f r)
                     else f)
           in (if neg1 then fl_neg F f1 else f1, err))"

definition fp_sin :: "'d fp \<Rightarrow> 'd \<Rightarrow> int \<Rightarrow> 'd \<times> int" where
  "fp_sin F x err = (if fl_lt F x (fl_dec F 0 0) then sincos F x (fl_neg F x) True err else sincos F x x False err)"

definition fp_cos :: "'d fp \<Rightarrow> 'd \<Rightarrow> int \<Rightarrow> 'd \<times> int" where
  "fp_cos F x err = sincos F x (fl_add F (fl_abs F x) (fl_dec F 157079632679489661923 (- 20))) False err"

text \<open>\<open>flag\<close> is 2 for the cotangent; with the parity of \<open>xn\<close> the cases fall through as in the source.\<close>

definition tansub :: "'d fp \<Rightarrow> 'd \<Rightarrow> 'd \<Rightarrow> bool \<Rightarrow> int \<Rightarrow> 'd \<times> int" where
  "tansub F x y ctn err =
     (if fl_lt F (fl_dec F 674652 4) y then (fl_dec F 0 0, ERANGE)
      else let (fr, xn0) = fl_modf F (fl_mul F x (fl_dec F 63661977236758134308 (- 20)));
               xn = (if fl_le F (fl_dec F 5 (- 1)) fr
                     then fl_add F xn0 (if fl_lt F x (fl_dec F 0 0) then fl_dec F (- 1) 0 else fl_dec F 1 0) else xn0);
               f = fl_add F (fl_sub F x (fl_mul F xn (fl_dec F 157080078125 (- 11))))
                     (fl_mul F xn (fl_dec F 4454455103380768678308 (- 27)));
               (xnum, xden) =
                 (if fl_lt F (fl_abs F f) (fl_dec F 233 (- 12)) then (f, fl_dec F 1 0)
                  else let g = fl_mul F f f in
                    (fl_add F (fl_mul F (fl_mul F (horner F g (fl_dec F (- 17861707342254426711) (- 24))
                        [(34248878235890589960, - 22), (- 13338350006421960681, - 20)]) g) f) f,
                     horner F g (fl_dec F 49819433993786512270 (- 26))
                        [(- 31181531907010027307, - 23), (25663832289440112864, - 21), (- 46671683339755294240, - 20), (10, - 1)]))
           in (case (ctn, odd (fl_to_int F xn)) of
                 (False, True) \<Rightarrow> fl_div F xden (fl_neg F xnum)
               | (True, False) \<Rightarrow> fl_div F xden xnum
               | (True, True) \<Rightarrow> fl_div F (fl_neg F xnum) xden
               | (False, False) \<Rightarrow> fl_div F xnum xden, err))"

definition fp_tan :: "'d fp \<Rightarrow> 'd \<Rightarrow> int \<Rightarrow> 'd \<times> int" where
  "fp_tan F x err = tansub F x (fl_abs F x) False err"

definition fp_cotan :: "'d fp \<Rightarrow> 'd \<Rightarrow> int \<Rightarrow> 'd \<times> int" where
  "fp_cotan F x err =
     (let y = fl_abs F x in
      if fl_lt F y (fl_dec F 191 (- 154))
      then (if fl_lt F x (fl_dec F 0 0) then fl_neg F (HUGE_d F) else HUGE_d F, ERANGE)
      else tansub F x y True err)"

section \<open>Inverse functions\<close>

definition arcsine :: "'d fp \<Rightarrow> 'd \<Rightarrow> bool \<Rightarrow> int \<Rightarrow> 'd \<times> int" where
  "arcsine F x flg err =
     (let y = fl_abs F x;
          zero = fl_dec F 0 0; half = fl_dec F 5 (- 1);
          rat = (\<lambda>y g. fl_add F y (fl_mul F y (fl_div F
                   (fl_mul F (horner F g (fl_dec F (- 69674573447350646411) (- 20))
                      [(10152522233806463645, - 18), (- 39688862997504877339, - 18), (57208227877891731407, - 18),
                       (- 27368494524164255994, - 18)]) g)
                   (horner F g (add_coeff F g (- 23823859153670238830, - 18))
                      [(15095270841030604719, - 17), (- 38186303361750149284, - 17), (41714430248260412556, - 17),
                       (- 16421096714498560795, - 17)]))));
          a = (\<lambda>i. if i then fl_dec F 78539816339744830962 (- 20) else zero);
          b = (\<lambda>i. if i then fl_dec F 78539816339744830962 (- 20) else fl_dec F 157079632679489661923 (- 20));
          fin = (\<lambda>i r. if flg
                  then if fl_lt F x zero then fl_add F (fl_add F (b i) r) (b i) else fl_add F (fl_sub F (a i) r) (a i)
                  else let r1 = fl_add F (fl_add F (a i) r) (a i) in if fl_lt F x zero then fl_neg F r1 else r1)
      in if fl_lt F y (fl_dec F 23 (- 11)) then (fin flg y, err)
         else if fl_lt F half y
         then if fl_lt F (fl_dec F 1 0) y then (zero, EDOM)
              else let g = fl_ldexp F (fl_add F (fl_sub F half y) half) (- 1);
                       (s, err1) = fp_sqrt F g err;
                       y1 = fl_neg F (fl_add F s s)
                   in (fin (\<not> flg) (rat y1 g), err1)
         else (fin flg (rat y (fl_mul F y y)), err))"

definition fp_asin :: "'d fp \<Rightarrow> 'd \<Rightarrow> int \<Rightarrow> 'd \<times> int" where
  "fp_asin F x err = arcsine F x False err"

definition fp_acos :: "'d fp \<Rightarrow> 'd \<Rightarrow> int \<Rightarrow> 'd \<times> int" where
  "fp_acos F x err = arcsine F x True err"

text \<open>The arc tangent of a number \<open>f0\<close> that is not negative, then with the sign of \<open>x\<close>.\<close>

definition atan_abs :: "'d fp \<Rightarrow> 'd \<Rightarrow> 'd" where
  "atan_abs F f0 =
     (let big = fl_lt F (fl_dec F 1 0) f0;
          f1 = (if big then fl_div F (fl_dec F 1 0) f0 else f0);
          mid = fl_lt F (fl_dec F 26794919243112270647 (- 20)) f1;
          half = fl_dec F 5 (- 1);
          f = (if mid
               then fl_div F (fl_add F (fl_sub F (fl_sub F (fl_mul F (fl_dec F 73205080756887729353 (- 20)) f1) half) half) f1)
                      (fl_add F (fl_dec F 173205080756887729353 (- 20)) f1)
               else f1);
          r0 = (if fl_lt F (fl_abs F f) (fl_dec F 23 (- 11)) then f
                else let g = fl_mul F f f in
                  fl_add F f (fl_mul F f (fl_div F
                    (fl_mul F (horner F g (fl_dec F (- 83758299368150059274) (- 20))
                       [(- 84946240351320683534, - 19), (- 20505855195861651981, - 18), (- 13688768894191926929, - 18)]) g)
                    (horner F g (add_coeff F g (15024001160028576121, - 18))
                       [(59578436142597344465, - 18), (86157349597130242515, - 18), (41066306682575781263, - 18)]))));
          r1 = (if big then fl_neg F r0 else r0);
          av = (if big then if mid then fl_dec F 104719755119659774615 (- 20) else fl_dec F 157079632679489661923 (- 20)
                else if mid then fl_dec F 52359877559829887308 (- 20) else fl_dec F 0 0)
      in fl_add F r1 av)"

definition fp_atan :: "'d fp \<Rightarrow> 'd \<Rightarrow> 'd" where
  "fp_atan F x = (let r = atan_abs F (fl_abs F x) in if fl_lt F x (fl_dec F 0 0) then fl_neg F r else r)"

definition fp_atan2 :: "'d fp \<Rightarrow> 'd \<Rightarrow> 'd \<Rightarrow> int \<Rightarrow> 'd \<times> int" where
  "fp_atan2 F v u err =
     (let zero = fl_dec F 0 0; piov2 = fl_dec F 157079632679489661923 (- 20) in
      if fl_eq F u zero
      then if fl_eq F v zero then (zero, EDOM) else (piov2, err)
      else let flterr = fl_fault F v u;
               f = (if flterr = 2 then piov2
                    else let f1 = (if flterr = 1 then zero else fp_atan F (fl_abs F (fl_div F v u)))
                         in if fl_lt F u zero then fl_sub F (fl_dec F 314159265358979323846 (- 20)) f1 else f1)
           in (if fl_lt F v zero then fl_neg F f else f, err))"

section \<open>Hyperbolic functions\<close>

definition fp_sinh :: "'d fp \<Rightarrow> 'd \<Rightarrow> int \<Rightarrow> 'd \<times> int" where
  "fp_sinh F x err =
     (let sign = fl_lt F x (fl_dec F 0 0); y = (if sign then fl_neg F x else x)
      in if fl_lt F (fl_dec F 1 0) y
         then let w = fl_sub F y (fl_dec F 6931610107421875000 (- 19));
                  (z, err1) =
                    (if fl_lt F (fl_dec F 3493 (- 1)) w then (HUGE_d F, ERANGE)
                     else case fp_exp F w err of (z, err1) \<Rightarrow>
                          let z1 = (if fl_lt F w (fl_dec F 1995 (- 2))
                                    then fl_sub F z (fl_div F (fl_dec F 24999308500451499336 (- 20)) z) else z)
                          in (fl_add F z1 (fl_mul F (fl_dec F 13830277879601902638 (- 24)) z1), err1))
              in (if sign then fl_neg F z else z, err1)
         else if fl_lt F y (fl_dec F 23 (- 11)) then (x, err)
         else let z = fl_mul F x x in
              (fl_add F x (fl_mul F x (fl_mul F z (fl_div F
                (horner F z (fl_dec F (- 78966127417357099479) (- 20))
                   [(- 16375798202630751372, - 17), (- 11563521196851768270, - 15), (- 35181283430177117881, - 14)])
                (horner F z (add_coeff F z (- 27773523119650701667, - 17))
                   [(36162723109421836460, - 15), (- 21108770058106271242, - 13)])))), err))"

definition fp_cosh :: "'d fp \<Rightarrow> 'd \<Rightarrow> int \<Rightarrow> 'd \<times> int" where
  "fp_cosh F x err =
     (let y = fl_abs F x in
      if fl_lt F (fl_dec F 1 0) y
      then let w = fl_sub F y (fl_dec F 6931610107421875000 (- 19))
           in if fl_lt F (fl_dec F 3493 (- 1)) w then (HUGE_d F, ERANGE)
              else case fp_exp F w err of (z, err1) \<Rightarrow>
                   let z1 = (if fl_lt F w (fl_dec F 1995 (- 2))
                             then fl_add F z (fl_div F (fl_dec F 24999308500451499336 (- 20)) z) else z)
                   in (fl_add F z1 (fl_mul F (fl_dec F 13830277879601902638 (- 24)) z1), err1)
      else case fp_exp F y err of (z, err1) \<Rightarrow>
           (fl_add F (fl_mul F z (fl_dec F 5 (- 1))) (fl_div F (fl_dec F 5 (- 1)) z), err1))"

definition fp_tanh :: "'d fp \<Rightarrow> 'd \<Rightarrow> int \<Rightarrow> 'd \<times> int" where
  "fp_tanh F x err =
     (let f = fl_abs F x;
          (r, err1) =
            (if fl_lt F (fl_dec F 253 (- 1)) f then (fl_dec F 1 0, err)
             else if fl_lt F (fl_dec F 54930614433405484570 (- 20)) f
             then case fp_exp F (fl_add F f f) err of (e, err1) \<Rightarrow>
                  let r = fl_sub F (fl_dec F 5 (- 1)) (fl_div F (fl_dec F 1 0) (fl_add F e (fl_dec F 1 0)))
                  in (fl_add F r r, err1)
             else if fl_lt F f (fl_dec F 23 (- 11)) then (f, err)
             else let g = fl_mul F f f in
                  (fl_add F f (fl_mul F f (fl_div F
                     (fl_mul F (horner F g (fl_dec F (- 96437492777225469787) (- 20))
                        [(- 99225929672236083313, - 18), (- 16134119023996228053, - 16)]) g)
                     (horner F g (add_coeff F g (11274474380534949335, - 17))
                        [(22337720718962312926, - 16), (48402357071988688686, - 16)]))), err))
      in (if fl_lt F x (fl_dec F 0 0) then fl_neg F r else r, err1))"

section \<open>Rounding\<close>

text \<open>
  \<open>floor\<close> and \<open>ceil\<close> call each other on the negated argument; the depth of calls is bounded by the first
  argument, \<open>None\<close> means that it is not enough.
\<close>

fun floor_call :: "nat \<Rightarrow> 'd fp \<Rightarrow> 'd \<Rightarrow> 'd option"
and ceil_call :: "nat \<Rightarrow> 'd fp \<Rightarrow> 'd \<Rightarrow> 'd option" where
  "floor_call 0 F d = None"
| "floor_call (Suc n) F d =
     (if fl_lt F d (fl_dec F 0 0) then map_option (fl_neg F) (ceil_call n F (fl_neg F d)) else Some (snd (fl_modf F d)))"
| "ceil_call 0 F d = None"
| "ceil_call (Suc n) F d =
     (if fl_lt F d (fl_dec F 0 0) then map_option (fl_neg F) (floor_call n F (fl_neg F d))
      else case fl_modf F d of (fr, i) \<Rightarrow> Some (if fl_lt F (fl_dec F 0 0) fr then fl_add F i (fl_dec F 1 0) else i))"

end
