(* ===== verification/Aztec_Math_Spec.thy ===== *)
theory Aztec_Math_Spec
  imports Aztec_Math
begin

text \<open>
  Properties of the mathematical functions: symmetries that hold in every arithmetic with a sign, and the
  accuracy of \<open>sqrt\<close> and of \<open>floor\<close> and \<open>ceil\<close> apart from rounding, in the exact arithmetic of real numbers.
\<close>

section \<open>Symmetries\<close>

text \<open>What the functions use of an arithmetic with signs; a number equal to 0 has none.\<close>

locale signed_arith =
  fixes F :: "'d fp"
  assumes neg_neg: "fl_neg F (fl_neg F x) = x"
    and abs_neg: "fl_abs F (fl_neg F x) = fl_abs F x"
    and neg_zero: "fl_neg F (fl_dec F 0 0) = fl_dec F 0 0"
    and neg_lt: "\<not> fl_eq F x (fl_dec F 0 0) \<Longrightarrow> fl_lt F (fl_neg F x) (fl_dec F 0 0) \<longleftrightarrow> \<not> fl_lt F x (fl_dec F 0 0)"
begin

lemma sincos_sign: "sincos F (fl_neg F x) y (\<not> s) err = apfst (fl_neg F) (sincos F x y s err)"
  using neg_neg abs_neg neg_zero by (simp add: sincos_def Let_def split: prod.split)

lemma sin_odd:
  assumes x: "\<not> fl_eq F x (fl_dec F 0 0)"
  shows "fp_sin F (fl_neg F x) err = apfst (fl_neg F) (fp_sin F x err)"
proof (cases "fl_lt F x (fl_dec F 0 0)")
  case True
  have "fp_sin F (fl_neg F x) err = sincos F (fl_neg F x) (fl_neg F x) (\<not> True) err"
    using neg_lt [OF x] True by (simp add: fp_sin_def)
  then show ?thesis using True sincos_sign [of x "fl_neg F x" True] by (simp add: fp_sin_def)
next
  case False
  have "fp_sin F (fl_neg F x) err = sincos F (fl_neg F x) x (\<not> False) err"
    using neg_neg neg_lt [OF x] False by (simp add: fp_sin_def)
  then show ?thesis using False sincos_sign [of x x False] by (simp add: fp_sin_def)
qed

lemma cos_even: "fp_cos F (fl_neg F x) err = fp_cos F x err"
  by (simp add: fp_cos_def abs_neg sincos_def)

lemma cosh_even: "fp_cosh F (fl_neg F x) err = fp_cosh F x err"
  by (simp add: fp_cosh_def abs_neg)

lemma atan_odd: "\<not> fl_eq F x (fl_dec F 0 0) \<Longrightarrow> fp_atan F (fl_neg F x) = fl_neg F (fp_atan F x)"
  using neg_lt [of x] by (simp add: fp_atan_def Let_def abs_neg neg_neg)

lemma tanh_odd:
  "\<not> fl_eq F x (fl_dec F 0 0) \<Longrightarrow> fp_tanh F (fl_neg F x) err = apfst (fl_neg F) (fp_tanh F x err)"
  unfolding fp_tanh_def abs_neg Let_def using neg_lt [of x] neg_neg by (simp add: case_prod_unfold)

lemma asin_odd:
  "\<not> fl_eq F x (fl_dec F 0 0) \<Longrightarrow> fp_asin F (fl_neg F x) err = apfst (fl_neg F) (fp_asin F x err)"
  unfolding fp_asin_def arcsine_def abs_neg Let_def using neg_lt [of x] neg_neg neg_zero by (simp add: case_prod_unfold)

end

section \<open>Exact arithmetic\<close>

definition real_fp :: "real fp" where
  "real_fp =
     \<lparr>fl_add = (+), fl_sub = (-), fl_mul = (*), fl_div = (/), fl_neg = uminus, fl_lt = (<), fl_eq = (=),
      fl_dec = (\<lambda>n e. of_int n * 10 powr of_int e), fl_abs = abs, fl_ldexp = (\<lambda>x n. x * 2 powr of_int n),
      fl_frexp = (\<lambda>x. let n = \<lfloor>log 2 \<bar>x\<bar>\<rfloor> + 1 in (x / 2 powr of_int n, n)),
      fl_modf = (\<lambda>x. let i = of_int (if x < 0 then \<lceil>x\<rceil> else \<lfloor>x\<rfloor>) in (x - i, i)),
      fl_of_int = of_int, fl_to_int = (\<lambda>x. if x < 0 then \<lceil>x\<rceil> else \<lfloor>x\<rfloor>), fl_fault = (\<lambda>x y. 0)\<rparr>"

lemma real_ops:
  "fl_add real_fp x y = x + y" "fl_sub real_fp x y = x - y" "fl_mul real_fp x y = x * y" "fl_div real_fp x y = x / y"
  "fl_lt real_fp x y \<longleftrightarrow> x < y" "fl_eq real_fp x y \<longleftrightarrow> x = y" "fl_ldexp real_fp x n = x * 2 powr of_int n"
  "fl_dec real_fp 0 e = 0"
  by (simp_all add: real_fp_def)

interpretation exact: signed_arith real_fp
  by unfold_locales (auto simp: real_fp_def)

lemma floor_ceil_exact:
  "floor_call 2 real_fp d = Some (of_int \<lfloor>d\<rfloor>)" "ceil_call 2 real_fp d = Some (of_int \<lceil>d\<rceil>)"
proof -
  have fr: "0 < d - of_int \<lfloor>d\<rfloor> \<longleftrightarrow> \<lceil>d\<rceil> = \<lfloor>d\<rfloor> + 1" for d :: real
    using ceiling_correct [of d] floor_correct [of d] by linarith
  have nfr: "\<not> 0 < d - of_int \<lfloor>d\<rfloor> \<Longrightarrow> \<lceil>d\<rceil> = \<lfloor>d\<rfloor>" for d :: real
    using ceiling_correct [of d] floor_correct [of d] by linarith
  have F: "floor_call (Suc n) real_fp d = (if d < 0 then map_option uminus (ceil_call n real_fp (- d)) else Some (of_int \<lfloor>d\<rfloor>))"
    "ceil_call (Suc n) real_fp d = (if d < 0 then map_option uminus (floor_call n real_fp (- d)) else Some (of_int \<lceil>d\<rceil>))"
    for n d
    using fr [of d] nfr [of d] by (auto simp: real_fp_def Let_def)
  show "floor_call 2 real_fp d = Some (of_int \<lfloor>d\<rfloor>)" "ceil_call 2 real_fp d = Some (of_int \<lceil>d\<rceil>)"
    using F [of 1] F [of 0] by (auto simp: numeral_2_eq_2 ceiling_minus floor_minus)
qed

section \<open>Square root\<close>

text \<open>One step of Newton's iteration squares the relative error.\<close>

lemma newton_step:
  assumes s: "0 < (s :: real)" and y: "\<bar>y - s\<bar> \<le> d * s" and d: "d \<le> 1 / 2"
  shows "\<bar>(y + s * s / y) / 2 - s\<bar> \<le> d\<^sup>2 * s" "0 < y"
proof -
  have "s - d * s \<le> y" using y by linarith
  moreover have "d * s \<le> s / 2" using mult_right_mono [OF d, of s] s by simp
  ultimately have ys: "s / 2 \<le> y" by linarith
  then show yp: "0 < y" using s by linarith
  have e: "(y + s * s / y) / 2 - s = (y - s)\<^sup>2 / (2 * y)"
    using yp by (simp add: field_simps power2_eq_square)
  have sq: "(y - s)\<^sup>2 \<le> (d * s)\<^sup>2" using power_mono [OF y, of 2] by simp
  have "(y - s)\<^sup>2 / (2 * y) \<le> (d * s)\<^sup>2 / s"
    by (rule frac_le) (use sq ys s in auto)
  also have "\<dots> = d\<^sup>2 * s" using s by (simp add: power2_eq_square)
  finally show "\<bar>(y + s * s / y) / 2 - s\<bar> \<le> d\<^sup>2 * s" unfolding e using yp by simp
qed

text \<open>The linear start is within one percent on the interval of the mantissa.\<close>

lemma start_near:
  assumes "1 / 2 \<le> s\<^sup>2" "s \<le> 1" "0 < (s :: real)"
  shows "\<bar>41731 / 100000 + 59016 / 100000 * s\<^sup>2 - s\<bar> \<le> 1 / 100 * s"
proof -
  have s7: "7 / 10 \<le> s"
  proof (rule ccontr)
    assume "\<not> 7 / 10 \<le> s"
    then have "s * s < 7 / 10 * (7 / 10)" by (intro mult_strict_mono) (use assms(3) in auto)
    then show False using assms(1) by (simp add: power2_eq_square)
  qed
  have up: "59016 / 100000 * s\<^sup>2 + 41731 / 100000 \<le> 101 / 100 * s"
  proof (cases "s \<le> 8 / 10")
    case True
    have "(s - 70 / 100) * (8 / 10 - s) \<ge> 0" using s7 True by (intro mult_nonneg_nonneg) auto
    then have "s\<^sup>2 \<le> 15 / 10 * s - 56 / 100" by (simp add: power2_eq_square algebra_simps)
    then have q: "59016 / 100000 * s\<^sup>2 \<le> 59016 / 100000 * (15 / 10 * s - 56 / 100)" by (intro mult_left_mono) auto
    show ?thesis using q s7 by simp
  next
    case False
    have "(s - 8 / 10) * (1 - s) \<ge> 0" using False assms(2) by (intro mult_nonneg_nonneg) auto
    moreover have "(s - 8 / 10) * (1 - s) = 18 / 10 * s - 8 / 10 - s\<^sup>2" by (simp add: power2_eq_square field_simps)
    ultimately have "s\<^sup>2 \<le> 18 / 10 * s - 8 / 10" by linarith
    then have q: "59016 / 100000 * s\<^sup>2 \<le> 59016 / 100000 * (18 / 10 * s - 8 / 10)" by (intro mult_left_mono) auto
    show ?thesis using q assms(2) False by simp
  qed
  have "0 \<le> (s - 99 / 118)\<^sup>2" by simp
  then have "99 / 59 * s - 9801 / 13924 \<le> s\<^sup>2" by (simp add: power2_eq_square algebra_simps)
  then have q: "59016 / 100000 * (99 / 59 * s - 9801 / 13924) \<le> 59016 / 100000 * s\<^sup>2" by (intro mult_left_mono) auto
  have lo: "99 / 100 * s \<le> 59016 / 100000 * s\<^sup>2 + 41731 / 100000" using q s7 by simp
  show ?thesis using up lo by linarith
qed

lemma frexp_real:
  assumes "0 < x"
  shows "fl_frexp real_fp x = (x / 2 powr of_int (\<lfloor>log 2 x\<rfloor> + 1), \<lfloor>log 2 x\<rfloor> + 1)"
    "1 / 2 \<le> x / 2 powr of_int (\<lfloor>log 2 x\<rfloor> + 1)" "x / 2 powr of_int (\<lfloor>log 2 x\<rfloor> + 1) < 1"
proof -
  show "fl_frexp real_fp x = (x / 2 powr of_int (\<lfloor>log 2 x\<rfloor> + 1), \<lfloor>log 2 x\<rfloor> + 1)"
    using assms by (simp add: real_fp_def Let_def)
  define n where "n = \<lfloor>log 2 x\<rfloor> + 1"
  have x: "x = 2 powr log 2 x" using assms by simp
  have "of_int n - 1 \<le> log 2 x" "log 2 x < of_int n" unfolding n_def by linarith+
  then have "2 powr (of_int n - 1) \<le> x" "x < 2 powr of_int n"
    using x powr_mono [of "of_int n - 1" "log 2 x" 2] powr_less_mono [of "log 2 x" "of_int n" 2] by auto
  then show "1 / 2 \<le> x / 2 powr of_int (\<lfloor>log 2 x\<rfloor> + 1)" "x / 2 powr of_int (\<lfloor>log 2 x\<rfloor> + 1) < 1"
    unfolding n_def [symmetric] by (simp_all add: powr_diff field_simps)
qed

text \<open>The iteration of the source, on the mantissa.\<close>

definition sqrt_mantissa :: "real \<Rightarrow> real" where
  "sqrt_mantissa f =
     (let y0 = 41731 / 100000 + 59016 / 100000 * f; y1 = y0 + f / y0; y2 = 25 / 100 * y1 + f / y1;
          y3 = 5 / 10 * (y2 + f / y2) in y3 + 5 / 10 * (f / y3 - y3))"

lemma sqrt_mantissa_near:
  assumes "1 / 2 \<le> f" "f \<le> 1"
  shows "\<bar>sqrt_mantissa f - sqrt f\<bar> \<le> 1 / 10 ^ 32 * sqrt f"
proof -
  define s where "s = sqrt f"
  have s: "0 < s" "s * s = f" "s \<le> 1" "s\<^sup>2 = f" using assms by (simp_all add: s_def)
  define y0 where "y0 = 41731 / 100000 + 59016 / 100000 * f"
  define y1 where "y1 = (y0 + s * s / y0) / 2"
  define y2 where "y2 = (y1 + s * s / y1) / 2"
  define y3 where "y3 = (y2 + s * s / y2) / 2"
  define y4 where "y4 = (y3 + s * s / y3) / 2"
  have n0: "\<bar>y0 - s\<bar> \<le> 1 / 100 * s" using start_near [of s] s assms by (simp add: y0_def)
  note n1 = newton_step [OF s(1) n0, folded y1_def, simplified]
  have n1': "\<bar>y1 - s\<bar> \<le> 1 / 10 ^ 4 * s" using n1(1) by (simp add: power2_eq_square)
  have n2: "\<bar>y2 - s\<bar> \<le> 1 / 10 ^ 8 * s" "0 < y1"
    using newton_step [OF s(1) n1', folded y2_def] by (simp_all add: power2_eq_square)
  have n3: "\<bar>y3 - s\<bar> \<le> 1 / 10 ^ 16 * s" "0 < y2"
    using newton_step [OF s(1) n2(1), folded y3_def] by (simp_all add: power2_eq_square)
  have n4: "\<bar>y4 - s\<bar> \<le> 1 / 10 ^ 32 * s" "0 < y3"
    using newton_step [OF s(1) n3(1), folded y4_def] by (simp_all add: power2_eq_square)
  have e1: "y0 + f / y0 = 2 * y1" using s(2) by (simp add: y1_def)
  have e2: "25 / 100 * (2 * y1) + f / (2 * y1) = y2" using s(2) n2(2) by (simp add: y2_def field_simps)
  have e3: "5 / 10 * (y2 + f / y2) = y3" using s(2) by (simp add: y3_def)
  have e4: "y3 + 5 / 10 * (f / y3 - y3) = y4" using s(2) by (simp add: y4_def field_simps)
  have "sqrt_mantissa f = y4"
    unfolding sqrt_mantissa_def Let_def y0_def [symmetric] e1 e2 e3 e4 ..
  then show ?thesis using n4(1) by (simp add: s_def)
qed

lemma sqrt_scale:
  assumes "0 < x"
  shows "sqrt x = sqrt (x / 2 powr of_int n) * 2 powr (of_int n / 2)"
proof -
  have "sqrt (2 powr of_int n) = 2 powr (of_int n / 2 :: real)" by (simp add: powr_half_sqrt [symmetric] powr_powr)
  then show ?thesis using real_sqrt_mult [of "x / 2 powr of_int n" "2 powr of_int n"] by simp
qed

lemma root_half: "\<bar>70710678118654752440 / 10 ^ 20 * sqrt 2 - 1\<bar> \<le> 1 / 10 ^ 19"
proof -
  define c :: real where "c = 70710678118654752440 / 10 ^ 20"
  have "\<bar>c * sqrt 2 - 1\<bar> * (c * sqrt 2 + 1) = \<bar>(c * sqrt 2 - 1) * (c * sqrt 2 + 1)\<bar>"
    by (simp add: abs_mult c_def)
  also have "(c * sqrt 2 - 1) * (c * sqrt 2 + 1) = 2 * c\<^sup>2 - 1" by (simp add: algebra_simps power2_eq_square)
  also have "\<bar>2 * c\<^sup>2 - 1\<bar> \<le> 1 / 10 ^ 19" by (simp add: c_def power2_eq_square)
  finally have *: "\<bar>c * sqrt 2 - 1\<bar> * (c * sqrt 2 + 1) \<le> 1 / 10 ^ 19" .
  have "\<bar>c * sqrt 2 - 1\<bar> \<le> \<bar>c * sqrt 2 - 1\<bar> * (c * sqrt 2 + 1)"
    using mult_left_mono [of 1 "c * sqrt 2 + 1" "\<bar>c * sqrt 2 - 1\<bar>"] by (simp add: c_def)
  then show ?thesis using * unfolding c_def by linarith
qed

lemma sqrt_accurate:
  assumes x: "0 < x"
  shows "\<bar>fst (fp_sqrt real_fp x err) - sqrt x\<bar> \<le> 1 / 10 ^ 18 * sqrt x"
proof -
  define n where "n = \<lfloor>log 2 x\<rfloor> + 1"
  define f where "f = x / 2 powr of_int n"
  have fr: "fl_frexp real_fp x = (f, n)" "1 / 2 \<le> f" "f \<le> 1" using frexp_real [OF x] by (simp_all add: n_def f_def)
  define y where "y = sqrt_mantissa f"
  have near: "\<bar>y - sqrt f\<bar> \<le> 1 / 10 ^ 32 * sqrt f" using sqrt_mantissa_near [OF fr(2,3)] by (simp add: y_def)
  have sf: "0 < sqrt f" using fr(2) by simp
  define p where "p = (2 :: real) powr (of_int n / 2)"
  have p: "0 < p" "sqrt x = sqrt f * p" using sqrt_scale [OF x, of n] by (simp_all add: p_def f_def)
  define c :: real where "c = 70710678118654752440 / 10 ^ 20"
  have dec: "fl_dec real_fp 41731 (- 5) = 41731 / 100000" "fl_dec real_fp 59016 (- 5) = 59016 / 100000"
    "fl_dec real_fp 25 (- 2) = 25 / 100" "fl_dec real_fp 5 (- 1) = 5 / 10" "fl_dec real_fp 70710678118654752440 (- 20) = c"
    by (simp_all add: real_fp_def powr_minus powr_numeral field_simps c_def)
  have val: "fst (fp_sqrt real_fp x err) = (if odd n then y * c * 2 powr of_int ((n + 1) div 2) else y * 2 powr of_int (n div 2))"
  proof -
    have "x \<noteq> 0" "\<not> x < 0" using x by simp_all
    then show ?thesis unfolding y_def sqrt_mantissa_def fp_sqrt_def Let_def fr(1) prod.case real_ops dec by simp
  qed
  show ?thesis
  proof (cases "odd n")
    case True
    then obtain k where k: "n = 2 * k + 1" by (elim oddE)
    have two: "2 powr of_int ((n + 1) div 2) = sqrt 2 * p"
    proof -
      have "(2 :: real) powr (of_int k + 1) = 2 powr (1 / 2) * 2 powr (of_int k + 1 / 2)"
        unfolding powr_add [symmetric] by (simp add: add.commute)
      then show ?thesis unfolding p_def k by (simp add: powr_half_sqrt add_divide_distrib add.commute)
    qed
    have "fst (fp_sqrt real_fp x err) - sqrt x = (y - sqrt f) * (c * sqrt 2) * p + sqrt f * (c * sqrt 2 - 1) * p"
      using val True two p(2) by (simp add: algebra_simps)
    also have "\<bar>\<dots>\<bar> \<le> \<bar>y - sqrt f\<bar> * \<bar>c * sqrt 2\<bar> * p + sqrt f * \<bar>c * sqrt 2 - 1\<bar> * p"
      using abs_triangle_ineq [of "(y - sqrt f) * (c * sqrt 2) * p" "sqrt f * (c * sqrt 2 - 1) * p"] p(1) sf by (simp add: abs_mult)
    also have "\<dots> \<le> (1 / 10 ^ 32 * sqrt f) * 2 * p + sqrt f * (1 / 10 ^ 19) * p"
    proof -
      have h: "\<bar>c * sqrt 2 - 1\<bar> \<le> 1 / 10 ^ 19" using root_half by (simp add: c_def)
      moreover have "1 / 10 ^ 19 \<le> (1 :: real)" by simp
      ultimately have "\<bar>c * sqrt 2\<bar> \<le> 2" by linarith
      then have "\<bar>y - sqrt f\<bar> * \<bar>c * sqrt 2\<bar> \<le> (1 / 10 ^ 32 * sqrt f) * 2" by (intro mult_mono near) (use sf in auto)
      moreover have "sqrt f * \<bar>c * sqrt 2 - 1\<bar> \<le> sqrt f * (1 / 10 ^ 19)" using h sf by (intro mult_left_mono) auto
      ultimately show ?thesis using p(1) by (intro add_mono mult_right_mono) auto
    qed
    also have "\<dots> \<le> 1 / 10 ^ 18 * (sqrt f * p)" using sf p(1) by (simp add: field_simps)
    finally show ?thesis using p(2) by simp
  next
    case False
    then have two: "2 powr of_int (n div 2) = p" unfolding p_def by (auto elim!: evenE)
    have "fst (fp_sqrt real_fp x err) - sqrt x = (y - sqrt f) * p" using val False two p(2) by (simp add: algebra_simps)
    then have "\<bar>fst (fp_sqrt real_fp x err) - sqrt x\<bar> \<le> 1 / 10 ^ 32 * sqrt f * p"
      using near p(1) by (simp add: abs_mult mult_right_mono)
    also have "\<dots> \<le> 1 / 10 ^ 18 * (sqrt f * p)" using sf p(1) by (simp add: field_simps)
    finally show ?thesis using p(2) by simp
  qed
qed

end
