(* ===== verification/Program_Properties.thy ===== *)
theory Program_Properties
  imports Stream_Properties Aztec_Tiny_Spec Aztec_Start_Spec Aztec_Math_Spec
begin

text \<open>
  The properties of the library for tiny programs, of program start and program loading, and of the
  mathematical functions.
\<close>

section \<open>Streams of tiny programs\<close>

lemma store_quiet: "quiet_reads store_bdos store_recs"
  by (simp add: quiet_reads_def store_bdos_def split: option.splits)

text \<open>Two streams for reading on the file of the examples, and one for writing it.\<close>

definition demo_tiny :: "tiny_ptr option list \<Rightarrow> nat option \<Rightarrow> rec_store tiny" where
  "demo_tiny ps w =
     \<lparr>t_bp = ps, writbuf = replicate 1024 0, readbuf = replicate 1024 0, bufeof = 0, curread = None, writfp = w,
      t_lib = (demo_lib None)\<lparr>fcbtab := replicate 4 \<lparr>ent_fcb = demo_fcb, offset = 0, flags = 3, user = 0\<rparr>\<rparr>\<rparr>"

lemma demo_tiny_at:
  assumes "k < 4"
  shows "file_at store_recs k (t_lib (demo_tiny ps w)) [0 \<mapsto> replicate 128 0] 0 0"
  using assms by (auto simp: file_at_def demo_tiny_def demo_lib_def ent_def demo_fcb_def store_recs_def fcb_key_def)

lemma demo_tiny_reader:
  assumes "k < 2"
  shows "tiny_reader store_recs k (demo_tiny [Some (Readbuf 0), Some (Readbuf 0), None, None] None) [0 \<mapsto> replicate 128 0] 0"
  unfolding tiny_reader_def
proof (intro conjI exI [of _ 0])
  show "file_at store_recs k (t_lib (demo_tiny [Some (Readbuf 0), Some (Readbuf 0), None, None] None)) [0 \<mapsto> replicate 128 0] 0 0"
    using assms by (intro demo_tiny_at) simp
qed (use assms in \<open>auto simp: demo_tiny_def present_def less_2_cases_iff\<close>)

text \<open>
  C18. The reading streams of a tiny program share one buffer of eight records and still behave as
  independent readers: for every order in which a program reads characters from its streams, each
  stream delivers the bytes of its own file, one after the other, and -1 at the end.
\<close>

theorem tiny_shared:
  assumes "bdos_files B recs" and "quiet_reads B recs" and "set ks \<subseteq> S"
    and "\<forall>k \<in> S. tiny_reader recs k t (M k) (P k) \<and> P k + length ks + 1024 < 8388480"
  shows "\<exists>t'. tiny_run B ks t = Some (spec_run M P ks, t')"
  using tiny_run_spec [OF assms(1,2,4,3)] .

theorem tiny_shared_witness:
  "\<exists>t'. tiny_run store_bdos [0, 1, 0] (demo_tiny [Some (Readbuf 0), Some (Readbuf 0), None, None] None) =
     Some (spec_run (\<lambda>k. [0 \<mapsto> replicate 128 0]) (\<lambda>k. 0) [0, 1, 0], t')"
  by (rule tiny_shared [OF store_files store_quiet, of _ "{0, 1}"]) (auto simp: demo_tiny_reader)

text \<open>
  What a tiny program puts to its writing stream is in the file after the flush that \<open>fclose\<close>
  makes, in order, filled up with end marks to a whole record.
\<close>

theorem tiny_output:
  assumes "bdos_files B recs" and "tiny_writer recs k t m p []" and "p + length cs + 4096 < 8388480"
  shows "\<exists>t1 q t2 m' x. tiny_puts B cs k t = Ok () t1 \<and> t_bp t1 ! k = Some (Writbuf q) \<and> tiny_flush B q t1 = Ok 0 t2 \<and>
    file_at recs k (t_lib t2) m' x 0 \<and> wrote m p (cs @ replicate (round_up q - q) 0x1a) m' \<and>
    (p + length cs + (round_up q - q)) mod 128 = 0"
proof -
  obtain t1 where t1: "tiny_puts B cs k t = Ok () t1" "tiny_writer recs k t1 m p cs"
    using tiny_puts_ok [OF assms(1,2), of cs] assms(3) by auto
  show ?thesis using t1(1) tiny_last_flush [OF assms(1) t1(2)] assms(3) by fastforce
qed

theorem tiny_output_witness:
  "\<exists>t1 q t2 m' x. tiny_puts store_bdos (replicate 1500 65) 0 (demo_tiny [Some (Writbuf 0), None, None, None] (Some 0)) = Ok () t1 \<and>
     t_bp t1 ! 0 = Some (Writbuf q) \<and> tiny_flush store_bdos q t1 = Ok 0 t2 \<and> file_at store_recs 0 (t_lib t2) m' x 0 \<and>
     wrote [0 \<mapsto> replicate 128 0] 0 (replicate 1500 65 @ replicate (round_up q - q) 0x1a) m'"
proof -
  have w: "wrote [0 \<mapsto> replicate 128 0] 0 [] [0 \<mapsto> replicate 128 0]" by (simp add: wrote_def)
  have "tiny_writer store_recs 0 (demo_tiny [Some (Writbuf 0), None, None, None] (Some 0)) [0 \<mapsto> replicate 128 0] 0 []"
    unfolding tiny_writer_def
    using demo_tiny_at [of 0 "[Some (Writbuf 0), None, None, None]" "Some 0"] w
    by (intro conjI exI [of _ 0] exI [of _ "[0 \<mapsto> replicate 128 0]"]) (auto simp: demo_tiny_def demo_lib_def)
  from tiny_output [OF store_files this, of "replicate 1500 65"] show ?thesis by fastforce
qed

section \<open>Starting programs\<close>

text \<open>
  The arguments of a program are the words of its command tail: \<open>Croot\<close> splits the tail in place at
  blanks and tabs, stops at the length given or at a zero byte, and keeps at most 29 words.
\<close>

theorem croot_arguments:
  assumes "127 \<le> length tail"
  shows "\<exists>argv buf. Croot len tail = Some (argv, buf) \<and>
    map (arg_at buf) argv = take 29 (words_of (takeWhile (\<lambda>c. c \<noteq> 0) (take (unat (len AND 0x7f)) tail)))"
  using Croot_words [OF assms] .

theorem croot_arguments_witness:
  "\<exists>argv buf. Croot 5 ([32, 65, 9, 66, 67] @ replicate 122 0) = Some (argv, buf) \<and>
     map (arg_at buf) argv = [[65], [66, 67]]"
proof -
  have "take 29 (words_of (takeWhile (\<lambda>c. c \<noteq> 0) (take (unat (5 AND 0x7f :: u8)) ([32, 65, 9, 66, 67] @ replicate 122 0)))) =
      [[65], [66, 67 :: u8]]"
    by code_simp
  with croot_arguments [of "[32, 65, 9, 66, 67] @ replicate 122 0" 5] show ?thesis by simp
qed


lemma execvp_store:
  assumes "fst (fcbinit (Some p) f0) \<noteq> - 1"
  shows "\<exists>im l'. execvp store_bdos p argv f0 d1 d2 l = (Some im, l')"
  using assms by (auto simp: execvp_def store_bdos_def Let_def split: prod.splits)

lemma demo_exec: "\<exists>im l'. execvp store_bdos (cstr ''A'') argv demo_fcb demo_fcb demo_fcb (demo_lib None) = (Some im, l')"
  by (rule execvp_store) code_simp


text \<open>
  The bound is needed: when the words fill the tail exactly, one more argument makes \<open>execvp\<close> store
  its blank behind the tail without a check and count 128 characters, and the new program then
  finds no argument at all.
\<close>

theorem exec_overflow:
  assumes "list_all plain_word ws" and "length (joined ws) = 127" and "plain_word x"
    and "execvp B name (prog # c_strings (ws @ [x])) f0 d1 d2 l = (Some im, l')"
  shows "length (i_tail im) = 128 \<and> (\<exists>buf. Croot (i_count im) (i_tail im @ rest) = Some ([], buf))"
  using exec_arguments_lost [OF assms] .

theorem exec_overflow_witness:
  "\<exists>im l'. execvp store_bdos (cstr ''A'') ([] # c_strings ([replicate 126 65] @ [[66]])) demo_fcb demo_fcb demo_fcb (demo_lib None) =
     (Some im, l') \<and> length (i_tail im) = 128 \<and> (\<exists>buf. Croot (i_count im) (i_tail im @ []) = Some ([], buf))"
proof -
  obtain im l' where e: "execvp store_bdos (cstr ''A'') ([] # c_strings ([replicate 126 65] @ [[66]])) demo_fcb demo_fcb demo_fcb (demo_lib None) = (Some im, l')"
    using demo_exec by blast
  have w: "list_all plain_word [replicate 126 65]" "plain_word [66]" by (simp_all add: plain_word_def blank_def list_all_iff)
  from exec_overflow [OF w(1) _ w(2) e, of "[]"] e show ?thesis by (fastforce simp: joined_def)
qed

section \<open>Overlays\<close>











section \<open>Numbers\<close>

text \<open>
  The random number generator stays in range: from a seed between 1 and 2796202 the next seed is
  125 times the old one modulo 2796203, never 0, and no step overflows 32 bits.
\<close>

theorem random_range:
  assumes "0 < sint iy" and "sint iy < 2796203"
  shows "sint (snd (ran fdiv of_long iy)) = 125 * sint iy mod 2796203 \<and>
    0 < sint (snd (ran fdiv of_long iy)) \<and> sint (snd (ran fdiv of_long iy)) < 2796203"
  using ran_step [OF assms] ran_range [OF assms] by metis

theorem random_range_witness:
  "sint (snd (ran (/) real_of_int 100001)) = 125 * 100001 mod 2796203"
  using random_range [of 100001 "(/)" real_of_int] by simp



text \<open>
  \<open>floor\<close> and \<open>ceil\<close> call each other for negative arguments and return after at most two calls,
  with the integer below and above the argument in exact arithmetic.
\<close>

theorem floor_ceil_value:
  "floor_call 2 real_fp d = Some (of_int \<lfloor>d\<rfloor>) \<and> ceil_call 2 real_fp d = Some (of_int \<lceil>d\<rceil>)"
  using floor_ceil_exact [of d] by simp

text \<open>
  In every arithmetic with signs, however it rounds, \<open>sin\<close>, \<open>asin\<close>, \<open>atan\<close> and \<open>tanh\<close> are odd and \<open>cos\<close> and \<open>cosh\<close> are
  even functions, bit for bit and with the same error codes.
\<close>

theorem math_symmetry:
  assumes "signed_arith F" and "\<not> fl_eq F x (fl_dec F 0 0)"
  shows "fp_sin F (fl_neg F x) err = apfst (fl_neg F) (fp_sin F x err) \<and>
    fp_cos F (fl_neg F x) err = fp_cos F x err \<and> fp_cosh F (fl_neg F x) err = fp_cosh F x err \<and>
    fp_asin F (fl_neg F x) err = apfst (fl_neg F) (fp_asin F x err) \<and>
    fp_tanh F (fl_neg F x) err = apfst (fl_neg F) (fp_tanh F x err) \<and>
    fp_atan F (fl_neg F x) = fl_neg F (fp_atan F x)"
  using signed_arith.sin_odd [OF assms] signed_arith.cos_even [OF assms(1)] signed_arith.cosh_even [OF assms(1)]
    signed_arith.asin_odd [OF assms] signed_arith.tanh_odd [OF assms] signed_arith.atan_odd [OF assms] by blast

theorem math_symmetry_witness:
  "fp_sin real_fp (fl_neg real_fp 1) 0 = apfst (fl_neg real_fp) (fp_sin real_fp 1 0)"
  using math_symmetry [OF exact.signed_arith_axioms, of 1 0] by (simp add: real_fp_def)

end
