(* ===== verification/Drive_Life.thy ===== *)
theory Drive_Life
  imports Drives
begin

text \<open>
  What becomes of the data a guest writes: the destructors of the drive classes (\<^verbatim>\<open>biosapi.cpp\<close>), which
  the program itself never calls, the invariant of a host-directory drive over its whole life, and what
  reaches the files of the host.
\<close>

section \<open>Destruction\<close>

text \<open>
  \<open>disk::~disk\<close> calls \<open>unSelect\<close>, which class \<open>disk\<close> has replaced by a call that does nothing, and the
  \<open>Flush\<close> in \<open>simdrive::~simdrive\<close> is the one of the base class, since the derived part is gone by then.
  \<open>dskimage::~dskimage\<close> closes its stream. An error in a destructor ends the program.
\<close>

definition simdrive_Flush :: "host \<Rightarrow> (nat, host) outcome" where
  "simdrive_Flush h = Ok 0 h"

definition simdrive_delete :: "host \<Rightarrow> (nat, host) outcome" where
  "simdrive_delete h = bindo (simdrive_Flush h) (\<lambda>_ h'. Ok 0 h')"

definition disk_delete :: "nat \<Rightarrow> disk \<Rightarrow> host \<Rightarrow> (nat, host) outcome" where
  "disk_delete lock d h =
     (case drive_unSelect lock (HostDir d) of
        Ok _ _ \<Rightarrow> simdrive_delete h
      | Fail e _ \<Rightarrow> Fail Terminate h)"

definition dskimage_delete :: "dskimage \<Rightarrow> host \<Rightarrow> (nat, host) outcome" where
  "dskimage_delete d h = simdrive_delete h"

fun drive_delete :: "nat \<Rightarrow> drive \<times> host \<Rightarrow> (nat, host) outcome" where
  "drive_delete lock (HostDir d, h) = disk_delete lock d h"
| "drive_delete lock (ImageFile d, h) = dskimage_delete d h"

text \<open>The descriptor of a drive; the program does not use it.\<close>

fun drive_Handle :: "drive \<Rightarrow> int" where
  "drive_Handle (HostDir d) = -1"
| "drive_Handle (ImageFile d) = selected d"

lemma Handle_selected:
  assumes "drive_Select fd 0 h (ImageFile d) = Ok r v" and "selected d = -1"
  shows "drive_Handle v = fd"
  using assms by (auto simp: simdrive_Select_def split: option.splits node.splits)

section \<open>The invariant of a host-directory drive\<close>

definition disk_ok :: "disk \<Rightarrow> bool" where
  "disk_ok d \<longleftrightarrow>
     length (stbl d) = SectorsTrack (dpb d) \<and> length (smap d) = SectorsTrack (dpb d) \<and>
     length (dir d) = DirectoryEntries (dpb d) \<and> list_all (entry_ok (ptr_type d)) (dir d) \<and>
     cache_sorted (cache d) \<and> list_all (\<lambda>(n, v). datastart d \<le> n \<and> length v = 128) (cache d)"

fun drive_ok :: "drive \<Rightarrow> bool" where
  "drive_ok (HostDir d) = disk_ok d"
| "drive_ok (ImageFile d) = (length (stbl d) = SectorsTrack (dpb d))"

text \<open>The import keeps the entries well formed, wherever it stops.\<close>

definition dirs_ok :: "disk \<Rightarrow> bool" where
  "dirs_ok d \<longleftrightarrow> length (dir d) = DirectoryEntries (dpb d) \<and> list_all (entry_ok (ptr_type d)) (dir d)"

lemma dirs_ok_update:
  "dirs_ok d \<Longrightarrow> entry_ok (ptr_type d) e \<Longrightarrow> dirs_ok (d\<lparr>dir := (dir d)[i := e]\<rparr>)"
  unfolding dirs_ok_def list_all_iff by (auto dest!: set_update_subset_insert [THEN subsetD])

lemma dirs_ok_nth: "dirs_ok d \<Longrightarrow> i < length (dir d) \<Longrightarrow> entry_ok (ptr_type d) (dir d ! i)"
  by (simp add: dirs_ok_def list_all_length)

lemma dirs_ok_fields [simp]:
  "dirs_ok (d\<lparr>freeblock := n\<rparr>) = dirs_ok d" "dirs_ok (d\<lparr>cpm2unix := m\<rparr>) = dirs_ok d"
  "dirs_ok (d\<lparr>cache := c\<rparr>) = dirs_ok d"
  by (simp_all add: dirs_ok_def)

lemma entry_ok_fields:
  "entry_ok ps e \<Longrightarrow> entry_ok ps (SetALByte i b e)" "entry_ok ps e \<Longrightarrow> entry_ok ps (SetALWord i w e)"
  by (simp_all add: entry_ok_def cpmdir_ok_def SetALByte_def SetALWord_def)

lemma bindo_state:
  assumes "P (state_of r)" and "\<And>x s. r = Ok x s \<Longrightarrow> P s \<Longrightarrow> P (state_of (f x s))"
  shows "P (state_of (bindo r f))"
  using assms by (cases r) auto

lemma first_unused_lt: "first_unused i es = Some j \<Longrightarrow> i \<le> j \<and> j < i + length es"
  by (induction i es rule: first_unused.induct) (auto split: if_splits)

lemma dirs_ok_NewDir:
  assumes "NewDir d = Some (i, d')" "dirs_ok d"
  shows "dirs_ok d'" "i < length (dir d')" "dpb d' = dpb d"
proof -
  have i: "i < length (dir d)" "d' = d\<lparr>dir := (dir d)[i := (dir d ! i)\<lparr>pointersize := ptr_type d\<rparr>]\<rparr>"
    using assms(1) first_unused_lt [of 0 "dir d"] by (auto simp: NewDir_def split: option.splits)
  have "entry_ok (ptr_type d) ((dir d ! i)\<lparr>pointersize := ptr_type d\<rparr>)"
    using dirs_ok_nth [OF assms(2) i(1)] by (simp add: entry_ok_def cpmdir_ok_def)
  then show "dirs_ok d'" "i < length (dir d')" "dpb d' = dpb d"
    using dirs_ok_update [OF assms(2)] i by simp_all
qed

lemma dirs_ok_fill_blocks:
  "dirs_ok d \<Longrightarrow> i < length (dir d) \<Longrightarrow> dirs_ok (state_of (fill_blocks i r p d))"
proof (induction r arbitrary: p d)
  case (Suc r)
  define e where "e = (if ptr_type d = 8 then SetALWord p (of_nat (freeblock d)) (dir d ! i)
      else SetALByte p (of_nat (freeblock d)) (dir d ! i))"
  have "entry_ok (ptr_type d) e"
    using entry_ok_fields [OF dirs_ok_nth [OF Suc.prems]] unfolding e_def by presburger
  then have "dirs_ok (d\<lparr>dir := (dir d)[i := e], freeblock := wrap32 (freeblock d + 1)\<rparr>)"
    using dirs_ok_update [OF Suc.prems(1)] by simp
  then show ?case using Suc.IH Suc.prems(2) by (simp add: Let_def e_def [symmetric])
qed simp

lemma dirs_ok_fill_extents: "dirs_ok d \<Longrightarrow> dirs_ok (state_of (fill_extents u nm r k blocks d))"
proof (induction r arbitrary: k blocks d)
  case (Suc r)
  show ?case
  proof (cases "NewDir d")
    case (Some q)
    then obtain i d1 where q: "NewDir d = Some (i, d1)" by (cases q) auto
    note n = dirs_ok_NewDir [OF q Suc.prems]
    define e where "e = (dir d1 ! i)\<lparr>Xl := of_nat (k AND 0x0F), Xh := of_nat (drop_bit 4 k AND 0x1F), St := u\<rparr>"
    have e: "entry_ok (ptr_type d1) e"
      using dirs_ok_nth [OF n(1,2)] by (simp add: e_def entry_ok_def cpmdir_ok_def)
    show ?thesis
    proof (cases "length nm = 12")
      case True
      define m where "m = (if blocks < ptr_type d1 then blocks else ptr_type d1)"
      define e2 where "e2 = e\<lparr>Fx := map char_byte (take 8 nm), Ex := map char_byte (take 3 (drop 9 nm)),
          Rc := of_nat (wrap32 (m * BlockSize (dpb d1)) div 128), Bc := 0\<rparr>"
      have "entry_ok (ptr_type d1) e2" using e True by (simp add: e2_def entry_ok_def cpmdir_ok_def)
      then have "dirs_ok (state_of (fill_blocks i m 0 (d1\<lparr>dir := (dir d1)[i := e2]\<rparr>)))"
        using dirs_ok_fill_blocks [of "d1\<lparr>dir := (dir d1)[i := e2]\<rparr>" i] dirs_ok_update [OF n(1)] n(2) by simp
      then have "dirs_ok (state_of (bindo (fill_blocks i m 0 (d1\<lparr>dir := (dir d1)[i := e2]\<rparr>))
          (\<lambda>_ d2. fill_extents u nm r (Suc k) (blocks - m) d2)))"
        by (rule bindo_state) (rule Suc.IH)
      then show ?thesis
        using True by (simp add: q SetName_def Let_def e_def [symmetric] m_def [symmetric] e2_def)
    next
      case False
      then show ?thesis
        using dirs_ok_update [OF n(1) e] by (simp add: q SetName_def Let_def e_def [symmetric])
    qed
  qed (simp add: Suc.prems)
qed simp

lemma dirs_ok_addfile: "dirs_ok d \<Longrightarrow> dirs_ok (state_of (addfile h p u nm d))"
  by (auto simp: addfile_def SetName_def Let_def split: sum.splits
      intro!: bindo_state [of dirs_ok] dirs_ok_fill_extents)

lemma dirs_ok_import_names: "dirs_ok d \<Longrightarrow> dirs_ok (state_of (import_names h up u nms d))"
  by (induction nms arbitrary: d)
    (auto split: sum.splits node.splits option.splits intro!: bindo_state [of dirs_ok] dirs_ok_addfile)

lemma dirs_ok_readuser: "dirs_ok d \<Longrightarrow> dirs_ok (state_of (readuser h up u d))"
  by (auto simp: readuser_def dirs_ok_import_names split: sum.splits node.splits)

lemma dirs_ok_import_users: "dirs_ok d \<Longrightarrow> dirs_ok (state_of (import_users h dp us d))"
  by (induction us arbitrary: d)
    (auto simp: Let_def split: sum.splits node.splits intro!: bindo_state [of dirs_ok] dirs_ok_readuser)

lemma dirs_ok_readhost: "dirs_ok d \<Longrightarrow> dirs_ok (state_of (readhost h dp d))"
  unfolding readhost_def by (rule bindo_state) (auto intro: dirs_ok_readuser dirs_ok_import_users)

lemma disk_ok_new:
  assumes "disk_new h p os pb tbl = Inr d"
  shows "disk_ok d"
proof -
  obtain d0 st sm where d0: "make_stbl (SectorsTrack pb) tbl = Inr st" "make_smap st = Inr sm"
    "readhost h p d0 = Ok () d" "dpb d0 = pb" "stbl d0 = st" "smap d0 = sm"
    "dir d0 = replicate (DirectoryEntries pb) (cpmdir_new (BlockPtrType pb))" "cache d0 = []"
    by (rule disk_new_result [OF assms]) blast
  have "dirs_ok d0"
    using d0(4,7) by (simp add: dirs_ok_def list_all_length entry_ok_def cpmdir_new_def cpmdir_ok_def)
  then have "dirs_ok d" using dirs_ok_readhost [of d0 h p] d0(3) by simp
  moreover note frame_fields [OF frame_readhost [OF d0(3)]]
  moreover have "length st = SectorsTrack pb" "length sm = SectorsTrack pb"
    using make_stbl_length [OF d0(1)] smap_loop_length d0(2) by (auto simp: make_smap_def)
  ultimately show ?thesis using d0 by (simp add: disk_ok_def dirs_ok_def cache_sorted_def)
qed

section \<open>Writes keep it\<close>

text \<open>What a write may change of a drive.\<close>

lemma disk_okI:
  assumes "disk_ok d" "dpb d' = dpb d" "stbl d' = stbl d" "smap d' = smap d" "datastart d' = datastart d"
    "dirs_ok d'" "cache_sorted (cache d')" "list_all (\<lambda>(n, v). datastart d \<le> n \<and> length v = 128) (cache d')"
  shows "disk_ok d'"
  using assms by (simp add: disk_ok_def dirs_ok_def)

lemma disk_ok_dirs: "disk_ok d \<Longrightarrow> dirs_ok d"
  by (simp add: disk_ok_def dirs_ok_def)

lemma disk_ok_names [simp]: "disk_ok (d\<lparr>cpm2unix := m\<rparr>) = disk_ok d"
  by (simp add: disk_ok_def)

definition names_only :: "disk \<Rightarrow> ('a, disk \<times> host) outcome \<Rightarrow> bool" where
  "names_only d r \<longleftrightarrow> (\<exists>m. fst (state_of r) = d\<lparr>cpm2unix := m\<rparr>)"

lemma names_onlyI [simp, intro]:
  "names_only d (Ok x (d, h))" "names_only d (Fail e (d, h))"
  "names_only d (Ok x (d\<lparr>cpm2unix := m\<rparr>, h))" "names_only d (Fail e (d\<lparr>cpm2unix := m\<rparr>, h))"
proof -
  have "d = d\<lparr>cpm2unix := cpm2unix d\<rparr>" by simp
  then have "\<exists>m. d = d\<lparr>cpm2unix := m\<rparr>" by (rule exI [of _ "cpm2unix d"])
  then show "names_only d (Ok x (d, h))" "names_only d (Fail e (d, h))"
    by (simp_all only: names_only_def state_of.simps fst_conv)
qed (auto simp: names_only_def)

lemma change_host_state: "names_only d (change_host old new (d, h))"
  unfolding change_host_def prod.case by (simp split: option.split prod.split bool.split outcome.split)

lemma disk_ok_write_extent: "disk_ok (fst w) \<Longrightarrow> disk_ok (fst (state_of (write_extent i dd w)))"
proof -
  assume ok: "disk_ok (fst w)"
  obtain d h where w: "w = (d, h)" by (cases w)
  show ?thesis
  proof (cases "cpmdir_of_bytes (ptr_type d) dd")
    case (Some e)
    then have e: "entry_ok (ptr_type d) e"
      by (auto simp: cpmdir_of_bytes_def entry_ok_def cpmdir_ok_def split: if_splits)
    obtain m where m: "fst (state_of (change_host (dir d ! i) e (d, h))) = d\<lparr>cpm2unix := m\<rparr>"
      using change_host_state [of d "dir d ! i" e h] unfolding names_only_def by blast
    have "disk_ok (d\<lparr>cpm2unix := m, dir := (dir d)[i := e]\<rparr>)"
    proof (rule disk_okI [of d])
      have "dirs_ok (d\<lparr>cpm2unix := m\<rparr>)" using ok w by (simp add: disk_ok_dirs)
      from dirs_ok_update [OF this, of e i] e show "dirs_ok (d\<lparr>cpm2unix := m, dir := (dir d)[i := e]\<rparr>)" by simp
    qed (use ok w in \<open>simp_all add: disk_ok_def\<close>)
    then show ?thesis
      using ok m w Some by (cases "change_host (dir d ! i) e (d, h)") (auto simp: write_extent_def Let_def)
  qed (use ok w in \<open>simp_all add: write_extent_def\<close>)
qed

lemma disk_ok_write_extents: "disk_ok (fst w) \<Longrightarrow> disk_ok (fst (state_of (write_extents n is dma w)))"
  by (induction "is" arbitrary: w)
    (auto intro!: bindo_state [of "\<lambda>w. disk_ok (fst w)"] disk_ok_write_extent)

lemma disk_ok_flush_extents: "disk_ok (fst w) \<Longrightarrow> disk_ok (fst (state_of (flush_extents sid dat fr es w)))"
proof (induction sid dat fr es w rule: flush_extents.induct)
  case (2 sid dat fr e es d h)
  have "disk_ok (d\<lparr>cache := cache_del sid (cache d)\<rparr>)"
  proof (rule disk_okI [of d])
    show "list_all (\<lambda>(n, v). datastart d \<le> n \<and> length v = 128) (cache (d\<lparr>cache := cache_del sid (cache d)\<rparr>))"
      using "2.prems" by (auto simp: disk_ok_def cache_del_def list_all_iff)
  qed (use "2.prems" in \<open>simp_all add: disk_ok_dirs cache_del_sorted disk_ok_def\<close>)
  then show ?case using 2 by (auto simp: Let_def split: option.splits)
qed simp

lemma disk_ok_flush: "disk_ok (fst w) \<Longrightarrow> disk_ok (fst (state_of (disk_Flush w)))"
proof -
  have "disk_ok (fst w) \<Longrightarrow> disk_ok (fst (state_of (flush_loop c w)))" for c
    by (induction c arbitrary: w)
      (auto intro!: bindo_state [of "\<lambda>w. disk_ok (fst w)"] disk_ok_flush_extents)
  then show "disk_ok (fst w) \<Longrightarrow> disk_ok (fst (state_of (disk_Flush w)))" by (simp add: disk_Flush_def)
qed

lemma disk_ok_Write:
  assumes "disk_ok d"
  shows "disk_ok (fst (state_of (disk_Write t s dma (d, h))))"
proof (cases "GetAbsSector (dpb d) (smap d) t s")
  case (Inr a)
  have put: "disk_ok (d\<lparr>cache := cache_put (a - dirstart d) (take 128 dma) (cache d)\<rparr>)"
    if "datastart d \<le> a - dirstart d" "128 \<le> length dma"
  proof (rule disk_okI [of d])
    have "list_all (\<lambda>(n, v). datastart d \<le> n \<and> length v = 128) (cache_put (a - dirstart d) (take 128 dma) c)"
      if "list_all (\<lambda>(n, v). datastart d \<le> n \<and> length v = 128) c" for c
      using that \<open>datastart d \<le> a - dirstart d\<close> \<open>128 \<le> length dma\<close>
      by (induction "a - dirstart d" "take 128 dma" c rule: cache_put.induct) auto
    then show "list_all (\<lambda>(n, v). datastart d \<le> n \<and> length v = 128)
        (cache (d\<lparr>cache := cache_put (a - dirstart d) (take 128 dma) (cache d)\<rparr>))"
      using assms by (simp add: disk_ok_def)
  qed (use assms in \<open>simp_all add: disk_ok_dirs cache_put_sorted disk_ok_def\<close>)
  have ext: "disk_ok (fst (state_of (bindo (write_extents n [0, 1, 2, 3] dma (d, h)) (\<lambda>_ w'. disk_Flush w'))))" for n
    by (rule bindo_state [of "\<lambda>w. disk_ok (fst w)"], rule disk_ok_write_extents)
      (use assms in \<open>auto intro: disk_ok_flush\<close>)
  show ?thesis using Inr assms put ext by (auto simp: disk_Write_def Let_def simp del: write_extents.simps split: prod.splits)
qed (use assms in \<open>simp add: disk_Write_def\<close>)

lemma drive_ok_Write: "drive_ok v \<Longrightarrow> drive_ok (fst (state_of (drive_Write t s dma (v, h))))"
proof (cases v)
  case (HostDir d)
  then show "drive_ok v \<Longrightarrow> ?thesis"
    using disk_ok_Write [of d t s dma h] by (cases "disk_Write t s dma (d, h)") (auto split: prod.splits)
next
  case (ImageFile d)
  then show "drive_ok v \<Longrightarrow> ?thesis" by (auto simp: dskimage_Write_def split: prod.splits outcome.splits if_splits)
qed

lemma drive_ok_Read: "drive_ok v \<Longrightarrow> drive_ok (snd (state_of (drive_Read t s dma (v, h))))"
  by (cases v) (auto simp: dskimage_Read_def Let_def split: prod.splits outcome.splits if_splits option.splits node.splits)

lemma drive_ok_select:
  "drive_ok v \<Longrightarrow> drive_ok (state_of (drive_Select fd lk h v))" "drive_ok v \<Longrightarrow> drive_ok (state_of (drive_unSelect lk v))"
  by (cases v; auto simp: simdrive_Select_def simdrive_unSelect_def split: outcome.splits if_splits option.splits node.splits)+

section \<open>What reaches the host\<close>

text \<open>Every regular file of the second host is empty or has the contents of a file of the first.\<close>

definition no_new_data :: "host \<Rightarrow> host \<Rightarrow> bool" where
  "no_new_data h h' \<longleftrightarrow>
     (\<forall>p f. host_lookup h' p = Some (Reg f) \<longrightarrow> f = [] \<or> (\<exists>q. host_lookup h q = Some (Reg f)))"

lemma no_new_data_refl [simp]: "no_new_data h h"
  by (auto simp: no_new_data_def)

lemma no_new_data_trans: "no_new_data h h1 \<Longrightarrow> no_new_data h1 h2 \<Longrightarrow> no_new_data h h2"
  unfolding no_new_data_def by blast

lemma make_dirs_no_data: "make_dirs h ds = Ok () h' \<Longrightarrow> no_new_data h h'"
proof (induction h ds rule: make_dirs.induct)
  case (2 h d ds)
  have "no_new_data h (host_put h d Directory)" by (auto simp: no_new_data_def split: if_splits)
  then show ?case using 2 no_new_data_trans by (auto split: if_splits option.splits node.splits)
qed simp

lemma mkhostname_no_data: "mkhostname p nm h = Ok u h' \<Longrightarrow> no_new_data h h'"
  by (auto simp: mkhostname_def Let_def bindo_eq_Ok create_directories_def dest: make_dirs_no_data split: prod.splits)

lemma host_calls_no_data:
  "host_remove h p = (True, h') \<Longrightarrow> no_new_data h h'"
  "host_create h p = (True, h') \<Longrightarrow> no_new_data h h'"
  "host_rename h p q = (True, h') \<Longrightarrow> no_new_data h h'"
  by (auto simp: host_remove_def host_create_def host_rename_def no_new_data_def split: option.splits if_splits node.splits)

lemma change_host_no_data:
  assumes "change_host old new (d, h) = Ok () (d', h')"
  shows "no_new_data h h'"
proof -
  consider "St new = UNUSED \<and> St old \<noteq> UNUSED \<and> GetExtNumber old = 0"
    | "St new \<noteq> UNUSED \<and> St old = UNUSED \<and> GetExtNumber new = 0"
    | "St new \<noteq> UNUSED \<and> St old \<noteq> UNUSED \<and> GetName new \<noteq> GetName old \<and>
       GetExtNumber old = 0 \<and> GetExtNumber new = 0"
    | "change_host old new (d, h) = Ok () (d, h)"
    using change_host_other [of new old d h] by argo
  then show ?thesis
  proof cases
    case 1 with assms show ?thesis by (auto elim!: change_host_delete dest: host_calls_no_data)
  next
    case 2
    with assms show ?thesis
      by (auto elim!: change_host_create intro: no_new_data_trans mkhostname_no_data host_calls_no_data(2))
  next
    case 3
    with assms show ?thesis
      by (auto elim!: change_host_rename intro: no_new_data_trans mkhostname_no_data host_calls_no_data(3))
  next
    case 4 with assms show ?thesis by simp
  qed
qed

lemma write_extent_no_data:
  assumes "write_extent i dd (d, h) = Ok () (d', h')"
  shows "no_new_data h h'"
  using assms change_host_no_data
  by (auto simp: write_extent_def Let_def bindo_eq_Ok split: if_splits option.splits prod.splits)

lemma write_extents_no_data:
  "write_extents n is dma (d, h) = Ok () (d', h') \<Longrightarrow> no_new_data h h'"
proof (induction "is" arbitrary: d h)
  case (Cons i "is")
  then obtain d1 h1 where "write_extent (n + i) (drop (i * 32) dma) (d, h) = Ok () (d1, h1)"
    "write_extents n is dma (d1, h1) = Ok () (d', h')"
    by (auto simp: bindo_eq_Ok)
  then show ?case using Cons.IH write_extent_no_data no_new_data_trans by blast
qed simp

text \<open>The system tracks are written through; a sector behind them is kept in the cache.\<close>

definition behind_system :: "disk \<Rightarrow> nat \<Rightarrow> nat \<Rightarrow> bool" where
  "behind_system d t s \<longleftrightarrow> (case GetAbsSector (dpb d) (smap d) t s of Inl _ \<Rightarrow> True | Inr a \<Rightarrow> dirstart d \<le> a)"

lemma write_extents_frame:
  "write_extents n is dma (d, h) = Ok () (d', h') \<Longrightarrow> frame d' = frame d"
proof (induction "is" arbitrary: d h)
  case (Cons i "is")
  then obtain d1 h1 where 1: "write_extent (n + i) (drop (i * 32) dma) (d, h) = Ok () (d1, h1)"
    "write_extents n is dma (d1, h1) = Ok () (d', h')"
    by (auto simp: bindo_eq_Ok)
  have "frame d1 = frame d"
    using 1(1) change_host_frame(1)
    by (auto simp: write_extent_def Let_def bindo_eq_Ok split: if_splits option.splits prod.splits)
  then show ?case using Cons.IH [OF 1(2)] by simp
qed simp

lemma disk_Write_no_data:
  assumes "disk_Write t s dma (d, h) = Ok r (d', h')" and "behind_system d t s"
  shows "no_new_data h h'" "behind_system d' = behind_system d"
proof -
  obtain a where a: "GetAbsSector (dpb d) (smap d) t s = Inr a" "dirstart d \<le> a"
    using assms by (auto simp: behind_system_def disk_Write_def split: sum.splits)
  have "no_new_data h h' \<and> dpb d' = dpb d \<and> smap d' = smap d \<and> dirstart d' = dirstart d"
  proof (cases "a - dirstart d < datastart d")
    case True
    then obtain d1 h1 where w: "write_extents (wrap32 ((a - dirstart d) * 4)) [0, 1, 2, 3] dma (d, h) = Ok () (d1, h1)"
      "disk_Flush (d1, h1) = Ok r (d', h')"
      using assms(1) a by (auto simp: disk_Write_def Let_def bindo_eq_Ok simp del: write_extents.simps)
    then have "d' = d1" "h' = h1" by (auto simp: disk_Flush_Ok)
    then show ?thesis using write_extents_no_data [OF w(1)] frame_fields [OF write_extents_frame [OF w(1)]] by simp
  next
    case False
    then show ?thesis using assms(1) a by (auto simp: disk_Write_def Let_def split: if_splits)
  qed
  then show "no_new_data h h'" "behind_system d' = behind_system d"
    unfolding behind_system_def fun_eq_iff by (auto split: sum.splits)
qed

lemma drive_writes_no_data:
  "drive_writes ops (HostDir d, h) = Ok r (v', h') \<Longrightarrow>
   list_all (\<lambda>(t, s, dma). behind_system d t s) ops \<Longrightarrow> no_new_data h h' \<and> (\<exists>d'. v' = HostDir d')"
proof (induction ops arbitrary: d h)
  case (Cons op ops)
  obtain t s dma where op: "op = (t, s, dma)" by (cases op)
  obtain r1 d1 h1 where w: "disk_Write t s dma (d, h) = Ok r1 (d1, h1)" "drive_writes ops (HostDir d1, h1) = Ok r (v', h')"
    using Cons.prems(1) op by (cases "disk_Write t s dma (d, h)") (auto split: prod.splits)
  have b: "behind_system d t s" "list_all (\<lambda>(t, s, dma). behind_system d t s) ops" using Cons.prems(2) op by auto
  show ?case
    using Cons.IH [OF w(2)] disk_Write_no_data [OF w(1) b(1)] b(2) no_new_data_trans by auto
qed auto

end
