(* ===== verification/Machine_Invariant.thy ===== *)
theory Machine_Invariant
  imports Machine Drive_Life
begin

text \<open>
  The machine as a transition system: bus cycles, bytes that arrive from the console, the calls of
  the monitor and of the main program, and changes other processes make to the host files, in any
  order. The invariant of its reachable states, and what it gives: sector transfers stay in bounds.
\<close>

section \<open>Steps\<close>

text \<open>
  The results of system calls (\<open>en\<close>) differ from step to step. A step that ends in an error leaves
  the machine in the state reached so far: the emulation thread ends, the monitor keeps its access.
\<close>

inductive machine_step ::
  "'z z80_ops \<Rightarrow> 'b bus_ops \<Rightarrow> string \<Rightarrow> bytes \<Rightarrow> 'z machine \<Rightarrow> 'z machine \<Rightarrow> bool"
  for ops bo bootsector boot where
  step_bus: "machine_step ops bo bootsector boot m (state_of (bus_cycle en ops bo b m))"
| step_core: "machine_step ops bo bootsector boot m (m\<lparr>z80 := z\<rparr>)"
| step_console: "machine_step ops bo bootsector boot m (m\<lparr>conqueue := enqueueConsoleByte c (conqueue m)\<rparr>)"
| step_host: "machine_step ops bo bootsector boot m (m\<lparr>hostfs := h\<rparr>)"
| step_break: "machine_step ops bo bootsector boot m (setBrk a n m)"
| step_trace: "machine_step ops bo bootsector boot m (set_trace t m)"
| step_reset: "machine_step ops bo bootsector boot m (cpu_reset m)"
| step_writemem: "machine_step ops bo bootsector boot m (state_of (cpu_writemem ops buf a n m))"
| step_readmem: "machine_step ops bo bootsector boot m (snd (cpu_readmem ops a n m))"
| step_power: "machine_step ops bo bootsector boot m (state_of (powercycle ops bootsector boot m))"

definition reachable ::
  "'z z80_ops \<Rightarrow> 'b bus_ops \<Rightarrow> string \<Rightarrow> bytes \<Rightarrow> 'z machine \<Rightarrow> bool" where
  "reachable ops bo bootsector boot m \<longleftrightarrow>
     (\<exists>z r h. (machine_step ops bo bootsector boot)\<^sup>*\<^sup>* (cpu_new z r h) m)"

section \<open>The invariant\<close>

text \<open>Drives exist in the slots A to D, H and I only, and each keeps the invariant of its class.\<close>

definition slots_ok :: "drive option list \<Rightarrow> bool" where
  "slots_ok ps \<longleftrightarrow>
     (\<forall>i < length ps. \<forall>v. ps ! i = Some v \<longrightarrow> (i < 4 \<or> i = 7 \<or> i = 8) \<and> drive_ok v)"

definition machine_ok :: "'z machine \<Rightarrow> bool" where
  "machine_ok m \<longleftrightarrow> cpu_wf m \<and> slots_ok (diskptr m)"

lemma slots_ok_new: "slots_ok (replicate n None)"
  by (simp add: slots_ok_def)

lemma slots_ok_nth: "slots_ok ps \<Longrightarrow> ps ! i = Some v \<Longrightarrow> i < length ps \<Longrightarrow> drive_ok v"
  by (simp add: slots_ok_def)

text \<open>A drive replaced by its successor state.\<close>

lemma slots_ok_replace:
  assumes "slots_ok ps" "ps ! i = Some v" "drive_ok v'"
  shows "slots_ok (ps[i := Some v'])"
  using assms by (cases "i < length ps") (auto simp: slots_ok_def nth_list_update)

lemma slots_ok_insert:
  assumes "slots_ok ps" "i < 4 \<or> i = 7 \<or> i = 8" "drive_ok v"
  shows "slots_ok (ps[i := Some v])"
  using assms by (cases "i < length ps") (auto simp: slots_ok_def nth_list_update)

lemma drive_ok_path [simp]: "drive_ok (set_path p v) = drive_ok v"
  by (cases v) (simp_all add: disk_ok_def)

lemma drive_ok_image_new: "dskimage_new h p os pb tbl = Inr d \<Longrightarrow> drive_ok (ImageFile d)"
  by (auto simp: dskimage_new_def make_stbl_length split: sum.splits option.splits node.splits)

section \<open>Every operation keeps the slots\<close>

abbreviation slots :: "('a, 'z machine) outcome \<Rightarrow> drive option list" where
  "slots r \<equiv> diskptr (state_of r)"

lemma slots_leave:
  assumes "slots_ok (diskptr m)"
  shows "slots_ok (slots (leave_drive en m))"
proof (cases "if currentdrive m < MAXDRIVE then diskptr m ! currentdrive m else None")
  case (Some v)
  then have v: "currentdrive m < MAXDRIVE" "diskptr m ! currentdrive m = Some v" by (auto split: if_splits)
  have "slots_ok ((diskptr m)[currentdrive m := Some (state_of (drive_unSelect (unlockres en) v))])"
    if "currentdrive m < length (diskptr m)"
    by (rule slots_ok_replace [OF assms v(2) drive_ok_select(2) [OF slots_ok_nth [OF assms v(2) that]]])
  then have "slots_ok ((diskptr m)[currentdrive m := Some (state_of (drive_unSelect (unlockres en) v))])"
    using assms by (cases "currentdrive m < length (diskptr m)") (simp_all add: not_less list_update_beyond)
  then show ?thesis
    using v by (cases "drive_unSelect (unlockres en) v") (simp_all add: leave_drive_def)
qed (use assms in \<open>auto simp: leave_drive_def split: if_splits\<close>)

text \<open>What \<open>selectdisk\<close> does once the drive selected before is left.\<close>

definition mount ::
  "env \<Rightarrow> nat \<Rightarrow> dpb_t \<Rightarrow> bytes \<Rightarrow> string \<Rightarrow> 'z machine \<Rightarrow> (nat, 'z machine) outcome" where
  "mount en i pb tltbl drv m =
     (case host_stat (hostfs m) drv of
        Inl _ \<Rightarrow> Ok 1 m
      | Inr nd \<Rightarrow>
          (case diskptr m ! i of
             None \<Rightarrow>
               (case nd of
                  Directory \<Rightarrow>
                    (case disk_new (hostfs m) drv CPM22 pb (Some tltbl) of
                       Inl e \<Rightarrow> Fail e m
                     | Inr d \<Rightarrow>
                         Ok 0 (m\<lparr>diskptr := (diskptr m)[i := Some (set_path (stale en) (HostDir d))],
                                 currentdrive := i\<rparr>))
                | Reg _ \<Rightarrow>
                    (case dskimage_new (hostfs m) drv CPM22 pb (Some tltbl) of
                       Inl e \<Rightarrow> Fail e m
                     | Inr d \<Rightarrow>
                         Ok 0 (m\<lparr>diskptr := (diskptr m)[i := Some (set_path (stale en) (ImageFile d))],
                                 currentdrive := i\<rparr>))
                | Special \<Rightarrow> Ok 1 m)
           | Some v \<Rightarrow>
               (case drive_Select (newfd en) (lockres en) (hostfs m) v of
                  Ok _ v' \<Rightarrow> Ok 0 (m\<lparr>diskptr := (diskptr m)[i := Some v'], currentdrive := i\<rparr>)
                | Fail e v' \<Rightarrow> Fail e (m\<lparr>diskptr := (diskptr m)[i := Some v']\<rparr>))))"

lemma selectdisk_mount:
  "selectdisk en i pb tbl m =
     (if i < MAXDRIVE \<and> (i < 4 \<or> i = 7 \<or> i = 8)
      then if i \<noteq> currentdrive m
        then bindo (leave_drive en m) (\<lambda>_ m1.
          mount en i pb tbl (diskspath en @ ''/'' @ [drive_letter i]) (m1\<lparr>currentdrive := MAXDRIVE\<rparr>))
        else Ok 0 m
      else Ok 1 m)"
  unfolding selectdisk_def mount_def Let_def by (rule refl)

lemma slots_mount:
  assumes "slots_ok (diskptr m)" and "i < 4 \<or> i = 7 \<or> i = 8"
  shows "slots_ok (slots (mount en i pb tbl drv m))"
proof (cases "diskptr m ! i")
  case None
  have new: "slots_ok ((diskptr m)[i := Some (set_path p v)])" if "drive_ok v" for p v
    using that slots_ok_insert [OF assms] by simp
  show ?thesis
  proof (cases "host_stat (hostfs m) drv")
    case (Inr nd)
    show ?thesis
    proof (cases nd)
      case Directory
      with None Inr assms(1) show ?thesis
        by (cases "disk_new (hostfs m) drv CPM22 pb (Some tbl)")
          (simp_all add: mount_def new disk_ok_new del: set_path.simps)
    next
      case (Reg f)
      with None Inr assms(1) show ?thesis
        by (cases "dskimage_new (hostfs m) drv CPM22 pb (Some tbl)")
          (simp_all add: mount_def new drive_ok_image_new del: drive_ok.simps set_path.simps)
    qed (use None Inr assms(1) in \<open>simp add: mount_def\<close>)
  qed (use assms(1) in \<open>simp add: mount_def\<close>)
next
  case (Some v)
  let ?s = "drive_Select (newfd en) (lockres en) (hostfs m) v"
  have "slots_ok ((diskptr m)[i := Some (state_of ?s)])"
  proof (cases "i < length (diskptr m)")
    case True
    from slots_ok_replace [OF assms(1) Some drive_ok_select(1) [OF slots_ok_nth [OF assms(1) Some True]]]
    show ?thesis .
  qed (use assms(1) in \<open>simp add: not_less list_update_beyond\<close>)
  then show ?thesis
    using Some assms(1) by (cases "host_stat (hostfs m) drv"; cases ?s) (simp_all add: mount_def)
qed

lemma slots_selectdisk:
  assumes "slots_ok (diskptr m)"
  shows "slots_ok (slots (selectdisk en i pb tbl m))"
proof -
  have "slots_ok (slots (bindo (leave_drive en m) (\<lambda>_ m1. mount en i pb tbl drv (m1\<lparr>currentdrive := MAXDRIVE\<rparr>))))"
    if i: "i < 4 \<or> i = 7 \<or> i = 8" for drv
  proof (rule bindo_state [of "\<lambda>m. slots_ok (diskptr m)", OF slots_leave [OF assms]])
    fix m1 :: "'a machine" assume "slots_ok (diskptr m1)"
    then have "slots_ok (diskptr (m1\<lparr>currentdrive := MAXDRIVE\<rparr>))" by simp
    from slots_mount [OF this i]
    show "slots_ok (slots (mount en i pb tbl drv (m1\<lparr>currentdrive := MAXDRIVE\<rparr>)))" .
  qed
  then show ?thesis using assms by (simp add: selectdisk_mount)
qed

lemma slots_rcpmdisk:
  assumes "slots_ok (diskptr m)" and "cpu_wf m"
  shows "slots_ok (slots (rcpmdisk t s m))"
proof (cases "if currentdrive m < MAXDRIVE then diskptr m ! currentdrive m else None")
  case (Some v)
  then have v: "currentdrive m < MAXDRIVE" "diskptr m ! currentdrive m = Some v" by (auto split: if_splits)
  have ok: "drive_ok v" using slots_ok_nth [OF assms(1) v(2)] v(1) assms(2) by (simp add: cpu_wf_def)
  let ?r = "drive_Read t s (ram_from (m_ram m) (m_DMA m)) (v, hostfs m)"
  have "slots_ok ((diskptr m)[currentdrive m := Some (snd (state_of ?r))])"
    by (rule slots_ok_replace [OF assms(1) v(2) drive_ok_Read [OF ok]])
  then show ?thesis using v by (cases ?r) (auto simp: rcpmdisk_def Let_def split: prod.splits)
qed (use assms in \<open>auto simp: rcpmdisk_def split: if_splits\<close>)

lemma slots_wcpmdisk:
  assumes "slots_ok (diskptr m)" and "cpu_wf m"
  shows "slots_ok (slots (wcpmdisk t s m))"
proof (cases "if currentdrive m < MAXDRIVE then diskptr m ! currentdrive m else None")
  case (Some v)
  then have v: "currentdrive m < MAXDRIVE" "diskptr m ! currentdrive m = Some v" by (auto split: if_splits)
  have ok: "drive_ok v" using slots_ok_nth [OF assms(1) v(2)] v(1) assms(2) by (simp add: cpu_wf_def)
  let ?r = "drive_Write t s (ram_from (m_ram m) (m_DMA m)) (v, hostfs m)"
  have "slots_ok ((diskptr m)[currentdrive m := Some (fst (state_of ?r))])"
    by (rule slots_ok_replace [OF assms(1) v(2) drive_ok_Write [OF ok]])
  then show ?thesis using v by (cases ?r) (auto simp: wcpmdisk_def Let_def split: prod.splits)
qed (use assms in \<open>auto simp: wcpmdisk_def split: if_splits\<close>)

lemma slots_set_status [simp]: "slots (set_status r) = slots r"
  by (cases r) (simp_all add: set_status_def)

lemma slots_Out:
  assumes "slots_ok (diskptr m)" and "cpu_wf m"
  shows "slots_ok (slots (Out en ops port v m))"
proof (cases "port_of port")
  case (Some p)
  with assms show ?thesis
    by (cases p)
      (auto simp: Out_def Let_def split: option.splits sum.splits
        intro!: slots_selectdisk slots_rcpmdisk slots_wcpmdisk)
qed (use assms in \<open>simp add: Out_def\<close>)

lemma slots_In: "slots (In ops port m) = diskptr m"
  by (cases "port_of port") (auto simp: In_def Let_def split: port_t.splits prod.splits conin.splits)

lemma slots_bind [simp]: "slots (bindo r (\<lambda>v m'. Ok (f v) m')) = slots r"
  by (cases r) simp_all

lemma slots_bus:
  assumes "slots_ok (diskptr m)" and "cpu_wf m"
  shows "slots_ok (slots (bus_cycle en ops bo b m))"
  unfolding bus_cycle_def
  using assms slots_Out [OF assms] by (auto simp: hit_breakpoint_def slots_In split: option.split)

section \<open>Reachable states\<close>

lemma machine_ok_new: "machine_ok (cpu_new z r h)"
  by (simp add: machine_ok_def cpu_wf_new) (simp add: cpu_new_def slots_ok_new)

text \<open>The calls that touch neither the slots nor the current drive.\<close>

definition same_drives :: "'z machine \<Rightarrow> 'z machine \<Rightarrow> bool" where
  "same_drives m m' \<longleftrightarrow> diskptr m' = diskptr m \<and> currentdrive m' = currentdrive m"

lemma same_drives_ok: "same_drives m m' \<Longrightarrow> machine_ok m' = machine_ok m"
  by (simp add: same_drives_def machine_ok_def cpu_wf_def)

lemma same_drives_calls:
  "same_drives m (state_of (cpu_writemem ops buf a n m))"
  "same_drives m (snd (cpu_readmem ops a n m))"
  "same_drives m (setBrk a n m)" "same_drives m (set_trace t m)" "same_drives m (cpu_reset m)"
  "same_drives m (m\<lparr>z80 := z\<rparr>)" "same_drives m (m\<lparr>conqueue := q\<rparr>)" "same_drives m (m\<lparr>hostfs := h\<rparr>)"
  by (auto simp: same_drives_def cpu_writemem_def cpu_readmem_def setBrk_def set_trace_def cpu_reset_def
      Let_def split: outcome.split)

lemma same_drives_initBIOS: "same_drives m (state_of (initBIOS ops bootsector boot m))"
proof -
  have "same_drives m (state_of (cpu_writemem ops buf a n m1))"
    if "same_drives m m1" for buf a n m1
    using that same_drives_calls(1) [of m1 ops buf a n] by (simp add: same_drives_def)
  then show ?thesis
    by (auto simp: initBIOS_def Let_def split: option.split node.split prod.split) (simp_all add: same_drives_def)
qed

lemma same_drives_power: "same_drives m (state_of (powercycle ops bootsector boot m))"
  using same_drives_initBIOS [of "m\<lparr>z80 := setPower ops False (z80 m)\<rparr>" ops bootsector boot]
  by (cases "initBIOS ops bootsector boot (m\<lparr>z80 := setPower ops False (z80 m)\<rparr>)")
    (simp_all add: powercycle_def same_drives_def)

lemma machine_step_drives:
  assumes "machine_step ops bo bootsector boot m m'"
  shows "same_drives m m' \<or> (\<exists>en b. m' = state_of (bus_cycle en ops bo b m))"
  using assms
proof cases
  case (step_bus en b)
  then show ?thesis by blast
qed (simp_all only: same_drives_calls same_drives_power simp_thms)

lemma machine_ok_step:
  assumes "machine_step ops bo bootsector boot m m'" and "machine_ok m"
  shows "machine_ok m'"
proof -
  have "machine_ok (state_of (bus_cycle en ops bo b m))" for en b
    using assms(2) by (simp add: machine_ok_def slots_bus cpu_wf_bus)
  then show ?thesis using machine_step_drives [OF assms(1)] same_drives_ok assms(2) by blast
qed

lemma reachable_ok:
  assumes "reachable ops bo bootsector boot m"
  shows "machine_ok m"
proof -
  obtain z r h where "(machine_step ops bo bootsector boot)\<^sup>*\<^sup>* (cpu_new z r h) m"
    using assms unfolding reachable_def by blast
  then show ?thesis
  proof (induction rule: rtranclp_induct)
    case base
    show ?case by (rule machine_ok_new)
  next
    case (step m1 m2)
    show ?case by (rule machine_ok_step [OF step.hyps(2) step.IH])
  qed
qed

section \<open>Reads are memory safe\<close>

text \<open>The track and sector have a place on the medium: the retranslation table has an entry.\<close>

fun addressable :: "drive \<Rightarrow> nat \<Rightarrow> nat \<Rightarrow> bool" where
  "addressable (HostDir d) t s = (case GetAbsSector (dpb d) (smap d) t s of Inl _ \<Rightarrow> False | Inr _ \<Rightarrow> True)"
| "addressable (ImageFile d) t s = True"

definition defined :: "nat \<Rightarrow> ('a, bytes) outcome \<Rightarrow> bool" where
  "defined n r \<longleftrightarrow> length (state_of r) = n \<and> (\<forall>u b. r \<noteq> Fail (Undefined u) b)"

lemma defined_simps [simp]:
  "defined n (Ok x b) \<longleftrightarrow> length b = n" "defined n (Fail e b) \<longleftrightarrow> length b = n \<and> (\<forall>u. e \<noteq> Undefined u)"
  by (auto simp: defined_def)

lemma defined_bind:
  assumes "defined n r" and "\<And>x b. r = Ok x b \<Longrightarrow> length b = n \<Longrightarrow> defined n (f x b)"
  shows "defined n (bindo r f)"
  using assms by (cases r) auto

lemma defined_read_dir:
  assumes "list_all (entry_ok ps) es" and "\<forall>i \<in> set is. i < 4" and "128 \<le> length buf"
  shows "defined (length buf) (read_dir es n is buf)"
  using assms(2,3)
proof (induction "is" arbitrary: buf)
  case (Cons i "is")
  show ?case
  proof (cases "length es \<le> n + i")
    case False
    then have "length (cpmdir_image (es ! (n + i))) = 32"
      using assms(1) by (intro dirrec.enc_width [of ps]) (simp add: list_all_length)
    moreover from this have "length (blit (i * 32) (cpmdir_image (es ! (n + i))) buf) = length buf"
      using Cons.prems by simp
    ultimately show ?thesis
      using False Cons.prems Cons.IH [of "blit (i * 32) (cpmdir_image (es ! (n + i))) buf"] by (simp add: copy_in_def)
  qed simp
qed simp

lemma defined_read_extents:
  "128 \<le> length buf \<Longrightarrow> defined (length buf) (read_extents d h sid es buf)"
proof (induction es arbitrary: buf)
  case (Cons e es)
  have "defined (length buf) (bindo (ReadHost h u p buf) (\<lambda>_ buf'. read_extents d h sid es buf'))" for u p
  proof -
    obtain r b where b: "ReadHost h u p buf = Ok r b" "length b = length buf"
      using ReadHost_Ok [OF Cons.prems, of h u p] by blast
    then show ?thesis using Cons.IH [of b] Cons.prems by simp
  qed
  then show ?case using Cons by (simp add: Let_def)
qed simp

lemma drive_Read_defined:
  assumes "drive_ok v" and "addressable v t s" and "128 \<le> length buf"
  shows "drive_Read t s buf (v, h) \<noteq> Fail (Undefined u) x"
proof (cases v)
  case (HostDir d)
  then have ok: "disk_ok d" using assms(1) by simp
  obtain a where a: "GetAbsSector (dpb d) (smap d) t s = Inr a" using assms(2) HostDir by (auto split: sum.splits)
  have boot: "defined (length buf) (bindo (ReadHost h (bootblock d) (a * 128) buf)
      (\<lambda>r dma'. if r \<noteq> 0 then Fail Terminate dma'
                else if length dma' < 128 then Fail (Undefined OutOfBounds) dma' else Ok (0 :: nat) dma'))"
    using ReadHost_Ok [OF assms(3), of h "bootblock d" "a * 128"] assms(3) by auto
  have "list_all (entry_ok (ptr_type d)) (dir d)" using ok by (simp add: disk_ok_def)
  then have dirs: "defined (length buf) (bindo (read_dir (dir d) n [0, 1, 2, 3] buf) (\<lambda>_ b. Ok (0 :: nat) b))" for n
    using assms(3) by (intro defined_bind defined_read_dir) auto
  have data: "defined (length buf) (bindo (read_extents d h n (dir d) buf) (\<lambda>_ b. Ok (0 :: nat) b))" for n
    by (rule defined_bind [OF defined_read_extents [OF assms(3)]]) simp
  have cached: "defined (length buf) (bindo (copy_in 0 b buf) (\<lambda>_ b. Ok (0 :: nat) b))"
    if "map_of (cache d) n = Some b" for n b
  proof -
    have "length b = 128" using ok map_of_SomeD [OF that] by (auto simp: disk_ok_def list_all_iff)
    then show ?thesis using assms(3) by (simp add: copy_in_def)
  qed
  have "defined (length buf) (disk_Read t s buf (d, h))"
    unfolding disk_Read_def prod.case a sum.case Let_def
    using boot dirs data cached by (simp del: bindo.simps read_dir.simps split: option.split)
  then show ?thesis
    using HostDir by (cases "disk_Read t s buf (d, h)") (auto simp: defined_def)
next
  case (ImageFile d)
  then show ?thesis
    using assms(3) order_trans [OF length_read_at_le [of "image_offset (dpb d) t s" 128] assms(3)]
    by (auto simp: dskimage_Read_def Let_def not_less [symmetric] split: option.splits node.splits if_splits
        prod.splits outcome.splits)
qed

lemma reachable_reads_defined:
  assumes "reachable ops bo bootsector boot m" and "on_drive m v" and "addressable v t s"
    and "unat (m_DMA m) \<le> 0xFF80"
  shows "rcpmdisk t s m \<noteq> Fail (Undefined u) m'"
proof -
  have "drive_ok v"
    using reachable_ok [OF assms(1)] slots_ok_nth assms(2) by (auto simp: machine_ok_def on_drive_def)
  moreover have "128 \<le> length (ram_from (m_ram m) (m_DMA m))" using assms(4) by simp
  ultimately have "drive_Read t s (ram_from (m_ram m) (m_DMA m)) (v, hostfs m) \<noteq> Fail (Undefined u) x" for x
    using assms(3) by (intro drive_Read_defined)
  then show ?thesis
    using assms(2)
    by (auto simp: rcpmdisk_def on_drive_def Let_def split: outcome.splits prod.splits)
qed

section \<open>Writes stay in bounds\<close>

text \<open>The iterator and the freed buffer of \<open>Flush\<close> are the only undefined behaviour of a write.\<close>

definition in_bounds :: "('a, 's) outcome \<Rightarrow> bool" where
  "in_bounds r \<longleftrightarrow> (\<forall>u w. r = Fail (Undefined u) w \<longrightarrow> u = InvalidIterator \<or> u = UseAfterFree)"

lemma in_bounds_simps [simp]:
  "in_bounds (Ok x w)" "in_bounds (Fail (Undefined u) w) \<longleftrightarrow> u = InvalidIterator \<or> u = UseAfterFree"
  "in_bounds (Fail Terminate w)" "in_bounds (Fail OutOfRange w)" "in_bounds (Fail FilesystemError w)"
  by (auto simp: in_bounds_def)

lemma in_bounds_bind:
  assumes "in_bounds r" and "\<And>x w. r = Ok x w \<Longrightarrow> in_bounds (f x w)"
  shows "in_bounds (bindo r f)"
  using assms by (cases r) (auto simp: in_bounds_def)

lemma in_bounds_mkhostname: "in_bounds (mkhostname p nm h)"
proof -
  have "in_bounds (make_dirs h ds)" for h ds
    by (induction h ds rule: make_dirs.induct) (auto split: option.splits node.splits)
  then show ?thesis
    by (auto simp: mkhostname_def Let_def create_directories_def intro!: in_bounds_bind split: prod.splits)
qed

lemma in_bounds_change_host: "in_bounds (change_host old new (d, h))"
proof (cases "mkhostname (drvpath d) (GetName new) h")
  case Ok
  then show ?thesis unfolding change_host_def prod.case by (simp split: option.split prod.split bool.split)
next
  case (Fail e h')
  have "in_bounds (Fail e (d, h') :: (unit, dworld) outcome)" using in_bounds_mkhostname [of "drvpath d" "GetName new" h] Fail
    by (simp add: in_bounds_def)
  with Fail show ?thesis unfolding change_host_def prod.case by (simp split: option.split prod.split bool.split)
qed

lemma in_bounds_write_extent:
  assumes "32 \<le> length dd"
  shows "in_bounds (write_extent i dd w)"
proof -
  obtain d h where w: "w = (d, h)" by (cases w)
  have "cpmdir_of_bytes (ptr_type d) dd \<noteq> None" by (rule dirrec.dec_total [OF assms])
  then show ?thesis
    using w by (auto simp: write_extent_def Let_def intro!: in_bounds_bind in_bounds_change_host split: prod.splits)
qed

lemma in_bounds_write_extents:
  "\<forall>i \<in> set is. i < 4 \<Longrightarrow> 128 \<le> length dma \<Longrightarrow> in_bounds (write_extents n is dma w)"
  by (induction "is" arbitrary: w) (auto intro!: in_bounds_bind in_bounds_write_extent)

lemma in_bounds_flush: "in_bounds (disk_Flush w)"
proof -
  have ext: "in_bounds (flush_extents sid dat fr es w)" for sid dat fr es w
    by (induction sid dat fr es w rule: flush_extents.induct) (auto simp: Let_def split: option.splits)
  have "in_bounds (flush_loop c w)" for c w
    by (induction c arbitrary: w) (auto intro!: in_bounds_bind ext)
  then show ?thesis by (simp add: disk_Flush_def)
qed

lemma drive_Write_bounds:
  assumes "addressable v t s" and "128 \<le> length dma"
  shows "in_bounds (drive_Write t s dma (v, h))"
proof (cases v)
  case (HostDir d)
  obtain a where a: "GetAbsSector (dpb d) (smap d) t s = Inr a" using assms(1) HostDir by (auto split: sum.splits)
  have "in_bounds (bindo (write_extents n [0, 1, 2, 3] dma (d, h)) (\<lambda>_ w'. disk_Flush w'))" for n
    using assms(2) by (intro in_bounds_bind in_bounds_write_extents in_bounds_flush) simp_all
  then have "in_bounds (disk_Write t s dma (d, h))"
    unfolding disk_Write_def prod.case a sum.case Let_def
    using assms(2) by (simp del: write_extents.simps split: prod.split)
  then show ?thesis
    using HostDir by (cases "disk_Write t s dma (d, h)") (auto simp: in_bounds_def split: prod.splits)
next
  case (ImageFile d)
  then show ?thesis
    using assms(2) by (auto simp: dskimage_Write_def in_bounds_def split: prod.splits outcome.splits if_splits)
qed

lemma writes_in_bounds:
  assumes "on_drive m v" and "addressable v t s" and "unat (m_DMA m) \<le> 0xFF80"
  shows "in_bounds (wcpmdisk t s m)"
proof -
  have "128 \<le> length (ram_from (m_ram m) (m_DMA m))" using assms(3) by simp
  from drive_Write_bounds [OF assms(2) this, of "hostfs m"] assms(1) show ?thesis
    by (auto simp: wcpmdisk_def on_drive_def Let_def in_bounds_def split: outcome.splits prod.splits)
qed

end
