(* ===== verification/Disk_Dump.thy ===== *)
theory Disk_Dump
  imports Drive_Life Monitor
begin

text \<open>
  What the disk classes print and dump (\<^verbatim>\<open>biosapi.h\<close>): the output operators of the parameter block and
  of a directory entry, the dump of a directory into an image, and the hexadecimal dump. The dump of a
  directory is read back by an image drive.
\<close>

section \<open>Output operators\<close>

definition pad :: "nat \<Rightarrow> string \<Rightarrow> string" where
  "pad w s = replicate (w - length s) CHR '' '' @ s"

definition dpb_show :: "dpb_t \<Rightarrow> string" where
  "dpb_show b =
     ''spt '' @ pad 5 (nat_string (unat (spt b))) @ newline
     @ ''bsh '' @ pad 3 (nat_string (unat (bsh b))) @ newline
     @ ''blm '' @ pad 3 (nat_string (unat (blm b))) @ newline
     @ ''exm '' @ pad 3 (nat_string (unat (exm b))) @ newline
     @ ''dsm '' @ pad 5 (nat_string (unat (dsm b))) @ newline
     @ ''drm '' @ pad 5 (nat_string (unat (drm b))) @ newline
     @ ''al0 '' @ pad 3 (nat_string (unat (al0 b))) @ newline
     @ ''al1 '' @ pad 3 (nat_string (unat (al1 b))) @ newline
     @ ''cks '' @ pad 5 (nat_string (unat (cks b))) @ newline
     @ ''off '' @ pad 5 (nat_string (unat (off b)))"

definition pointers_show :: "nat \<Rightarrow> nat list \<Rightarrow> string" where
  "pointers_show w ps =
     concat (map (\<lambda>(i, p). (if i \<noteq> 0 then '','' else ''<'') @ pad w (nat_string p)) (enumerate 0 ps)) @ ''>''"

definition cpmdir_show :: "cpmdir \<Rightarrow> string" where
  "cpmdir_show e =
     pad 2 (hex_string (unat (St e))) @
     (if St e \<noteq> UNUSED
      then ''-'' @ GetName e
        @ '', Xl '' @ pad 3 (nat_string (unat (Xl e))) @ '', Bc '' @ pad 3 (nat_string (unat (Bc e)))
        @ '', Xh '' @ pad 3 (nat_string (unat (Xh e))) @ '', Rc '' @ pad 3 (nat_string (unat (Rc e))) @ '', ''
        @ (if pointersize e = 16 then pointers_show 3 (map (GetALByte e) [0..<16])
           else pointers_show 5 (map (GetALWord e) [0..<8]))
      else [])"

section \<open>Dump of a directory\<close>

text \<open>The stream is a file open for writing; each entry is written where the one before ended.\<close>

definition DirStart :: "disk \<Rightarrow> nat" where
  "DirStart d = wrap32 (wrap32 (SectorsTrack (dpb d) * ReservedTracks (dpb d)) * 128)"

fun dump_entries :: "cpmdir list \<Rightarrow> nat list \<Rightarrow> nat \<Rightarrow> bytes \<Rightarrow> (unit, bytes) outcome" where
  "dump_entries es [] pos f = Ok () f"
| "dump_entries es (i # is) pos f =
     (if length es \<le> i then Fail OutOfRange f
      else dump_entries es is (pos + 32) (write_at pos (cpmdir_image (es ! i)) f))"

definition disk_dump :: "disk \<Rightarrow> bytes \<Rightarrow> (unit, bytes) outcome" where
  "disk_dump d f = dump_entries (dir d) [0..<DirectoryEntries (dpb d)] (DirStart d) f"

section \<open>Hexadecimal dump\<close>

text \<open>
  \<open>hs\<close> and \<open>as\<close> are the two halves of the line being built; the width 53 is applied to the first half as
  a whole, which fills from the left, with blanks as a stream does by default.
\<close>

definition hex_line :: "string \<Rightarrow> string \<Rightarrow> string" where
  "hex_line hs as = pad 53 hs @ '' : '' @ [CHR 0x27] @ as @ [CHR 0x27] @ newline"

fun hexdump_loop :: "nat \<Rightarrow> bytes \<Rightarrow> string \<Rightarrow> string \<Rightarrow> string \<Rightarrow> string" where
  "hexdump_loop i [] hs as out = (if as \<noteq> [] then out @ hex_line hs as else out)"
| "hexdump_loop i (b # bs) hs as out =
     (let (hs1, as1, out1) =
            (if i mod 16 = 0
             then ((if i \<noteq> 0 then [] else hs) @ zpad 4 (hex_string i) @ '':'',
                   if i \<noteq> 0 then [] else as, if i \<noteq> 0 then out @ hex_line hs as else out)
             else (hs, as, out))
      in hexdump_loop (Suc i) bs (hs1 @ zpad 2 (hex_string (unat b)) @ '' '')
           (as1 @ [if isprint b then byte_char b else CHR ''.'']) out1)"

definition HexDump :: "bytes \<Rightarrow> string" where
  "HexDump dat = hexdump_loop 0 dat [] [] newline"

subsection \<open>Line by line\<close>

definition dump_line :: "nat \<Rightarrow> bytes \<Rightarrow> string" where
  "dump_line i bs =
     hex_line (zpad 4 (hex_string i) @ '':'' @ concat (map (\<lambda>b. zpad 2 (hex_string (unat b)) @ '' '') bs))
       (map (\<lambda>b. if isprint b then byte_char b else CHR ''.'') bs)"

function dump_lines :: "nat \<Rightarrow> bytes \<Rightarrow> string" where
  "dump_lines i bs = (if bs = [] then [] else dump_line i (take 16 bs) @ dump_lines (i + 16) (drop 16 bs))"
  by pat_completeness auto
termination
  by (relation "measure (\<lambda>(i, bs). length bs)") auto

declare dump_lines.simps [simp del]

text \<open>Inside a line the loop adds the rest of the line to both halves.\<close>

lemma hexdump_loop_row:
  "\<lbrakk>i mod 16 + length bs \<le> 16; i mod 16 \<noteq> 0 \<or> bs = []\<rbrakk> \<Longrightarrow>
   hexdump_loop i (bs @ rest) hs as out =
     hexdump_loop (i + length bs) rest
       (hs @ concat (map (\<lambda>b. zpad 2 (hex_string (unat b)) @ '' '') bs))
       (as @ map (\<lambda>b. if isprint b then byte_char b else CHR ''.'') bs) out"
proof (induction bs arbitrary: i hs as)
  case (Cons b bs)
  have "Suc i mod 16 = Suc (i mod 16) mod 16" by (simp add: mod_Suc_eq)
  then have "Suc i mod 16 + length bs \<le> 16 \<and> (Suc i mod 16 \<noteq> 0 \<or> bs = [])"
    using Cons.prems by (cases "Suc (i mod 16) = 16") auto
  then show ?case using Cons by simp
qed simp

text \<open>A whole line: the first byte starts it, the others complete it.\<close>

lemma hexdump_loop_line:
  assumes "i mod 16 = 0" and "bs \<noteq> []" and "length bs \<le> 16"
  defines "hx \<equiv> zpad 4 (hex_string i) @ '':'' @ concat (map (\<lambda>b. zpad 2 (hex_string (unat b)) @ '' '') bs)"
    and "tx \<equiv> map (\<lambda>b. if isprint b then byte_char b else CHR ''.'') bs"
  shows "0 < i \<Longrightarrow> hexdump_loop i (bs @ rest) hs as out = hexdump_loop (i + length bs) rest hx tx (out @ hex_line hs as)"
    and "i = 0 \<Longrightarrow> hexdump_loop i (bs @ rest) [] [] out = hexdump_loop (i + length bs) rest hx tx out"
proof -
  obtain b bs' where bs: "bs = b # bs'" using assms(2) by (cases bs) auto
  have "Suc i mod 16 = 1" using assms(1) by (simp add: mod_Suc)
  then have "Suc i mod 16 + length bs' \<le> 16 \<and> (Suc i mod 16 \<noteq> 0 \<or> bs' = [])" using assms(3) bs by simp
  note row = hexdump_loop_row [OF conjunct1 [OF this] conjunct2 [OF this]]
  show "0 < i \<Longrightarrow> hexdump_loop i (bs @ rest) hs as out = hexdump_loop (i + length bs) rest hx tx (out @ hex_line hs as)"
    using assms(1) by (simp add: bs row hx_def tx_def)
  show "i = 0 \<Longrightarrow> hexdump_loop i (bs @ rest) [] [] out = hexdump_loop (i + length bs) rest hx tx out"
    using row by (simp add: bs hx_def tx_def)
qed

lemma hexdump_loop_lines:
  assumes "i mod 16 = 0" and "0 < i" and "as \<noteq> []"
  shows "hexdump_loop i bs hs as out = out @ hex_line hs as @ dump_lines i bs"
  using assms
proof (induction i bs arbitrary: hs as out rule: dump_lines.induct)
  case (1 i bs)
  show ?case
  proof (cases "bs = []")
    case False
    let ?t = "take 16 bs"
    have t: "?t \<noteq> []" "length ?t \<le> 16" using False by auto
    have loop: "hexdump_loop i bs hs as out =
        hexdump_loop (i + length ?t) (drop 16 bs)
          (zpad 4 (hex_string i) @ '':'' @ concat (map (\<lambda>b. zpad 2 (hex_string (unat b)) @ '' '') ?t))
          (map (\<lambda>b. if isprint b then byte_char b else CHR ''.'') ?t) (out @ hex_line hs as)"
      using hexdump_loop_line(1) [OF "1.prems"(1) t "1.prems"(2), of "drop 16 bs" hs as out] by simp
    show ?thesis
    proof (cases "length bs \<le> 16")
      case True
      then show ?thesis
        using loop False by (simp add: dump_lines.simps [of i bs] dump_lines.simps [of "i + 16"] dump_line_def)
    next
      case long: False
      then have "length ?t = 16" by simp
      with loop 1(1) [OF False] "1.prems" t show ?thesis
        by (simp add: dump_lines.simps [of i bs] False dump_line_def)
    qed
  qed (use "1.prems" in \<open>simp add: dump_lines.simps\<close>)
qed

lemma HexDump_eq: "HexDump dat = newline @ dump_lines 0 dat"
proof (cases "dat = []")
  case False
  let ?t = "take 16 dat"
  have t: "?t \<noteq> []" "length ?t \<le> 16" using False by auto
  have loop: "HexDump dat =
      hexdump_loop (length ?t) (drop 16 dat)
        (zpad 4 (hex_string 0) @ '':'' @ concat (map (\<lambda>b. zpad 2 (hex_string (unat b)) @ '' '') ?t))
        (map (\<lambda>b. if isprint b then byte_char b else CHR ''.'') ?t) newline"
    using hexdump_loop_line(2) [OF _ t, of 0 "drop 16 dat" newline] by (simp add: HexDump_def)
  show ?thesis
  proof (cases "length dat \<le> 16")
    case True
    then show ?thesis
      using loop False by (simp add: dump_lines.simps [of 0 dat] dump_lines.simps [of 16] dump_line_def)
  next
    case long: False
    then have "length ?t = 16" by simp
    then show ?thesis
      using loop t False hexdump_loop_lines [of 16 _ "drop 16 dat"]
      by (simp add: dump_lines.simps [of 0 dat] dump_line_def)
  qed
qed (simp add: HexDump_def dump_lines.simps)

section \<open>A dumped directory on an image drive\<close>

lemma write_at_append: "write_at (pos + length a) b (write_at pos a f) = write_at pos (a @ b) f"
proof -
  have "min (length f) pos + (pos - length f) = pos" by simp
  then show ?thesis by (simp add: write_at_def drop_drop add.assoc add.commute add.left_commute)
qed

lemma read_at_inside:
  "k + n \<le> length dat \<Longrightarrow> read_at (pos + k) n (write_at pos dat f) = take n (drop k dat)"
  by (simp add: write_at_def read_at_def min_def)

lemma dump_entries_tail:
  "list_all (entry_ok ps) es \<Longrightarrow> \<forall>i \<in> set is. i < length es \<Longrightarrow>
   dump_entries es is (pos + length a) (write_at pos a f) =
     Ok () (write_at pos (a @ concat (map (\<lambda>i. cpmdir_image (es ! i)) is)) f)"
proof (induction "is" arbitrary: a)
  case (Cons i "is")
  then have "length (cpmdir_image (es ! i)) = 32"
    by (intro dirrec.enc_width [of ps]) (simp add: list_all_length)
  then show ?case
    using Cons.IH [of "a @ cpmdir_image (es ! i)"] Cons.prems by (simp add: write_at_append not_le [symmetric] add.assoc)
qed simp

lemma disk_dump_eq:
  assumes "disk_ok d"
  shows "disk_dump d f = Ok () (write_at (DirStart d) (concat (map cpmdir_image (dir d))) f)"
proof -
  let ?es = "dir d" and ?n = "DirectoryEntries (dpb d)"
  have len: "length ?es = ?n" and ok: "list_all (entry_ok (ptr_type d)) ?es" using assms by (auto simp: disk_ok_def)
  have n: "[0..<?n] = 0 # [1..<?n]" "0 < ?n" by (simp_all add: DirectoryEntries_def upt_conv_Cons)
  have "length (cpmdir_image (?es ! 0)) = 32"
    using ok n(2) len by (intro dirrec.enc_width [of "ptr_type d"]) (simp add: list_all_length)
  then have "disk_dump d f =
      dump_entries ?es [1..<?n] (DirStart d + length (cpmdir_image (?es ! 0))) (write_at (DirStart d) (cpmdir_image (?es ! 0)) f)"
    using n len by (simp add: disk_dump_def)
  also have "\<dots> = Ok () (write_at (DirStart d)
      (cpmdir_image (?es ! 0) @ concat (map (\<lambda>i. cpmdir_image (?es ! i)) [1..<?n])) f)"
    using len by (intro dump_entries_tail [OF ok]) auto
  also have "cpmdir_image (?es ! 0) @ concat (map (\<lambda>i. cpmdir_image (?es ! i)) [1..<?n]) =
      concat (map (\<lambda>i. cpmdir_image (?es ! i)) [0..<?n])"
    using n(1) by simp
  also have "map (\<lambda>i. cpmdir_image (?es ! i)) [0..<?n] = map cpmdir_image ?es"
    using len by (intro nth_equalityI) simp_all
  finally show ?thesis .
qed

lemma dump_presents:
  assumes "disk_ok d" and "dir_sector d t s n" and "4 * n + 3 < DirectoryEntries (dpb d)"
    and "(ReservedTracks (dpb d) * SectorsTrack (dpb d) + n + 1) * 128 \<le> 2 ^ 32"
    and "disk_dump d f = Ok () f'" and "dpb v = dpb d" and "\<not> imgfail v"
    and "host_lookup h' (image v) = Some (Reg f')" and "128 \<le> length buf"
  shows "\<exists>b. disk_Read t s buf (d, h) = Ok 0 b \<and>
     dskimage_Read (ReservedTracks (dpb d)) (Suc n) buf (v, h') = Ok 0 (b, v)"
proof -
  let ?T = "concat (map cpmdir_image (dir d))"
  let ?bs = "take 128 (drop (128 * n) ?T)"
  have len: "length (dir d) = DirectoryEntries (dpb d)" and ok: "\<forall>e \<in> set (dir d). entry_ok (ptr_type d) e"
    using assms(1) by (auto simp: disk_ok_def list_all_iff)
  have lT: "length ?T = 32 * DirectoryEntries (dpb d)" using dirrec.length_table [OF ok] len by simp
  then have lb: "length ?bs = 128" using assms(3) by simp
  have four: "n * 4 + idx < length (dir d) \<and> cpmdir_image (dir d ! (n * 4 + idx)) = take 32 (drop (idx * 32) ?bs)"
    if "idx < 4" for idx
  proof -
    have i: "n * 4 + idx < length (dir d)" using that assms(3) len by simp
    have "take 32 (drop (idx * 32) ?bs) = take 32 (drop (32 * (n * 4 + idx)) ?T)"
      using that by (simp add: drop_take min_def algebra_simps)
    also have "\<dots> = cpmdir_image (dir d ! (n * 4 + idx))" by (rule dirrec.enc_table [OF ok i])
    finally show ?thesis using i by simp
  qed
  have "read_dir (dir d) (n * 4) [0, 1, 2, 3] buf = Ok () (?bs @ drop 128 buf)"
    using four by (intro read_dir_four [OF _ lb assms(9)]) blast
  moreover have w4: "wrap32 (n * 4) = n * 4" using assms(4) by (simp add: wrap32_def)
  ultimately have rd: "disk_Read t s buf (d, h) = Ok 0 (?bs @ drop 128 buf)"
    using assms(2) by (simp add: disk_Read_def dir_sector_def del: read_dir.simps)
  have off: "image_offset (dpb d) (ReservedTracks (dpb d)) (Suc n) = DirStart d + 128 * n"
  proof -
    define a where "a = ReservedTracks (dpb d) * SectorsTrack (dpb d)"
    have "(a + n + 1) * 128 \<le> 2 ^ 32" using assms(4) by (simp add: a_def)
    then have "wrap32 a = a" "sub32 (a + Suc n) 1 = a + n" "wrap32 (128 * (a + n)) = 128 * (a + n)" "wrap32 (a * 128) = a * 128"
      by (simp_all add: sub32_small)
    then show ?thesis by (simp add: image_offset_def DirStart_def a_def [symmetric] mult.commute)
  qed
  have f': "f' = write_at (DirStart d) ?T f" using assms(5) disk_dump_eq [OF assms(1)] by simp
  have "read_at (DirStart d + 128 * n) 128 f' = ?bs"
    unfolding f' using lT assms(3) by (intro read_at_inside) simp
  then have "dskimage_Read (ReservedTracks (dpb d)) (Suc n) buf (v, h') = Ok 0 (blit 0 ?bs buf, v)"
    using assms(6-9) off lb by (simp add: dskimage_Read_def Let_def)
  moreover have "blit 0 ?bs buf = ?bs @ drop 128 buf" using lb by (simp add: blit_def)
  ultimately show ?thesis using rd by simp
qed

end
