(* ===== verification/Spec2Isabelle.thy ===== *)
theory Spec2Isabelle
  imports Disk_Properties System_Properties Library_Properties Program_Properties Machine_Invariant Disk_Dump
begin

text \<open>
  This development verifies the CP/M 2.2 emulator \<^verbatim>\<open>Z80CPM\<close>: a Z80 machine whose disks are
  directories of the host (or image files), whose console is a TELNET connection and whose BIOS talks
  to both through I/O ports. The processor core is a separate project; everything between the
  processor's bus and the host is modelled here.

  \<^bold>\<open>Parts of the program and how they work together.\<close> The main program (\<^verbatim>\<open>src/Z80CPM.cpp\<close>)
  reads the options, builds the machine and starts the monitor and the console server. The machine
  (\<^verbatim>\<open>src/zilogz80.cpp\<close>) answers memory and port cycles of the processor; its port functions select
  drives, move sectors between memory and the selected drive and pass characters to the console.
  A drive (\<^verbatim>\<open>src/biosapi.cpp\<close>, \<^verbatim>\<open>src/biosapi.h\<close>) is an image file or a host directory; the latter
  builds a CP/M directory from the host files, translates sector accesses to records of these files
  and follows changes of the CP/M directory by creating, renaming and removing host files. The
  console (\<^verbatim>\<open>src/server.cpp\<close>) filters the TELNET stream in a thread of its own and hands the bytes to
  the processor through a queue. The monitor (\<^verbatim>\<open>src/monitor.cpp\<close>) shows memory and sets the speed.

  \<^bold>\<open>Theories.\<close>
  \<^item> \<^verbatim>\<open>CPM_Prelude\<close>: result type with final state (\<open>Ok\<close>, \<open>Fail\<close>), error values for exceptions, exits,
    endless loops and undefined behaviour, lemmas on lists, words and byte images, the simp
    collections.
  \<^item> \<^verbatim>\<open>Host_Files\<close>: the host as an ordered table of paths and contents; \<^verbatim>\<open>disk::ReadHost\<close> and
    \<^verbatim>\<open>disk::WriteHost\<close>; the locale \<open>record_store\<close> states what a record transfer promises.
  \<^item> \<^verbatim>\<open>Disk_Geometry\<close>: \<^verbatim>\<open>dpb\<close>, \<^verbatim>\<open>dph_t\<close>, skew tables, \<^verbatim>\<open>disk::GetAbsSector\<close>.
  \<^item> \<^verbatim>\<open>Directory_Entry\<close>: class \<^verbatim>\<open>cpmdir\<close>, its 32-byte image, names and block pointers; the locale
    \<open>packed_record\<close> for records with a byte image.
  \<^item> \<^verbatim>\<open>Disk_Import\<close>, \<^verbatim>\<open>Disk_Alloc\<close>: \<^verbatim>\<open>disk::NewDir\<close>, \<^verbatim>\<open>disk::addfile\<close>, \<^verbatim>\<open>disk::readhost\<close> and the
    constructor; the second theory proves the allocation invariant.
  \<^item> \<^verbatim>\<open>Disk_IO\<close>, \<^verbatim>\<open>Disk_Transfer\<close>, \<^verbatim>\<open>Name_Mapping\<close>: \<^verbatim>\<open>disk::Read\<close>, \<^verbatim>\<open>disk::Write\<close>, \<^verbatim>\<open>disk::Flush\<close>,
    \<^verbatim>\<open>disk::mkhostname\<close>, their lemmas, and the correspondence between CP/M and host names.
  \<^item> \<^verbatim>\<open>Drives\<close>: class \<^verbatim>\<open>dskimage\<close>, selection, and the virtual functions of \<^verbatim>\<open>simdrive\<close> as dispatch
    over a sum of the two kinds; the locale \<open>sector_drive\<close> is their common contract, an array of
    128-byte sectors, and both kinds are shown to refine it.
  \<^item> \<^verbatim>\<open>Drive_Life\<close>: the destructors, the invariant of a drive from its construction through all writes, and
    what of the guest's data reaches the host; \<^verbatim>\<open>Disk_Dump\<close>: printed forms of parameter blocks and entries,
    \<^verbatim>\<open>disk::dump\<close> and \<^verbatim>\<open>disk::HexDump\<close>.
  \<^item> \<^verbatim>\<open>Console\<close>: the byte queue (locale \<open>fifo\<close>), the TELNET and line-end filter, the accept loop, the
    descriptors closed at the end, and the interleaving of network thread and processor thread as an inductive step relation.
  \<^item> \<^verbatim>\<open>Memory\<close>, \<^verbatim>\<open>Machine\<close>: block transfers with wrap-around, ports, drive selection, sector transfers,
    bus cycles, breakpoints, boot and power. \<^verbatim>\<open>Machine_Invariant\<close>: bus cycles, console bytes, monitor calls and
    changes of host files as a step relation, the invariant of its reachable states, bounds of transfers.
  \<^item> \<^verbatim>\<open>Monitor\<close>, \<^verbatim>\<open>Options\<close>: the command loop; the option tables, the command line as \<^verbatim>\<open>getopt_long\<close>
    documents it, option handling, message levels, start-up order.
  \<^item> \<^verbatim>\<open>Disk_Properties\<close>, \<^verbatim>\<open>System_Properties\<close> and this theory: the properties, each with an instance
    on a concrete disk, session or machine.

  \<^bold>\<open>The C library on the disks.\<close> The emulator comes with a CP/M disk that holds the sources of the Aztec C
  library (\<^verbatim>\<open>disks/I/2\<close>), 16-bit C for the same machine. Its parts are modelled in
  \<^item> \<^verbatim>\<open>Aztec_Qsort\<close>: \<^verbatim>\<open>QSORT.C\<close>; \<^verbatim>\<open>Aztec_Ctype\<close>: \<^verbatim>\<open>CTYPE.C\<close>, \<^verbatim>\<open>CTYPE.H\<close>, \<^verbatim>\<open>ATOI.C\<close>, \<^verbatim>\<open>ATOL.C\<close>.
  \<^item> \<^verbatim>\<open>Aztec_Format\<close>: \<^verbatim>\<open>FORMAT.C\<close>, \<^verbatim>\<open>SPRINTF.C\<close>, the tiny formatter of \<^verbatim>\<open>PRINTF.C\<close> and the number conversion
    \<^verbatim>\<open>FMTCVT.ASM\<close>; \<^verbatim>\<open>Aztec_Scan\<close>: \<^verbatim>\<open>SCAN.C\<close> and \<^verbatim>\<open>SSCANF.C\<close>; \<^verbatim>\<open>Aztec_Scan_Float\<close>: the
    floating point input of \<^verbatim>\<open>SCAN.C\<close>.
  \<^item> \<^verbatim>\<open>Aztec_Files\<close>: descriptors, files and devices over the BDOS, which is an argument; \<^verbatim>\<open>Aztec_File_Spec\<close>
    and \<^verbatim>\<open>Aztec_Descriptors\<close>: what \<open>read\<close>, \<open>write\<close>, \<open>lseek\<close>, \<open>open\<close>, \<open>close\<close> promise, given a BDOS that stores
    records, and a store that is such a BDOS.
  \<^item> \<^verbatim>\<open>Aztec_Malloc\<close>: \<^verbatim>\<open>MALLOC.C\<close>, \<^verbatim>\<open>CALLOC.C\<close> and the memory functions in assembler they call, on the 64K of memory
    itself; \<^verbatim>\<open>Aztec_Heap\<close>: the invariant of the circular free list, that \<open>malloc\<close>, \<open>free\<close> keep it and that the search
    ends; \<^verbatim>\<open>Aztec_Heap_Spec\<close>: a store of separate arrays as abstract specification, the locale \<open>allocator\<close> and
    the refinement; \<^verbatim>\<open>Aztec_Heap_Run\<close>: that the free list of a program stays in the
    order of addresses and free blocks side by side are used; \<^verbatim>\<open>Aztec_Realloc\<close>: \<open>realloc\<close>, \<open>calloc\<close>, \<open>movmem\<close>.
  \<^item> \<^verbatim>\<open>Aztec_Stdio\<close>: the buffered streams over any lower layer of calls; \<^verbatim>\<open>Aztec_Stream_Spec\<close>: input and output
    on a source and a sink of bytes; \<^verbatim>\<open>Aztec_Stream_Files\<close>: the descriptors of the library as such a layer.
  \<^item> \<^verbatim>\<open>Aztec_Tiny\<close>, \<^verbatim>\<open>Aztec_Tiny_Spec\<close>: \<^verbatim>\<open>FOPEN.C\<close>, the streams of tiny programs with their common buffer.
  \<^item> \<^verbatim>\<open>Aztec_Start\<close>, \<^verbatim>\<open>Aztec_Start_Spec\<close>: \<^verbatim>\<open>CROOT.C\<close>, \<^verbatim>\<open>EXEC.C\<close>, \<^verbatim>\<open>EXECL.C\<close>, \<^verbatim>\<open>OVLOADER.C\<close>, \<^verbatim>\<open>R.C\<close>, \<^verbatim>\<open>RANDOM.C\<close>.
  \<^item> \<^verbatim>\<open>Aztec_Math\<close>: \<^verbatim>\<open>SQRT.C\<close>, \<^verbatim>\<open>EXP.C\<close>, \<^verbatim>\<open>LOG.C\<close>, \<^verbatim>\<open>POW.C\<close>, \<^verbatim>\<open>SIN.C\<close>, \<^verbatim>\<open>TAN.C\<close>, \<^verbatim>\<open>ASIN.C\<close>, \<^verbatim>\<open>ATAN.C\<close>, \<^verbatim>\<open>SINH.C\<close>, \<^verbatim>\<open>TANH.C\<close>,
    \<^verbatim>\<open>FLOOR.C\<close> over an arithmetic of floating point numbers, which is an argument; \<^verbatim>\<open>Aztec_Math_Spec\<close>: symmetries
    in every arithmetic with signs (locale \<open>signed_arith\<close>), accuracy in the exact one.
  \<^item> \<^verbatim>\<open>Library_Properties\<close>, \<^verbatim>\<open>Stream_Properties\<close>, \<^verbatim>\<open>Program_Properties\<close>: the properties of the library.

  \<^bold>\<open>State and errors.\<close> Every class is a record with the source's members; an operation that may
  throw, exit or run into undefined behaviour returns \<open>Ok v s\<close> or \<open>Fail e s\<close> with the state reached, so
  that changes made before an error stay visible. Integers have the width of the source: bytes and
  addresses are words, \<^verbatim>\<open>unsigned\<close> arithmetic that may wrap is taken modulo \<open>2 ^ 32\<close> where it can
  reach the bound. Accesses past an array, a use of an invalidated iterator and a division by zero
  are values of the error type, never an unspecified HOL term.

  \<^bold>\<open>What is an argument.\<close> The processor core (its memory cycles, reset and power functions), the results
  of host system calls (accepting a connection, writing to a socket, opening and reading files
  through the host table), the user's input to the monitor and the conversion of \<^verbatim>\<open>double\<close> values. For
  the C library: the BDOS of CP/M, the functions of the start-up module and the arithmetic of
  floating point numbers, all written in assembler.
  The hypotheses of the properties state documented behaviour only: a geometry within the bounds of
  its packed fields, a translation table that names each sector once, host names without a
  directory separator.

  \<^bold>\<open>Loops.\<close> All loops are structural or have a termination proof. The retry loop of \<^verbatim>\<open>ConOut\<close> runs over
  the results of its writes; running out of results means that the loop still spins, and the
  corresponding property states exactly when that happens. The accept loop and the monitor run over
  the finite sequence of connections or input lines and end as the source does at their end. Loops
  of the C library that wait for input or search a list are partial functions, where \<open>None\<close> means
  that they do not return; the properties about them state that they do. \<open>floor\<close> and \<open>ceil\<close>, which call
  each other, have a depth of calls as argument, of which two is shown to be enough.

  \<^bold>\<open>What the lemmas show.\<close> Imported files are laid out without overlap, completely and at the right
  places, and are read back byte for byte; the cache and both kinds of drive behave like an array of
  sectors; changes of the CP/M directory change exactly the host file concerned; names translate both
  ways; a sector travels through the controller unchanged; no console byte is lost, duplicated or
  reordered, each is delivered in the end, and the filter equals a two-stage specification; every reachable state of
  the machine is consistent, drives included, and transfers in it stay in bounds; options mean the same in
  all spellings. In the C library, the allocator implements separate arrays, always returns and uses free
  memory before it asks for more; streams,
  lines and records written are read back; numbers printed are read back; arguments reach the program
  executed; overlays are loaded where they belong; sorting sorts. The properties also state where the code leaves this: \<^verbatim>\<open>Flush\<close> on a cached file sector,
  extents from 16 on, transfers at the end of memory, a failed image read, an exactly full disk, the
  endless retry, the dump of white space, the command tail that is one argument too long, file data of the
  guest that never reach the host, and options without a value.

  \<^bold>\<open>Not modelled.\<close> The text of log and help output, the calls that create and cancel a thread (their effect is
  the interleaving), \<^verbatim>\<open>fork\<close> and \<^verbatim>\<open>exec\<close> beyond their results, the Z80 sources of CP/M itself, which are the
  guest of the emulator, and the processor core, which is not part of the sources.
\<close>

section \<open>A machine with the small disk\<close>

text \<open>The small host-directory drive inserted as drive A and selected; records move at the end of memory.\<close>

definition mach0 :: "unit machine" where
  "mach0 = (cpu_new () (\<lambda>a. ucast a) h0)
     \<lparr>currentdrive := 0, diskptr := Some (HostDir d0) # replicate 15 None, m_DMA := 0xFF00\<rparr>"

lemma mach0_on: "on_drive mach0 (HostDir d0)"
  by (simp add: on_drive_def mach0_def MAXDRIVE_def)

lemma d0_addr: "drive_addr (HostDir d0, h0) 3 1 = Some 8"
  by code_simp

lemma d0_wf: "drive_wf (HostDir d0, h0)"
  by code_simp

text \<open>
  C5. A sector goes through the floppy controller unchanged: a program that sets track and sector,
  issues a write, moves the transfer address and issues a read finds the 128 bytes of the first
  address at the second one, nothing else in memory changed, and the status is 0. This holds for
  host-directory and image drives alike.
\<close>

theorem controller_copy:
  assumes "on_drive m v" and "drive_wf (v, hostfs m)"
    and "drive_addr (v, hostfs m) (unat t) (unat s) = Some a"
    and "unat (m_DMA m) \<le> 0xFF80" and "unat (le16 lo hi) \<le> 0xFF80"
  shows "\<exists>m'. outs en ops [(11, t), (12, s), (13, 1), (15, lo), (16, hi), (13, 0)] m = Ok () m' \<and>
     m_ram m' = stored (le16 lo hi) (readmem (m_ram m) (m_DMA m) 128) (m_ram m) \<and>
     m_FDCST m' = 0 \<and> m_DMA m' = le16 lo hi"
  by (rule sector_copy [OF assms])

theorem controller_copy_witness:
  "\<exists>m'. outs en0 zops0 [(11, 3), (12, 1), (13, 1), (15, 0), (16, 1), (13, 0)] mach0 = Ok () m' \<and>
     m_ram m' = stored (le16 0 1) (readmem (m_ram mach0) 0xFF00 128) (m_ram mach0) \<and> m_FDCST m' = 0"
proof -
  have h: "hostfs mach0 = h0" and dma: "m_DMA mach0 = 0xFF00" by (simp_all add: mach0_def cpu_new_def)
  have "unat (le16 0 1) \<le> 0xFF80" by code_simp
  then show ?thesis
    using controller_copy [OF mach0_on, of 3 1 8 0 1 en0 zops0] d0_addr d0_wf unfolding h dma by auto
qed




text \<open>
  C9. In every state the machine can reach - by bus cycles, including ones that end in an error, console
  bytes, calls of the monitor and changes of the host files, in any order - there are sixteen drive
  slots, the current drive is none or one that exists, drives are in the slots A to D, H and I only,
  and each has its translation tables complete, as many well-formed directory entries as its parameter
  block says, and an ordered cache of whole sectors behind the directory.
\<close>

theorem machine_invariant:
  assumes "reachable ops bo bootsector boot m"
  shows "machine_ok m"
  by (rule reachable_ok [OF assms])

text \<open>A bus that carries an output instruction, and a machine that has selected an empty drive A with it.\<close>

definition bus0 :: "(u16 \<times> u8) bus_ops" where
  "bus0 = \<lparr>check = (\<lambda>ps _. ps = {IOREQ, WR}), busack = (\<lambda>_. False), bus_addr = fst, bus_data = snd,
           bus_put = (\<lambda>v b. (fst b, v)), bus_reset = id\<rparr>"

definition hA :: host where
  "hA = \<lparr>nodes = [(''d/A'', Directory), (''d/A/.cpm22.sys'', Reg [])], denied = (\<lambda>_. False)\<rparr>"

definition machA :: "unit machine" where
  "machA = state_of (bus_cycle (en0\<lparr>diskspath := ''d''\<rparr>) zops0 bus0 (10, 0) (cpu_new () (\<lambda>_. 0) hA))"

lemma machA_reachable: "reachable zops0 bus0 ''boot'' [] machA"
proof -
  have "machine_step zops0 bus0 ''boot'' [] (cpu_new () (\<lambda>_. 0) hA) machA"
    unfolding machA_def by (rule step_bus)
  then show ?thesis unfolding reachable_def by blast
qed

theorem machine_invariant_witness: "machine_ok machA"
  by (rule machine_invariant [OF machA_reachable])






text \<open>
  C38. The dump of a directory is an image of it: an image drive over the dumped file delivers at the
  linear place of a directory sector, behind the reserved tracks, the bytes the host-directory drive
  delivers for that sector.
\<close>

theorem dumped_directory:
  assumes "disk_ok d" and "dir_sector d t s n" and "4 * n + 3 < DirectoryEntries (dpb d)"
    and "(ReservedTracks (dpb d) * SectorsTrack (dpb d) + n + 1) * 128 \<le> 2 ^ 32"
    and "disk_dump d f = Ok () f'" and "dpb v = dpb d" and "\<not> imgfail v"
    and "host_lookup h' (dskimage.image v) = Some (Reg f')" and "128 \<le> length buf"
  shows "\<exists>b. disk_Read t s buf (d, h) = Ok 0 b \<and>
     dskimage_Read (ReservedTracks (dpb d)) (Suc n) buf (v, h') = Ok 0 (b, v)"
  by (rule dump_presents [OF assms])

definition v0 :: dskimage where
  "v0 = \<lparr>drvpath = ''i'', ostype = CPM22, dpb = pb0, stbl = [1, 2, 3, 4], selected = -1, image = ''i'', imgfail = False\<rparr>"

theorem dumped_directory_witness:
  "\<exists>f' b. disk_dump d0 [] = Ok () f' \<and> disk_Read 1 1 (replicate 128 0) (d0, h0) = Ok 0 b \<and>
     dskimage_Read 1 1 (replicate 128 0) (v0, host_put h0 ''i'' (Reg f')) = Ok 0 (b, v0)"
proof -
  obtain f' where f': "disk_dump d0 [] = Ok () f'" using disk_dump_eq [OF disk_ok_new [OF d0_eq]] by blast
  have d: "dpb d0 = pb0" by (rule disk_new_fields(1) [OF d0_eq])
  have v: "dpb v0 = dpb d0" "\<not> imgfail v0" and im: "dskimage.image v0 = ''i''" by (simp_all add: v0_def d)
  have l: "host_lookup (host_put h0 ''i'' (Reg f')) (dskimage.image v0) = Some (Reg f')"
    unfolding im by (simp add: h0_def)
  have p: "4 * 0 + 3 < DirectoryEntries (dpb d0)"
    "(ReservedTracks (dpb d0) * SectorsTrack (dpb d0) + 0 + 1) * 128 \<le> 2 ^ 32" "ReservedTracks (dpb d0) = 1"
    unfolding d by code_simp+
  have "128 \<le> length (replicate 128 (0 :: u8))" by simp
  from dumped_directory [OF disk_ok_new [OF d0_eq] d0_dir_sector p(1,2) f' v l this, of h0] f' show ?thesis
    unfolding p(3) by auto
qed

end
